(* ===== verification/NX_Prelude.thy ===== *)
theory NX_Prelude
  imports Main "HOL-Library.Word" "HOL-Library.Signed_Division"
begin

unbundle bit_operations_syntax

text \<open>
  Prelude of the development: the machine integers of the C++ code, the integer conversions and
  the truncating division it uses, big-endian byte strings, and the generic lemmas the component
  theories share.

  An unsigned C++ integer of width \<open>w\<close> is a \<open>w word\<close>. A signed \<open>int64_t\<close> is a \<open>64 word\<close> too,
  read by \<^const>\<open>sint\<close>: addition, subtraction and multiplication are the same machine operation on
  both, the casts between \<open>uint64_t\<close> and \<open>int64_t\<close> are the identity, and the two differ in the
  comparisons (\<open><s\<close>, \<open><=s\<close>) and in the division (\<open>sdivw\<close>). Signed overflow, which C++ leaves
  undefined, wraps here as it does on the two's complement machine; theorems whose claim
  depends on the absence of overflow say so in their hypotheses.
\<close>

section \<open>Machine integers\<close>

type_synonym u8 = "8 word"
type_synonym u16 = "16 word"
type_synonym u32 = "32 word"
type_synonym u64 = "64 word"
type_synonym i64 = "64 word"

abbreviation UINT32_MAX :: u32 where "UINT32_MAX \<equiv> 0xFFFFFFFF"
abbreviation INT64_MIN :: i64 where "INT64_MIN \<equiv> 0x8000000000000000"
abbreviation INT64_MAX :: i64 where "INT64_MAX \<equiv> 0x7FFFFFFFFFFFFFFF"

text \<open>\<open>static_cast\<close> between widths: truncation or zero extension.\<close>

abbreviation to_u8 :: "'a::len word \<Rightarrow> u8" where "to_u8 x \<equiv> ucast x"
abbreviation to_u16 :: "'a::len word \<Rightarrow> u16" where "to_u16 x \<equiv> ucast x"
abbreviation to_u32 :: "'a::len word \<Rightarrow> u32" where "to_u32 x \<equiv> ucast x"
abbreviation to_u64 :: "'a::len word \<Rightarrow> u64" where "to_u64 x \<equiv> ucast x"

text \<open>The values of \<open>errno\<close> the network code looks at.\<close>

abbreviation EAGAIN :: int where "EAGAIN \<equiv> 11"
abbreviation EINTR :: int where "EINTR \<equiv> 4"
abbreviation EIO :: int where "EIO \<equiv> 5"

text \<open>Signed division of C++: the quotient is truncated towards zero.\<close>

definition sdivw :: "'a::len word \<Rightarrow> 'a word \<Rightarrow> 'a word" where
  "sdivw a b = word_of_int (sint a sdiv sint b)"

text \<open>Reading results back: a value in range survives the trip through the word.\<close>

lemma sint_of_int_range:
  assumes "- (2 ^ (LENGTH('a::len) - 1)) \<le> k" "k < 2 ^ (LENGTH('a) - 1)"
  shows "sint (word_of_int k :: 'a word) = k"
  using assms by (simp add: signed_take_bit_int_eq_self sint_sbintrunc')

lemma sint64_of_int:
  assumes "- (2 ^ 63) \<le> k" "k < 2 ^ 63"
  shows "sint (word_of_int k :: 64 word) = k"
  using assms by (simp add: sint_of_int_range)

lemma sint64_eq_uint:
  fixes a :: "64 word"
  assumes "uint a < 2 ^ 63"
  shows "sint a = uint a"
  using sint64_of_int [of "uint a"] assms uint_ge_0 [of a] by (simp del: uint_ge_0)

lemma uint64_eq_sint:
  fixes a :: "64 word"
  assumes "0 \<le> sint a"
  shows "uint a = sint a"
proof -
  have "sint a < 2 ^ 63" using sint_range_size [of a] by (simp add: word_size)
  then have "uint (word_of_int (sint a) :: 64 word) = sint a"
    using assms by (simp only: uint_word_of_int) simp
  then show ?thesis by simp
qed

lemma sless_0_le:
  fixes a b :: "64 word"
  assumes "0 <s a" "b \<le> a" "b \<noteq> 0"
  shows "0 <s b"
proof -
  have "uint a = sint a" "sint a < 2 ^ 63"
    using assms(1) uint64_eq_sint [of a] sint_range_size [of a] by (simp_all add: word_sless_alt word_size)
  then have "uint b < 2 ^ 63" using assms(2) by (simp add: word_le_def)
  then have "sint b = uint b" by (rule sint64_eq_uint)
  moreover have "uint b \<noteq> 0" using assms(3) by (simp add: unsigned_eq_0_iff)
  ultimately show ?thesis using uint_ge_0 [of b] by (simp add: word_sless_alt less_le del: uint_ge_0)
qed

lemma sint64_bounds:
  fixes a :: "64 word"
  shows "- (2 ^ 63) \<le> sint a" "sint a < 2 ^ 63"
  using sint_range_size [of a] by (simp_all add: word_size)

lemma sint64_add:
  fixes a b :: "64 word"
  assumes "- (2 ^ 63) \<le> sint a + sint b" "sint a + sint b < 2 ^ 63"
  shows "sint (a + b) = sint a + sint b"
  using sint64_of_int [OF assms] by simp

lemma sint64_diff:
  fixes a b :: "64 word"
  assumes "- (2 ^ 63) \<le> sint a - sint b" "sint a - sint b < 2 ^ 63"
  shows "sint (a - b) = sint a - sint b"
  using sint64_of_int [OF assms] by simp

lemma sint64_mult:
  fixes a b :: "64 word"
  assumes "- (2 ^ 63) \<le> sint a * sint b" "sint a * sint b < 2 ^ 63"
  shows "sint (a * b) = sint a * sint b"
  using sint64_of_int [OF assms] by simp

lemma sint_sdivw_nonneg:
  fixes a b :: "64 word"
  assumes "0 \<le> sint a" "0 < sint b"
  shows "sint (sdivw a b) = sint a div sint b"
proof -
  have "sint a sdiv sint b = sint a div sint b"
    using assms by (cases "sint a = 0") (simp_all add: signed_divide_int_def)
  moreover have "0 \<le> sint a div sint b" "sint a div sint b \<le> sint a"
    using assms zdiv_mono2 [of "sint a" 1 "sint b"] by (simp_all add: pos_imp_zdiv_nonneg_iff)
  ultimately show ?thesis
    using sint64_bounds [of a] by (simp add: sdivw_def sint64_of_int)
qed

lemma sint_sdivw_pos:
  fixes a b :: "64 word"
  assumes "0 < sint b"
  shows "sint (sdivw a b) = sint a sdiv sint b" and "\<bar>sint a sdiv sint b\<bar> = \<bar>sint a\<bar> div sint b"
proof -
  have q: "0 \<le> \<bar>sint a\<bar> div sint b" using assms by (simp add: pos_imp_zdiv_nonneg_iff)
  have "\<bar>sgn (sint a * sint b)\<bar> * (\<bar>sint a\<bar> div sint b) = \<bar>sint a\<bar> div sint b"
    using assms by (cases "sint a = 0") (auto simp: abs_sgn_eq sgn_mult)
  then show abs: "\<bar>sint a sdiv sint b\<bar> = \<bar>sint a\<bar> div sint b"
    using assms q by (simp add: signed_divide_int_def abs_mult)
  have "sint a sdiv sint b < 2 ^ 63"
  proof (cases "0 \<le> sint a")
    case True
    have "\<bar>sint a\<bar> div sint b \<le> \<bar>sint a\<bar>" using assms zdiv_mono2 [of "\<bar>sint a\<bar>" 1 "sint b"] by simp
    then show ?thesis using abs True sint64_bounds(2) [of a] by linarith
  next
    case False
    then have "sint a sdiv sint b \<le> 0" using assms q by (simp add: signed_divide_int_def sgn_mult)
    then show ?thesis by simp
  qed
  moreover have "- (2 ^ 63) \<le> sint a sdiv sint b"
  proof -
    have "\<bar>sint a\<bar> div sint b \<le> \<bar>sint a\<bar>" using assms zdiv_mono2 [of "\<bar>sint a\<bar>" 1 "sint b"] by simp
    moreover have "\<bar>sint a\<bar> \<le> 2 ^ 63" using sint64_bounds [of a] by linarith
    ultimately show ?thesis using abs by linarith
  qed
  ultimately show "sint (sdivw a b) = sint a sdiv sint b" by (simp add: sdivw_def sint64_of_int)
qed

text \<open>A loop that adds up signed values: the sum is exact when the magnitudes together fit.\<close>

lemma sint_sum_loop:
  fixes f :: "'a \<Rightarrow> 64 word"
  assumes "\<bar>sint a\<bar> + (\<Sum>x\<leftarrow>xs. \<bar>sint (f x)\<bar>) < 2 ^ 63"
  shows "sint (foldl (\<lambda>s x. s + f x) a xs) = sint a + (\<Sum>x\<leftarrow>xs. sint (f x))"
  using assms
proof (induction xs arbitrary: a)
  case (Cons x xs)
  have nn: "0 \<le> (\<Sum>x\<leftarrow>xs. \<bar>sint (f x)\<bar>)" by (rule sum_list_nonneg) auto
  have "\<bar>sint a + sint (f x)\<bar> \<le> \<bar>sint a\<bar> + \<bar>sint (f x)\<bar>" by (rule abs_triangle_ineq)
  moreover have "\<bar>sint a\<bar> + \<bar>sint (f x)\<bar> + (\<Sum>x\<leftarrow>xs. \<bar>sint (f x)\<bar>) < 2 ^ 63" using Cons.prems by simp
  ultimately have b: "\<bar>sint a + sint (f x)\<bar> + (\<Sum>x\<leftarrow>xs. \<bar>sint (f x)\<bar>) < 2 ^ 63" by linarith
  then have "sint (a + f x) = sint a + sint (f x)" using nn by (intro sint64_add) linarith+
  then show ?case using Cons.IH [of "a + f x"] b by simp
qed simp

text \<open>
  The weighted average both the order manager and the risk manager compute,
  \<open>(a * f + p * q) / (f + q)\<close> with truncation, lies between the bounds of its two prices.
\<close>

lemma weighted_average_bounds:
  fixes a p :: i64 and f q :: u64
  assumes lo: "0 \<le> lo" "lo \<le> sint p" "f \<noteq> 0 \<longrightarrow> lo \<le> sint a"
    and hi: "1 \<le> hi" "sint p \<le> hi" "f \<noteq> 0 \<longrightarrow> sint a \<le> hi"
    and q: "q \<noteq> 0" and small: "hi * (uint f + uint q) < 2 ^ 63"
  shows "lo \<le> sint (sdivw (a * f + p * q) (f + q)) \<and> sint (sdivw (a * f + p * q) (f + q)) \<le> hi \<and>
    f + q \<noteq> 0"
proof -
  let ?F = "uint f" and ?Q = "uint q"
  let ?C = "sint a * ?F + sint p * ?Q"
  have "uint q \<noteq> 0" using q by (simp add: unsigned_eq_0_iff)
  then have Q: "0 < ?Q" using uint_ge_0 [of q] by (simp add: less_le del: uint_ge_0)
  have "?F + ?Q \<le> hi * (?F + ?Q)" using hi(1) mult_right_mono [of 1 hi "?F + ?Q"] by simp
  then have S: "?F + ?Q < 2 ^ 63" using small by (rule le_less_trans)
  have pos: "0 < ?F + ?Q" using Q by (simp add: add_nonneg_pos)
  have w: "f + q = word_of_int (?F + ?Q)" by simp
  have sum: "uint (f + q) = ?F + ?Q"
    unfolding w uint_word_of_int using S pos by simp
  have den: "sint (f + q) = ?F + ?Q" using S sum by (simp add: sint64_eq_uint)
  have A: "lo * ?F \<le> sint a * ?F \<and> sint a * ?F \<le> hi * ?F"
    using lo(3) hi(3) by (cases "f = 0") (auto intro: mult_right_mono)
  have P: "lo * ?Q \<le> sint p * ?Q \<and> sint p * ?Q \<le> hi * ?Q"
    using lo(2) hi(2) by (auto intro: mult_right_mono)
  have C: "lo * (?F + ?Q) \<le> ?C" "?C \<le> hi * (?F + ?Q)"
    using A P by (simp_all add: distrib_left)
  have C63: "?C < 2 ^ 63" using C(2) small by linarith
  have "0 \<le> lo * (?F + ?Q)" using lo(1) by simp
  then have C0: "0 \<le> ?C" using C by linarith
  have cost: "sint (a * f + p * q) = ?C" using sint64_of_int [of ?C] C0 C63 by simp
  have avg: "sint (sdivw (a * f + p * q) (f + q)) = ?C div (?F + ?Q)"
    using sint_sdivw_nonneg [of "a * f + p * q" "f + q"] by (simp only: cost den C0 pos)
  have "lo \<le> ?C div (?F + ?Q)" "?C div (?F + ?Q) \<le> hi"
    using C pos zdiv_mono1 [OF C(1) pos] zdiv_mono1 [OF C(2) pos] by simp_all
  moreover have "f + q \<noteq> 0" using sum pos by auto
  ultimately show ?thesis using avg by simp
qed

section \<open>Collections of facts\<close>

named_theorems wf_intros \<open>preservation of well-formedness invariants\<close>
named_theorems op_defs \<open>definitions of the operations of a component\<close>

section \<open>Generic lemmas\<close>

lemma unat64_less: "unat (w :: 64 word) < 2 ^ 64"
  using unsigned_less [of w] by simp

lemma unat64_max: "unat (-1 :: 64 word) = 2 ^ 64 - 1"
  by (simp add: unsigned_minus_1_eq_mask mask_eq_exp_minus_1)

lemma unat_add_nowrap:
  fixes a b :: "'a::len word"
  assumes "unat a + unat b < 2 ^ LENGTH('a)"
  shows "unat (a + b) = unat a + unat b"
  using assms by (simp add: unat_word_ariths)

lemma word_less_plus_one:
  fixes x :: "'a::len word"
  assumes "x \<noteq> -1"
  shows "x < x + 1"
proof -
  have "1 + x \<noteq> 0" using assms by (metis add.commute add_eq_0_iff)
  then show ?thesis by (simp add: word_less_nat_alt unatSuc add.commute [of x])
qed

lemma unat_diff_le:
  fixes a b :: "'a::len word"
  assumes "b \<le> a"
  shows "unat (a - b) = unat a - unat b"
  using assms by (simp add: unat_sub_if' word_le_nat_alt)

lemma and_mask_mod_nat:
  fixes n :: nat
  shows "n AND (2 ^ k - 1) = n mod 2 ^ k"
  by (simp add: take_bit_eq_mod [symmetric] take_bit_eq_mask mask_eq_exp_minus_1)

text \<open>A power-of-two capacity turns masking into \<open>mod\<close>.\<close>

definition is_pow2 :: "nat \<Rightarrow> bool" where
  "is_pow2 n \<longleftrightarrow> (\<exists>k. n = 2 ^ k)"

lemma is_pow2_pos [dest]: "is_pow2 n \<Longrightarrow> 0 < n"
  by (auto simp: is_pow2_def)

lemma is_pow2_power [simp, intro]: "is_pow2 (2 ^ k)"
  by (auto simp: is_pow2_def)

lemma is_pow2_double [intro]: "is_pow2 n \<Longrightarrow> is_pow2 (n * 2)"
proof -
  assume "is_pow2 n"
  then obtain k where "n = 2 ^ k" by (auto simp: is_pow2_def)
  then have "n * 2 = 2 ^ Suc k" by simp
  then show ?thesis unfolding is_pow2_def by blast
qed

lemma and_pow2_mod: "is_pow2 c \<Longrightarrow> n AND (c - 1) = n mod c"
  using and_mask_mod_nat [of n] by (auto simp: is_pow2_def)

lemma mod_add_inj:
  fixes s d e c :: nat
  assumes "(s + d) mod c = (s + e) mod c" "d < c" "e < c"
  shows "d = e"
proof -
  have aux: "x = y" if "(s + x) mod c = (s + y) mod c" "x \<le> y" "y < c" for x y
  proof -
    have "c dvd (s + y) - (s + x)"
      using that by (subst mod_eq_dvd_iff_nat [symmetric]) auto
    then have "c dvd y - x" by simp
    with that show "x = y" by (metis dvd_imp_le diff_is_0_eq le_antisym less_imp_diff_less not_le zero_less_diff)
  qed
  show ?thesis
    using aux [of d e] aux [of e d] assms by (metis nat_le_linear)
qed

lemma mod_reach:
  fixes s i c :: nat
  assumes "s < c" "i < c"
  shows "\<exists>d<c. i = (s + d) mod c"
proof (cases "s \<le> i")
  case True
  with assms show ?thesis by (intro exI [of _ "i - s"]) auto
next
  case False
  with assms have "(s + (i + c - s)) mod c = i" by simp
  with False assms show ?thesis by (intro exI [of _ "i + c - s"]) auto
qed

text \<open>\<open>__builtin_ctz\<close>: the number of trailing zero bits.\<close>

fun ctz :: "nat \<Rightarrow> nat" where
  "ctz n = (if n = 0 \<or> odd n then 0 else Suc (ctz (n div 2)))"

declare ctz.simps [simp del]

text \<open>A C array of \<open>n\<close> cells is a function on indices; its prefix as a list.\<close>

definition cells :: "(nat \<Rightarrow> 'a) \<Rightarrow> nat \<Rightarrow> 'a list" where
  "cells f n = map f [0..<n]"

lemma length_cells [simp]: "length (cells f n) = n"
  by (simp add: cells_def)

lemma nth_cells [simp]: "i < n \<Longrightarrow> cells f n ! i = f i"
  by (simp add: cells_def)

text \<open>Sums over a list of keys in which one key changes its value.\<close>

lemma sum_list_update_ring:
  fixes xs :: "'b::comm_ring_1 list"
  assumes "i < length xs"
  shows "sum_list (xs[i := x]) = sum_list xs - xs ! i + x"
  using assms by (induction xs arbitrary: i) (auto simp: algebra_simps split: nat.splits)

lemma sum_list_update_at:
  fixes f :: "'a \<Rightarrow> 'b::comm_ring_1"
  assumes "distinct xs" "a \<in> set xs"
  shows "sum_list (map (f(a := v)) xs) = sum_list (map f xs) - f a + v"
  using assms
proof (induction xs)
  case Nil then show ?case by simp
next
  case (Cons x xs)
  then show ?case
    by (cases "x = a") (auto simp: algebra_simps fun_upd_same fun_upd_other simp del: fun_upd_apply)
qed

text \<open>Positions less than a lap apart have different cells.\<close>

lemma mod_neq:
  fixes a b c :: nat
  assumes "a < b" "b < a + c"
  shows "a mod c \<noteq> b mod c"
proof
  assume eq: "a mod c = b mod c"
  have "b - a < c" using assms by simp
  then have "0 = b - a" using mod_add_inj [of a 0 c "b - a"] assms eq by simp
  then show False using assms by simp
qed

end
