(* ===== verification/NX_Types.thy ===== *)
theory NX_Types
  imports NX_Prelude
begin

text \<open>
  The data structures every part of the trader shares: \<^verbatim>\<open>core/types.h\<close> (ticks, orders and the pooled
  order-book slot), \<^verbatim>\<open>core/market_event.h\<close> (the protocol-independent market event), the reports
  and quotes of \<^verbatim>\<open>oms/i_order_codec.h\<close>, and the strategy signal of \<^verbatim>\<open>strategy/base/signal.h\<close>.
  Prices are fixed-point integers (cents).
\<close>

section \<open>core/types.h\<close>

datatype order_side = BUY | SELL | NONE

datatype order_type = MARKET | LIMIT | ICEBERG

record tick =
  tick_timestamp :: u64
  tick_seq_id :: u64
  tick_symbol_id :: u64
  tick_last_price :: i64
  tick_volume :: u64
  tick_bid_price :: i64
  tick_ask_price :: i64
  tick_bid_volume :: u64
  tick_ask_volume :: u64

definition empty_tick :: tick where
  "empty_tick = \<lparr>tick_timestamp = 0, tick_seq_id = 0, tick_symbol_id = 0, tick_last_price = 0,
     tick_volume = 0, tick_bid_price = 0, tick_ask_price = 0, tick_bid_volume = 0,
     tick_ask_volume = 0\<rparr>"

record order =
  order_id :: u64
  strategy_id :: u64
  symbol_id :: u64
  side :: order_side
  otype :: order_type
  price :: i64
  quantity :: u64
  timestamp :: u64

text \<open>\<open>Order order{}\<close>: every member zero, and the enumerators of value zero.\<close>

definition empty_order :: order where
  "empty_order = \<lparr>order_id = 0, strategy_id = 0, symbol_id = 0, side = BUY, otype = MARKET,
     price = 0, quantity = 0, timestamp = 0\<rparr>"

text \<open>
  The pooled node of the order book. \<open>prev_idx\<close> and \<open>next_idx\<close> chain the orders of one price
  level, \<open>UINT32_MAX\<close> ends the chain. The \<open>pool_next_free\<close> members of all slots together are the
  link array of the pool's free list, and are kept there.
\<close>

record order_slot =
  s_order_ref :: u64
  s_side :: order_side
  s_price :: i64
  s_shares :: u64
  s_remaining :: u64
  s_sequence :: u64
  prev_idx :: u32
  next_idx :: u32

definition empty_slot :: order_slot where
  "empty_slot = \<lparr>s_order_ref = 0, s_side = NONE, s_price = 0, s_shares = 0, s_remaining = 0,
     s_sequence = 0, prev_idx = UINT32_MAX, next_idx = UINT32_MAX\<rparr>"

section \<open>core/market\_event.h\<close>

datatype event_type = EV_ADD | EV_DELETE | EV_CANCEL | EV_REPLACE | EV_TRADE | EV_EXECUTE

text \<open>
  The event's two union members are two fields here. The code reads the member its \<open>type\<close>
  selects and no other, so the overlap of their storage is never observed.
\<close>

record trade_body =
  t_side :: order_side
  t_price :: i64
  t_volume :: u64
  t_order_ref :: u64

record order_body =
  o_side :: order_side
  o_price :: i64
  o_shares :: u64
  o_order_ref :: u64
  o_new_order_ref :: u64

record market_event =
  ev_type :: event_type
  ev_seq_id :: u64
  ev_locate :: u64
  ev_timestamp :: u64
  ev_trade :: trade_body
  ev_order :: order_body

text \<open>\<open>MarketEvent ev{}\<close>: all zero, so the type is \<open>ADD\<close> and both sides are \<open>BUY\<close>.\<close>

definition empty_event :: market_event where
  "empty_event = \<lparr>ev_type = EV_ADD, ev_seq_id = 0, ev_locate = 0, ev_timestamp = 0,
     ev_trade = \<lparr>t_side = BUY, t_price = 0, t_volume = 0, t_order_ref = 0\<rparr>,
     ev_order = \<lparr>o_side = BUY, o_price = 0, o_shares = 0, o_order_ref = 0,
                 o_new_order_ref = 0\<rparr>\<rparr>"

section \<open>oms/i\_order\_codec.h: reports and quotes\<close>

record fill =
  f_type :: u8
  f_order_id :: u64
  f_exchange_ref :: u64
  f_filled_qty :: u64
  f_fill_price :: i64

definition empty_fill :: fill where
  "empty_fill = \<lparr>f_type = 0x46, f_order_id = 0, f_exchange_ref = 0, f_filled_qty = 0,
     f_fill_price = 0\<rparr>"

record book_quote =
  q_symbol_id :: u64
  q_bid :: i64
  q_bid_vol :: u64
  q_ask :: i64
  q_ask_vol :: u64

definition empty_quote :: book_quote where
  "empty_quote = \<lparr>q_symbol_id = 0, q_bid = 0, q_bid_vol = 0, q_ask = 0, q_ask_vol = 0\<rparr>"

section \<open>strategy/base/signal.h\<close>

record signal =
  sig_side :: order_side
  sig_locate :: u64
  sig_price :: i64
  sig_timestamp :: u64
  sig_strength :: i64

definition empty_signal :: signal where
  "empty_signal = \<lparr>sig_side = NONE, sig_locate = 0, sig_price = 0, sig_timestamp = 0,
     sig_strength = 0\<rparr>"

abbreviation kStrengthScale :: i64 where "kStrengthScale \<equiv> 10000"

instantiation order_side :: linorder
begin

fun side_rank :: "order_side \<Rightarrow> nat" where
  "side_rank BUY = 0" | "side_rank SELL = 1" | "side_rank NONE = 2"

definition less_eq_order_side :: "order_side \<Rightarrow> order_side \<Rightarrow> bool" where
  "less_eq_order_side a b \<longleftrightarrow> side_rank a \<le> side_rank b"

definition less_order_side :: "order_side \<Rightarrow> order_side \<Rightarrow> bool" where
  "less_order_side a b \<longleftrightarrow> side_rank a < side_rank b"

instance
proof
  fix x y z :: order_side
  show "x < y \<longleftrightarrow> x \<le> y \<and> \<not> y \<le> x"
    by (auto simp: less_eq_order_side_def less_order_side_def)
  show "x \<le> x" by (simp add: less_eq_order_side_def)
  show "x \<le> y \<Longrightarrow> y \<le> z \<Longrightarrow> x \<le> z" by (simp add: less_eq_order_side_def)
  show "x \<le> y \<Longrightarrow> y \<le> x \<Longrightarrow> x = y"
    by (cases x; cases y) (auto simp: less_eq_order_side_def)
  show "x \<le> y \<or> y \<le> x" by (auto simp: less_eq_order_side_def)
qed

end

end
