(* ===== verification/Order_Manager.thy ===== *)
theory Order_Manager
  imports NX_Types
begin

text \<open>
  The order manager of \<^verbatim>\<open>oms/order_manager.h\<close> with the states of \<^verbatim>\<open>oms/order.h\<close>: the life cycle of
  the trader's own orders, driven by submissions and by the exchange's reports. The three hash
  maps are maps; the hash sets of the two indices are sets. The static counter behind \<open>now()\<close>
  is the field \<open>clock\<close>.
\<close>

section \<open>State\<close>

datatype order_status =
  PENDING | SUBMITTED | PARTIAL_FILL | PENDING_CANCEL | FILLED | CANCELLED | REJECTED | NOT_FOUND

record entry =
  e_order :: order
  status :: order_status
  exchange_ref :: u64
  filled :: u64
  remaining :: u64
  avg_fill_price :: i64
  submit_time :: u64
  update_time :: u64

record oms =
  orders :: "u64 \<rightharpoonup> entry"
  sym_orders :: "u64 \<Rightarrow> u64 set"
  strat_orders :: "u64 \<Rightarrow> u64 set"
  next_id :: u64
  clock :: u64

definition empty_oms :: oms where
  "empty_oms = \<lparr>orders = Map.empty, sym_orders = (\<lambda>_. {}), strat_orders = (\<lambda>_. {}),
     next_id = 1, clock = 0\<rparr>"

section \<open>Operations\<close>

text \<open>\<open>new_order\<close> writes the id back to the caller's order, so it is returned.\<close>

definition new_order :: "oms \<Rightarrow> order \<Rightarrow> oms \<times> order" where
  "new_order m ord =
     (let o' = ord\<lparr>order_id := next_id m\<rparr>;
          e = \<lparr>e_order = o', status = PENDING, exchange_ref = 0, filled = 0,
               remaining = quantity o', avg_fill_price = 0,
               submit_time = timestamp o', update_time = timestamp o'\<rparr>
      in (m\<lparr>next_id := next_id m + 1,
            orders := (orders m)(order_id o' \<mapsto> e),
            sym_orders := (sym_orders m)
              (symbol_id o' := insert (order_id o') (sym_orders m (symbol_id o'))),
            strat_orders := (strat_orders m)
              (strategy_id o' := insert (order_id o') (strat_orders m (strategy_id o')))\<rparr>,
          o'))"

text \<open>\<open>now()\<close> increments the counter and returns it.\<close>

definition tick_clock :: "oms \<Rightarrow> oms" where
  "tick_clock m = m\<lparr>clock := clock m + 1\<rparr>"

definition put_entry :: "oms \<Rightarrow> u64 \<Rightarrow> entry \<Rightarrow> oms" where
  "put_entry m i e = m\<lparr>orders := (orders m)(i \<mapsto> e)\<rparr>"

text \<open>The two index erasures a terminal status performs.\<close>

definition unindex :: "oms \<Rightarrow> u64 \<Rightarrow> order \<Rightarrow> oms" where
  "unindex m i ord = m\<lparr>
     sym_orders := (sym_orders m)(symbol_id ord := sym_orders m (symbol_id ord) - {i}),
     strat_orders := (strat_orders m)(strategy_id ord := strat_orders m (strategy_id ord) - {i})\<rparr>"

definition on_accept :: "oms \<Rightarrow> u64 \<Rightarrow> u64 \<Rightarrow> oms" where
  "on_accept m i ref =
     (case orders m i of None \<Rightarrow> m
      | Some e \<Rightarrow>
          if status e = PENDING then
            (let m' = tick_clock m in
             put_entry m' i (e\<lparr>status := SUBMITTED, exchange_ref := ref,
                               update_time := clock m'\<rparr>))
          else m)"

definition on_fill :: "oms \<Rightarrow> u64 \<Rightarrow> u64 \<Rightarrow> i64 \<Rightarrow> oms" where
  "on_fill m i filled_qty fill_price =
     (case orders m i of None \<Rightarrow> m
      | Some e \<Rightarrow>
          if status e \<noteq> SUBMITTED \<and> status e \<noteq> PARTIAL_FILL then m
          else
            (let q = quantity (e_order e);
                 over = filled e + filled_qty > q;
                 qty = (if over then q - filled e else filled_qty);
                 new_filled = (if over then q else filled e + filled_qty);
                 total_cost = avg_fill_price e * filled e + fill_price * qty;
                 m' = tick_clock m;
                 e' = e\<lparr>filled := new_filled, remaining := q - new_filled,
                        avg_fill_price := (if new_filled \<noteq> 0 then sdivw total_cost new_filled
                                           else 0),
                        update_time := clock m'\<rparr>
             in if new_filled \<ge> q
                then unindex (put_entry m' i (e'\<lparr>status := FILLED\<rparr>)) i (e_order e)
                else put_entry m' i (e'\<lparr>status := PARTIAL_FILL\<rparr>)))"

definition request_cancel :: "oms \<Rightarrow> u64 \<Rightarrow> oms \<times> bool" where
  "request_cancel m i =
     (case orders m i of None \<Rightarrow> (m, False)
      | Some e \<Rightarrow>
          if status e \<noteq> SUBMITTED \<and> status e \<noteq> PARTIAL_FILL then (m, False)
          else
            (let m' = tick_clock m in
             (put_entry m' i (e\<lparr>status := PENDING_CANCEL, update_time := clock m'\<rparr>), True)))"

definition on_cancel :: "oms \<Rightarrow> u64 \<Rightarrow> oms \<times> bool" where
  "on_cancel m i =
     (case orders m i of None \<Rightarrow> (m, False)
      | Some e \<Rightarrow>
          if status e \<noteq> PENDING_CANCEL then (m, False)
          else
            (let m' = tick_clock m in
             (unindex (put_entry m' i (e\<lparr>status := CANCELLED, update_time := clock m'\<rparr>))
                i (e_order e), True)))"

definition on_reject :: "oms \<Rightarrow> u64 \<Rightarrow> oms" where
  "on_reject m i =
     (case orders m i of None \<Rightarrow> m
      | Some e \<Rightarrow>
          if status e \<noteq> PENDING then m
          else
            (let m' = tick_clock m in
             unindex (put_entry m' i (e\<lparr>status := REJECTED, update_time := clock m'\<rparr>))
               i (e_order e)))"

section \<open>Queries\<close>

definition order_status_of :: "oms \<Rightarrow> u64 \<Rightarrow> order_status" where
  "order_status_of m i = (case orders m i of None \<Rightarrow> NOT_FOUND | Some e \<Rightarrow> status e)"

definition order_of :: "oms \<Rightarrow> u64 \<Rightarrow> order option" where
  "order_of m i = map_option e_order (orders m i)"

definition entry_of :: "oms \<Rightarrow> u64 \<Rightarrow> entry option" where
  "entry_of m i = orders m i"

definition open_orders :: "oms \<Rightarrow> u64 \<Rightarrow> u64 set" where
  "open_orders m sb = sym_orders m sb"

definition open_orders_by_strategy :: "oms \<Rightarrow> u64 \<Rightarrow> u64 set" where
  "open_orders_by_strategy m strat = strat_orders m strat"

definition order_count :: "oms \<Rightarrow> nat" where
  "order_count m = card (dom (orders m))"

definition count_by_status :: "oms \<Rightarrow> order_status \<Rightarrow> nat" where
  "count_by_status m st = card {i. \<exists>e. orders m i = Some e \<and> status e = st}"

section \<open>Runs\<close>

text \<open>
  The calls the execution engine makes, as events, and a run of them. \<open>terminal\<close> are the
  statuses the code's comments call final.
\<close>

datatype oms_event =
    New order
  | Accept u64 u64
  | Fill u64 u64 i64
  | RequestCancel u64
  | CancelReport u64
  | Reject u64

fun oms_step :: "oms \<Rightarrow> oms_event \<Rightarrow> oms" where
  "oms_step m (New ord) = fst (new_order m ord)"
| "oms_step m (Accept i ref) = on_accept m i ref"
| "oms_step m (Fill i q px) = on_fill m i q px"
| "oms_step m (RequestCancel i) = fst (request_cancel m i)"
| "oms_step m (CancelReport i) = fst (on_cancel m i)"
| "oms_step m (Reject i) = on_reject m i"

definition oms_run :: "oms \<Rightarrow> oms_event list \<Rightarrow> oms" where
  "oms_run = foldl oms_step"

fun terminal :: "order_status \<Rightarrow> bool" where
  "terminal FILLED = True"
| "terminal CANCELLED = True"
| "terminal REJECTED = True"
| "terminal _ = False"

lemma oms_run_Nil [simp]: "oms_run m [] = m"
  by (simp add: oms_run_def)

lemma oms_run_Cons [simp]: "oms_run m (e # es) = oms_run (oms_step m e) es"
  by (simp add: oms_run_def)

lemma oms_run_append: "oms_run m (xs @ ys) = oms_run (oms_run m xs) ys"
  by (simp add: oms_run_def)

section \<open>The life-cycle diagram\<close>

text \<open>
  The abstract state machine of the class comment: one rule per arrow of the diagram. The
  operations refine it: each of them leaves an order's status alone or takes one arrow.
\<close>

inductive life_step :: "order_status \<Rightarrow> order_status \<Rightarrow> bool" where
  accepted: "life_step PENDING SUBMITTED"
| rejected: "life_step PENDING REJECTED"
| part_filled: "life_step SUBMITTED PARTIAL_FILL"
| all_filled: "life_step SUBMITTED FILLED"
| more_filled: "life_step PARTIAL_FILL PARTIAL_FILL"
| rest_filled: "life_step PARTIAL_FILL FILLED"
| cancel_asked: "life_step SUBMITTED PENDING_CANCEL"
| cancel_rest: "life_step PARTIAL_FILL PENDING_CANCEL"
| cancelled: "life_step PENDING_CANCEL CANCELLED"

inductive_simps life_step_from:
  "life_step PENDING t" "life_step SUBMITTED t" "life_step PARTIAL_FILL t"
  "life_step PENDING_CANCEL t" "life_step FILLED t" "life_step CANCELLED t"
  "life_step REJECTED t"

lemma life_step_not_terminal: "life_step s t \<Longrightarrow> \<not> terminal s"
  by (auto elim: life_step.cases)

lemmas oms_op_defs = new_order_def on_accept_def on_fill_def request_cancel_def on_cancel_def
  on_reject_def put_entry_def unindex_def tick_clock_def Let_def

lemma oms_step_entry:
  assumes "orders m i = Some e" "i \<noteq> next_id m"
  shows "\<exists>e'. orders (oms_step m ev) i = Some e' \<and> e_order e' = e_order e \<and>
              (status e' = status e \<or> life_step (status e) (status e'))"
proof (cases ev)
  case (Fill j q px)
  with assms show ?thesis
    by (cases "status e") (auto simp: oms_op_defs life_step_from split: option.splits)
qed (use assms in \<open>auto simp: oms_op_defs life_step_from split: option.splits\<close>)

text \<open>No operation but \<open>new_order\<close> changes the tickets.\<close>

lemma order_of_ops [simp]:
  "order_of (on_accept m i ref) j = order_of m j" "order_of (on_fill m i q px) j = order_of m j"
  "order_of (on_reject m i) j = order_of m j" "order_of (fst (request_cancel m i)) j = order_of m j"
  "order_of (fst (on_cancel m i)) j = order_of m j"
proof -
  show "order_of (on_fill m i q px) j = order_of m j"
    by (cases "orders m i") (auto simp: order_of_def on_fill_def Let_def put_entry_def unindex_def tick_clock_def)
qed (auto simp: order_of_def on_accept_def on_reject_def request_cancel_def on_cancel_def
    put_entry_def unindex_def tick_clock_def Let_def split: option.splits)

section \<open>Invariant\<close>

definition entry_ok :: "u64 \<Rightarrow> entry \<Rightarrow> bool" where
  "entry_ok i e \<longleftrightarrow>
     order_id (e_order e) = i \<and> status e \<noteq> NOT_FOUND \<and>
     filled e \<le> quantity (e_order e) \<and> remaining e = quantity (e_order e) - filled e \<and>
     (status e \<in> {PENDING, SUBMITTED, REJECTED} \<longrightarrow> filled e = 0) \<and>
     (status e = PARTIAL_FILL \<longrightarrow> filled e < quantity (e_order e)) \<and>
     (status e = FILLED \<longrightarrow> filled e = quantity (e_order e))"

definition live_with :: "oms \<Rightarrow> (order \<Rightarrow> u64) \<Rightarrow> u64 \<Rightarrow> u64 set" where
  "live_with m key k =
     {i. \<exists>e. orders m i = Some e \<and> \<not> terminal (status e) \<and> key (e_order e) = k}"

definition oms_inv :: "oms \<Rightarrow> bool" where
  "oms_inv m \<longleftrightarrow>
     (\<forall>i e. orders m i = Some e \<longrightarrow> entry_ok i e \<and> i < next_id m) \<and>
     (\<forall>k. sym_orders m k = live_with m symbol_id k) \<and>
     (\<forall>k. strat_orders m k = live_with m strategy_id k)"

lemma oms_inv_empty [wf_intros]: "oms_inv empty_oms"
  by (simp add: oms_inv_def empty_oms_def live_with_def)

text \<open>
  All six operations change one entry and keep the indices equal to the live orders. The two
  shapes: an entry replaced by one with the same key and liveness, and one made terminal.
\<close>

lemma live_with_put:
  assumes "orders m i = Some e" "key (e_order e') = key (e_order e)"
    "terminal (status e') = terminal (status e)"
  shows "live_with (put_entry m i e') key k = live_with m key k"
  using assms by (auto simp: live_with_def put_entry_def)

lemma live_with_put_terminal:
  assumes "orders m i = Some e" "terminal (status e')"
  shows "live_with (put_entry m i e') key k = live_with m key k - {i}"
  using assms by (auto simp: live_with_def put_entry_def)

lemma oms_inv_put:
  assumes "oms_inv m" "orders m i = Some e" "entry_ok i e'" "e_order e' = e_order e"
    "terminal (status e') = terminal (status e)"
  shows "oms_inv (put_entry (tick_clock m) i e')"
proof -
  let ?m = "tick_clock m"
  have "oms_inv ?m" using assms(1) by (simp add: oms_inv_def tick_clock_def live_with_def)
  moreover have "orders ?m i = Some e" using assms(2) by (simp add: tick_clock_def)
  ultimately show ?thesis
    using assms(3-5) live_with_put [of ?m i e symbol_id e'] live_with_put [of ?m i e strategy_id e']
    by (auto simp: oms_inv_def put_entry_def)
qed

lemma oms_inv_put_terminal:
  assumes "oms_inv m" "orders m i = Some e" "entry_ok i e'" "terminal (status e')"
  shows "oms_inv (unindex (put_entry (tick_clock m) i e') i (e_order e))"
proof -
  let ?m = "tick_clock m" and ?n = "unindex (put_entry (tick_clock m) i e') i (e_order e)"
  have inv: "oms_inv ?m" using assms(1) by (simp add: oms_inv_def tick_clock_def live_with_def)
  have e: "orders ?m i = Some e" using assms(2) by (simp add: tick_clock_def)
  have same: "live_with (unindex (put_entry ?m i e') i (e_order e)) key k = live_with ?m key k - {i}"
    for key k
    using live_with_put_terminal [OF e assms(4)] by (simp add: live_with_def unindex_def)
  have idle: "i \<notin> live_with ?m key k" if "key (e_order e) \<noteq> k" for key k
    using e that by (simp add: live_with_def)
  have "sym_orders (unindex (put_entry ?m i e') i (e_order e)) k = live_with ?m symbol_id k - {i}" for k
    using inv idle [of symbol_id k] by (auto simp: oms_inv_def unindex_def put_entry_def)
  moreover have "strat_orders (unindex (put_entry ?m i e') i (e_order e)) k
      = live_with ?m strategy_id k - {i}" for k
    using inv idle [of strategy_id k] by (auto simp: oms_inv_def unindex_def put_entry_def)
  ultimately have "\<forall>k. sym_orders ?n k = live_with ?n symbol_id k"
    and "\<forall>k. strat_orders ?n k = live_with ?n strategy_id k"
    by (simp_all add: same)
  moreover have "\<forall>j f. orders ?n j = Some f \<longrightarrow> entry_ok j f \<and> j < next_id ?n"
    using inv e assms(3) by (auto simp: oms_inv_def unindex_def put_entry_def)
  ultimately show ?thesis unfolding oms_inv_def by blast
qed

lemma oms_inv_new:
  assumes "oms_inv m" "next_id m \<noteq> -1"
  shows "oms_inv (fst (new_order m ord))"
proof -
  have fresh: "orders m (next_id m) = None"
    using assms(1) by (cases "orders m (next_id m)") (auto simp: oms_inv_def)
  have up: "next_id m < next_id m + 1"
    using assms(2) by (rule word_less_plus_one)
  let ?n = "fst (new_order m ord)"
  have live: "live_with ?n key k =
      (if key (ord\<lparr>order_id := next_id m\<rparr>) = k then insert (next_id m) (live_with m key k)
       else live_with m key k)" for key k
    using fresh by (auto simp: live_with_def new_order_def Let_def)
  have "sym_orders ?n k = live_with ?n symbol_id k" for k
    using assms(1) by (simp add: live) (simp add: oms_inv_def new_order_def Let_def)
  moreover have "strat_orders ?n k = live_with ?n strategy_id k" for k
    using assms(1) by (simp add: live) (simp add: oms_inv_def new_order_def Let_def)
  moreover have "entry_ok i e \<and> i < next_id ?n" if "orders ?n i = Some e" for i e
  proof (cases "i = next_id m")
    case True
    with that up show ?thesis by (auto simp: new_order_def Let_def entry_ok_def)
  next
    case False
    with that have "orders m i = Some e" by (simp add: new_order_def Let_def)
    with assms(1) up show ?thesis
      by (auto simp: oms_inv_def new_order_def Let_def intro: less_trans)
  qed
  ultimately show ?thesis unfolding oms_inv_def by blast
qed


lemma entry_ok_status:
  assumes "entry_ok i e" "t \<in> {SUBMITTED, REJECTED, PENDING_CANCEL, CANCELLED}"
    "t \<in> {SUBMITTED, REJECTED} \<longrightarrow> filled e = 0"
  shows "entry_ok i (e\<lparr>status := t, exchange_ref := r, update_time := u\<rparr>)"
    and "entry_ok i (e\<lparr>status := t, update_time := u\<rparr>)"
  using assms by (auto simp: entry_ok_def)

lemma oms_inv_fill:
  assumes "oms_inv m"
  shows "oms_inv (on_fill m i q px)"
proof (cases "orders m i")
  case None
  with assms show ?thesis by (simp add: on_fill_def)
next
  case (Some e)
  with assms have ok: "entry_ok i e" by (auto simp: oms_inv_def)
  let ?nf = "if filled e + q > quantity (e_order e) then quantity (e_order e) else filled e + q"
  let ?e = "\<lambda>st av u. e\<lparr>filled := ?nf, remaining := quantity (e_order e) - ?nf,
              avg_fill_price := av, update_time := u, status := st\<rparr>"
  have full: "entry_ok i (?e FILLED av u)" if "?nf \<ge> quantity (e_order e)" for av u
    using ok that by (auto simp: entry_ok_def split: if_splits)
  have part: "entry_ok i (?e PARTIAL_FILL av u)" if "\<not> ?nf \<ge> quantity (e_order e)" for av u
    using ok that by (auto simp: entry_ok_def not_le split: if_splits)
  show ?thesis
    using assms Some full part
    by (auto simp: on_fill_def Let_def word_neq_0_conv intro!: oms_inv_put oms_inv_put_terminal)
qed

lemma oms_inv_step [wf_intros]:
  assumes "oms_inv m" "\<And>ord. ev = New ord \<Longrightarrow> next_id m \<noteq> -1"
  shows "oms_inv (oms_step m ev)"
proof (cases ev)
  case (New ord)
  with assms oms_inv_new show ?thesis by simp
next
  case (Fill i q px)
  with assms oms_inv_fill show ?thesis by simp
next
  case (Accept i ref)
  with assms(1) show ?thesis
    by (auto simp: on_accept_def Let_def oms_inv_def [of m] split: option.splits
        intro!: oms_inv_put [OF assms(1)] entry_ok_status) (auto simp: entry_ok_def)
next
  case (RequestCancel i)
  with assms(1) show ?thesis
    by (auto simp: request_cancel_def Let_def oms_inv_def [of m] split: option.splits
        intro!: oms_inv_put [OF assms(1)] entry_ok_status)
next
  case (CancelReport i)
  with assms(1) show ?thesis
    by (auto simp: on_cancel_def Let_def oms_inv_def [of m] split: option.splits
        intro!: oms_inv_put_terminal [OF assms(1)] entry_ok_status)
next
  case (Reject i)
  with assms(1) show ?thesis
    by (auto simp: on_reject_def Let_def oms_inv_def [of m] split: option.splits
        intro!: oms_inv_put_terminal [OF assms(1)] entry_ok_status) (auto simp: entry_ok_def)
qed

lemma next_id_step: "next_id (oms_step m ev) \<in> {next_id m, next_id m + 1}"
  by (cases ev) (auto simp: oms_op_defs split: option.splits)

lemma oms_inv_run:
  assumes "oms_inv m" "unat (next_id m) + length evs < 2 ^ 64"
  shows "oms_inv (oms_run m evs)"
  using assms
proof (induction evs arbitrary: m)
  case Nil then show ?case by simp
next
  case (Cons ev evs)
  have up: "unat (next_id m + 1) = Suc (unat (next_id m))"
    using Cons.prems(2) by (simp add: unat_add_nowrap)
  then have ne: "next_id m \<noteq> -1" by auto
  from up have "unat (next_id (oms_step m ev)) + length evs < 2 ^ 64"
    using next_id_step [of m ev] Cons.prems(2) by auto
  with Cons.IH [of "oms_step m ev"] oms_inv_step [OF Cons.prems(1) ne] show ?case by simp
qed


text \<open>A run of which only the new orders are bounded in number keeps all of it.\<close>

lemma oms_run_keeps:
  assumes "oms_inv m" "unat (next_id m) + length (filter (\<lambda>ev. \<exists>ord. ev = New ord) evs) < 2 ^ 64"
  shows "oms_inv (oms_run m evs) \<and> unat (next_id m) \<le> unat (next_id (oms_run m evs)) \<and>
    unat (next_id (oms_run m evs)) \<le> unat (next_id m) + length (filter (\<lambda>ev. \<exists>ord. ev = New ord) evs) \<and>
    (\<forall>i en. orders m i = Some en \<longrightarrow> (\<exists>en'. orders (oms_run m evs) i = Some en' \<and>
       e_order en' = e_order en \<and> life_step\<^sup>*\<^sup>* (status en) (status en')))"
  using assms
proof (induction evs arbitrary: m)
  case Nil then show ?case by simp
next
  case (Cons ev evs)
  let ?new = "\<exists>ord. ev = New ord" and ?m = "oms_step m ev"
  let ?n = "length (filter (\<lambda>ev. \<exists>ord. ev = New ord) evs)"
  have small: "unat (next_id m) + (if ?new then 1 else 0) + ?n < 2 ^ 64"
    using Cons.prems(2) by (auto split: if_splits)
  have ne: "next_id m \<noteq> -1" if ?new using small that by (auto simp: unat64_max)
  have inv: "oms_inv ?m" using Cons.prems(1) ne by (intro oms_inv_step) auto
  have nxt: "unat (next_id ?m) = unat (next_id m) + (if ?new then 1 else 0)"
  proof (cases ev)
    case (New ord)
    then have "unat (next_id m + 1) = unat (next_id m) + 1"
      using small by (subst unat_add_nowrap) simp_all
    then show ?thesis using New by (simp add: new_order_def Let_def)
  qed (auto simp: oms_op_defs split: option.splits)
  have step: "\<exists>en'. orders ?m i = Some en' \<and> e_order en' = e_order en \<and>
      (status en' = status en \<or> life_step (status en) (status en'))" if "orders m i = Some en" for i en
  proof -
    have "i \<noteq> next_id m" using Cons.prems(1) that by (auto simp: oms_inv_def)
    with that show ?thesis using oms_step_entry by blast
  qed
  have "unat (next_id ?m) + ?n < 2 ^ 64" using nxt small by simp
  note ih = Cons.IH [OF inv this]
  have hist: "\<exists>en'. orders (oms_run ?m evs) i = Some en' \<and> e_order en' = e_order en \<and>
      life_step\<^sup>*\<^sup>* (status en) (status en')" if i: "orders m i = Some en" for i en
  proof -
    obtain en1 where 1: "orders ?m i = Some en1" "e_order en1 = e_order en"
      "status en1 = status en \<or> life_step (status en) (status en1)" using step [OF i] by blast
    obtain en2 where 2: "orders (oms_run ?m evs) i = Some en2" "e_order en2 = e_order en1"
      "life_step\<^sup>*\<^sup>* (status en1) (status en2)" using ih 1(1) by blast
    have "life_step\<^sup>*\<^sup>* (status en) (status en2)"
      using 1(3) 2(3) by (auto intro: converse_rtranclp_into_rtranclp)
    with 1 2 show ?thesis by auto
  qed
  show ?case using ih nxt hist by auto
qed

lemma life_from_terminal: "life_step\<^sup>*\<^sup>* s t \<Longrightarrow> terminal s \<Longrightarrow> t = s"
  by (induction rule: rtranclp_induct) (auto dest: life_step_not_terminal)

section \<open>Fills\<close>

text \<open>What one fill report does to an order that can be filled.\<close>

definition fillable :: "order_status \<Rightarrow> bool" where
  "fillable st \<longleftrightarrow> st = SUBMITTED \<or> st = PARTIAL_FILL"

definition filled_of :: "oms \<Rightarrow> u64 \<Rightarrow> u64" where
  "filled_of m i = (case orders m i of None \<Rightarrow> 0 | Some e \<Rightarrow> filled e)"

lemma on_fill_entry:
  assumes e: "orders m i = Some e" "fillable (status e)" "filled e \<le> quantity (e_order e)"
    and nowrap: "unat (filled e) + unat q < 2 ^ 64"
  shows "\<exists>e'. orders (on_fill m i q px) i = Some e' \<and> e_order e' = e_order e \<and>
      unat (filled e') = min (unat (quantity (e_order e))) (unat (filled e) + unat q) \<and>
      status e' = (if unat (filled e) + unat q \<ge> unat (quantity (e_order e))
                   then FILLED else PARTIAL_FILL)"
proof -
  have sum: "unat (filled e + q) = unat (filled e) + unat q"
    using nowrap by (simp add: unat_add_nowrap)
  have act: "\<not> (status e \<noteq> SUBMITTED \<and> status e \<noteq> PARTIAL_FILL)"
    using e(2) by (simp add: fillable_def)
  show ?thesis
  proof (cases "filled e + q \<ge> quantity (e_order e)")
    case True
    with sum have ge: "unat (quantity (e_order e)) \<le> unat (filled e) + unat q"
      by (simp add: word_le_nat_alt)
    have eq: "\<not> filled e + q > quantity (e_order e) \<Longrightarrow> filled e + q = quantity (e_order e)"
      using True by simp
    show ?thesis
      using e(1) act True ge eq sum
      by (auto simp: on_fill_def Let_def put_entry_def unindex_def tick_clock_def)
  next
    case False
    with sum have lt: "\<not> unat (quantity (e_order e)) \<le> unat (filled e) + unat q"
      by (simp add: word_le_nat_alt)
    show ?thesis
      using e(1) act False lt sum
      by (auto simp: on_fill_def Let_def put_entry_def tick_clock_def)
  qed
qed

lemma on_fill_ignored:
  assumes "orders m i = Some e" "\<not> fillable (status e)"
  shows "on_fill m i q px = m"
  using assms by (auto simp: on_fill_def fillable_def)

definition fills :: "u64 \<Rightarrow> (u64 \<times> i64) list \<Rightarrow> oms_event list" where
  "fills i fs = map (\<lambda>(q, px). Fill i q px) fs"

definition total_qty_of :: "(u64 \<times> i64) list \<Rightarrow> nat" where
  "total_qty_of fs = (\<Sum>f\<leftarrow>fs. unat (fst f))"

lemma fills_after_filled:
  assumes "orders m i = Some e" "status e = FILLED"
  shows "oms_run m (fills i fs) = m"
  using assms by (induction fs) (auto simp: fills_def on_fill_ignored fillable_def)

lemma fills_run:
  assumes "orders m i = Some e" "fillable (status e)" "filled e \<le> quantity (e_order e)"
    "unat (quantity (e_order e)) + total_qty_of fs < 2 ^ 64" "fs \<noteq> []"
  shows "\<exists>e'. orders (oms_run m (fills i fs)) i = Some e' \<and>
      unat (filled e') = min (unat (quantity (e_order e))) (unat (filled e) + total_qty_of fs) \<and>
      status e' = (if unat (filled e) + total_qty_of fs \<ge> unat (quantity (e_order e))
                   then FILLED else PARTIAL_FILL)"
  using assms
proof (induction fs arbitrary: m e)
  case Nil then show ?case by simp
next
  case (Cons f fs)
  obtain q px where f: "f = (q, px)" by (cases f)
  let ?Q = "unat (quantity (e_order e))"
  have le: "unat (filled e) \<le> ?Q" using Cons.prems(3) by (simp add: word_le_nat_alt)
  have "unat (filled e) + unat q < 2 ^ 64"
    using Cons.prems(4) le by (simp add: f total_qty_of_def)
  from on_fill_entry [OF Cons.prems(1-3) this, of px] obtain e1 where
    e1: "orders (on_fill m i q px) i = Some e1" "e_order e1 = e_order e"
      "unat (filled e1) = min ?Q (unat (filled e) + unat q)"
      "status e1 = (if unat (filled e) + unat q \<ge> ?Q then FILLED else PARTIAL_FILL)"
    by blast
  have run: "oms_run m (fills i ((q, px) # fs)) = oms_run (on_fill m i q px) (fills i fs)"
    by (simp add: fills_def)
  show ?case
  proof (cases "unat (filled e) + unat q \<ge> ?Q")
    case True
    then have st: "status e1 = FILLED" using e1(4) by simp
    show ?thesis
      using e1 st True by (auto simp: run fills_after_filled [OF e1(1) st] f total_qty_of_def)
  next
    case False
    show ?thesis
    proof (cases "fs = []")
      case True
      with e1 False show ?thesis
        by (auto simp: run fills_def f total_qty_of_def)
    next
      case nonempty: False
      have "fillable (status e1)" using e1(4) False by (simp add: fillable_def)
      moreover have "filled e1 \<le> quantity (e_order e1)"
        using e1(2,3) by (simp add: word_le_nat_alt)
      moreover have "unat (quantity (e_order e1)) + total_qty_of fs < 2 ^ 64"
        using Cons.prems(4) e1(2) by (simp add: total_qty_of_def f)
      ultimately show ?thesis
        using Cons.IH [OF e1(1)] nonempty e1 False
        by (auto simp: run f total_qty_of_def)
    qed
  qed
qed

section \<open>Properties\<close>

text \<open>C21. Every run of the order manager from its initial state, of fewer than \<open>2^64 - 1\<close> calls,
  keeps the books: an order is listed as open for a symbol (or strategy) exactly when it exists, has
  that symbol (strategy) and is in no terminal status; the filled and remaining quantities of
  every order add up to its quantity, without wrap-around.\<close>

theorem oms_books_exact:
  assumes "length evs < 2 ^ 64 - 1"
  shows "(i \<in> open_orders (oms_run empty_oms evs) s \<longleftrightarrow>
           (\<exists>e. entry_of (oms_run empty_oms evs) i = Some e \<and> \<not> terminal (status e) \<and>
                symbol_id (e_order e) = s)) \<and>
         (i \<in> open_orders_by_strategy (oms_run empty_oms evs) t \<longleftrightarrow>
           (\<exists>e. entry_of (oms_run empty_oms evs) i = Some e \<and> \<not> terminal (status e) \<and>
                strategy_id (e_order e) = t)) \<and>
         (\<forall>e. entry_of (oms_run empty_oms evs) i = Some e \<longrightarrow>
           unat (filled e) + unat (remaining e) = unat (quantity (e_order e)))"
proof -
  have inv: "oms_inv (oms_run empty_oms evs)"
    using assms by (intro oms_inv_run oms_inv_empty) (simp add: empty_oms_def)
  have "unat (filled e) + unat (remaining e) = unat (quantity (e_order e))"
    if "orders (oms_run empty_oms evs) i = Some e" for e
  proof -
    from that inv have "entry_ok i e" by (auto simp: oms_inv_def)
    then show ?thesis by (auto simp: entry_ok_def unat_diff_le word_le_nat_alt)
  qed
  with inv show ?thesis
    by (auto simp: oms_inv_def open_orders_def open_orders_by_strategy_def entry_of_def
        live_with_def)
qed

text \<open>The operations refine the life-cycle diagram: over any run, an order keeps its
  identity and its status moves along the arrows of the diagram; once terminal it never changes.\<close>

theorem oms_life_cycle:
  assumes "oms_inv m" "unat (next_id m) + length evs < 2 ^ 64" "entry_of m i = Some e"
  shows "\<exists>e'. entry_of (oms_run m evs) i = Some e' \<and> e_order e' = e_order e \<and>
              life_step\<^sup>*\<^sup>* (status e) (status e') \<and>
              (terminal (status e) \<longrightarrow> status e' = status e)"
proof -
  have "length (filter (\<lambda>ev. \<exists>ord. ev = New ord) evs) \<le> length evs" by simp
  then have "unat (next_id m) + length (filter (\<lambda>ev. \<exists>ord. ev = New ord) evs) < 2 ^ 64"
    using assms(2) by linarith
  then show ?thesis
    using oms_run_keeps [OF assms(1), of evs] assms(3) life_from_terminal unfolding entry_of_def by blast
qed

text \<open>Fill reports accumulate and are clamped: after any non-empty sequence of fills on an
  order that can be filled, the filled quantity is the smaller of the order's quantity and the
  sum reported, and the order is FILLED exactly when the sum reaches the quantity.\<close>

theorem oms_fills_accumulate:
  assumes "entry_of m i = Some e" "fillable (status e)" "filled e \<le> quantity (e_order e)"
    "unat (quantity (e_order e)) + total_qty_of fs < 2 ^ 64" "fs \<noteq> []"
  shows "unat (filled_of (oms_run m (fills i fs)) i) =
           min (unat (quantity (e_order e))) (unat (filled e) + total_qty_of fs) \<and>
         order_status_of (oms_run m (fills i fs)) i =
           (if unat (filled e) + total_qty_of fs \<ge> unat (quantity (e_order e))
            then FILLED else PARTIAL_FILL)"
  using fills_run [OF assms(1) [unfolded entry_of_def] assms(2-5)]
  by (auto simp: filled_of_def order_status_of_def)


text \<open>The average fill price stays between the prices that were paid: if the average so far
  and the new price lie in \<open>[lo, hi]\<close> with \<open>0 \<le> lo\<close>, the fill is not over the order's quantity,
  and the notional \<open>hi * quantity\<close> fits in 63 bits, the new average lies in \<open>[lo, hi]\<close>.\<close>

theorem oms_average_price_bounds:
  assumes e: "entry_of m i = Some e" "fillable (status e)"
    and fit: "uint (filled e) + uint q \<le> uint (quantity (e_order e))" "q \<noteq> 0"
    and lo: "0 \<le> lo" "lo \<le> sint px" "filled e \<noteq> 0 \<longrightarrow> lo \<le> sint (avg_fill_price e)"
    and hi: "sint px \<le> hi" "filled e \<noteq> 0 \<longrightarrow> sint (avg_fill_price e) \<le> hi" "1 \<le> hi"
    and small: "hi * uint (quantity (e_order e)) < 2 ^ 63"
  shows "\<exists>e'. entry_of (on_fill m i q px) i = Some e' \<and>
            lo \<le> sint (avg_fill_price e') \<and> sint (avg_fill_price e') \<le> hi"
proof -
  have "0 < uint q" using fit(2) uint_ge_0 [of q] by (simp add: less_le unsigned_eq_0_iff del: uint_ge_0)
  have "uint (quantity (e_order e)) \<le> hi * uint (quantity (e_order e))"
    using hi(3) mult_right_mono [of 1 hi "uint (quantity (e_order e))"] by simp
  then have qty: "uint (quantity (e_order e)) < 2 ^ 63" using small by (rule le_less_trans)
  have "hi * (uint (filled e) + uint q) \<le> hi * uint (quantity (e_order e))"
    using fit(1) hi(3) by (intro mult_left_mono) auto
  then have "hi * (uint (filled e) + uint q) < 2 ^ 63" using small by (rule le_less_trans)
  with lo hi fit(2) have avg: "lo \<le> sint (sdivw (avg_fill_price e * filled e + px * q) (filled e + q)) \<and>
      sint (sdivw (avg_fill_price e * filled e + px * q) (filled e + q)) \<le> hi \<and> filled e + q \<noteq> 0"
    by (intro weighted_average_bounds) auto
  have w: "filled e + q = word_of_int (uint (filled e) + uint q)" by simp
  have "uint (filled e + q) = uint (filled e) + uint q"
    unfolding w uint_word_of_int using fit(1) qty by simp
  then have no_over: "\<not> filled e + q > quantity (e_order e)"
    using fit(1) by (simp add: word_less_def)
  show ?thesis
    using e no_over avg
    by (auto simp: on_fill_def entry_of_def fillable_def Let_def put_entry_def unindex_def
        tick_clock_def)
qed

section \<open>Witnesses\<close>

text \<open>A run that submits, accepts and partly fills one order, and a book holding one live order.\<close>

definition demo_events :: "oms_event list" where
  "demo_events = [New (empty_order\<lparr>quantity := 10, symbol_id := 5\<rparr>), Accept 1 7, Fill 1 4 100]"

definition demo_entry :: entry where
  "demo_entry = \<lparr>e_order = empty_order\<lparr>order_id := 1, quantity := 10, symbol_id := 5\<rparr>,
     status = SUBMITTED, exchange_ref = 7, filled = 0, remaining = 10, avg_fill_price = 0,
     submit_time = 0, update_time = 1\<rparr>"

definition demo_oms :: oms where
  "demo_oms = oms_run empty_oms (take 2 demo_events)"

lemmas demo_defs = demo_events_def demo_entry_def demo_oms_def empty_oms_def empty_order_def

lemma demo_entry_of: "entry_of demo_oms 1 = Some demo_entry"
  by (simp add: demo_defs entry_of_def oms_op_defs)

lemma demo_oms_inv: "oms_inv demo_oms"
  unfolding demo_oms_def by (intro oms_inv_run oms_inv_empty) (simp add: demo_defs)

lemma oms_books_exact_witness:
  "length demo_events < 2 ^ 64 - 1 \<and> 1 \<in> open_orders (oms_run empty_oms demo_events) 5 \<and>
   (\<exists>e. entry_of (oms_run empty_oms demo_events) 1 = Some e \<and> filled e = 4 \<and>
        unat (filled e) + unat (remaining e) = unat (quantity (e_order e)))"
proof -
  have h: "length demo_events < 2 ^ 64 - 1" by (simp add: demo_events_def)
  have e: "entry_of (oms_run empty_oms demo_events) 1 = Some (demo_entry\<lparr>filled := 4, remaining := 6,
      avg_fill_price := sdivw 400 4, status := PARTIAL_FILL, update_time := 2\<rparr>)"
    by (simp add: demo_defs entry_of_def oms_op_defs)
  show ?thesis
    using h e oms_books_exact [OF h, of 1 5 0] by (simp add: demo_entry_def)
qed

lemma oms_life_cycle_witness:
  "oms_inv demo_oms \<and> (\<exists>e'. entry_of (oms_run demo_oms [RequestCancel 1, CancelReport 1]) 1 = Some e' \<and>
     e_order e' = e_order demo_entry \<and> life_step\<^sup>*\<^sup>* (status demo_entry) (status e'))"
proof -
  have id: "unat (next_id demo_oms) + length [RequestCancel 1, CancelReport 1] < 2 ^ 64"
    by (simp add: demo_defs oms_op_defs)
  show ?thesis
    using demo_oms_inv oms_life_cycle [OF demo_oms_inv id demo_entry_of] by blast
qed

lemma oms_fills_accumulate_witness:
  "unat (filled_of (oms_run demo_oms (fills 1 [(4, 100), (9, 100)])) 1) = 10 \<and>
   order_status_of (oms_run demo_oms (fills 1 [(4, 100), (9, 100)])) 1 = FILLED"
  using oms_fills_accumulate [OF demo_entry_of, of "[(4, 100), (9, 100)]"]
  by (simp add: demo_entry_def fillable_def total_qty_of_def empty_order_def)

lemma oms_average_price_bounds_witness:
  "\<exists>e'. entry_of (on_fill demo_oms 1 4 100) 1 = Some e' \<and> 90 \<le> sint (avg_fill_price e') \<and>
        sint (avg_fill_price e') \<le> 110"
  by (rule oms_average_price_bounds [OF demo_entry_of])
     (simp_all add: demo_entry_def fillable_def empty_order_def)

end
