(* ===== verification/Risk_Manager.thy ===== *)
theory Risk_Manager
  imports NX_Types
begin

text \<open>
  The risk manager of \<^verbatim>\<open>risk/risk_manager.h\<close>: pre-trade checks, positions with their weighted cost,
  realised profit, and the mark-to-market equity with its high-water mark. The three arrays of
  \<open>kMaxLocate\<close> cells are functions on the 32-bit index \<open>locate_idx\<close> computes; every access of the
  code goes through that index or through the loop of \<open>equity\<close> over all cells. The atomics are read
  and written by one step each, as the execution engine's lock serialises the writers.
\<close>

section \<open>State\<close>

record risk =
  rm_qty :: "u32 \<Rightarrow> u64"
  rm_avg_cost :: "u32 \<Rightarrow> i64"
  rm_mark_price :: "u32 \<Rightarrow> i64"
  rm_realized_pnl :: i64
  rm_equity_peak :: i64
  rm_max_position :: u64
  rm_max_daily_loss :: i64
  rm_initial_equity :: i64
  rm_max_drawdown_pause :: i64
  rm_max_drawdown_flatten :: i64

abbreviation kMaxLocate :: nat where "kMaxLocate \<equiv> 65536"

definition new_risk :: risk where
  "new_risk = \<lparr>rm_qty = (\<lambda>_. 0), rm_avg_cost = (\<lambda>_. 0), rm_mark_price = (\<lambda>_. 0), rm_realized_pnl = 0,
     rm_equity_peak = 0, rm_max_position = 100000, rm_max_daily_loss = 1000000 * 100,
     rm_initial_equity = 0, rm_max_drawdown_pause = 0, rm_max_drawdown_flatten = 0\<rparr>"

definition locate_idx :: "u64 \<Rightarrow> u32" where
  "locate_idx sid = (if unat sid < kMaxLocate then to_u32 sid else 0)"

section \<open>Mark-to-market equity\<close>

definition locates :: "u32 list" where
  "locates = map of_nat [0..<kMaxLocate]"

definition equity :: "risk \<Rightarrow> i64" where
  "equity r = foldl
     (\<lambda>eq l. if 0 <s rm_qty r l \<and> 0 <s rm_mark_price r l
              then eq + rm_qty r l * (rm_mark_price r l - rm_avg_cost r l) else eq)
     (rm_initial_equity r + rm_realized_pnl r) locates"

definition drawdown :: "risk \<Rightarrow> i64" where
  "drawdown r = rm_equity_peak r - equity r"

definition drawdown_paused :: "risk \<Rightarrow> bool" where
  "drawdown_paused r \<longleftrightarrow> rm_max_drawdown_pause r <s drawdown r"

definition drawdown_flatten :: "risk \<Rightarrow> bool" where
  "drawdown_flatten r \<longleftrightarrow> rm_max_drawdown_flatten r <s drawdown r"

definition update_equity :: "risk \<Rightarrow> risk" where
  "update_equity r = (let eq = equity r in
     if rm_equity_peak r <s eq then r\<lparr>rm_equity_peak := eq\<rparr> else r)"

definition mark :: "risk \<Rightarrow> u64 \<Rightarrow> i64 \<Rightarrow> risk" where
  "mark r sid p = update_equity (r\<lparr>rm_mark_price := (rm_mark_price r)(locate_idx sid := p)\<rparr>)"

section \<open>Checks, fills and settings\<close>

definition daily_loss_breached :: "risk \<Rightarrow> bool" where
  "daily_loss_breached r \<longleftrightarrow> rm_realized_pnl r <=s - rm_max_daily_loss r"

definition check_order :: "risk \<Rightarrow> order \<Rightarrow> bool" where
  "check_order r ord =
     (if quantity ord = 0 then False
      else if rm_realized_pnl r <=s - rm_max_daily_loss r then False
      else if drawdown_paused r then False
      else
        (let cur = rm_qty r (locate_idx (symbol_id ord)) in
         if side ord = BUY then cur + quantity ord \<le> rm_max_position r
         else if side ord = SELL then quantity ord \<le> cur
         else False))"

definition risk_on_fill :: "risk \<Rightarrow> order \<Rightarrow> u64 \<Rightarrow> risk" where
  "risk_on_fill r ord filled_qty =
     (let loc = locate_idx (symbol_id ord) in
      update_equity
       (if side ord = BUY then
          (let old_avg = rm_avg_cost r loc;
               old_qty = rm_qty r loc;
               total = old_avg * old_qty + price ord * filled_qty;
               new_qty = old_qty + filled_qty
           in r\<lparr>rm_qty := (rm_qty r)(loc := new_qty),
                rm_avg_cost := (rm_avg_cost r)(loc := if new_qty \<noteq> 0 then sdivw total new_qty else 0)\<rparr>)
        else if side ord = SELL then
          (let old_qty = rm_qty r loc;
               qty = (if filled_qty < old_qty then filled_qty else old_qty);
               new_qty = old_qty - qty
           in r\<lparr>rm_realized_pnl := rm_realized_pnl r + (price ord - rm_avg_cost r loc) * qty,
                rm_qty := (rm_qty r)(loc := new_qty),
                rm_avg_cost := (if new_qty = 0 then (rm_avg_cost r)(loc := 0) else rm_avg_cost r)\<rparr>)
        else r))"

definition risk_on_full_fill :: "risk \<Rightarrow> order \<Rightarrow> risk" where
  "risk_on_full_fill r ord = risk_on_fill r ord (quantity ord)"

definition position :: "risk \<Rightarrow> u64 \<Rightarrow> u64" where
  "position r sid = rm_qty r (locate_idx sid)"

definition avg_cost :: "risk \<Rightarrow> u64 \<Rightarrow> i64" where
  "avg_cost r sid = rm_avg_cost r (locate_idx sid)"

definition realized_pnl :: "risk \<Rightarrow> i64" where
  "realized_pnl r = rm_realized_pnl r"

definition set_max_position :: "risk \<Rightarrow> u64 \<Rightarrow> risk" where
  "set_max_position r p = r\<lparr>rm_max_position := p\<rparr>"

definition set_max_daily_loss :: "risk \<Rightarrow> i64 \<Rightarrow> risk" where
  "set_max_daily_loss r l = r\<lparr>rm_max_daily_loss := l\<rparr>"

definition set_initial_equity :: "risk \<Rightarrow> i64 \<Rightarrow> risk" where
  "set_initial_equity r eq = r\<lparr>rm_initial_equity := eq, rm_equity_peak := eq\<rparr>"

definition set_max_drawdown_pause :: "risk \<Rightarrow> i64 \<Rightarrow> risk" where
  "set_max_drawdown_pause r dd = r\<lparr>rm_max_drawdown_pause := dd\<rparr>"

definition set_max_drawdown_flatten :: "risk \<Rightarrow> i64 \<Rightarrow> risk" where
  "set_max_drawdown_flatten r dd = r\<lparr>rm_max_drawdown_flatten := dd\<rparr>"

lemmas risk_op_defs = risk_on_fill_def mark_def Let_def

section \<open>The equity as a sum\<close>

definition pnl_at :: "risk \<Rightarrow> u32 \<Rightarrow> i64" where
  "pnl_at r l = (if 0 <s rm_qty r l \<and> 0 <s rm_mark_price r l
                 then rm_qty r l * (rm_mark_price r l - rm_avg_cost r l) else 0)"

lemma equity_sum: "equity r = rm_initial_equity r + rm_realized_pnl r + sum_list (map (pnl_at r) locates)"
proof -
  have "foldl (\<lambda>eq l. if 0 <s rm_qty r l \<and> 0 <s rm_mark_price r l
              then eq + rm_qty r l * (rm_mark_price r l - rm_avg_cost r l) else eq) a ls
      = a + sum_list (map (pnl_at r) ls)" for a ls
    by (induction ls arbitrary: a) (auto simp: pnl_at_def algebra_simps)
  then show ?thesis by (simp add: equity_def)
qed

lemma distinct_locates: "distinct locates"
proof -
  have "inj_on (of_nat :: nat \<Rightarrow> u32) {0..<kMaxLocate}"
    by (intro inj_onI) (simp add: word_of_nat_eq_iff take_bit_nat_eq_self)
  then show ?thesis by (simp add: locates_def distinct_map)
qed

lemma locate_idx_in: "locate_idx sid \<in> set locates"
proof (cases "unat sid < kMaxLocate")
  case True
  have "to_u32 sid = of_nat (unat sid)" by simp
  moreover have "unat sid \<in> set [0..<kMaxLocate]" using True by simp
  ultimately have "to_u32 sid \<in> of_nat ` set [0..<kMaxLocate]" by (rule image_eqI)
  with True show ?thesis by (simp only: locates_def locate_idx_def set_map if_True)
next
  case False
  have "(0 :: u32) = of_nat 0" "0 \<in> set [0..<kMaxLocate]" by simp_all
  then have "(0 :: u32) \<in> of_nat ` set [0..<kMaxLocate]" by (rule image_eqI)
  with False show ?thesis by (simp only: locates_def locate_idx_def set_map if_False)
qed


lemma equity_cong:
  assumes "rm_initial_equity r' = rm_initial_equity r" "rm_realized_pnl r' = rm_realized_pnl r + d"
    "pnl_at r' = (pnl_at r)(locate_idx sid := v)"
  shows "equity r' = equity r + d - pnl_at r (locate_idx sid) + v"
  using assms sum_list_update_at [OF distinct_locates locate_idx_in [of sid], of "pnl_at r" v]
  by (simp add: equity_sum algebra_simps)

text \<open>Only the locates held at a positive mark contribute: a finite list of them is enough.\<close>

lemma sum_list_support:
  fixes f :: "'a \<Rightarrow> 'b::comm_monoid_add"
  assumes "distinct xs" "distinct ys" "set ys \<subseteq> set xs" "\<forall>x. x \<notin> set ys \<longrightarrow> f x = 0"
  shows "sum_list (map f xs) = sum_list (map f ys)"
proof -
  have "sum_list (map f xs) = sum f (set xs)" using assms(1) by (simp add: sum_list_distinct_conv_sum_set)
  also have "\<dots> = sum f (set ys)" using assms(3,4) by (intro sum.mono_neutral_right) auto
  also have "\<dots> = sum_list (map f ys)" using assms(2) by (simp add: sum_list_distinct_conv_sum_set)
  finally show ?thesis .
qed

lemma equity_one:
  assumes "\<forall>l. l \<noteq> locate_idx sid \<longrightarrow> rm_qty r l = 0"
  shows "equity r = rm_initial_equity r + rm_realized_pnl r + pnl_at r (locate_idx sid)"
  using sum_list_support [OF distinct_locates, of "[locate_idx sid]" "pnl_at r"] locate_idx_in [of sid]
    assms by (auto simp: equity_sum pnl_at_def)

lemma equity_peak_irrelevant [simp]: "equity (r\<lparr>rm_equity_peak := p\<rparr>) = equity r"
proof -
  have "pnl_at (r\<lparr>rm_equity_peak := p\<rparr>) = pnl_at r" by (simp add: pnl_at_def fun_eq_iff)
  then show ?thesis by (simp add: equity_sum)
qed

lemma update_equity_same [simp]:
  "rm_qty (update_equity r) = rm_qty r" "rm_avg_cost (update_equity r) = rm_avg_cost r"
  "rm_mark_price (update_equity r) = rm_mark_price r"
  "rm_realized_pnl (update_equity r) = rm_realized_pnl r"
  "rm_initial_equity (update_equity r) = rm_initial_equity r"
  "rm_max_position (update_equity r) = rm_max_position r"
  "equity (update_equity r) = equity r"
  by (simp_all add: update_equity_def Let_def)

lemma update_equity_peak:
  "sint (rm_equity_peak (update_equity r)) = max (sint (rm_equity_peak r)) (sint (equity r))"
  by (auto simp: update_equity_def Let_def word_sless_alt max_def)

section \<open>Runs of fills and marks\<close>

datatype risk_event = Fill_Report order u64 | Mark_Price u64 i64

fun risk_step :: "risk \<Rightarrow> risk_event \<Rightarrow> risk" where
  "risk_step r (Fill_Report ord q) = risk_on_fill r ord q"
| "risk_step r (Mark_Price sid p) = mark r sid p"

text \<open>The states a run passes through after its events, in order.\<close>

fun risk_trace :: "risk \<Rightarrow> risk_event list \<Rightarrow> risk list" where
  "risk_trace r [] = []"
| "risk_trace r (e # es) = risk_step r e # risk_trace (risk_step r e) es"

definition risk_run :: "risk \<Rightarrow> risk_event list \<Rightarrow> risk" where
  "risk_run = foldl risk_step"

lemma risk_step_peak:
  "sint (rm_equity_peak (risk_step r e)) =
     max (sint (rm_equity_peak r)) (sint (equity (risk_step r e)))"
proof (cases e)
  case (Fill_Report ord q)
  then show ?thesis by (auto simp: risk_op_defs update_equity_peak)
next
  case (Mark_Price sid p)
  then show ?thesis by (simp add: mark_def update_equity_peak)
qed

section \<open>Properties\<close>

text \<open>The peak is the high-water mark: after any run of fills and marks it is the largest of
  the starting peak and of every mark-to-market equity on the way, so the drawdown is never
  computed against a stale peak.\<close>

theorem risk_peak_is_high_water_mark:
  "sint (rm_equity_peak (risk_run r es)) =
     foldl max (sint (rm_equity_peak r)) (map (sint \<circ> equity) (risk_trace r es))"
  by (induction es arbitrary: r) (simp_all add: risk_run_def risk_step_peak)

text \<open>C37. The position limit is enforced: when the check admits an order whose quantity does not
  wrap the position counter, any fill of at most the order's quantity leaves the position at most
  the limit for a buy, and takes the filled quantity off without going short for a sell; every
  other locate keeps its position.\<close>

theorem risk_check_bounds_position:
  assumes ok: "check_order r ord" and q: "q \<le> quantity ord"
    and nowrap: "unat (position r (symbol_id ord)) + unat (quantity ord) < 2 ^ 64"
  shows "(side ord = BUY \<longrightarrow> position (risk_on_fill r ord q) (symbol_id ord) \<le> rm_max_position r) \<and>
    (side ord = SELL \<longrightarrow> unat (position (risk_on_fill r ord q) (symbol_id ord)) + unat q =
       unat (position r (symbol_id ord))) \<and>
    (\<forall>s. locate_idx s \<noteq> locate_idx (symbol_id ord) \<longrightarrow>
       position (risk_on_fill r ord q) s = position r s)"
proof -
  let ?c = "position r (symbol_id ord)"
  have buy: "?c + q \<le> rm_max_position r" if "side ord = BUY"
  proof -
    have "?c + quantity ord \<le> rm_max_position r"
      using ok that by (auto simp: check_order_def position_def Let_def split: if_splits)
    moreover have "unat (?c + q) \<le> unat (?c + quantity ord)"
      using nowrap q by (simp add: unat_add_nowrap word_le_nat_alt)
    ultimately show ?thesis by (simp add: word_le_nat_alt)
  qed
  have sell: "q \<le> ?c" if "side ord = SELL"
    using ok that q by (auto simp: check_order_def position_def Let_def split: if_splits)
  show ?thesis
    using buy sell unat_diff_le [of q ?c]
    by (auto simp: risk_op_defs position_def word_le_nat_alt not_less)
qed

text \<open>Cost accounting is closed on the sell side: selling at the current mark turns unrealised
  into realised profit and leaves the equity unchanged, exactly, in 64-bit arithmetic.\<close>

theorem risk_sell_at_mark_keeps_equity:
  assumes "side ord = SELL" "price ord = rm_mark_price r (locate_idx (symbol_id ord))"
    "0 <s price ord" "q \<le> position r (symbol_id ord)" "0 <s position r (symbol_id ord)"
  shows "equity (risk_on_fill r ord q) = equity r"
proof -
  let ?l = "locate_idx (symbol_id ord)"
  let ?m = "rm_mark_price r ?l" and ?a = "rm_avg_cost r ?l" and ?Q = "rm_qty r ?l"
  let ?r = "r\<lparr>rm_realized_pnl := rm_realized_pnl r + (price ord - ?a) * q,
      rm_qty := (rm_qty r)(?l := ?Q - q),
      rm_avg_cost := (if ?Q - q = 0 then (rm_avg_cost r)(?l := 0) else rm_avg_cost r)\<rparr>"
  have le: "q \<le> ?Q" using assms(4) by (simp add: position_def)
  have step: "risk_on_fill r ord q = update_equity ?r"
  proof (cases "q < ?Q")
    case True
    then show ?thesis using assms(1) by (simp add: risk_on_fill_def Let_def)
  next
    case False
    with le have "?Q = q" by simp
    then show ?thesis using assms(1) by (simp add: risk_on_fill_def Let_def)
  qed
  have pos: "0 <s ?Q - q" if "?Q - q \<noteq> 0"
  proof (rule sless_0_le [OF _ _ that])
    show "0 <s ?Q" using assms(5) by (simp add: position_def)
    show "?Q - q \<le> ?Q" using le by (simp add: word_sub_le)
  qed
  have "pnl_at ?r = (pnl_at r)(?l := (?Q - q) * (?m - ?a))"
    using pos assms(2,3) by (auto simp: fun_eq_iff pnl_at_def)
  then have "equity ?r = equity r + (price ord - ?a) * q - pnl_at r ?l + (?Q - q) * (?m - ?a)"
    by (intro equity_cong) simp_all
  also have "pnl_at r ?l = ?Q * (?m - ?a)"
    using assms(2,3,5) by (simp add: pnl_at_def position_def)
  also have "equity r + (price ord - ?a) * q - ?Q * (?m - ?a) + (?Q - q) * (?m - ?a) = equity r"
    using assms(2) by (simp add: algebra_simps)
  finally show ?thesis unfolding step by (simp only: update_equity_same)
qed


text \<open>A buy keeps the weighted average cost between the prices paid, when the position and the
  notional stay in range.\<close>

theorem risk_buy_average_cost_bounds:
  assumes buy: "side ord = BUY" and q: "q \<noteq> 0"
    and lo: "0 \<le> lo" "lo \<le> sint (price ord)"
      "position r (symbol_id ord) \<noteq> 0 \<longrightarrow> lo \<le> sint (avg_cost r (symbol_id ord))"
    and hi: "1 \<le> hi" "sint (price ord) \<le> hi"
      "position r (symbol_id ord) \<noteq> 0 \<longrightarrow> sint (avg_cost r (symbol_id ord)) \<le> hi"
    and small: "hi * (uint (position r (symbol_id ord)) + uint q) < 2 ^ 63"
  shows "lo \<le> sint (avg_cost (risk_on_fill r ord q) (symbol_id ord)) \<and>
         sint (avg_cost (risk_on_fill r ord q) (symbol_id ord)) \<le> hi"
proof -
  let ?c = "position r (symbol_id ord)" and ?a = "avg_cost r (symbol_id ord)"
  have w: "lo \<le> sint (sdivw (?a * ?c + price ord * q) (?c + q)) \<and>
      sint (sdivw (?a * ?c + price ord * q) (?c + q)) \<le> hi \<and> ?c + q \<noteq> 0"
    by (rule weighted_average_bounds) (use assms in auto)
  then show ?thesis
    using buy by (auto simp: risk_on_fill_def avg_cost_def position_def Let_def)
qed

text \<open>The pause on drawdown is not a latch: a state that refuses every new order because its
  drawdown passed the first threshold admits orders again once the mark recovers, although the
  source's comment says the lock is never released.\<close>

theorem risk_drawdown_pause_not_latched:
  "\<exists>r sid p ord. drawdown_paused r \<and> \<not> check_order r ord \<and>
     \<not> drawdown_paused (mark r sid p) \<and> check_order (mark r sid p) ord"
proof -
  let ?r = "new_risk\<lparr>rm_initial_equity := 1000, rm_equity_peak := 1000,
      rm_max_drawdown_pause := 50, rm_qty := (\<lambda>_. 0)(1 := 10), rm_avg_cost := (\<lambda>_. 0)(1 := 100),
      rm_mark_price := (\<lambda>_. 0)(1 := 90)\<rparr>"
  let ?o = "empty_order\<lparr>symbol_id := 1, quantity := 5\<rparr>"
  have idx: "locate_idx 1 = 1" by (simp add: locate_idx_def)
  have one: "\<forall>l. l \<noteq> locate_idx 1 \<longrightarrow> rm_qty ?r l = 0" by (simp add: idx)
  have eq: "equity ?r = 900"
    using equity_one [OF one] by (simp add: idx pnl_at_def new_risk_def word_sless_alt)
  let ?m = "?r\<lparr>rm_mark_price := (rm_mark_price ?r)(locate_idx 1 := 100)\<rparr>"
  have one': "\<forall>l. l \<noteq> locate_idx 1 \<longrightarrow> rm_qty ?m l = 0" by (simp add: idx)
  have eq': "equity ?m = 1000"
    using equity_one [OF one'] by (simp add: idx pnl_at_def new_risk_def word_sless_alt)
  have m: "mark ?r 1 100 = ?m"
    unfolding mark_def update_equity_def Let_def eq' by (simp add: new_risk_def word_sless_alt)
  have p: "drawdown_paused ?r"
    unfolding drawdown_paused_def drawdown_def eq by (simp add: new_risk_def word_sless_alt)
  have np: "\<not> drawdown_paused ?m"
    unfolding drawdown_paused_def drawdown_def eq' by (simp add: new_risk_def word_sless_alt)
  have "\<not> check_order ?r ?o" using p by (simp add: check_order_def)
  moreover have "check_order ?m ?o"
    using np by (simp add: check_order_def idx) (simp add: new_risk_def empty_order_def idx word_sle_eq)
  ultimately show ?thesis using p np m by metis
qed


section \<open>Witnesses\<close>

text \<open>Ten shares of locate 1 bought at 100 and marked at 110, no limit in the way.\<close>

definition demo_risk :: risk where
  "demo_risk = new_risk\<lparr>rm_initial_equity := 1000, rm_equity_peak := 1100,
     rm_max_drawdown_pause := 50, rm_qty := (\<lambda>_. 0)(1 := 10), rm_avg_cost := (\<lambda>_. 0)(1 := 100),
     rm_mark_price := (\<lambda>_. 0)(1 := 110)\<rparr>"

definition demo_ticket :: "order_side \<Rightarrow> order" where
  "demo_ticket sd = empty_order\<lparr>symbol_id := 1, side := sd, quantity := 5, price := 110\<rparr>"

lemma demo_ticket_fields [simp]:
  "symbol_id (demo_ticket sd) = 1" "side (demo_ticket sd) = sd" "quantity (demo_ticket sd) = 5"
  "price (demo_ticket sd) = 110" "locate_idx 1 = 1"
  by (simp_all add: demo_ticket_def empty_order_def locate_idx_def)

lemma demo_risk_fields [simp]:
  "rm_qty demo_risk l = (if l = 1 then 10 else 0)"
  "rm_avg_cost demo_risk l = (if l = 1 then 100 else 0)"
  "rm_mark_price demo_risk l = (if l = 1 then 110 else 0)"
  "rm_max_position demo_risk = 100000" "rm_realized_pnl demo_risk = 0"
  by (simp_all add: demo_risk_def new_risk_def)

lemma demo_risk_equity: "equity demo_risk = 1100"
  using equity_one [of 1 demo_risk] by (simp add: pnl_at_def word_sless_alt)
     (simp add: demo_risk_def new_risk_def)

lemma demo_check: "check_order demo_risk (demo_ticket BUY)" "check_order demo_risk (demo_ticket SELL)"
  by (simp_all add: check_order_def drawdown_paused_def drawdown_def demo_risk_equity word_sle_eq)
     (simp_all add: demo_risk_def new_risk_def word_sless_alt)

lemma risk_check_bounds_position_witness:
  "position (risk_on_fill demo_risk (demo_ticket BUY) 5) 1 \<le> 100000 \<and>
   unat (position (risk_on_fill demo_risk (demo_ticket SELL) 3) 1) + 3 = 10"
  using risk_check_bounds_position [OF demo_check(1), of 5]
    risk_check_bounds_position [OF demo_check(2), of 3]
  by (simp add: position_def)

lemma risk_sell_at_mark_keeps_equity_witness:
  "equity (risk_on_fill demo_risk (demo_ticket SELL) 5) = 1100"
  using risk_sell_at_mark_keeps_equity [of "demo_ticket SELL" demo_risk 5]
  by (simp add: position_def word_sless_alt demo_risk_equity)

lemma risk_buy_average_cost_bounds_witness:
  "100 \<le> sint (avg_cost (risk_on_fill demo_risk (demo_ticket BUY) 5) 1) \<and>
   sint (avg_cost (risk_on_fill demo_risk (demo_ticket BUY) 5) 1) \<le> 110"
  using risk_buy_average_cost_bounds [of "demo_ticket BUY" 5 100 demo_risk 110]
  by (simp add: position_def avg_cost_def)

end
