(* ===== verification/NX_Bytes.thy ===== *)
theory NX_Bytes
  imports NX_Prelude
begin

text \<open>
  Byte strings and the fixed-width fields the protocols use: big-endian integers, ASCII decimal
  numbers as \<open>snprintf\<close> and \<open>strtoull\<close> write and read them, and the field writes
  (\<open>memcpy\<close> at an offset) into a message buffer. The codecs, the parser, the packet unpacker and
  the byte rings share it.
\<close>

type_synonym bytes = "u8 list"

section \<open>Big-endian integers\<close>

text \<open>\<open>htobe64\<close> and the \<open>be64\<close> helpers: the most significant byte first.\<close>

definition be16_store :: "u16 \<Rightarrow> bytes" where
  "be16_store v = [to_u8 (drop_bit 8 v), to_u8 v]"

definition be32_store :: "u32 \<Rightarrow> bytes" where
  "be32_store v = [to_u8 (drop_bit 24 v), to_u8 (drop_bit 16 v), to_u8 (drop_bit 8 v), to_u8 v]"

definition be64_store :: "u64 \<Rightarrow> bytes" where
  "be64_store v = map (\<lambda>i. to_u8 (drop_bit (56 - 8 * i) v)) [0..<8]"

text \<open>The readers fold \<open>v = (v << 8) | p[i]\<close> over the bytes.\<close>

definition be_fold :: "bytes \<Rightarrow> u64" where
  "be_fold bs = foldl (\<lambda>v b. push_bit 8 v OR to_u64 b) 0 bs"

definition be16 :: "bytes \<Rightarrow> nat \<Rightarrow> u16" where
  "be16 p i = push_bit 8 (to_u16 (p ! i)) OR to_u16 (p ! (i + 1))"

definition be32 :: "bytes \<Rightarrow> nat \<Rightarrow> u32" where
  "be32 p i = push_bit 24 (to_u32 (p ! i)) OR push_bit 16 (to_u32 (p ! (i + 1))) OR
     push_bit 8 (to_u32 (p ! (i + 2))) OR to_u32 (p ! (i + 3))"

definition be64 :: "bytes \<Rightarrow> nat \<Rightarrow> u64" where
  "be64 p i = be_fold (map (\<lambda>k. p ! (i + k)) [0..<8])"

lemma length_be_store [simp]:
  "length (be16_store a) = 2" "length (be32_store b) = 4" "length (be64_store c) = 8"
  by (simp_all add: be16_store_def be32_store_def be64_store_def)

lemma upt_8: "[0..<8] = [0, 1, 2, 3, 4, 5, 6, 7 :: nat]"
  by (simp add: upt_rec)

lemma be16_of_store: "push_bit 8 (to_u16 (to_u8 (drop_bit 8 v))) OR to_u16 (to_u8 v) = v"
  for v :: u16
  by (rule bit_word_eqI) (auto simp: bit_simps)

lemma be32_of_store:
  fixes v :: u32
  shows "push_bit 24 (to_u32 (to_u8 (drop_bit 24 v))) OR push_bit 16 (to_u32 (to_u8 (drop_bit 16 v))) OR
     push_bit 8 (to_u32 (to_u8 (drop_bit 8 v))) OR to_u32 (to_u8 v) = v" (is "?l = v")
proof (rule bit_word_eqI)
  fix n assume "n < LENGTH(32)"
  then show "bit ?l n = bit v n"
    by (cases "n < 8"; cases "n < 16"; cases "n < 24") (auto simp: bit_simps)
qed

lemma be_fold_step:
  fixes v :: u64
  shows "push_bit 8 (drop_bit (n + 8) v) OR to_u64 (to_u8 (drop_bit n v)) = drop_bit n v"
proof (rule bit_word_eqI)
  fix m assume m: "m < LENGTH(64)"
  show "bit (push_bit 8 (drop_bit (n + 8) v) OR to_u64 (to_u8 (drop_bit n v))) m = bit (drop_bit n v) m"
    using m by (cases "m < 8") (auto simp: bit_simps algebra_simps)
qed

lemma be_fold_store: "be_fold (be64_store v) = v"
proof -
  have "push_bit 8 (0::u64) OR to_u64 (to_u8 (drop_bit 56 v)) = drop_bit 56 v"
    by (rule bit_word_eqI) (auto simp: bit_simps dest: bit_imp_le_length)
  then show ?thesis
    using be_fold_step [of 48 v] be_fold_step [of 40 v] be_fold_step [of 32 v]
      be_fold_step [of 24 v] be_fold_step [of 16 v] be_fold_step [of 8 v] be_fold_step [of 0 v]
    by (simp add: be_fold_def be64_store_def upt_8)
qed


section \<open>Fields of a message buffer\<close>

text \<open>\<open>memcpy(p + off, fs, n)\<close> into a buffer, and the \<open>n\<close> bytes at an offset of one.\<close>

definition put :: "bytes \<Rightarrow> nat \<Rightarrow> bytes \<Rightarrow> bytes" where
  "put p off fs = take off p @ fs @ drop (off + length fs) p"

definition field :: "bytes \<Rightarrow> nat \<Rightarrow> nat \<Rightarrow> bytes" where
  "field p off n = take n (drop off p)"

lemma length_put [simp]: "off + length fs \<le> length p \<Longrightarrow> length (put p off fs) = length p"
  by (simp add: put_def)

lemma field_put_same [simp]:
  "off + length fs \<le> length p \<Longrightarrow> n = length fs \<Longrightarrow> field (put p off fs) off n = fs"
  by (simp add: put_def field_def)

lemma field_put_below [simp]:
  "i + n \<le> off \<Longrightarrow> off + length fs \<le> length p \<Longrightarrow> field (put p off fs) i n = field p i n"
  by (simp add: put_def field_def take_drop min_def)

lemma field_put_above [simp]:
  "off + length fs \<le> i \<Longrightarrow> off + length fs \<le> length p \<Longrightarrow> field (put p off fs) i n = field p i n"
  by (simp add: put_def field_def)

lemma take_put [simp]:
  "n \<le> off \<Longrightarrow> off + length fs \<le> length p \<Longrightarrow> take n (put p off fs) = take n p"
  by (simp add: put_def min_def)

lemma nth_field: "i < length p \<Longrightarrow> field p i 1 = [p ! i]"
  by (simp add: field_def take_Suc_conv_app_nth hd_drop_conv_nth Cons_nth_drop_Suc [symmetric])

lemma be32_field: "i + 4 \<le> length p \<Longrightarrow> be32 p i = be32 (field p i 4) 0"
  by (simp add: be32_def field_def)

lemma be64_field: "i + 8 \<le> length p \<Longrightarrow> be64 p i = be_fold (field p i 8)"
  unfolding be64_def field_def
  by (rule arg_cong [where f = be_fold], rule nth_equalityI) auto

lemma be16_field: "i + 2 \<le> length p \<Longrightarrow> be16 p i = be16 (field p i 2) 0"
  by (simp add: be16_def field_def)

lemma be32_field_store [simp]: "be32 (be32_store v) 0 = v"
  using be32_of_store [of v] by (simp add: be32_def be32_store_def)

lemma be16_field_store [simp]: "be16 (be16_store v) 0 = v"
  using be16_of_store [of v] by (simp add: be16_def be16_store_def)

text \<open>A field of a message built by concatenation is a field of the part it lies in.\<close>

lemma field_append_left: "i + n \<le> length xs \<Longrightarrow> field (xs @ ys) i n = field xs i n"
  by (simp add: field_def)

lemma field_append_right: "length xs \<le> i \<Longrightarrow> field (xs @ ys) i n = field ys (i - length xs) n"
  by (simp add: field_def)

lemma field_cons: "0 < i \<Longrightarrow> field (x # ys) i n = field ys (i - 1) n"
  by (cases i) (simp_all add: field_def)

lemma field_whole: "n = length xs \<Longrightarrow> field xs 0 n = xs"
  by (simp add: field_def)

lemmas field_simps = field_append_left field_append_right field_cons field_whole

lemmas read_field = be32_field be64_field be16_field be_fold_store

text \<open>
  \<open>memset(buf, ' ', n)\<close> followed by the field writes of an encoder, in the order of the code.
  \<open>rd\<close> reads a field back from the writes (the last one first); it is \<^const>\<open>None\<close> where a read
  straddles a write, so a result \<^term>\<open>Some v\<close> proves what the field holds.
\<close>

type_synonym writes = "(nat \<times> bytes) list"

definition layout :: "nat \<Rightarrow> writes \<Rightarrow> bytes" where
  "layout n fs = foldl (\<lambda>b (off, f). put b off f) (replicate n 0x20) fs"

definition fits :: "nat \<Rightarrow> writes \<Rightarrow> bool" where
  "fits n fs \<longleftrightarrow> (\<forall>(off, f) \<in> set fs. off + length f \<le> n)"

fun rd :: "writes \<Rightarrow> nat \<Rightarrow> nat \<Rightarrow> bytes option" where
  "rd [] i k = Some (replicate k 0x20)"
| "rd ((off, f) # r) i k =
     (if i + k \<le> off \<or> off + length f \<le> i then rd r i k
      else if off = i \<and> length f \<le> k then map_option ((@) f) (rd r (i + length f) (k - length f))
      else None)"

lemma layout_snoc: "layout n (fs @ [(off, f)]) = put (layout n fs) off f"
  by (simp add: layout_def)

lemma fits_snoc: "fits n (fs @ [(off, f)]) \<longleftrightarrow> fits n fs \<and> off + length f \<le> n"
  by (auto simp: fits_def)

lemma fits_Cons [simp]: "fits n ((off, f) # fs) \<longleftrightarrow> off + length f \<le> n \<and> fits n fs"
  by (auto simp: fits_def)

lemma fits_Nil [simp]: "fits n []"
  by (simp add: fits_def)

lemma length_layout: "fits n fs \<Longrightarrow> length (layout n fs) = n"
proof (induction fs rule: rev_induct)
  case Nil then show ?case by (simp add: layout_def)
next
  case (snoc x fs) then show ?case by (cases x) (simp add: layout_snoc fits_snoc)
qed

lemma field_split: "j \<le> k \<Longrightarrow> field p i k = field p i j @ field p (i + j) (k - j)"
  using take_add [of j "k - j" "drop i p"] by (simp add: field_def add.commute)

lemma field_layout:
  assumes "fits n fs" "i + k \<le> n" "rd (rev fs) i k = Some v"
  shows "field (layout n fs) i k = v"
  using assms
proof (induction fs arbitrary: i k v rule: rev_induct)
  case Nil then show ?case by (auto simp: layout_def field_def min_def)
next
  case (snoc x fs)
  obtain off f where x: "x = (off, f)" by (cases x)
  have fit: "fits n fs" "off + length f \<le> n" and len: "length (layout n fs) = n"
    using snoc.prems(1) x by (simp_all add: fits_snoc length_layout)
  show ?case
  proof (cases "i + k \<le> off \<or> off + length f \<le> i")
    case True
    with snoc.prems(3) x have r: "rd (rev fs) i k = Some v" by simp
    show ?thesis
      using True snoc.IH [OF fit(1) snoc.prems(2) r] fit(2) len by (auto simp: x layout_snoc)
  next
    case False
    with snoc.prems(3) x obtain t where
      t: "off = i" "length f \<le> k" "rd (rev fs) (i + length f) (k - length f) = Some t" "v = f @ t"
      by (auto split: if_splits)
    have "field (layout n fs) (i + length f) (k - length f) = t"
      using snoc.IH [OF fit(1) _ t(3)] snoc.prems(2) t(2) by simp
    then show ?thesis
      using field_split [OF t(2), of "put (layout n fs) off f" i] fit(2) len t
      by (simp add: x layout_snoc)
  qed
qed

text \<open>\<open>checksum\<close>: the sum of the first \<open>n\<close> bytes, its low eight bits.\<close>

definition checksum :: "bytes \<Rightarrow> nat \<Rightarrow> u8" where
  "checksum b n = to_u8 (foldl (\<lambda>s x. s + to_u32 x) 0 (take n b) AND 0xFF)"

lemma checksum_put [simp]:
  "n \<le> off \<Longrightarrow> off + length fs \<le> length p \<Longrightarrow> checksum (put p off fs) n = checksum p n"
  by (simp add: checksum_def)

lemma to_u8_add: "to_u8 (a + to_u32 x) = to_u8 a + x" for a :: u32 and x :: u8
proof -
  have *: "take_bit 8 (take_bit 32 m + take_bit 32 n) = take_bit 8 (m + n)" for m n :: int
    using take_bit_add [of 8 "take_bit 32 m" "take_bit 32 n"] take_bit_add [of 8 m n]
    by (simp add: take_bit_take_bit)
  have "to_u8 (a + b) = to_u8 a + to_u8 b" for b :: u32
    by transfer (simp add: * )
  moreover have "to_u8 (to_u32 x) = x" by (rule bit_word_eqI) (auto simp: bit_simps)
  ultimately show ?thesis by simp
qed

lemma checksum_sum: "checksum b n = sum_list (take n b)"
proof -
  have fold: "to_u8 (foldl (\<lambda>s x. s + to_u32 x) (a :: u32) xs) = to_u8 a + sum_list xs" for a xs
  proof (induction xs arbitrary: a)
    case Nil then show ?case by simp
  next
    case (Cons x xs)
    have "to_u8 (a + to_u32 x) = to_u8 a + x"
      by (rule to_u8_add)
    with Cons show ?case by (simp add: add.assoc)
  qed
  have "a AND 0xFF = take_bit 8 a" for a :: u32
    by (simp add: take_bit_eq_mask mask_eq_exp_minus_1)
  then have mask: "to_u8 (a AND 0xFF) = to_u8 a" for a :: u32
    by (simp add: take_bit_word_eq_self) (rule bit_word_eqI, auto simp: bit_simps)
  show ?thesis by (simp add: checksum_def mask fold)
qed

text \<open>A message with one byte changed has another checksum.\<close>

lemma checksum_one_byte:
  assumes "i < n" "n \<le> length b" "x \<noteq> b ! i"
  shows "checksum (b[i := x]) n \<noteq> checksum b n"
proof -
  have "sum_list (take n (b[i := x])) = sum_list (take n b) - b ! i + x"
    using assms sum_list_update_ring [of i "take n b" x] by (simp add: take_update_swap)
  then show ?thesis using assms(3) by (auto simp: checksum_sum)
qed

section \<open>Decimal numbers\<close>

text \<open>\<open>%llu\<close> of \<open>snprintf\<close>: the decimal digits, most significant first.\<close>

fun dec_digits :: "nat \<Rightarrow> bytes" where
  "dec_digits n = (if n < 10 then [of_nat (48 + n)]
                   else dec_digits (n div 10) @ [of_nat (48 + n mod 10)])"

declare dec_digits.simps [simp del]

definition is_digit :: "u8 \<Rightarrow> bool" where
  "is_digit c \<longleftrightarrow> 48 \<le> c \<and> c \<le> 57"

definition is_space :: "u8 \<Rightarrow> bool" where
  "is_space c \<longleftrightarrow> c = 32 \<or> (9 \<le> c \<and> c \<le> 13)"

definition dec_value :: "bytes \<Rightarrow> nat" where
  "dec_value ds = foldl (\<lambda>a d. a * 10 + (unat d - 48)) 0 ds"

text \<open>
  \<open>strtoull(s, nullptr, 10)\<close>: white space, an optional sign, then digits up to the first other
  byte (the terminating zero included); a value that does not fit is \<open>ULLONG_MAX\<close>.
\<close>

definition strtoull :: "bytes \<Rightarrow> u64" where
  "strtoull s =
     (let s1 = dropWhile is_space s;
          neg = (s1 \<noteq> [] \<and> hd s1 = 45);
          s2 = (if s1 \<noteq> [] \<and> (hd s1 = 45 \<or> hd s1 = 43) then tl s1 else s1);
          n = dec_value (takeWhile is_digit s2)
      in if 2 ^ 64 \<le> n then -1 else if neg then - of_nat n else of_nat n)"

lemma unat_digit: "k < 10 \<Longrightarrow> unat (of_nat (48 + k) :: u8) = 48 + k"
  by (simp add: unat_of_nat take_bit_nat_eq_self del: of_nat_add)

lemma is_digit_digit: "k < 10 \<Longrightarrow> is_digit (of_nat (48 + k))"
  using unat_digit [of k] by (simp add: is_digit_def word_le_nat_alt)

lemma dec_value_append: "dec_value (xs @ [d]) = dec_value xs * 10 + (unat d - 48)"
  by (simp add: dec_value_def)

lemma dec_digits_props:
  "dec_value (dec_digits n) = n \<and> (\<forall>d \<in> set (dec_digits n). is_digit d) \<and> dec_digits n \<noteq> []"
proof (induction n rule: dec_digits.induct)
  case (1 n)
  show ?case
  proof (cases "n < 10")
    case True
    then show ?thesis
      by (simp add: dec_digits.simps dec_value_def unat_digit is_digit_digit del: of_nat_add)
  next
    case False
    with "1.IH" show ?thesis
      by (subst (1 2 3) dec_digits.simps)
         (simp add: dec_value_append unat_digit is_digit_digit del: of_nat_add)
  qed
qed

lemma dec_digits_length: "0 < k \<Longrightarrow> n < 10 ^ k \<Longrightarrow> length (dec_digits n) \<le> k"
proof (induction k arbitrary: n)
  case 0 then show ?case by simp
next
  case (Suc k)
  show ?case
  proof (cases "n < 10")
    case True
    then show ?thesis by (simp add: dec_digits.simps)
  next
    case False
    with Suc.prems have "0 < k" by (cases k) auto
    moreover have "n div 10 < 10 ^ k" using Suc.prems(2) by (simp add: less_mult_imp_div_less)
    ultimately have "length (dec_digits (n div 10)) \<le> k" by (rule Suc.IH)
    with False show ?thesis by (subst dec_digits.simps) simp
  qed
qed

lemma dec_value_zeros: "dec_value (replicate k 48 @ ds) = dec_value ds"
  by (induction k) (simp_all add: dec_value_def)

text \<open>Reading back digits that are padded by zeros on the left and followed by a non-digit.\<close>

lemma strtoull_digits:
  assumes "\<forall>d \<in> set ds. is_digit d" "ds \<noteq> []" "rest = [] \<or> \<not> is_digit (hd rest)"
    "dec_value ds < 2 ^ 64"
  shows "strtoull (ds @ rest) = of_nat (dec_value ds)"
proof -
  obtain d ds' where ds: "ds = d # ds'" using assms(2) by (cases ds) auto
  have d: "is_digit d" using assms(1) ds by simp
  have "\<not> is_space d" "d \<noteq> 45" "d \<noteq> 43"
    using d by (auto simp: is_digit_def is_space_def word_le_nat_alt)
  moreover have "takeWhile is_digit (ds @ rest) = ds"
    using assms(1,3) by (cases rest) (auto simp: takeWhile_append2)
  ultimately show ?thesis
    using assms(4) ds by (simp add: strtoull_def Let_def)
qed

lemma strtoull_padded:
  assumes "n < 2 ^ 64" "rest = [] \<or> \<not> is_digit (hd rest)"
  shows "strtoull (replicate k 48 @ dec_digits n @ rest) = of_nat n"
proof -
  let ?ds = "replicate k 48 @ dec_digits n"
  have "is_digit 48" using is_digit_digit [of 0] by simp
  then have "\<forall>d \<in> set ?ds. is_digit d" using dec_digits_props [of n] by auto
  moreover have "?ds \<noteq> []" "dec_value ?ds = n" using dec_digits_props [of n] by (simp_all add: dec_value_zeros)
  ultimately have "strtoull (?ds @ rest) = of_nat n"
    using strtoull_digits [of ?ds rest] assms by simp
  then show ?thesis by simp
qed

end
