(* ===== verification/Codec_Interface.thy ===== *)
theory Codec_Interface
  imports NX_Types NX_Bytes
begin

text \<open>
  The codec interface of \<^verbatim>\<open>oms/i_order_codec.h\<close> as a locale: what the exchange side relies on when
  it decodes a byte stream of orders, whichever of the two protocols is configured. Its client
  lemmas are proved once here; each codec theory interprets the locale on its own encoder and
  decoder.
\<close>

section \<open>The order half of the interface\<close>

text \<open>
  \<open>enc\<close> is the message \<open>encode_order\<close> writes into a large enough buffer, \<open>dec\<close> the decoder,
  \<open>msg_len\<close> the value of \<open>order_msg_len()\<close>, \<open>ok\<close> the orders the wire format can carry and \<open>image\<close>
  what it carries of them.
\<close>

locale order_codec =
  fixes enc :: "order \<Rightarrow> bytes"
    and dec :: "bytes \<Rightarrow> order option"
    and msg_len :: nat
    and ok :: "order \<Rightarrow> bool"
    and image :: "order \<Rightarrow> order"
  assumes msg_len_pos: "0 < msg_len"
    and enc_length: "length (enc ord) = msg_len"
    and dec_enc: "ok ord \<Longrightarrow> dec (enc ord @ rest) = Some (image ord)"
    and image_ok: "ok ord \<Longrightarrow> ok (image ord)"
    and image_idem: "image (image ord) = image ord"
begin

text \<open>Orders with the same bytes are the same order as far as the protocol can tell.\<close>

lemma enc_injective:
  assumes "ok a" "ok b" "enc a = enc b"
  shows "image a = image b"
  using dec_enc [OF assms(1), of "[]"] dec_enc [OF assms(2), of "[]"] assms(3) by simp

text \<open>Re-encoding a decoded order and decoding it again gives the same order.\<close>

lemma decoded_stable:
  assumes "ok ord" "dec (enc ord @ rest) = Some d"
  shows "dec (enc d @ rest') = Some d"
  using assms dec_enc [OF image_ok [OF assms(1)], of rest'] by (auto simp: dec_enc image_idem)

text \<open>
  The receiving loop: decode at the head of the buffer, advance by \<open>order_msg_len()\<close>, stop at the
  first message that does not decode (an incomplete one included).
\<close>

fun drain :: "nat \<Rightarrow> bytes \<Rightarrow> order list \<times> bytes" where
  "drain 0 buf = ([], buf)"
| "drain (Suc k) buf =
     (if length buf < msg_len then ([], buf)
      else case dec buf of
        None \<Rightarrow> ([], buf)
      | Some ord \<Rightarrow> (case drain k (drop msg_len buf) of (os, r) \<Rightarrow> (ord # os, r)))"

text \<open>Messages written back to back are read back one by one, and the incomplete tail is kept.\<close>

lemma drain_stream:
  assumes "\<forall>x \<in> set os. ok x" "length rest < msg_len" "length os \<le> k"
  shows "drain k (concat (map enc os) @ rest) = (map image os, rest)"
  using assms
proof (induction os arbitrary: k)
  case Nil
  then show ?case by (cases k) simp_all
next
  case (Cons ord os)
  then obtain j where k: "k = Suc j" by (cases k) auto
  have "dec (enc ord @ concat (map enc os) @ rest) = Some (image ord)"
    using Cons.prems(1) by (simp add: dec_enc)
  moreover have "drain j (concat (map enc os) @ rest) = (map image os, rest)"
    using Cons by (simp add: k)
  ultimately show ?case by (simp add: k enc_length)
qed

end

end
