(* ===== verification/Custom_Codec.thy ===== *)
theory Custom_Codec
  imports Codec_Interface
begin

text \<open>
  The first implementation of the codec interface, the fixed-length big-endian protocol of
  \<^verbatim>\<open>oms/custom_order_codec.h\<close>. An encoder takes whether the buffer pointer
  is non-null and the capacity, and returns the message it writes (its length is \<open>out_len\<close>) or
  \<^const>\<open>None\<close> where the code returns false; a decoder takes the buffer's bytes.
\<close>

section \<open>The custom protocol\<close>

abbreviation kOrderMsgLen :: nat where "kOrderMsgLen \<equiv> 42"
abbreviation kFillMsgLen :: nat where "kFillMsgLen \<equiv> 25"
abbreviation kMsgOrder :: u8 where "kMsgOrder \<equiv> 0x4F"
abbreviation kMsgFill :: u8 where "kMsgFill \<equiv> 0x46"

definition cc_encode_order :: "order \<Rightarrow> bool \<Rightarrow> nat \<Rightarrow> bytes option" where
  "cc_encode_order ord buf_ok cap =
     (if \<not> buf_ok \<or> cap < kOrderMsgLen then None
      else Some ([kMsgOrder] @ be64_store (order_id ord) @ be64_store (symbol_id ord) @
             [if side ord = SELL then 1 else 0] @ be64_store (price ord) @
             be64_store (quantity ord) @ be64_store (timestamp ord)))"

definition cc_decode_order :: "bytes \<Rightarrow> order option" where
  "cc_decode_order buf =
     (if length buf < kOrderMsgLen \<or> buf ! 0 \<noteq> kMsgOrder then None
      else Some (empty_order\<lparr>order_id := be64 buf 1, symbol_id := be64 buf 9,
             side := (if buf ! 17 = 1 then SELL else BUY), price := be64 buf 18,
             quantity := be64 buf 26, timestamp := be64 buf 34, otype := MARKET\<rparr>))"

definition cc_encode_fill :: "u64 \<Rightarrow> u64 \<Rightarrow> i64 \<Rightarrow> bool \<Rightarrow> nat \<Rightarrow> bytes option" where
  "cc_encode_fill oid filled_qty fill_price buf_ok cap =
     (if \<not> buf_ok \<or> cap < kFillMsgLen then None
      else Some ([kMsgFill] @ be64_store oid @ be64_store filled_qty @ be64_store fill_price))"

text \<open>\<open>out\<close> is the caller's \<open>Fill\<close>; the decoder leaves its \<open>exchange_ref\<close> alone.\<close>

definition cc_decode_fill :: "bytes \<Rightarrow> fill \<Rightarrow> fill option" where
  "cc_decode_fill buf out =
     (if length buf < kFillMsgLen \<or> buf ! 0 \<noteq> kMsgFill then None
      else Some (out\<lparr>f_order_id := be64 buf 1, f_filled_qty := be64 buf 9,
             f_fill_price := be64 buf 17, f_type := kMsgFill\<rparr>))"

definition cc_encode_cancel_request :: "u64 \<Rightarrow> bool \<Rightarrow> nat \<Rightarrow> bytes option" where
  "cc_encode_cancel_request oid buf_ok cap =
     (if \<not> buf_ok \<or> cap < 9 then None else Some ([0x43] @ be64_store oid))"

text \<open>The interface's defaults for the book queries, which this codec inherits.\<close>

definition cc_encode_book_query :: "u64 \<Rightarrow> bool \<Rightarrow> nat \<Rightarrow> bytes option" where
  "cc_encode_book_query sid buf_ok cap = None"

definition cc_decode_book :: "bytes \<Rightarrow> book_quote option" where
  "cc_decode_book buf = None"

section \<open>Reading a concatenation of fields\<close>

lemma be64_at:
  assumes "i = length xs"
  shows "be64 (xs @ be64_store v @ ys) i = v"
  using assms by (subst be64_field) (simp_all add: field_def be_fold_store)


text \<open>The order's wire image: what the protocol carries of an order.\<close>

definition cc_image :: "order \<Rightarrow> order" where
  "cc_image ord = ord\<lparr>strategy_id := 0, otype := MARKET,
     side := (if side ord = SELL then SELL else BUY)\<rparr>"

lemma cc_encode_order_length: "cc_encode_order ord ok cap = Some bs \<Longrightarrow> length bs = kOrderMsgLen"
  by (auto simp: cc_encode_order_def split: if_splits)

lemma cc_order_roundtrip:
  assumes "cc_encode_order ord True cap = Some bs"
  shows "cc_decode_order (bs @ rest) = Some (cc_image ord)"
proof -
  let ?a = "be64_store (order_id ord)" and ?b = "be64_store (symbol_id ord)"
  let ?s = "[if side ord = SELL then 1 else 0 :: u8]"
  let ?c = "be64_store (price ord)" and ?d = "be64_store (quantity ord)"
  let ?e = "be64_store (timestamp ord)"
  have bs: "bs @ rest = [kMsgOrder] @ ?a @ ?b @ ?s @ ?c @ ?d @ ?e @ rest"
    using assms by (auto simp: cc_encode_order_def split: if_splits)
  have s: "([kMsgOrder] @ ?a @ ?b @ ?s @ ?c @ ?d @ ?e @ rest) ! 17 = (if side ord = SELL then 1 else 0)"
    by (simp add: nth_append)
  have "be64 (bs @ rest) 1 = order_id ord"
    using be64_at [of 1 "[kMsgOrder]" "order_id ord"] unfolding bs by simp
  moreover have "be64 (bs @ rest) 9 = symbol_id ord"
    using be64_at [of 9 "[kMsgOrder] @ ?a" "symbol_id ord"] unfolding bs by simp
  moreover have "be64 (bs @ rest) 18 = price ord"
    using be64_at [of 18 "[kMsgOrder] @ ?a @ ?b @ ?s" "price ord"] unfolding bs by simp
  moreover have "be64 (bs @ rest) 26 = quantity ord"
    using be64_at [of 26 "[kMsgOrder] @ ?a @ ?b @ ?s @ ?c" "quantity ord"] unfolding bs by simp
  moreover have "be64 (bs @ rest) 34 = timestamp ord"
    using be64_at [of 34 "[kMsgOrder] @ ?a @ ?b @ ?s @ ?c @ ?d" "timestamp ord"] unfolding bs by simp
  moreover have "length (bs @ rest) \<ge> kOrderMsgLen" "(bs @ rest) ! 0 = kMsgOrder"
    unfolding bs by simp_all
  ultimately show ?thesis
    using s unfolding cc_decode_order_def bs [symmetric]
    by (simp add: cc_image_def empty_order_def)
qed

lemma cc_fill_roundtrip:
  assumes "cc_encode_fill oid q px True cap = Some bs"
  shows "cc_decode_fill (bs @ rest) out = Some (out\<lparr>f_order_id := oid, f_filled_qty := q,
           f_fill_price := px, f_type := kMsgFill\<rparr>)"
proof -
  have bs: "bs @ rest = [kMsgFill] @ be64_store oid @ be64_store q @ be64_store px @ rest"
    using assms by (auto simp: cc_encode_fill_def split: if_splits)
  have "be64 (bs @ rest) 1 = oid"
    using be64_at [of 1 "[kMsgFill]" oid] unfolding bs by simp
  moreover have "be64 (bs @ rest) 9 = q"
    using be64_at [of 9 "[kMsgFill] @ be64_store oid" q] unfolding bs by simp
  moreover have "be64 (bs @ rest) 17 = px"
    using be64_at [of 17 "[kMsgFill] @ be64_store oid @ be64_store q" px] unfolding bs by simp
  moreover have "length (bs @ rest) \<ge> kFillMsgLen" "(bs @ rest) ! 0 = kMsgFill"
    unfolding bs by simp_all
  ultimately show ?thesis unfolding cc_decode_fill_def bs [symmetric] by simp
qed

section \<open>The interface laws\<close>

definition cc_order_msg :: "order \<Rightarrow> bytes" where
  "cc_order_msg ord = the (cc_encode_order ord True kOrderMsgLen)"

lemma cc_encode_msg: "cc_encode_order ord True kOrderMsgLen = Some (cc_order_msg ord)"
  by (simp add: cc_order_msg_def cc_encode_order_def)

interpretation custom: order_codec cc_order_msg cc_decode_order kOrderMsgLen "\<lambda>_. True" cc_image
proof unfold_locales
  show "0 < kOrderMsgLen" by simp
  show "length (cc_order_msg ord) = kOrderMsgLen" for ord
    by (rule cc_encode_order_length [OF cc_encode_msg])
  show "cc_decode_order (cc_order_msg ord @ rest) = Some (cc_image ord)" for ord rest
    by (rule cc_order_roundtrip [OF cc_encode_msg])
  show "True" by simp
  show "cc_image (cc_image ord) = cc_image ord" for ord by (simp add: cc_image_def)
qed

end
