(* ===== verification/Ouch_Codec.thy ===== *)
theory Ouch_Codec
  imports Custom_Codec
begin

text \<open>
  The OUCH 4.2 codec of \<^verbatim>\<open>oms/ouch_order_codec.h\<close>. An encoder fills the message with blanks and
  writes its fields in the order of the code (\<^const>\<open>layout\<close>), then the checksum over all earlier
  bytes into the last one (\<open>seal\<close>). The codec's mutex-guarded tables are the record \<open>ouch\<close>:
  the encoders of the exchange side allocate order reference numbers in it, the decoder of the
  trader side learns them from the acknowledgements.
\<close>

section \<open>Lengths, types and state\<close>

abbreviation kOuchOrderLen :: nat where "kOuchOrderLen \<equiv> 49"
abbreviation kAckMsgLen :: nat where "kAckMsgLen \<equiv> 39"
abbreviation kExecMsgLen :: nat where "kExecMsgLen \<equiv> 42"
abbreviation kCancelMsgLen :: nat where "kCancelMsgLen \<equiv> 39"
abbreviation kRejectMsgLen :: nat where "kRejectMsgLen \<equiv> 36"
abbreviation kCancelReqLen :: nat where "kCancelReqLen \<equiv> 19"
abbreviation kBookQueryMsgLen :: nat where "kBookQueryMsgLen \<equiv> 13"
abbreviation kBookMsgLen :: nat where "kBookMsgLen \<equiv> 34"

abbreviation kMsgAck :: u8 where "kMsgAck \<equiv> 0x41"
abbreviation kMsgExec :: u8 where "kMsgExec \<equiv> 0x45"
abbreviation kMsgCancel :: u8 where "kMsgCancel \<equiv> 0x43"
abbreviation kMsgReject :: u8 where "kMsgReject \<equiv> 0x4A"
abbreviation kMsgCancelReq :: u8 where "kMsgCancelReq \<equiv> 0x58"
abbreviation kMsgBookQuery :: u8 where "kMsgBookQuery \<equiv> 0x51"
abbreviation kMsgBook :: u8 where "kMsgBook \<equiv> 0x42"

record ouch =
  token_to_id :: "bytes \<rightharpoonup> u64"
  id_to_ref :: "u64 \<rightharpoonup> u64"
  ref_to_id :: "u64 \<rightharpoonup> u64"
  next_ref :: u64

definition new_ouch :: ouch where
  "new_ouch = \<lparr>token_to_id = Map.empty, id_to_ref = Map.empty, ref_to_id = Map.empty, next_ref = 1\<rparr>"

section \<open>Helpers\<close>

text \<open>\<open>snprintf(t, 15, "%014llu", id)\<close>: at least 14 digits, of which the buffer keeps the first 14.\<close>

definition token_for :: "u64 \<Rightarrow> bytes" where
  "token_for oid =
     (let ds = dec_digits (unat oid) in take 14 (replicate (14 - length ds) 0x30 @ ds))"

text \<open>\<open>snprintf(book, 11, "%llu", id)\<close> and the \<open>strlen(book)\<close> bytes copied from it.\<close>

definition book_digits :: "u64 \<Rightarrow> bytes" where
  "book_digits sid = take 10 (dec_digits (unat sid))"

definition ref_for :: "ouch \<Rightarrow> u64 \<Rightarrow> ouch \<times> u64" where
  "ref_for st oid =
     (case id_to_ref st oid of
        Some r \<Rightarrow> (st, r)
      | None \<Rightarrow> (let r = next_ref st
                 in (st\<lparr>next_ref := r + 1, id_to_ref := (id_to_ref st)(oid \<mapsto> r)\<rparr>, r)))"

definition side_char :: "order_side \<Rightarrow> u8" where
  "side_char sd = (if sd = SELL then 0x53 else 0x42)"

text \<open>\<open>buf[n-1] = checksum(buf, n-1)\<close>, the last write of every encoder.\<close>

definition seal :: "nat \<Rightarrow> bytes \<Rightarrow> bytes" where
  "seal n b = put b (n - 1) [checksum b (n - 1)]"

definition wire_price :: "i64 \<Rightarrow> bytes" where
  "wire_price px = be32_store (to_u32 (px * 100))"

definition read_price :: "bytes \<Rightarrow> nat \<Rightarrow> i64" where
  "read_price buf i = sdivw (to_u64 (be32 buf i)) 100"

section \<open>Encoders and decoders\<close>

definition ouch_order_writes :: "order \<Rightarrow> writes" where
  "ouch_order_writes ord =
     [(0, [kMsgOrder]), (1, token_for (order_id ord)), (15, [side_char (side ord)]),
      (16, be32_store (to_u32 (quantity ord))), (20, book_digits (symbol_id ord)),
      (30, wire_price (price ord)),
      (34, [if otype ord = LIMIT \<or> otype ord = ICEBERG then 0x44 else 0x59]),
      (41, [0x4E]), (42, [0x41]), (43, [0x4E]), (44, be32_store 0)]"

definition ouch_encode_order :: "ouch \<Rightarrow> order \<Rightarrow> bool \<Rightarrow> nat \<Rightarrow> (ouch \<times> bytes) option" where
  "ouch_encode_order st ord buf_ok cap =
     (if \<not> buf_ok \<or> cap < kOuchOrderLen then None
      else Some (st\<lparr>token_to_id := (token_to_id st)(token_for (order_id ord) \<mapsto> order_id ord)\<rparr>,
                 seal kOuchOrderLen (layout kOuchOrderLen (ouch_order_writes ord))))"

definition ouch_decode_order :: "bytes \<Rightarrow> order option" where
  "ouch_decode_order buf =
     (if length buf < kOuchOrderLen \<or> buf ! 0 \<noteq> kMsgOrder then None
      else if buf ! 48 \<noteq> checksum buf (kOuchOrderLen - 1) then None
      else Some (empty_order\<lparr>order_id := strtoull (field buf 1 14),
             side := (if buf ! 15 = 0x53 then SELL else BUY),
             quantity := to_u64 (be32 buf 16),
             symbol_id := strtoull (field buf 20 10),
             price := read_price buf 30,
             otype := (if buf ! 34 = 0x44 then LIMIT else MARKET),
             timestamp := 0\<rparr>))"

definition ouch_ack_writes :: "order \<Rightarrow> u64 \<Rightarrow> writes" where
  "ouch_ack_writes ord r =
     [(0, [kMsgAck]), (1, be64_store r), (9, token_for (order_id ord)),
      (23, [side_char (side ord)]), (24, be32_store (to_u32 (quantity ord))),
      (28, book_digits (symbol_id ord))]"

definition encode_ack :: "ouch \<Rightarrow> order \<Rightarrow> bool \<Rightarrow> nat \<Rightarrow> (ouch \<times> bytes) option" where
  "encode_ack st ord buf_ok cap =
     (if \<not> buf_ok \<or> cap < kAckMsgLen then None
      else let (st', r) = ref_for st (order_id ord)
           in Some (st', seal kAckMsgLen (layout kAckMsgLen (ouch_ack_writes ord r))))"

definition ouch_exec_writes :: "u64 \<Rightarrow> u64 \<Rightarrow> i64 \<Rightarrow> u64 \<Rightarrow> writes" where
  "ouch_exec_writes oid filled_qty fill_price r =
     [(0, [kMsgExec]), (1, be64_store r), (9, token_for oid), (23, [0x42]),
      (24, be32_store (to_u32 filled_qty)), (28, wire_price fill_price),
      (32, be32_store (to_u32 filled_qty)), (36, wire_price fill_price), (40, [0x54])]"

definition encode_exec :: "ouch \<Rightarrow> u64 \<Rightarrow> u64 \<Rightarrow> i64 \<Rightarrow> bool \<Rightarrow> nat \<Rightarrow> (ouch \<times> bytes) option" where
  "encode_exec st oid filled_qty fill_price buf_ok cap =
     (if \<not> buf_ok \<or> cap < kExecMsgLen then None
      else let (st', r) = ref_for st oid
           in Some (st', seal kExecMsgLen (layout kExecMsgLen
                (ouch_exec_writes oid filled_qty fill_price r))))"

text \<open>The interface's \<open>encode_fill\<close> is the execution report.\<close>

definition ouch_encode_fill :: "ouch \<Rightarrow> u64 \<Rightarrow> u64 \<Rightarrow> i64 \<Rightarrow> bool \<Rightarrow> nat \<Rightarrow> (ouch \<times> bytes) option" where
  "ouch_encode_fill = encode_exec"

definition ouch_cancel_writes :: "u64 \<Rightarrow> u64 \<Rightarrow> u64 \<Rightarrow> writes" where
  "ouch_cancel_writes oid canceled_qty r =
     [(0, [kMsgCancel]), (1, be64_store r), (9, token_for oid), (23, [0x42]),
      (24, be32_store (to_u32 canceled_qty))]"

definition encode_cancel :: "ouch \<Rightarrow> u64 \<Rightarrow> u64 \<Rightarrow> bool \<Rightarrow> nat \<Rightarrow> (ouch \<times> bytes) option" where
  "encode_cancel st oid canceled_qty buf_ok cap =
     (if \<not> buf_ok \<or> cap < kCancelMsgLen then None
      else let (st', r) = ref_for st oid
           in Some (st', seal kCancelMsgLen (layout kCancelMsgLen
                (ouch_cancel_writes oid canceled_qty r))))"

definition ouch_reject_writes :: "u64 \<Rightarrow> u64 \<Rightarrow> writes" where
  "ouch_reject_writes oid r =
     [(0, [kMsgReject]), (1, be64_store r), (9, token_for oid), (23, [0x42])]"

definition encode_reject :: "ouch \<Rightarrow> u64 \<Rightarrow> bool \<Rightarrow> nat \<Rightarrow> (ouch \<times> bytes) option" where
  "encode_reject st oid buf_ok cap =
     (if \<not> buf_ok \<or> cap < kRejectMsgLen then None
      else let (st', r) = ref_for st oid
           in Some (st', seal kRejectMsgLen (layout kRejectMsgLen (ouch_reject_writes oid r))))"

definition report_len :: "u8 \<Rightarrow> nat option" where
  "report_len ty =
     (if ty = kMsgAck then Some kAckMsgLen
      else if ty = kMsgExec then Some kExecMsgLen
      else if ty = kMsgCancel then Some kCancelMsgLen
      else if ty = kMsgReject then Some kRejectMsgLen
      else None)"

definition ouch_decode_fill :: "ouch \<Rightarrow> bytes \<Rightarrow> (ouch \<times> fill) option" where
  "ouch_decode_fill st buf =
     (if length buf = 0 then None
      else case report_len (buf ! 0) of
        None \<Rightarrow> None
      | Some msg_len \<Rightarrow>
          if length buf < msg_len then None
          else if buf ! (msg_len - 1) \<noteq> checksum buf (msg_len - 1) then None
          else
            let ty = buf ! 0;
                r = be64 buf 1;
                oid = (case ref_to_id st r of
                         Some known \<Rightarrow> known
                       | None \<Rightarrow> strtoull (field buf 9 14));
                st' = (if ty = kMsgAck then st\<lparr>ref_to_id := (ref_to_id st)(r \<mapsto> oid)\<rparr> else st);
                out = empty_fill\<lparr>f_type := ty, f_order_id := oid, f_exchange_ref := r\<rparr>
            in Some (st', if ty = kMsgExec
                          then out\<lparr>f_filled_qty := to_u64 (be32 buf 32),
                                 f_fill_price := read_price buf 36\<rparr>
                          else out))"

definition ouch_cancel_request_writes :: "u64 \<Rightarrow> writes" where
  "ouch_cancel_request_writes oid = [(0, [kMsgCancelReq]), (1, token_for oid), (15, be32_store 0)]"

definition ouch_encode_cancel_request :: "u64 \<Rightarrow> bool \<Rightarrow> nat \<Rightarrow> bytes option" where
  "ouch_encode_cancel_request oid buf_ok cap =
     (if \<not> buf_ok \<or> cap < kCancelReqLen then None
      else Some (seal kCancelReqLen (layout kCancelReqLen (ouch_cancel_request_writes oid))))"

definition ouch_encode_book_query :: "u64 \<Rightarrow> bool \<Rightarrow> nat \<Rightarrow> bytes option" where
  "ouch_encode_book_query sid buf_ok cap =
     (if \<not> buf_ok \<or> cap < kBookQueryMsgLen then None
      else Some (seal kBookQueryMsgLen (layout kBookQueryMsgLen
             [(0, [kMsgBookQuery]), (1, book_digits sid)])))"

definition decode_book_query :: "bytes \<Rightarrow> u64 option" where
  "decode_book_query buf =
     (if length buf < kBookQueryMsgLen \<or> buf ! 0 \<noteq> kMsgBookQuery then None
      else if buf ! 12 \<noteq> checksum buf (kBookQueryMsgLen - 1) then None
      else Some (strtoull (field buf 1 10)))"

definition ouch_book_writes :: "book_quote \<Rightarrow> writes" where
  "ouch_book_writes q =
     [(0, [kMsgBook]), (1, book_digits (q_symbol_id q)), (11, wire_price (q_bid q)),
      (15, be32_store (to_u32 (q_bid_vol q))), (19, wire_price (q_ask q)),
      (23, be32_store (to_u32 (q_ask_vol q)))]"

definition encode_book :: "book_quote \<Rightarrow> bool \<Rightarrow> nat \<Rightarrow> bytes option" where
  "encode_book q buf_ok cap =
     (if \<not> buf_ok \<or> cap < kBookMsgLen then None
      else Some (seal kBookMsgLen (layout kBookMsgLen (ouch_book_writes q))))"

definition ouch_decode_book :: "bytes \<Rightarrow> book_quote option" where
  "ouch_decode_book buf =
     (if length buf < kBookMsgLen \<or> buf ! 0 \<noteq> kMsgBook then None
      else if buf ! 33 \<noteq> checksum buf (kBookMsgLen - 1) then None
      else Some \<lparr>q_symbol_id = strtoull (field buf 1 10), q_bid = read_price buf 11,
             q_bid_vol = to_u64 (be32 buf 15), q_ask = read_price buf 19,
             q_ask_vol = to_u64 (be32 buf 23)\<rparr>)"

section \<open>Reading a sealed message\<close>

text \<open>
  The facts every decoding proof needs of an encoded message at the head of a buffer: its length,
  its valid checksum, and each field as the writes left it.
\<close>

lemma sealed:
  assumes "fits n ws" "0 < n" "m = seal n (layout n ws) @ rest"
  shows sealed_length: "n \<le> length m"
    and sealed_checksum: "m ! (n - 1) = checksum m (n - 1)"
    and sealed_field: "i + k \<le> n - 1 \<Longrightarrow> rd (rev ws) i k = Some v \<Longrightarrow> field m i k = v"
proof -
  have len: "length (layout n ws) = n" using assms(1) by (rule length_layout)
  have len': "length (seal n (layout n ws)) = n" using len assms(2) by (simp add: seal_def)
  then show "n \<le> length m" by (simp add: assms(3))
  have c: "checksum m (n - 1) = checksum (layout n ws) (n - 1)"
    using len' len assms(2,3) by (simp add: checksum_def seal_def)
  have "m ! (n - 1) = seal n (layout n ws) ! (n - 1)"
    using len' assms(2,3) by (simp add: nth_append)
  also have "\<dots> = checksum (layout n ws) (n - 1)"
    using len assms(2) by (simp add: seal_def put_def nth_append)
  finally show "m ! (n - 1) = checksum m (n - 1)" using c by simp
  assume k: "i + k \<le> n - 1" and v: "rd (rev ws) i k = Some v"
  have "field m i k = field (seal n (layout n ws)) i k"
    using k len' assms(2,3) by (simp add: field_def)
  also have "\<dots> = field (layout n ws) i k"
    using k len assms(2) by (simp add: seal_def)
  also have "\<dots> = v" using field_layout [OF assms(1) _ v] k by simp
  finally show "field m i k = v" .
qed

lemma nth_of_field: "field p i 1 = [b] \<Longrightarrow> p ! i = b"
proof -
  assume f: "field p i 1 = [b]"
  then have "length (field p i 1) = 1" by simp
  then have "i < length p" by (simp add: field_def)
  with f show "p ! i = b" by (simp only: nth_field list.inject)
qed

lemma be32_of_field: "field p i 4 = be32_store v \<Longrightarrow> be32 p i = v"
proof -
  assume f: "field p i 4 = be32_store v"
  then have "length (field p i 4) = 4" by simp
  then have "i + 4 \<le> length p" by (simp add: field_def)
  with f show "be32 p i = v" by (simp add: be32_field)
qed

lemma be64_of_field: "field p i 8 = be64_store v \<Longrightarrow> be64 p i = v"
proof -
  assume f: "field p i 8 = be64_store v"
  then have "length (field p i 8) = 8" by simp
  then have "i + 8 \<le> length p" by (simp add: field_def)
  with f show "be64 p i = v" by (simp add: be64_field be_fold_store)
qed

lemmas of_field = nth_of_field be32_of_field be64_of_field

lemma length_token [simp]: "length (token_for oid) = 14"
  by (simp add: token_for_def Let_def)

lemma length_book: "length (book_digits sid) \<le> 10"
  by (simp add: book_digits_def)

lemma length_book_le [simp]:
  "10 \<le> n \<Longrightarrow> length (book_digits sid) \<le> n"
  "10 + a \<le> n \<Longrightarrow> a + length (book_digits sid) \<le> n"
  using length_book [of sid] by simp_all

lemma length_wire_price [simp]: "length (wire_price px) = 4"
  by (simp add: wire_price_def)

lemma strtoull_token:
  assumes "unat oid < 10 ^ 14"
  shows "strtoull (token_for oid) = oid"
proof -
  let ?ds = "dec_digits (unat oid)"
  have "length ?ds \<le> 14" using dec_digits_length [of 14 "unat oid"] assms by simp
  then have "token_for oid = replicate (14 - length ?ds) 0x30 @ ?ds @ []"
    by (simp add: token_for_def Let_def)
  then show ?thesis
    using strtoull_padded [of "unat oid" "[]"] unat64_less [of oid] by simp
qed

lemma strtoull_book:
  assumes "unat sid < 10 ^ 10"
  shows "strtoull (book_digits sid @ replicate k 0x20) = sid"
proof -
  have "length (dec_digits (unat sid)) \<le> 10" using dec_digits_length [of 10 "unat sid"] assms by simp
  moreover have "\<not> is_digit 0x20" by (simp add: is_digit_def word_le_nat_alt)
  ultimately show ?thesis
    using strtoull_padded [of "unat sid" "replicate k 0x20" 0] unat64_less [of sid]
    by (cases k) (simp_all add: book_digits_def)
qed

lemma read_price_wire:
  assumes "0 \<le> sint px" "sint px * 100 < 2 ^ 32" "be32 buf i = to_u32 (px * 100)"
  shows "read_price buf i = px"
proof -
  have m: "sint (px * 100) = sint px * 100"
    using assms(1,2) sint64_mult [of px 100] by simp
  then have u: "uint (px * 100) = sint px * 100" using uint64_eq_sint [of "px * 100"] assms(1) by simp
  have "uint (to_u64 (to_u32 (px * 100))) = uint (px * 100)"
    using u assms(1,2) by (simp add: unsigned_ucast_eq unsigned_take_bit_eq take_bit_int_eq_self)
  then have "to_u64 (to_u32 (px * 100)) = px * 100" by (simp add: word_uint_eq_iff)
  then have "read_price buf i = sdivw (px * 100) 100" by (simp add: read_price_def assms(3))
  then have "sint (read_price buf i) = sint px" using sint_sdivw_nonneg [of "px * 100" 100] m assms(1) by simp
  then show ?thesis by (simp add: signed_word_eqI)
qed

lemma to_u64_u32: "unat q < 2 ^ 32 \<Longrightarrow> to_u64 (to_u32 q) = q" for q :: u64
  by (simp add: word_unat_eq_iff unsigned_ucast_eq unsigned_take_bit_eq take_bit_nat_eq_self)

section \<open>Orders\<close>

text \<open>The orders the fields can carry, and what they carry.\<close>

definition ouch_order_ok :: "order \<Rightarrow> bool" where
  "ouch_order_ok ord \<longleftrightarrow> unat (order_id ord) < 10 ^ 14 \<and> unat (symbol_id ord) < 10 ^ 10 \<and>
     unat (quantity ord) < 2 ^ 32 \<and> 0 \<le> sint (price ord) \<and> sint (price ord) * 100 < 2 ^ 32"

definition ouch_image :: "order \<Rightarrow> order" where
  "ouch_image ord = ord\<lparr>strategy_id := 0, side := (if side ord = SELL then SELL else BUY),
     otype := (if otype ord = LIMIT \<or> otype ord = ICEBERG then LIMIT else MARKET), timestamp := 0\<rparr>"

definition ouch_order_msg :: "order \<Rightarrow> bytes" where
  "ouch_order_msg ord = seal kOuchOrderLen (layout kOuchOrderLen (ouch_order_writes ord))"

lemma ouch_encode_order_msg:
  "ouch_encode_order st ord True cap = Some (st', bs) \<Longrightarrow> bs = ouch_order_msg ord"
  by (auto simp: ouch_encode_order_def ouch_order_msg_def split: if_splits)

lemma fits_order: "fits 49 (ouch_order_writes ord)"
  by (simp add: ouch_order_writes_def)

lemma ouch_order_msg_length: "length (ouch_order_msg ord) = kOuchOrderLen"
  by (simp add: ouch_order_msg_def seal_def length_layout [OF fits_order])

lemma ouch_order_msg_fields:
  fixes ord rest
  defines "m \<equiv> ouch_order_msg ord @ rest"
  shows "49 \<le> length m" "m ! 48 = checksum m 48" "m ! 0 = kMsgOrder"
    "field m 1 14 = token_for (order_id ord)" "m ! 15 = side_char (side ord)"
    "be32 m 16 = to_u32 (quantity ord)"
    "field m 20 10 = book_digits (symbol_id ord) @ replicate (10 - length (book_digits (symbol_id ord))) 0x20"
    "be32 m 30 = to_u32 (price ord * 100)"
    "m ! 34 = (if otype ord = LIMIT \<or> otype ord = ICEBERG then 0x44 else 0x59)"
proof -
  have m: "m = seal 49 (layout 49 (ouch_order_writes ord)) @ rest"
    by (simp add: m_def ouch_order_msg_def)
  note msg = sealed [OF fits_order _ m]
  show "49 \<le> length m" using msg(1) by simp
  show "m ! 48 = checksum m 48" using msg(2) by simp
  show "m ! 0 = kMsgOrder"
    by (rule of_field, rule msg(3)) (simp_all add: ouch_order_writes_def)
  show "field m 1 14 = token_for (order_id ord)"
    by (rule msg(3)) (simp_all add: ouch_order_writes_def)
  show "m ! 15 = side_char (side ord)"
    by (rule of_field, rule msg(3)) (simp_all add: ouch_order_writes_def)
  show "be32 m 16 = to_u32 (quantity ord)"
    by (rule of_field, rule msg(3)) (simp_all add: ouch_order_writes_def)
  show "field m 20 10 = book_digits (symbol_id ord) @ replicate (10 - length (book_digits (symbol_id ord))) 0x20"
    by (rule msg(3)) (simp_all add: ouch_order_writes_def length_book)
  show "be32 m 30 = to_u32 (price ord * 100)"
    by (rule of_field, rule msg(3)) (simp_all add: ouch_order_writes_def wire_price_def)
  show "m ! 34 = (if otype ord = LIMIT \<or> otype ord = ICEBERG then 0x44 else 0x59)"
    by (rule of_field, rule msg(3)) (simp_all add: ouch_order_writes_def)
qed

lemma ouch_order_decodes:
  assumes "ouch_order_ok ord"
  shows "ouch_decode_order (ouch_order_msg ord @ rest) = Some (ouch_image ord)"
proof -
  note f = ouch_order_msg_fields [of ord rest]
  have "strtoull (token_for (order_id ord)) = order_id ord"
    using assms by (simp add: strtoull_token ouch_order_ok_def)
  moreover have "strtoull (book_digits (symbol_id ord) @ replicate k 0x20) = symbol_id ord" for k
    using assms by (simp add: strtoull_book ouch_order_ok_def)
  moreover have "read_price (ouch_order_msg ord @ rest) 30 = price ord"
    using assms f(8) by (simp add: read_price_wire ouch_order_ok_def)
  moreover have "to_u64 (to_u32 (quantity ord)) = quantity ord"
    using assms by (simp add: to_u64_u32 ouch_order_ok_def)
  ultimately show ?thesis
    using f(1) unfolding ouch_decode_order_def
    by (auto intro!: order.equality
        simp: f(2,3,5-9) f(4) [unfolded One_nat_def] ouch_image_def empty_order_def side_char_def)
qed

interpretation ouch_orders: order_codec ouch_order_msg ouch_decode_order kOuchOrderLen ouch_order_ok ouch_image
proof unfold_locales
  show "0 < kOuchOrderLen" by simp
  show "length (ouch_order_msg ord) = kOuchOrderLen" for ord by (rule ouch_order_msg_length)
  show "ouch_decode_order (ouch_order_msg ord @ rest) = Some (ouch_image ord)"
    if "ouch_order_ok ord" for ord rest using that by (rule ouch_order_decodes)
  show "ouch_order_ok (ouch_image ord)" if "ouch_order_ok ord" for ord
    using that by (simp add: ouch_order_ok_def ouch_image_def)
  show "ouch_image (ouch_image ord) = ouch_image ord" for ord by (simp add: ouch_image_def)
qed

section \<open>Reports\<close>

text \<open>What the decoder stores when it has resolved a report's reference to an order id.\<close>

definition learn :: "ouch \<Rightarrow> u8 \<Rightarrow> u64 \<Rightarrow> u64 \<Rightarrow> ouch" where
  "learn st ty r oid = (if ty = kMsgAck then st\<lparr>ref_to_id := (ref_to_id st)(r \<mapsto> oid)\<rparr> else st)"

definition report_fill :: "u8 \<Rightarrow> u64 \<Rightarrow> u64 \<Rightarrow> fill" where
  "report_fill ty oid r = empty_fill\<lparr>f_type := ty, f_order_id := oid, f_exchange_ref := r\<rparr>"

lemma report_decodes:
  assumes ws: "fits n ws" "report_len ty = Some n"
    and head: "rd (rev ws) 0 1 = Some [ty]" "rd (rev ws) 1 8 = Some (be64_store r)"
      "rd (rev ws) 9 14 = Some (token_for oid)"
    and oid: "unat oid < 10 ^ 14" "ref_to_id st r = None \<or> ref_to_id st r = Some oid"
    and m: "m = seal n (layout n ws) @ rest"
  shows "ouch_decode_fill st m = Some (learn st ty r oid,
     if ty = kMsgExec then (report_fill ty oid r)\<lparr>f_filled_qty := to_u64 (be32 m 32),
                              f_fill_price := read_price m 36\<rparr>
     else report_fill ty oid r)"
proof -
  have n: "36 \<le> n" using ws(2) by (auto simp: report_len_def split: if_splits)
  note msg = sealed [OF ws(1) _ m]
  have ty: "m ! 0 = ty" by (rule of_field, rule msg(3)) (use n head in simp_all)
  have r: "be64 m 1 = r" by (rule of_field, rule msg(3)) (use n head in simp_all)
  have tok: "field m 9 14 = token_for oid" by (rule msg(3)) (use n head in simp_all)
  have len: "n \<le> length m" "m ! (n - 1) = checksum m (n - 1)" using msg(1,2) n by simp_all
  have "(case ref_to_id st r of Some known \<Rightarrow> known | None \<Rightarrow> strtoull (field m 9 14)) = oid"
    using oid strtoull_token [OF oid(1)] tok by auto
  then show ?thesis
    using len n by (auto simp: ouch_decode_fill_def ty r [unfolded One_nat_def] tok ws(2) Let_def
        learn_def report_fill_def)
qed

text \<open>The four report messages, by the reference the exchange side allocates.\<close>

datatype report =
    Rep_Ack order
  | Rep_Exec u64 u64 i64
  | Rep_Cancel u64 u64
  | Rep_Reject u64

fun report_id :: "report \<Rightarrow> u64" where
  "report_id (Rep_Ack ord) = order_id ord"
| "report_id (Rep_Exec oid q px) = oid"
| "report_id (Rep_Cancel oid q) = oid"
| "report_id (Rep_Reject oid) = oid"

fun report_type :: "report \<Rightarrow> u8" where
  "report_type (Rep_Ack ord) = kMsgAck"
| "report_type (Rep_Exec oid q px) = kMsgExec"
| "report_type (Rep_Cancel oid q) = kMsgCancel"
| "report_type (Rep_Reject oid) = kMsgReject"

fun report_ok :: "report \<Rightarrow> bool" where
  "report_ok (Rep_Exec oid q px) \<longleftrightarrow> unat oid < 10 ^ 14 \<and> unat q < 2 ^ 32 \<and> 0 \<le> sint px \<and>
     sint px * 100 < 2 ^ 32"
| "report_ok rep \<longleftrightarrow> unat (report_id rep) < 10 ^ 14"

fun expected_fill :: "report \<Rightarrow> u64 \<Rightarrow> fill" where
  "expected_fill (Rep_Exec oid q px) r =
     (report_fill kMsgExec oid r)\<lparr>f_filled_qty := q, f_fill_price := px\<rparr>"
| "expected_fill rep r = report_fill (report_type rep) (report_id rep) r"

text \<open>The exchange side sends a report: the matching encoder into a large enough buffer.\<close>

fun send_report :: "ouch \<Rightarrow> report \<Rightarrow> (ouch \<times> bytes) option" where
  "send_report st (Rep_Ack ord) = encode_ack st ord True kAckMsgLen"
| "send_report st (Rep_Exec oid q px) = ouch_encode_fill st oid q px True kExecMsgLen"
| "send_report st (Rep_Cancel oid q) = encode_cancel st oid q True kCancelMsgLen"
| "send_report st (Rep_Reject oid) = encode_reject st oid True kRejectMsgLen"

fun report_writes :: "report \<Rightarrow> u64 \<Rightarrow> writes" where
  "report_writes (Rep_Ack ord) r = ouch_ack_writes ord r"
| "report_writes (Rep_Exec oid q px) r = ouch_exec_writes oid q px r"
| "report_writes (Rep_Cancel oid q) r = ouch_cancel_writes oid q r"
| "report_writes (Rep_Reject oid) r = ouch_reject_writes oid r"

definition report_bytes :: "report \<Rightarrow> u64 \<Rightarrow> bytes" where
  "report_bytes rep r = seal (the (report_len (report_type rep)))
     (layout (the (report_len (report_type rep))) (report_writes rep r))"

lemma send_report_eq:
  "send_report st rep = (case ref_for st (report_id rep) of (st', r) \<Rightarrow> Some (st', report_bytes rep r))"
  by (cases rep) (simp_all add: encode_ack_def ouch_encode_fill_def encode_exec_def
      encode_cancel_def encode_reject_def report_bytes_def report_len_def Let_def split: prod.splits)

lemmas report_writes_defs =
  ouch_ack_writes_def ouch_exec_writes_def ouch_cancel_writes_def ouch_reject_writes_def

lemma report_head:
  assumes "n = the (report_len (report_type rep))"
  shows "fits n (report_writes rep r)" "report_len (report_type rep) = Some n"
    "rd (rev (report_writes rep r)) 0 1 = Some [report_type rep]"
    "rd (rev (report_writes rep r)) 1 8 = Some (be64_store r)"
    "rd (rev (report_writes rep r)) 9 14 = Some (token_for (report_id rep))"
  using assms by (cases rep; simp add: report_writes_defs report_len_def)+

lemma report_bytes_length:
  "length (report_bytes rep r) = the (report_len (report_type rep))"
proof -
  let ?n = "the (report_len (report_type rep))"
  have "0 < ?n" by (cases rep) (simp_all add: report_len_def)
  then show ?thesis
    by (simp add: report_bytes_def seal_def length_layout [OF report_head(1) [OF refl]])
qed

lemma report_bytes_type: "report_bytes rep r @ rest \<noteq> []" "(report_bytes rep r @ rest) ! 0 = report_type rep"
proof -
  let ?n = "the (report_len (report_type rep))"
  have n: "36 \<le> ?n" by (cases rep) (simp_all add: report_len_def)
  have "length (report_bytes rep r) \<noteq> 0" using n by (simp only: report_bytes_length)
  then show "report_bytes rep r @ rest \<noteq> []" by auto
  have "field (report_bytes rep r @ rest) 0 1 = [report_type rep]"
    using sealed_field [OF report_head(1) [OF refl, of rep r], of _ rest 0 1] n
      report_head(3) [OF refl, of rep r] by (simp add: report_bytes_def)
  then show "(report_bytes rep r @ rest) ! 0 = report_type rep" by (rule nth_of_field)
qed

text \<open>The trader side reads back exactly what the exchange side reported.\<close>

lemma decode_report:
  assumes ok: "report_ok rep"
    and known: "ref_to_id st r = None \<or> ref_to_id st r = Some (report_id rep)"
  shows "ouch_decode_fill st (report_bytes rep r @ rest) =
     Some (learn st (report_type rep) r (report_id rep), expected_fill rep r)"
proof -
  let ?n = "the (report_len (report_type rep))" and ?m = "report_bytes rep r @ rest"
  have oid: "unat (report_id rep) < 10 ^ 14" using ok by (cases rep) simp_all
  have m: "?m = seal ?n (layout ?n (report_writes rep r)) @ rest" by (simp add: report_bytes_def)
  note head = report_head [OF refl, of rep]
  note d = report_decodes [OF head(1-5) oid known m]
  show ?thesis
  proof (cases rep)
    case (Rep_Exec oid q px)
    note msg = sealed_field [OF head(1) _ m]
    have q: "be32 ?m 32 = to_u32 q"
      by (rule of_field, rule msg) (simp_all add: Rep_Exec report_writes_defs report_len_def)
    have px: "be32 ?m 36 = to_u32 (px * 100)"
      by (rule of_field, rule msg) (simp_all add: Rep_Exec report_writes_defs report_len_def wire_price_def)
    have "to_u64 (be32 ?m 32) = q" using ok Rep_Exec q by (simp add: to_u64_u32)
    moreover have "read_price ?m 36 = px" using ok Rep_Exec by (intro read_price_wire px) simp_all
    ultimately show ?thesis using d Rep_Exec by simp
  qed (use d in simp_all)
qed

section \<open>Order reference numbers\<close>

text \<open>
  The exchange side's and the trader side's tables belong together: references are below the
  allocator, no two orders share one, and what the trader has learned is what the exchange
  allocated.
\<close>

definition linked :: "ouch \<Rightarrow> ouch \<Rightarrow> bool" where
  "linked ex tr \<longleftrightarrow>
     (\<forall>oid r. id_to_ref ex oid = Some r \<longrightarrow> r < next_ref ex) \<and>
     (\<forall>a b r. id_to_ref ex a = Some r \<longrightarrow> id_to_ref ex b = Some r \<longrightarrow> a = b) \<and>
     (\<forall>r oid. ref_to_id tr r = Some oid \<longrightarrow> id_to_ref ex oid = Some r)"

lemma linked_new: "linked new_ouch new_ouch"
  by (simp add: linked_def new_ouch_def)

lemma ref_for_props:
  assumes l: "linked ex tr" and room: "next_ref ex \<noteq> -1" and r: "ref_for ex oid = (ex', r)"
  shows "id_to_ref ex' oid = Some r \<and> linked ex' tr \<and> unat (next_ref ex') \<le> unat (next_ref ex) + 1 \<and>
    (\<forall>k a. id_to_ref ex k = Some a \<longrightarrow> id_to_ref ex' k = Some a) \<and>
    (ref_to_id tr r = None \<or> ref_to_id tr r = Some oid)"
proof (cases "id_to_ref ex oid")
  case (Some q)
  then have "ex' = ex" "q = r" using r by (simp_all add: ref_for_def)
  moreover have "ref_to_id tr r = None \<or> ref_to_id tr r = Some oid"
    using l Some \<open>q = r\<close> unfolding linked_def by (metis not_None_eq)
  ultimately show ?thesis using l Some by simp
next
  case None
  then have e: "ex' = ex\<lparr>next_ref := next_ref ex + 1, id_to_ref := (id_to_ref ex)(oid \<mapsto> r)\<rparr>"
    "r = next_ref ex" using r by (auto simp: ref_for_def Let_def)
  have lt: "r < r + 1" "unat (r + 1) = unat r + 1"
    using room e(2) word_less_plus_one [of r] by (simp_all add: unatSuc add.commute eq_neg_iff_add_eq_0)
  have fresh: "id_to_ref ex k \<noteq> Some r" for k
    using l e(2) unfolding linked_def by (metis less_irrefl)
  have new: "ref_to_id tr r = None" using l fresh unfolding linked_def by (metis not_None_eq)
  have "linked ex' tr"
    unfolding linked_def
  proof (intro conjI allI impI)
    fix k a assume "id_to_ref ex' k = Some a"
    then show "a < next_ref ex'"
      using l lt(1) by (auto simp: linked_def e split: if_splits dest: order.strict_trans)
  next
    fix a b q assume "id_to_ref ex' a = Some q" "id_to_ref ex' b = Some q"
    then show "a = b" using l fresh by (auto simp: linked_def e(1) split: if_splits)
  next
    fix q k assume "ref_to_id tr q = Some k"
    then show "id_to_ref ex' k = Some q" using l None by (auto simp: linked_def e(1))
  qed
  then show ?thesis using new lt(2) None by (auto simp: e)
qed

lemma linked_learn:
  assumes "linked ex tr" "id_to_ref ex oid = Some r"
  shows "linked ex (learn tr ty r oid)"
  using assms by (auto simp: linked_def learn_def)

text \<open>One report from the exchange to the trader: the right order, and the link is kept.\<close>

lemma report_delivered:
  assumes l: "linked ex tr" and room: "next_ref ex \<noteq> -1" and ok: "report_ok rep"
    and sent: "send_report ex rep = Some (ex', bs)"
  shows "\<exists>r tr'. bs = report_bytes rep r \<and> id_to_ref ex' (report_id rep) = Some r \<and>
    (\<forall>rest. ouch_decode_fill tr (bs @ rest) = Some (tr', expected_fill rep r)) \<and> linked ex' tr' \<and>
    unat (next_ref ex') \<le> unat (next_ref ex) + 1 \<and>
    (\<forall>k a. id_to_ref ex k = Some a \<longrightarrow> id_to_ref ex' k = Some a)"
proof -
  obtain r where r: "ref_for ex (report_id rep) = (ex', r)" and bs: "bs = report_bytes rep r"
    using sent by (auto simp: send_report_eq split: prod.splits)
  note p = ref_for_props [OF l room r]
  let ?tr = "learn tr (report_type rep) r (report_id rep)"
  have "ouch_decode_fill tr (bs @ rest) = Some (?tr, expected_fill rep r)" for rest
    using decode_report [OF ok] p bs by simp
  moreover have "linked ex' ?tr" using p linked_learn by blast
  ultimately show ?thesis using p bs by blast
qed

section \<open>Book quotes\<close>

definition quote_ok :: "book_quote \<Rightarrow> bool" where
  "quote_ok q \<longleftrightarrow> unat (q_symbol_id q) < 10 ^ 10 \<and> unat (q_bid_vol q) < 2 ^ 32 \<and>
     unat (q_ask_vol q) < 2 ^ 32 \<and> 0 \<le> sint (q_bid q) \<and> sint (q_bid q) * 100 < 2 ^ 32 \<and>
     0 \<le> sint (q_ask q) \<and> sint (q_ask q) * 100 < 2 ^ 32"

lemma fits_book: "fits 34 (ouch_book_writes q)"
  by (simp add: ouch_book_writes_def)

lemma ouch_book_fields:
  fixes q rest
  defines "m \<equiv> seal 34 (layout 34 (ouch_book_writes q)) @ rest"
  shows "34 \<le> length m" "m ! 33 = checksum m 33" "m ! 0 = kMsgBook"
    "field m 1 10 = book_digits (q_symbol_id q) @ replicate (10 - length (book_digits (q_symbol_id q))) 0x20"
    "be32 m 11 = to_u32 (q_bid q * 100)" "be32 m 15 = to_u32 (q_bid_vol q)"
    "be32 m 19 = to_u32 (q_ask q * 100)" "be32 m 23 = to_u32 (q_ask_vol q)"
proof -
  note msg = sealed [OF fits_book _ m_def [THEN meta_eq_to_obj_eq]]
  show "34 \<le> length m" using msg(1) by simp
  show "m ! 33 = checksum m 33" using msg(2) by simp
  show "m ! 0 = kMsgBook" by (rule of_field, rule msg(3)) (simp_all add: ouch_book_writes_def)
  show "field m 1 10 = book_digits (q_symbol_id q) @ replicate (10 - length (book_digits (q_symbol_id q))) 0x20"
    by (rule msg(3)) (simp_all add: ouch_book_writes_def length_book)
  show "be32 m 11 = to_u32 (q_bid q * 100)"
    by (rule of_field, rule msg(3)) (simp_all add: ouch_book_writes_def wire_price_def)
  show "be32 m 15 = to_u32 (q_bid_vol q)"
    by (rule of_field, rule msg(3)) (simp_all add: ouch_book_writes_def)
  show "be32 m 19 = to_u32 (q_ask q * 100)"
    by (rule of_field, rule msg(3)) (simp_all add: ouch_book_writes_def wire_price_def)
  show "be32 m 23 = to_u32 (q_ask_vol q)"
    by (rule of_field, rule msg(3)) (simp_all add: ouch_book_writes_def)
qed

section \<open>Properties\<close>

text \<open>An order whose fields fit the wire format (a 14-digit id, a 10-digit book, a 32-bit
  quantity and a price below 2^32 hundredths of a cent) is read back from the encoded message as
  the same order, up to the strategy id and the timestamp the protocol does not carry; the message
  is 49 bytes long and whatever follows it in the buffer does not matter.\<close>

theorem ouch_order_roundtrip:
  assumes "ouch_order_ok ord" "ouch_encode_order st ord True cap = Some (st', bs)"
  shows "length bs = 49 \<and> ouch_decode_order (bs @ rest) = Some (ouch_image ord)"
  using ouch_encode_order_msg [OF assms(2)] ouch_orders.enc_length ouch_orders.dec_enc [OF assms(1)]
  by simp

definition demo_wire_order :: order where
  "demo_wire_order = empty_order\<lparr>order_id := 42, symbol_id := 7, side := SELL, otype := LIMIT,
     price := 10000, quantity := 500\<rparr>"

lemma demo_wire_order_ok: "ouch_order_ok demo_wire_order"
  by (simp add: ouch_order_ok_def demo_wire_order_def empty_order_def)

lemma demo_wire_order_image: "ouch_image demo_wire_order = demo_wire_order"
  by (simp add: ouch_image_def demo_wire_order_def empty_order_def)

lemma ouch_encode_order_msg_cap:
  "ouch_encode_order st ord True 256 =
     Some (st\<lparr>token_to_id := (token_to_id st)(token_for (order_id ord) \<mapsto> order_id ord)\<rparr>, ouch_order_msg ord)"
  by (simp add: ouch_encode_order_def ouch_order_msg_def)

theorem ouch_order_roundtrip_witness:
  "ouch_decode_order (ouch_order_msg demo_wire_order @ [1, 2]) = Some demo_wire_order"
  using ouch_order_roundtrip [OF demo_wire_order_ok ouch_encode_order_msg_cap [of new_ouch], of "[1, 2]"]
  by (simp add: demo_wire_order_image)

text \<open>The checksum catches every corruption of a single byte of an encoded order: whichever of
  the 49 bytes is changed to whatever other value, the exchange refuses the message.\<close>

theorem ouch_checksum_catches_one_byte:
  assumes "ouch_encode_order st ord True cap = Some (st', bs)" "i < 49" "x \<noteq> bs ! i"
  shows "ouch_decode_order (bs[i := x] @ rest) = None"
proof -
  have bs: "bs = ouch_order_msg ord" using assms(1) by (rule ouch_encode_order_msg)
  have len: "length bs = 49" using bs by (simp add: ouch_order_msg_length)
  have sum: "bs ! 48 = checksum bs 48"
    using ouch_order_msg_fields(2) [of ord "[]"] bs by simp
  have rest: "checksum (bs[i := x] @ rest) 48 = checksum (bs[i := x]) 48"
    "(bs[i := x] @ rest) ! 48 = bs[i := x] ! 48" using len by (simp_all add: checksum_def nth_append)
  have "bs[i := x] ! 48 \<noteq> checksum (bs[i := x]) 48"
  proof (cases "i = 48")
    case True
    then have "checksum (bs[i := x]) 48 = checksum bs 48" by (simp add: checksum_def)
    then show ?thesis using True assms(3) sum len by simp
  next
    case False
    then have "checksum (bs[i := x]) 48 \<noteq> checksum bs 48"
      using checksum_one_byte [of i 48 bs x] assms(2,3) len by simp
    then show ?thesis using False sum by simp
  qed
  then show ?thesis using rest by (simp add: ouch_decode_order_def)
qed

theorem ouch_checksum_catches_one_byte_witness:
  "ouch_decode_order ((ouch_order_msg demo_wire_order)[0 := 0] @ []) = None"
  using ouch_checksum_catches_one_byte [OF ouch_encode_order_msg_cap [of new_ouch demo_wire_order], of 0 0 "[]"]
    ouch_order_msg_fields(3) [of demo_wire_order "[]"] by simp

text \<open>A book quote with non-negative prices that fit the wire format is read back exactly by
  the trader from the exchange's 'B' message.\<close>

theorem ouch_book_roundtrip:
  assumes "quote_ok q" "encode_book q True cap = Some bs"
  shows "ouch_decode_book (bs @ rest) = Some q"
proof -
  have bs: "bs = seal 34 (layout 34 (ouch_book_writes q))"
    using assms(2) by (simp add: encode_book_def split: if_splits)
  note f = ouch_book_fields [of q rest, folded bs]
  have ok: "unat (q_symbol_id q) < 10 ^ 10" "unat (q_bid_vol q) < 2 ^ 32" "unat (q_ask_vol q) < 2 ^ 32"
    "0 \<le> sint (q_bid q)" "sint (q_bid q) * 100 < 2 ^ 32" "0 \<le> sint (q_ask q)" "sint (q_ask q) * 100 < 2 ^ 32"
    using assms(1) by (simp_all add: quote_ok_def)
  have "read_price (bs @ rest) 11 = q_bid q" "read_price (bs @ rest) 19 = q_ask q"
    using ok f(5,7) by (simp_all only: read_price_wire)
  then show ?thesis
    using f(1) strtoull_book [OF ok(1)] to_u64_u32 [OF ok(2)] to_u64_u32 [OF ok(3)]
    by (auto intro!: book_quote.equality
        simp: ouch_decode_book_def f(2,3,6,8) f(4) [unfolded One_nat_def])
qed

definition demo_quote :: book_quote where
  "demo_quote = \<lparr>q_symbol_id = 7, q_bid = 9990, q_bid_vol = 300, q_ask = 10010, q_ask_vol = 200\<rparr>"

theorem ouch_book_roundtrip_witness:
  "ouch_decode_book (the (encode_book demo_quote True 64) @ [0]) = Some demo_quote"
  using ouch_book_roundtrip [of demo_quote 64 "the (encode_book demo_quote True 64)" "[0]"]
  by (simp add: quote_ok_def demo_quote_def encode_book_def)

text \<open>A negative price does not survive the 'B' message: the field is written as a signed and
  read as an unsigned 32-bit integer, so \<open>encode_book\<close> of the book's "no price" value -1 makes
  the trader see a price of 42949671 cents on that side.\<close>

theorem ouch_book_negative_price:
  "\<exists>bs q'. encode_book (demo_quote\<lparr>q_bid := -1\<rparr>) True 64 = Some bs \<and>
     ouch_decode_book bs = Some q' \<and> q_bid q' = 42949671 \<and> q_ask q' = q_ask demo_quote"
proof -
  let ?q = "demo_quote\<lparr>q_bid := -1\<rparr>" and ?bs = "seal 34 (layout 34 (ouch_book_writes (demo_quote\<lparr>q_bid := -1\<rparr>)))"
  note f = ouch_book_fields [of ?q "[]", simplified append_Nil2]
  have "be32 ?bs 11 = 4294967196" using f(5) by simp
  then have "read_price ?bs 11 = 42949671"
    by (simp add: read_price_def sdivw_def signed_divide_int_def)
  moreover have "read_price ?bs 19 = q_ask demo_quote"
    by (rule read_price_wire) (use f(7) in \<open>simp_all add: demo_quote_def\<close>)
  moreover have "encode_book ?q True 64 = Some ?bs" by (simp add: encode_book_def)
  ultimately show ?thesis
    using f(1-3) by (intro exI [of _ ?bs]) (auto simp: ouch_decode_book_def)
qed

text \<open>The cancel request carries the order's 14-digit token, but its checksum byte lies inside
  the 32-bit shares field it follows: a receiver reading the field finds the checksum where the
  encoder had written zero shares ("cancel all").\<close>

theorem ouch_cancel_request_shares_field:
  assumes "ouch_encode_cancel_request oid True cap = Some bs"
  shows "length bs = 19 \<and> field bs 1 14 = token_for oid \<and> be32 bs 15 = to_u32 (checksum bs 18)"
proof -
  let ?b = "layout 19 (ouch_cancel_request_writes oid)"
  have bs: "bs = seal 19 ?b"
    using assms by (simp add: ouch_encode_cancel_request_def split: if_splits)
  have fit: "fits 19 (ouch_cancel_request_writes oid)" by (simp add: ouch_cancel_request_writes_def)
  have len: "length bs = 19" using length_layout [OF fit] by (simp add: bs seal_def)
  have m: "bs = seal 19 (layout 19 (ouch_cancel_request_writes oid)) @ []" using bs by simp
  note msg = sealed [OF fit _ m]
  have tok: "field bs 1 14 = token_for oid"
    by (rule msg(3)) (simp_all add: ouch_cancel_request_writes_def)
  have z: "field ?b 15 4 = be32_store 0"
    by (rule field_layout [OF fit]) (simp_all add: ouch_cancel_request_writes_def)
  then have z3: "field ?b 15 3 = [0, 0, 0]"
    using arg_cong [OF z, of "take 3"] unfolding field_def take_take by (simp add: be32_store_def)
  have "field bs 15 3 = [0, 0, 0]"
    using z3 length_layout [OF fit] by (simp add: bs seal_def)
  then have "bs ! 15 = 0 \<and> bs ! 16 = 0 \<and> bs ! 17 = 0"
    using len by (simp add: field_def take_Suc_conv_app_nth numeral_3_eq_3)
  moreover have "bs ! 18 = checksum bs 18" using msg(2) by simp
  ultimately show ?thesis using len tok by (simp add: be32_def)
qed

theorem ouch_cancel_request_shares_field_witness:
  "be32 (the (ouch_encode_cancel_request 1 True 64)) 15 = 249"
proof -
  let ?bs = "the (ouch_encode_cancel_request 1 True 64)"
  have "ouch_encode_cancel_request 1 True 64 = Some ?bs" by (simp add: ouch_encode_cancel_request_def)
  note p = ouch_cancel_request_shares_field [OF this]
  have "checksum ?bs 18 = 249" by code_simp
  then show ?thesis using p by simp
qed

end
