(* ===== verification/Report_Stream.thy ===== *)
theory Report_Stream
  imports Ouch_Codec
begin

text \<open>
  The two ends of the order connection. The trader's fill thread (\<^verbatim>\<open>main.cpp\<close>) accumulates the TCP
  byte stream and cuts it into reports by the type byte; the simulated exchange
  (\<^verbatim>\<open>benchmark/main.cpp\<close>) cuts the orders and cancel requests out of its stream and answers them.
  Each loop is a function of one iteration (\<open>fill_step\<close>, \<open>exchange_step\<close>), run until it has to wait
  for more bytes, and the loops terminate because an iteration consumes a byte at least.
\<close>

section \<open>The fill thread of the trader\<close>

datatype report_out = Book_Out book_quote | Fill_Out fill

definition frame_len :: "u8 \<Rightarrow> nat option" where
  "frame_len b =
     (if b = kMsgAck then Some kAckMsgLen
      else if b = kMsgExec then Some kExecMsgLen
      else if b = kMsgCancel then Some kCancelMsgLen
      else if b = kMsgReject then Some kRejectMsgLen
      else if b = kMsgBook then Some kBookMsgLen
      else None)"

text \<open>One iteration of the framing loop; \<^const>\<open>None\<close> is its \<open>break\<close>.\<close>

definition fill_step :: "ouch \<Rightarrow> bytes \<Rightarrow> (ouch \<times> report_out list \<times> bytes) option" where
  "fill_step tr s =
     (case s of
        [] \<Rightarrow> None
      | b # t \<Rightarrow>
          (case frame_len b of
             None \<Rightarrow> Some (tr, [], t)
           | Some n \<Rightarrow>
               if length s < n then None
               else let m = take n s; rest = drop n s in
                 if b = kMsgBook
                 then (case ouch_decode_book m of
                         Some q \<Rightarrow> Some (tr, [Book_Out q], rest)
                       | None \<Rightarrow> Some (tr, [], rest))
                 else (case ouch_decode_fill tr m of
                         Some (tr', f) \<Rightarrow> Some (tr', [Fill_Out f], rest)
                       | None \<Rightarrow> Some (tr, [], rest))))"

lemma frame_len_pos: "frame_len b = Some n \<Longrightarrow> 0 < n"
  by (auto simp: frame_len_def split: if_splits)

lemma fill_step_shrinks:
  assumes "fill_step tr s = Some (tr', os, s')"
  shows "length s' < length s"
proof (cases s)
  case Nil
  with assms show ?thesis by (simp add: fill_step_def)
next
  case (Cons b t)
  show ?thesis
  proof (cases "frame_len b")
    case None
    with assms Cons show ?thesis by (simp add: fill_step_def)
  next
    case (Some n)
    then have "0 < n" by (rule frame_len_pos)
    with assms Cons Some show ?thesis
      by (auto simp: fill_step_def Let_def split: if_splits option.splits prod.splits)
  qed
qed

function fill_frames :: "ouch \<Rightarrow> bytes \<Rightarrow> ouch \<times> report_out list \<times> bytes" where
  "fill_frames tr s =
     (case fill_step tr s of
        None \<Rightarrow> (tr, [], s)
      | Some (tr1, o1, s1) \<Rightarrow> (case fill_frames tr1 s1 of (tr2, o2, s2) \<Rightarrow> (tr2, o1 @ o2, s2)))"
  by pat_completeness auto
termination
  by (relation "measure (\<lambda>(tr, s). length s)") (auto dest: fill_step_shrinks)

declare fill_frames.simps [simp del]

text \<open>
  The thread's receive loop: each chunk is appended to the accumulated stream and the framing loop
  runs; an empty chunk (\<open>recv\<close> returned 0 or an error) ends the thread.
\<close>

fun fill_thread :: "ouch \<Rightarrow> bytes \<Rightarrow> bytes list \<Rightarrow> ouch \<times> report_out list \<times> bytes" where
  "fill_thread tr stream [] = (tr, [], stream)"
| "fill_thread tr stream (c # cs) =
     (if c = [] then (tr, [], stream)
      else case fill_frames tr (stream @ c) of (tr1, o1, s1) \<Rightarrow>
        (case fill_thread tr1 s1 cs of (tr2, o2, s2) \<Rightarrow> (tr2, o1 @ o2, s2)))"

section \<open>The connection loop of the simulated exchange\<close>

definition exchange_order :: "ouch \<Rightarrow> bytes \<Rightarrow> ouch \<times> bytes" where
  "exchange_order ex m =
     (case ouch_decode_order m of
        None \<Rightarrow> (ex, [])
      | Some ord \<Rightarrow>
          (case encode_ack ex ord True kAckMsgLen of
             None \<Rightarrow> (ex, [])
           | Some (ex1, ack) \<Rightarrow>
               (case encode_exec ex1 (order_id ord) (quantity ord) (price ord) True kExecMsgLen of
                  None \<Rightarrow> (ex1, [])
                | Some (ex2, ex_bytes) \<Rightarrow> (ex2, ack @ ex_bytes))))"

definition exchange_cancel :: "ouch \<Rightarrow> bytes \<Rightarrow> ouch \<times> bytes" where
  "exchange_cancel ex m =
     (case encode_cancel ex (strtoull (field m 1 14)) 0 True kCancelMsgLen of
        None \<Rightarrow> (ex, [])
      | Some (ex', c) \<Rightarrow> (ex', c))"

text \<open>
  One iteration: \<^const>\<open>None\<close> where the loop waits for bytes or closes the connection (an unknown
  type byte).
\<close>

definition exchange_step :: "ouch \<Rightarrow> bytes \<Rightarrow> (ouch \<times> bytes \<times> bytes) option" where
  "exchange_step ex s =
     (case s of
        [] \<Rightarrow> None
      | b # t \<Rightarrow>
          if b = kMsgOrder then
            (if length s < kOuchOrderLen then None
             else case exchange_order ex (take kOuchOrderLen s) of
               (ex', out) \<Rightarrow> Some (ex', out, drop kOuchOrderLen s))
          else if b = kMsgCancelReq then
            (if length s < kCancelReqLen then None
             else case exchange_cancel ex (take kCancelReqLen s) of
               (ex', out) \<Rightarrow> Some (ex', out, drop kCancelReqLen s))
          else None)"

lemma exchange_step_shrinks:
  "exchange_step ex s = Some (ex', out, s') \<Longrightarrow> length s' < length s"
  by (auto simp: exchange_step_def split: list.splits if_splits prod.splits)

function exchange_conn :: "ouch \<Rightarrow> bytes \<Rightarrow> ouch \<times> bytes \<times> bytes" where
  "exchange_conn ex s =
     (case exchange_step ex s of
        None \<Rightarrow> (ex, [], s)
      | Some (ex1, o1, s1) \<Rightarrow> (case exchange_conn ex1 s1 of (ex2, o2, s2) \<Rightarrow> (ex2, o1 @ o2, s2)))"
  by pat_completeness auto
termination
  by (relation "measure (\<lambda>(ex, s). length s)") (auto dest: exchange_step_shrinks)

declare exchange_conn.simps [simp del]

section \<open>Framing does not depend on the chunks\<close>

lemma fill_step_append:
  assumes "fill_step tr s = Some (tr', os, s')"
  shows "fill_step tr (s @ ys) = Some (tr', os, s' @ ys)"
proof (cases s)
  case Nil
  with assms show ?thesis by (simp add: fill_step_def)
next
  case (Cons b t)
  show ?thesis
  proof (cases "frame_len b")
    case None
    with assms Cons show ?thesis by (simp add: fill_step_def)
  next
    case (Some n)
    with assms Cons have n: "n \<le> length s" by (auto simp: fill_step_def split: if_splits)
    then have "take n (s @ ys) = take n s" "drop n (s @ ys) = drop n s @ ys" by simp_all
    with assms Cons Some n show ?thesis
      by (auto simp: fill_step_def Let_def split: if_splits option.splits prod.splits)
  qed
qed

lemma fill_frames_append:
  "fill_frames tr (s @ ys) =
     (case fill_frames tr s of (tr1, o1, s1) \<Rightarrow>
        (case fill_frames tr1 (s1 @ ys) of (tr2, o2, s2) \<Rightarrow> (tr2, o1 @ o2, s2)))"
proof (induction tr s rule: fill_frames.induct)
  case (1 tr s)
  show ?case
  proof (cases "fill_step tr s")
    case None
    then show ?thesis by (simp add: fill_frames.simps [of tr s] split: prod.splits)
  next
    case (Some x)
    obtain tr1 o1 s1 where x: "x = (tr1, o1, s1)" by (cases x)
    have "fill_step tr (s @ ys) = Some (tr1, o1, s1 @ ys)"
      using Some x by (simp add: fill_step_append)
    then show ?thesis
      using Some x 1 [OF Some [unfolded x] refl refl]
      by (simp add: fill_frames.simps [of tr s] fill_frames.simps [of tr "s @ ys"] split: prod.splits)
  qed
qed

lemma fill_frames_stuck: "fill_frames tr s = (tr', os, s') \<Longrightarrow> fill_step tr' s' = None"
proof (induction tr s arbitrary: os rule: fill_frames.induct)
  case (1 tr s)
  then show ?case
    by (subst (asm) fill_frames.simps) (auto split: option.splits prod.splits)
qed

lemma fill_frames_idle: "fill_step tr s = None \<Longrightarrow> fill_frames tr s = (tr, [], s)"
  by (simp add: fill_frames.simps)

lemma fill_thread_concat:
  assumes "fill_step tr stream = None" "[] \<notin> set cs"
  shows "fill_thread tr stream cs = fill_frames tr (stream @ concat cs)"
  using assms
proof (induction cs arbitrary: tr stream)
  case Nil
  then show ?case by (simp add: fill_frames_idle)
next
  case (Cons c cs)
  obtain tr1 o1 s1 where f: "fill_frames tr (stream @ c) = (tr1, o1, s1)"
    by (cases "fill_frames tr (stream @ c)")
  have "fill_thread tr1 s1 cs = fill_frames tr1 (s1 @ concat cs)"
    using Cons.IH [OF fill_frames_stuck [OF f]] Cons.prems(2) by simp
  then show ?case
    using f Cons.prems(2) fill_frames_append [of tr "stream @ c" "concat cs"]
    by (auto split: prod.splits)
qed

section \<open>From the trader's requests to its reports\<close>

datatype request = Req_Order order | Req_Cancel u64

fun request_ok :: "request \<Rightarrow> bool" where
  "request_ok (Req_Order ord) \<longleftrightarrow> ouch_order_ok ord"
| "request_ok (Req_Cancel oid) \<longleftrightarrow> unat oid < 10 ^ 14"

fun request_bytes :: "request \<Rightarrow> bytes" where
  "request_bytes (Req_Order ord) = ouch_order_msg ord"
| "request_bytes (Req_Cancel oid) = the (ouch_encode_cancel_request oid True kCancelReqLen)"

text \<open>What the exchange reports for a request.\<close>

fun answers :: "request \<Rightarrow> report list" where
  "answers (Req_Order ord) = [Rep_Ack (ouch_image ord), Rep_Exec (order_id ord) (quantity ord) (price ord)]"
| "answers (Req_Cancel oid) = [Rep_Cancel oid 0]"

fun send_reports :: "ouch \<Rightarrow> report list \<Rightarrow> ouch \<times> bytes" where
  "send_reports ex [] = (ex, [])"
| "send_reports ex (rep # reps) =
     (case ref_for ex (report_id rep) of (ex1, r) \<Rightarrow>
        (case send_reports ex1 reps of (ex2, bs) \<Rightarrow> (ex2, report_bytes rep r @ bs)))"

lemma report_encoders:
  "encode_ack ex ord True kAckMsgLen =
     (case ref_for ex (order_id ord) of (ex', r) \<Rightarrow> Some (ex', report_bytes (Rep_Ack ord) r))"
  "encode_exec ex oid q px True kExecMsgLen =
     (case ref_for ex oid of (ex', r) \<Rightarrow> Some (ex', report_bytes (Rep_Exec oid q px) r))"
  "encode_cancel ex oid q True kCancelMsgLen =
     (case ref_for ex oid of (ex', r) \<Rightarrow> Some (ex', report_bytes (Rep_Cancel oid q) r))"
  using send_report_eq [of ex "Rep_Ack ord"] send_report_eq [of ex "Rep_Exec oid q px"]
    send_report_eq [of ex "Rep_Cancel oid q"] by (simp_all add: ouch_encode_fill_def)

lemma cancel_request_bytes:
  fixes oid rest
  defines "m \<equiv> request_bytes (Req_Cancel oid)"
  shows "length m = kCancelReqLen" "(m @ rest) ! 0 = kMsgCancelReq" "field m 1 14 = token_for oid"
proof -
  let ?ws = "ouch_cancel_request_writes oid"
  have fit: "fits 19 ?ws" by (simp add: ouch_cancel_request_writes_def)
  have m: "m = seal 19 (layout 19 ?ws) @ []" by (simp add: m_def ouch_encode_cancel_request_def)
  then show len: "length m = kCancelReqLen" using length_layout [OF fit] by (simp add: seal_def)
  note msg = sealed [OF fit _ m]
  have "m ! 0 = kMsgCancelReq"
    by (rule of_field, rule msg(3)) (simp_all add: ouch_cancel_request_writes_def)
  then show "(m @ rest) ! 0 = kMsgCancelReq" using len by (simp add: nth_append)
  show "field m 1 14 = token_for oid"
    by (rule msg(3)) (simp_all add: ouch_cancel_request_writes_def)
qed

lemma exchange_step_request:
  assumes "request_ok req"
  shows "exchange_step ex (request_bytes req @ rest) =
    (case send_reports ex (answers req) of (ex', out) \<Rightarrow> Some (ex', out, rest))"
proof (cases req)
  case (Req_Order ord)
  let ?m = "ouch_order_msg ord"
  have ok: "ouch_order_ok ord" using assms Req_Order by simp
  have len: "length ?m = 49" by (rule ouch_order_msg_length)
  have hd: "?m ! 0 = kMsgOrder" using ouch_order_msg_fields(3) [of ord "[]"] by simp
  obtain t where t: "?m = kMsgOrder # t" using len hd by (cases ?m) auto
  have d: "ouch_decode_order ?m = Some (ouch_image ord)"
    using ouch_order_decodes [OF ok, of "[]"] by simp
  have img: "order_id (ouch_image ord) = order_id ord" "quantity (ouch_image ord) = quantity ord"
    "price (ouch_image ord) = price ord" by (simp_all add: ouch_image_def)
  have "exchange_step ex (?m @ rest) =
    (case exchange_order ex ?m of (ex', out) \<Rightarrow> Some (ex', out, rest))"
    using len by (simp add: exchange_step_def t)
  moreover have "exchange_order ex ?m = send_reports ex (answers req)"
    by (simp add: exchange_order_def d report_encoders img Req_Order split: prod.splits)
  ultimately show ?thesis by (simp add: Req_Order)
next
  case (Req_Cancel oid)
  let ?m = "request_bytes (Req_Cancel oid)"
  note m = cancel_request_bytes [of oid]
  obtain t where t: "?m = kMsgCancelReq # t" using m(1) m(2) [of "[]"]
    by (cases ?m) (auto simp del: request_bytes.simps)
  have "strtoull (field ?m 1 14) = oid" using assms Req_Cancel m(3) by (simp add: strtoull_token)
  then have "exchange_cancel ex ?m = send_reports ex (answers req)"
    by (simp add: exchange_cancel_def report_encoders Req_Cancel split: prod.splits)
  moreover have "exchange_step ex (?m @ rest) =
    (case exchange_cancel ex ?m of (ex', out) \<Rightarrow> Some (ex', out, rest))"
    using m(1) by (simp add: exchange_step_def t del: request_bytes.simps)
  ultimately show ?thesis by (simp add: Req_Cancel)
qed

lemma send_reports_append:
  "send_reports ex (xs @ ys) = (case send_reports ex xs of (ex1, b1) \<Rightarrow>
     (case send_reports ex1 ys of (ex2, b2) \<Rightarrow> (ex2, b1 @ b2)))"
  by (induction xs arbitrary: ex) (auto split: prod.splits)

lemma exchange_conn_requests:
  assumes "\<forall>req \<in> set reqs. request_ok req"
  shows "exchange_conn ex (concat (map request_bytes reqs)) =
    (case send_reports ex (concat (map answers reqs)) of (ex', out) \<Rightarrow> (ex', out, []))"
  using assms
proof (induction reqs arbitrary: ex)
  case Nil
  then show ?case by (simp add: exchange_conn.simps exchange_step_def)
next
  case (Cons req reqs)
  then show ?case
    by (subst exchange_conn.simps) (simp add: exchange_step_request send_reports_append split: prod.splits)
qed

lemma answers_ok: "request_ok req \<Longrightarrow> \<forall>rep \<in> set (answers req). report_ok rep"
  by (cases req) (auto simp: ouch_order_ok_def ouch_image_def)

lemma report_types:
  "frame_len (report_type rep) = Some (length (report_bytes rep r))" "report_type rep \<noteq> kMsgBook"
  by (cases rep; simp add: frame_len_def report_bytes_length report_len_def)+

lemma fill_step_report:
  assumes "ouch_decode_fill tr (report_bytes rep r @ []) = Some (tr', f)"
  shows "fill_step tr (report_bytes rep r @ rest) = Some (tr', [Fill_Out f], rest)"
proof -
  let ?m = "report_bytes rep r"
  obtain t where t: "?m = report_type rep # t"
    using report_bytes_type [of rep r "[]"] by (cases ?m) auto
  have "length ?m = length (report_type rep # t)" using t by simp
  then show ?thesis
    using assms report_types(1) [of rep r] report_types(2) [of rep] t by (simp add: fill_step_def)
qed

text \<open>Every report reaches the trader once, in order, with the reference of its own order.\<close>

lemma reports_delivered:
  assumes "linked ex tr" "\<forall>rep \<in> set reps. report_ok rep"
    "unat (next_ref ex) + length reps < 2 ^ 64"
    "send_reports ex reps = (ex', out)"
  shows "(\<exists>tr'. linked ex' tr' \<and> fill_frames tr out =
      (tr', map (\<lambda>rep. Fill_Out (expected_fill rep (the (id_to_ref ex' (report_id rep))))) reps, [])) \<and>
    (\<forall>k a. id_to_ref ex k = Some a \<longrightarrow> id_to_ref ex' k = Some a)"
  using assms
proof (induction reps arbitrary: ex tr out)
  case Nil
  then show ?case by (simp add: fill_frames.simps fill_step_def)
next
  case (Cons rep reps)
  obtain ex1 r where r: "ref_for ex (report_id rep) = (ex1, r)" by (cases "ref_for ex (report_id rep)")
  obtain out1 where o1: "send_reports ex1 reps = (ex', out1)" "out = report_bytes rep r @ out1"
    using Cons.prems(4) r by (auto split: prod.splits)
  have room: "next_ref ex \<noteq> -1" using Cons.prems(3) by (auto simp: unat64_max)
  have ok: "report_ok rep" using Cons.prems(2) by simp
  have sent: "send_report ex rep = Some (ex1, report_bytes rep r)" by (simp add: send_report_eq r)
  obtain r' tr1 where d: "id_to_ref ex1 (report_id rep) = Some r'" "report_bytes rep r = report_bytes rep r'"
    "\<forall>rest. ouch_decode_fill tr (report_bytes rep r @ rest) = Some (tr1, expected_fill rep r')"
    "linked ex1 tr1" "unat (next_ref ex1) \<le> unat (next_ref ex) + 1"
    "\<forall>k a. id_to_ref ex k = Some a \<longrightarrow> id_to_ref ex1 k = Some a"
    using report_delivered [OF Cons.prems(1) room ok sent] by metis
  have small: "unat (next_ref ex1) + length reps < 2 ^ 64" using d(5) Cons.prems(3) by simp
  have oks: "\<forall>rep \<in> set reps. report_ok rep" using Cons.prems(2) by simp
  note ih = Cons.IH [OF d(4) oks small o1(1)]
  then have ref: "id_to_ref ex' (report_id rep) = Some r'" using d(1) by blast
  have "fill_step tr out = Some (tr1, [Fill_Out (expected_fill rep r')], out1)"
    using fill_step_report [OF d(3) [rule_format, of "[]"], of out1] o1(2) by simp
  then show ?case
    using ih d(6) ref by (auto simp: fill_frames.simps [of tr out])
qed

text \<open>C4. The order connection end to end. Whatever orders and cancel requests the trader sends
  (in range of the wire format), the simulated exchange answers each order by an acceptance and a
  full execution and each cancel by a cancellation; and however the TCP stream of the answers is cut
  into chunks, the trader's fill thread decodes exactly these reports in this order, each with the
  id, quantity and price of its own order, with one exchange reference per order, and no byte is
  left over.\<close>

theorem order_connection_end_to_end:
  assumes "linked ex tr" "\<forall>req \<in> set reqs. request_ok req"
    "unat (next_ref ex) + 2 * length reqs < 2 ^ 64"
    "exchange_conn ex (concat (map request_bytes reqs)) = (ex', out, left)"
    "concat chunks = out" "[] \<notin> set chunks"
  shows "left = [] \<and> (\<exists>tr'. linked ex' tr' \<and> fill_thread tr [] chunks =
    (tr', map (\<lambda>rep. Fill_Out (expected_fill rep (the (id_to_ref ex' (report_id rep)))))
            (concat (map answers reqs)), []))"
proof -
  let ?reps = "concat (map answers reqs)"
  have s: "send_reports ex ?reps = (ex', out)" "left = []"
    using assms(4) exchange_conn_requests [OF assms(2), of ex] by (auto split: prod.splits)
  have "length (answers req) \<le> 2" for req by (cases req) simp_all
  then have "length ?reps \<le> 2 * length reqs"
    by (induction reqs) (auto simp: add_mono intro: order_trans [OF add_mono])
  then have room: "unat (next_ref ex) + length ?reps < 2 ^ 64" using assms(3) by linarith
  have ok: "\<forall>rep \<in> set ?reps. report_ok rep" using assms(2) answers_ok by fastforce
  have idle: "fill_step tr [] = None" by (simp add: fill_step_def)
  show ?thesis
    using reports_delivered [OF assms(1) ok room s(1)] fill_thread_concat [OF idle assms(6)] assms(5) s(2)
    by auto
qed

text \<open>The fill thread's framing does not depend on how TCP cuts the stream: the reports decoded,
  the state learned and the bytes kept for later are those of the whole stream at once, also for
  streams with unknown bytes and incomplete or corrupt messages.\<close>

theorem fill_thread_chunking:
  assumes "[] \<notin> set chunks"
  shows "fill_thread tr [] chunks = fill_frames tr (concat chunks)"
  using fill_thread_concat [OF _ assms, of tr "[]"] by (simp add: fill_step_def)

text \<open>The witnesses run one order and its cancellation over a stream cut in two.\<close>

definition demo_requests :: "request list" where
  "demo_requests = [Req_Order demo_wire_order, Req_Cancel 42]"

theorem order_connection_end_to_end_witness:
  "\<exists>ex' out left tr' r. exchange_conn new_ouch (concat (map request_bytes demo_requests)) = (ex', out, left) \<and>
     out \<noteq> [] \<and> fill_thread new_ouch [] [take 1 out, drop 1 out] =
       (tr', [Fill_Out (report_fill kMsgAck 42 r),
              Fill_Out ((report_fill kMsgExec 42 r)\<lparr>f_filled_qty := 500, f_fill_price := 10000\<rparr>),
              Fill_Out (report_fill kMsgCancel 42 r)], [])"
proof -
  obtain ex' out left where e: "exchange_conn new_ouch (concat (map request_bytes demo_requests)) = (ex', out, left)"
    by (cases "exchange_conn new_ouch (concat (map request_bytes demo_requests))")
  have ok: "\<forall>req \<in> set demo_requests. request_ok req"
    by (simp add: demo_requests_def demo_wire_order_ok)
  have s: "send_reports new_ouch (concat (map answers demo_requests)) = (ex', out)"
    using e exchange_conn_requests [OF ok, of new_ouch] by (auto split: prod.splits)
  have len: "78 \<le> length out"
    using s by (auto simp: demo_requests_def report_bytes_length report_len_def split: prod.splits)
  then have ne: "out \<noteq> []" "[] \<notin> set [take 1 out, drop 1 out]" by auto
  have room: "unat (next_ref new_ouch) + 2 * length demo_requests < 2 ^ 64"
    by (simp add: new_ouch_def demo_requests_def)
  have ids: "order_id demo_wire_order = 42" "quantity demo_wire_order = 500" "price demo_wire_order = 10000"
    by (simp_all add: demo_wire_order_def empty_order_def)
  show ?thesis
    using order_connection_end_to_end [OF linked_new ok room e _ ne(2)] e ne(1)
    by (simp add: demo_requests_def demo_wire_order_image ids) blast
qed

theorem fill_thread_chunking_witness:
  "fill_thread new_ouch [] [[0x7A], [0x41, 0]] = (new_ouch, [], [0x41, 0])"
  using fill_thread_chunking [of "[[0x7A], [0x41, 0]]" new_ouch]
  by (simp add: fill_frames.simps fill_step_def frame_len_def)

end
