(* ===== verification/Execution_Engine.thy ===== *)
theory Execution_Engine
  imports Order_Manager Risk_Manager Ouch_Codec
begin

text \<open>
  The execution engine of \<^verbatim>\<open>execution/execution_engine.h\<close>: from a strategy signal through the risk
  check, the order manager and the codec to the sender, and from the exchange's reports back to
  the order manager and the risk manager. One call is one step: the engine's mutex serialises them.

  The codec is the virtual table of \<^verbatim>\<open>i_order_codec.h\<close> (record \<open>codec_vt\<close>), the network sender a
  function from the messages handed to it so far and the next one to the \<open>ssize_t\<close> that \<open>send\<close>
  returns. The iteration order of the order table, an \<open>unordered_map\<close>, is the argument \<open>ids\<close>.
\<close>

section \<open>State\<close>

record codec_vt =
  vt_encode_order :: "order \<Rightarrow> nat \<Rightarrow> bytes option"
  vt_encode_cancel_request :: "u64 \<Rightarrow> nat \<Rightarrow> bytes option"
  vt_encode_book_query :: "u64 \<Rightarrow> nat \<Rightarrow> bytes option"

definition custom_vt :: codec_vt where
  "custom_vt = \<lparr>vt_encode_order = (\<lambda>ord cap. cc_encode_order ord True cap),
     vt_encode_cancel_request = (\<lambda>oid cap. cc_encode_cancel_request oid True cap),
     vt_encode_book_query = (\<lambda>sid cap. cc_encode_book_query sid True cap)\<rparr>"

definition ouch_vt :: codec_vt where
  "ouch_vt = \<lparr>vt_encode_order = (\<lambda>ord cap. map_option snd (ouch_encode_order new_ouch ord True cap)),
     vt_encode_cancel_request = (\<lambda>oid cap. ouch_encode_cancel_request oid True cap),
     vt_encode_book_query = (\<lambda>sid cap. ouch_encode_book_query sid True cap)\<rparr>"

record engine =
  eng_om :: oms
  eng_rm :: risk
  eng_sender :: "(bytes list \<Rightarrow> bytes \<Rightarrow> int) option"
  eng_codec :: "codec_vt option"
  eng_sent :: "bytes list"
  base_qty :: u64
  flatten_issued :: bool
  book_result :: book_quote
  book_waiting :: bool

definition new_engine :: engine where
  "new_engine = \<lparr>eng_om = empty_oms, eng_rm = new_risk, eng_sender = None, eng_codec = None,
     eng_sent = [], base_qty = 100, flatten_issued = False, book_result = empty_quote,
     book_waiting = False\<rparr>"

definition set_base_qty :: "engine \<Rightarrow> u64 \<Rightarrow> engine" where
  "set_base_qty e q = e\<lparr>base_qty := q\<rparr>"

definition set_sender :: "engine \<Rightarrow> (bytes list \<Rightarrow> bytes \<Rightarrow> int) option \<Rightarrow> engine" where
  "set_sender e s = e\<lparr>eng_sender := s\<rparr>"

definition set_codec :: "engine \<Rightarrow> codec_vt option \<Rightarrow> engine" where
  "set_codec e c = e\<lparr>eng_codec := c\<rparr>"

text \<open>\<open>sender_->send(buf, out_len)\<close>: the message is handed over, and the returned count is compared
  with its length by every caller.\<close>

definition send_ok :: "engine \<Rightarrow> (bytes list \<Rightarrow> bytes \<Rightarrow> int) \<Rightarrow> bytes \<Rightarrow> engine \<times> bool" where
  "send_ok e tx bs = (e\<lparr>eng_sent := eng_sent e @ [bs]\<rparr>, tx (eng_sent e) bs = int (length bs))"

section \<open>Submitting a signal\<close>

definition signal_qty :: "engine \<Rightarrow> signal \<Rightarrow> u64" where
  "signal_qty e sg = (base_qty e * sig_strength sg) div kStrengthScale"

definition signal_order :: "signal \<Rightarrow> u64 \<Rightarrow> order_type \<Rightarrow> u64 \<Rightarrow> order" where
  "signal_order sg strat ty qty =
     empty_order\<lparr>strategy_id := strat, symbol_id := sig_locate sg, side := sig_side sg, otype := ty,
       price := sig_price sg, quantity := qty, timestamp := sig_timestamp sg\<rparr>"

definition submit_signal :: "engine \<Rightarrow> signal \<Rightarrow> u64 \<Rightarrow> order_type \<Rightarrow> engine \<times> u64" where
  "submit_signal e sg strat ty =
     (if sig_side sg = NONE \<or> sig_price sg <s 0 then (e, 0)
      else if ty = LIMIT \<and> sig_price sg <=s 0 then (e, 0)
      else let qty = signal_qty e sg in
        if qty = 0 then (e, 0)
        else
          let (om1, ord) = new_order (eng_om e) (signal_order sg strat ty qty);
              oid = order_id ord;
              e1 = e\<lparr>eng_om := om1\<rparr>;
              rejected = (\<lambda>x. x\<lparr>eng_om := on_reject (eng_om x) oid\<rparr>)
          in if \<not> check_order (eng_rm e) ord then (rejected e1, oid)
             else case eng_sender e of
               Some tx \<Rightarrow>
                 (case eng_codec e of
                    None \<Rightarrow> (rejected e1, oid)
                  | Some vt \<Rightarrow>
                      (case vt_encode_order vt ord 256 of
                         None \<Rightarrow> (rejected e1, oid)
                       | Some bs \<Rightarrow>
                           (let (e2, ok) = send_ok e1 tx bs
                            in if ok then (e2, oid) else (rejected e2, oid))))
             | None \<Rightarrow>
                 (e1\<lparr>eng_om := on_fill (on_accept om1 oid 0) oid qty (price ord),
                     eng_rm := risk_on_fill (eng_rm e1) ord qty\<rparr>, oid))"

section \<open>Cancels and the drawdown flattening\<close>

definition cancel_order :: "engine \<Rightarrow> u64 \<Rightarrow> engine \<times> bool" where
  "cancel_order e oid =
     (case (eng_sender e, eng_codec e) of
        (Some tx, Some vt) \<Rightarrow>
          (let (om1, ok) = request_cancel (eng_om e) oid
           in if \<not> ok then (e, False)
              else let e1 = e\<lparr>eng_om := om1\<rparr> in
                case vt_encode_cancel_request vt oid 64 of
                  None \<Rightarrow> (e1, False)
                | Some bs \<Rightarrow> send_ok e1 tx bs)
      | _ \<Rightarrow> (e, False))"

text \<open>The loop body for one entry of the order table.\<close>

definition flatten_entry :: "u64 \<Rightarrow> engine \<Rightarrow> engine" where
  "flatten_entry oid e =
     (case orders (eng_om e) oid of
        None \<Rightarrow> e
      | Some en \<Rightarrow>
          if status en = SUBMITTED \<or> status en = PARTIAL_FILL then
            (case (eng_sender e, eng_codec e) of
               (Some tx, Some vt) \<Rightarrow>
                 (case vt_encode_cancel_request vt oid 64 of
                    None \<Rightarrow> e
                  | Some bs \<Rightarrow>
                      (let (e1, ok) = send_ok e tx bs
                       in if ok then e1\<lparr>eng_om := fst (request_cancel (eng_om e1) oid)\<rparr> else e1))
             | _ \<Rightarrow> e\<lparr>eng_om := fst (request_cancel (eng_om e) oid)\<rparr>)
          else e)"

definition flatten_on_drawdown :: "u64 list \<Rightarrow> engine \<Rightarrow> engine" where
  "flatten_on_drawdown ids e =
     (if flatten_issued e then e
      else if \<not> drawdown_flatten (eng_rm e) then e
      else fold flatten_entry ids (e\<lparr>flatten_issued := True\<rparr>))"

section \<open>Reports\<close>

definition on_order_fill :: "u64 list \<Rightarrow> engine \<Rightarrow> u64 \<Rightarrow> u64 \<Rightarrow> i64 \<Rightarrow> engine" where
  "on_order_fill ids e oid filled_qty fill_price =
     (case order_of (eng_om e) oid of
        None \<Rightarrow> e
      | Some ord \<Rightarrow>
          flatten_on_drawdown ids
            (e\<lparr>eng_om := on_fill (eng_om e) oid filled_qty fill_price,
               eng_rm := risk_on_fill (eng_rm e) ord filled_qty\<rparr>))"

definition on_order_report :: "u64 list \<Rightarrow> engine \<Rightarrow> fill \<Rightarrow> engine" where
  "on_order_report ids e f =
     (case order_of (eng_om e) (f_order_id f) of
        None \<Rightarrow> e
      | Some ord \<Rightarrow>
          if f_type f = kMsgAck then
            e\<lparr>eng_om := on_accept (eng_om e) (f_order_id f) (f_exchange_ref f)\<rparr>
          else if f_type f = kMsgExec then
            flatten_on_drawdown ids
              (e\<lparr>eng_om := on_fill (eng_om e) (f_order_id f) (f_filled_qty f) (f_fill_price f),
                 eng_rm := risk_on_fill (eng_rm e) ord (f_filled_qty f)\<rparr>)
          else if f_type f = kMsgCancel then
            e\<lparr>eng_om := fst (on_cancel (eng_om e) (f_order_id f))\<rparr>
          else if f_type f = kMsgReject then
            e\<lparr>eng_om := on_reject (eng_om e) (f_order_id f)\<rparr>
          else e)"

section \<open>Book queries\<close>

definition on_book_quote :: "engine \<Rightarrow> book_quote \<Rightarrow> engine" where
  "on_book_quote e q =
     (let e1 = e\<lparr>book_result := q\<rparr> in if book_waiting e1 then e1\<lparr>book_waiting := False\<rparr> else e1)"

text \<open>
  \<open>query_book\<close> sends the query, releases its lock and waits; \<open>qs\<close> are the quotes the fill thread
  delivers until the waiting thread holds the lock again. With none of them the wait times out.
\<close>

definition query_book :: "engine \<Rightarrow> u64 \<Rightarrow> book_quote list \<Rightarrow> engine \<times> book_quote option" where
  "query_book e sid qs =
     (case (eng_sender e, eng_codec e) of
        (Some tx, Some vt) \<Rightarrow>
          (let e1 = e\<lparr>book_waiting := True\<rparr> in
           case vt_encode_book_query vt sid 32 of
             None \<Rightarrow> (e1\<lparr>book_waiting := False\<rparr>, None)
           | Some bs \<Rightarrow>
               (let (e2, ok) = send_ok e1 tx bs in
                if \<not> ok then (e2\<lparr>book_waiting := False\<rparr>, None)
                else let e3 = foldl on_book_quote e2 qs in
                  if book_waiting e3 then (e3\<lparr>book_waiting := False\<rparr>, None)
                  else if q_symbol_id (book_result e3) \<noteq> sid then (e3, None)
                  else (e3, Some (book_result e3))))
      | _ \<Rightarrow> (e, None))"

definition submit_market_as_limit :: "engine \<Rightarrow> signal \<Rightarrow> u64 \<Rightarrow> book_quote list \<Rightarrow> engine \<times> u64" where
  "submit_market_as_limit e sg strat qs =
     (if sig_side sg = NONE then (e, 0)
      else case query_book e (sig_locate sg) qs of
        (e1, None) \<Rightarrow> (e1, 0)
      | (e1, Some q) \<Rightarrow>
          (let limit_price = (if sig_side sg = BUY then q_ask q else q_bid q)
           in if limit_price <=s 0 then (e1, 0)
              else submit_signal e1 (sg\<lparr>sig_price := limit_price\<rparr>) strat LIMIT))"

text \<open>Whatever happens to it afterwards, a submitted order is registered with its ticket.\<close>

lemma submit_signal_ticket:
  assumes "submit_signal e sg strat ty = (e', oid)" "oid \<noteq> 0"
  shows "order_of (eng_om e') oid = Some ((signal_order sg strat ty (signal_qty e sg))\<lparr>order_id := oid\<rparr>)"
proof -
  obtain m1 ord where n: "new_order (eng_om e) (signal_order sg strat ty (signal_qty e sg)) = (m1, ord)"
    by (cases "new_order (eng_om e) (signal_order sg strat ty (signal_qty e sg))")
  have t: "order_of m1 (order_id ord) = Some ord"
    "ord = (signal_order sg strat ty (signal_qty e sg))\<lparr>order_id := order_id ord\<rparr>"
    using n by (auto simp: new_order_def Let_def order_of_def)
  have "oid = order_id ord \<and> order_of (eng_om e') oid = Some ord"
    using assms t(1) unfolding submit_signal_def
    by (auto simp: Let_def n send_ok_def split: option.splits if_splits)
  then show ?thesis using t(2) by metis
qed

lemma submit_signal_id:
  "snd (submit_signal e sg strat ty) =
     (if sig_side sg = NONE \<or> sig_price sg <s 0 \<or> (ty = LIMIT \<and> sig_price sg <=s 0) \<or> signal_qty e sg = 0
      then 0 else next_id (eng_om e))"
proof -
  obtain m1 ord where n: "new_order (eng_om e) (signal_order sg strat ty (signal_qty e sg)) = (m1, ord)"
    by (cases "new_order (eng_om e) (signal_order sg strat ty (signal_qty e sg))")
  then have "order_id ord = next_id (eng_om e)" by (auto simp: new_order_def Let_def)
  then show ?thesis
    unfolding submit_signal_def by (auto simp: Let_def n send_ok_def split: option.splits)
qed

section \<open>Runs of the engine\<close>

datatype engine_call =
    Submit signal u64 order_type
  | Market_As_Limit signal u64 "book_quote list"
  | Cancel_Order u64
  | Order_Fill "u64 list" u64 u64 i64
  | Report "u64 list" fill
  | Query_Book u64 "book_quote list"
  | Book_Quote book_quote

fun engine_step :: "engine \<Rightarrow> engine_call \<Rightarrow> engine" where
  "engine_step e (Submit sg strat ty) = fst (submit_signal e sg strat ty)"
| "engine_step e (Market_As_Limit sg strat qs) = fst (submit_market_as_limit e sg strat qs)"
| "engine_step e (Cancel_Order oid) = fst (cancel_order e oid)"
| "engine_step e (Order_Fill ids oid q px) = on_order_fill ids e oid q px"
| "engine_step e (Report ids f) = on_order_report ids e f"
| "engine_step e (Query_Book sid qs) = fst (query_book e sid qs)"
| "engine_step e (Book_Quote q) = on_book_quote e q"

definition engine_run :: "engine \<Rightarrow> engine_call list \<Rightarrow> engine" where
  "engine_run = foldl engine_step"

lemma engine_run_simps [simp]:
  "engine_run e [] = e" "engine_run e (c # cs) = engine_run (engine_step e c) cs"
  by (simp_all add: engine_run_def)

section \<open>The order manager under the engine\<close>

text \<open>
  Every call of the engine drives the order manager by a sequence of its operations, with one
  \<open>new_order\<close> at most.
\<close>

definition om_moves :: "nat \<Rightarrow> oms \<Rightarrow> oms \<Rightarrow> bool" where
  "om_moves n m m' \<longleftrightarrow> (\<exists>evs. m' = oms_run m evs \<and> length (filter (\<lambda>ev. \<exists>ord. ev = New ord) evs) \<le> n)"

lemma om_moves_refl [simp]: "om_moves n m m"
  unfolding om_moves_def by (rule exI [of _ "[]"]) simp

lemma om_moves_trans: "om_moves a m m1 \<Longrightarrow> om_moves b m1 m2 \<Longrightarrow> om_moves (a + b) m m2"
  unfolding om_moves_def
proof (elim exE conjE)
  fix es fs
  assume "m1 = oms_run m es" "length (filter (\<lambda>ev. \<exists>ord. ev = New ord) es) \<le> a"
    "m2 = oms_run m1 fs" "length (filter (\<lambda>ev. \<exists>ord. ev = New ord) fs) \<le> b"
  then show "\<exists>evs. m2 = oms_run m evs \<and> length (filter (\<lambda>ev. \<exists>ord. ev = New ord) evs) \<le> a + b"
    by (intro exI [of _ "es @ fs"]) (simp add: oms_run_append)
qed

lemma om_moves_then: "om_moves 0 m1 m2 \<Longrightarrow> om_moves n m m1 \<Longrightarrow> om_moves n m m2"
  using om_moves_trans [of n m m1 0 m2] by simp

lemma om_moves_mono: "om_moves a m m' \<Longrightarrow> a \<le> b \<Longrightarrow> om_moves b m m'"
  unfolding om_moves_def using le_trans by blast

lemma om_moves_step:
  "om_moves 0 m (on_accept m i ref)" "om_moves 0 m (on_fill m i q px)"
  "om_moves 0 m (fst (request_cancel m i))" "om_moves 0 m (fst (on_cancel m i))"
  "om_moves 0 m (on_reject m i)" "om_moves 1 m (fst (new_order m ord))"
proof -
  show "om_moves 0 m (on_accept m i ref)"
    unfolding om_moves_def by (rule exI [of _ "[Accept i ref]"]) simp
  show "om_moves 0 m (on_fill m i q px)"
    unfolding om_moves_def by (rule exI [of _ "[Fill i q px]"]) simp
  show "om_moves 0 m (fst (request_cancel m i))"
    unfolding om_moves_def by (rule exI [of _ "[RequestCancel i]"]) simp
  show "om_moves 0 m (fst (on_cancel m i))"
    unfolding om_moves_def by (rule exI [of _ "[CancelReport i]"]) simp
  show "om_moves 0 m (on_reject m i)"
    unfolding om_moves_def by (rule exI [of _ "[Reject i]"]) simp
  show "om_moves 1 m (fst (new_order m ord))"
    unfolding om_moves_def by (rule exI [of _ "[New ord]"]) simp
qed

lemma request_cancel_moves: "request_cancel m i = (m', ok) \<Longrightarrow> om_moves 0 m m'"
  using om_moves_step(3) [of m i] by simp

lemma new_order_moves: "new_order m ord = (m', ord') \<Longrightarrow> om_moves 1 m m'"
  using om_moves_step(6) [of m ord] by simp

lemma send_ok_fields:
  assumes "send_ok e tx bs = (e', ok)"
  shows "eng_om e' = eng_om e" "eng_rm e' = eng_rm e" "eng_sent e' = eng_sent e @ [bs]"
    "eng_codec e' = eng_codec e" "eng_sender e' = eng_sender e"
    "ok \<longleftrightarrow> tx (eng_sent e) bs = int (length bs)"
  using assms by (auto simp: send_ok_def)

lemma submit_signal_moves: "om_moves 1 (eng_om e) (eng_om (fst (submit_signal e sg strat ty)))"
proof -
  obtain m1 ord where n: "new_order (eng_om e) (signal_order sg strat ty (signal_qty e sg)) = (m1, ord)"
    by (cases "new_order (eng_om e) (signal_order sg strat ty (signal_qty e sg))")
  have m1: "om_moves 1 (eng_om e) m1" using n by (rule new_order_moves)
  have rej: "om_moves 1 (eng_om e) (on_reject m1 i)" for i
    using om_moves_step(5) m1 by (rule om_moves_then)
  have fil: "om_moves 1 (eng_om e) (on_fill (on_accept m1 i 0) i q px)" for i q px
    using om_moves_step(2) om_moves_then [OF om_moves_step(1) m1] by (rule om_moves_then)
  show ?thesis
    using m1 rej fil unfolding submit_signal_def
    by (simp add: Let_def n split: option.splits prod.splits) (auto dest: send_ok_fields(1))
qed

lemma on_book_quotes_fields:
  "eng_om (foldl on_book_quote e qs) = eng_om e" "eng_rm (foldl on_book_quote e qs) = eng_rm e"
  "eng_sent (foldl on_book_quote e qs) = eng_sent e" "eng_codec (foldl on_book_quote e qs) = eng_codec e"
  "eng_sender (foldl on_book_quote e qs) = eng_sender e" "base_qty (foldl on_book_quote e qs) = base_qty e"
  by (induction qs arbitrary: e) (simp_all add: on_book_quote_def Let_def)

lemma query_book_fields:
  assumes "query_book e sid qs = (e', r)"
  shows "eng_om e' = eng_om e" "eng_rm e' = eng_rm e" "eng_codec e' = eng_codec e"
    "eng_sender e' = eng_sender e" "base_qty e' = base_qty e"
  using assms by (auto simp: query_book_def send_ok_def on_book_quotes_fields Let_def
      split: option.splits if_splits prod.splits)

lemma flatten_entry_moves: "om_moves 0 (eng_om e) (eng_om (flatten_entry oid e))"
  by (auto simp: flatten_entry_def send_ok_def Let_def om_moves_step
      split: option.splits prod.splits)

lemma flatten_moves: "om_moves 0 (eng_om e) (eng_om (fold flatten_entry ids e))"
proof (induction ids arbitrary: e)
  case Nil then show ?case by simp
next
  case (Cons i ids)
  show ?case using om_moves_then [OF Cons [of "flatten_entry i e"] flatten_entry_moves] by simp
qed

lemma flatten_on_drawdown_moves: "om_moves 0 (eng_om e) (eng_om (flatten_on_drawdown ids e))"
  using flatten_moves [of "e\<lparr>flatten_issued := True\<rparr>" ids] by (simp add: flatten_on_drawdown_def)

lemma fill_flatten_moves:
  "om_moves 0 (eng_om e) (eng_om (flatten_on_drawdown ids (e\<lparr>eng_om := on_fill (eng_om e) i q px, eng_rm := r\<rparr>)))"
  using om_moves_then [OF flatten_on_drawdown_moves [of "e\<lparr>eng_om := on_fill (eng_om e) i q px, eng_rm := r\<rparr>"]]
    om_moves_step(2) by simp

lemma cancel_order_moves: "om_moves 0 (eng_om e) (eng_om (fst (cancel_order e oid)))"
  by (auto simp: cancel_order_def send_ok_def Let_def intro: request_cancel_moves
      split: option.splits prod.splits)

lemma engine_step_moves: "om_moves 1 (eng_om e) (eng_om (engine_step e c))"
proof (cases c)
  case (Submit sg strat ty)
  then show ?thesis using submit_signal_moves [of e sg strat ty] by simp
next
  case (Market_As_Limit sg strat qs)
  obtain e1 r where q: "query_book e (sig_locate sg) qs = (e1, r)"
    by (cases "query_book e (sig_locate sg) qs")
  then show ?thesis
    using Market_As_Limit query_book_fields(1) [OF q] submit_signal_moves [of e1]
    by (auto simp: submit_market_as_limit_def Let_def split: option.splits)
next
  case (Cancel_Order oid)
  then show ?thesis using om_moves_mono [OF cancel_order_moves] by simp
next
  case (Order_Fill ids oid q px)
  then show ?thesis
    using om_moves_mono [OF fill_flatten_moves] by (auto simp: on_order_fill_def split: option.splits)
next
  case (Report ids f)
  then show ?thesis
    using om_moves_mono [OF fill_flatten_moves] om_moves_mono [OF om_moves_step(1)]
      om_moves_mono [OF om_moves_step(4)] om_moves_mono [OF om_moves_step(5)]
    by (auto simp: on_order_report_def split: option.splits)
next
  case (Query_Book sid qs)
  then show ?thesis using query_book_fields(1) [of e sid qs] by (cases "query_book e sid qs") simp
next
  case (Book_Quote q)
  then show ?thesis by (simp add: on_book_quote_def Let_def)
qed

lemma engine_run_moves: "om_moves (length cs) (eng_om e) (eng_om (engine_run e cs))"
proof (induction cs arbitrary: e)
  case Nil then show ?case by simp
next
  case (Cons c cs)
  show ?case using om_moves_trans [OF engine_step_moves [of e c] Cons] by simp
qed

lemma engine_keeps:
  assumes "oms_inv (eng_om e)" "unat (next_id (eng_om e)) + length cs < 2 ^ 64"
  shows "oms_inv (eng_om (engine_run e cs)) \<and>
    (\<forall>i en. orders (eng_om e) i = Some en \<longrightarrow> (\<exists>en'. orders (eng_om (engine_run e cs)) i = Some en' \<and>
       e_order en' = e_order en \<and> life_step\<^sup>*\<^sup>* (status en) (status en')))"
proof -
  obtain evs where e: "eng_om (engine_run e cs) = oms_run (eng_om e) evs"
    "length (filter (\<lambda>ev. \<exists>ord. ev = New ord) evs) \<le> length cs"
    using engine_run_moves [of cs e] unfolding om_moves_def by blast
  then show ?thesis using oms_run_keeps [OF assms(1), of evs] assms(2) by simp
qed

section \<open>The flattening\<close>

lemma flatten_entry_other:
  "i \<noteq> oid \<Longrightarrow> orders (eng_om (flatten_entry oid e)) i = orders (eng_om e) i"
  by (auto simp: flatten_entry_def send_ok_def oms_op_defs split: option.splits prod.splits)

lemma flatten_entry_fields:
  "eng_rm (flatten_entry oid e) = eng_rm e" "eng_codec (flatten_entry oid e) = eng_codec e"
  "eng_sender (flatten_entry oid e) = eng_sender e" "flatten_issued (flatten_entry oid e) = flatten_issued e"
  by (auto simp: flatten_entry_def send_ok_def Let_def split: option.splits prod.splits)

lemma flatten_fields:
  "eng_rm (fold flatten_entry ids e) = eng_rm e" "eng_codec (fold flatten_entry ids e) = eng_codec e"
  "eng_sender (fold flatten_entry ids e) = eng_sender e"
  "flatten_issued (fold flatten_entry ids e) = flatten_issued e"
  by (induction ids arbitrary: e) (simp_all add: flatten_entry_fields)

text \<open>A sender that transmits every message in full.\<close>

definition reliable :: "(bytes list \<Rightarrow> bytes \<Rightarrow> int) \<Rightarrow> bool" where
  "reliable tx \<longleftrightarrow> (\<forall>h bs. tx h bs = int (length bs))"

definition cancel_of :: "engine \<Rightarrow> codec_vt \<Rightarrow> u64 \<Rightarrow> bytes list" where
  "cancel_of e vt oid =
     (if fillable (order_status_of (eng_om e) oid)
      then (case vt_encode_cancel_request vt oid 64 of None \<Rightarrow> [] | Some bs \<Rightarrow> [bs]) else [])"

lemma flatten_entry_active:
  assumes "eng_sender e = Some tx" "eng_codec e = Some vt" "reliable tx"
    "vt_encode_cancel_request vt oid 64 = Some bs"
  shows "eng_sent (flatten_entry oid e) = eng_sent e @ cancel_of e vt oid"
    and "order_status_of (eng_om (flatten_entry oid e)) oid =
      (if fillable (order_status_of (eng_om e) oid) then PENDING_CANCEL
       else order_status_of (eng_om e) oid)"
  using assms by (auto simp: flatten_entry_def cancel_of_def fillable_def order_status_of_def
      send_ok_def reliable_def oms_op_defs split: option.splits prod.splits)

lemma flatten_all:
  assumes "eng_sender e = Some tx" "eng_codec e = Some vt" "reliable tx" "distinct ids"
    "\<forall>oid \<in> set ids. vt_encode_cancel_request vt oid 64 \<noteq> None"
  shows "eng_sent (fold flatten_entry ids e) = eng_sent e @ concat (map (cancel_of e vt) ids) \<and>
    (\<forall>i. order_status_of (eng_om (fold flatten_entry ids e)) i =
      (if i \<in> set ids \<and> fillable (order_status_of (eng_om e) i) then PENDING_CANCEL
       else order_status_of (eng_om e) i))"
  using assms
proof (induction ids arbitrary: e)
  case Nil then show ?case by simp
next
  case (Cons oid ids)
  let ?e = "flatten_entry oid e"
  obtain bs where bs: "vt_encode_cancel_request vt oid 64 = Some bs" using Cons.prems(5) by auto
  note act = flatten_entry_active [OF Cons.prems(1-3) bs]
  have other: "order_status_of (eng_om ?e) i = order_status_of (eng_om e) i" if "i \<noteq> oid" for i
    using flatten_entry_other [OF that, of e] by (simp add: order_status_of_def)
  have "cancel_of ?e vt i = cancel_of e vt i" if "i \<in> set ids" for i
  proof -
    have "i \<noteq> oid" using Cons.prems(4) that by auto
    then show ?thesis by (simp add: cancel_of_def other)
  qed
  then have "concat (map (cancel_of ?e vt) ids) = concat (map (cancel_of e vt) ids)"
    by (metis (no_types, lifting) map_cong)
  moreover have "eng_sender ?e = Some tx" "eng_codec ?e = Some vt"
    using Cons.prems(1,2) by (simp_all add: flatten_entry_fields)
  ultimately have ih: "eng_sent (fold flatten_entry ids ?e) = eng_sent ?e @ concat (map (cancel_of e vt) ids)"
    "order_status_of (eng_om (fold flatten_entry ids ?e)) i =
      (if i \<in> set ids \<and> fillable (order_status_of (eng_om ?e) i) then PENDING_CANCEL
       else order_status_of (eng_om ?e) i)" for i
    using Cons.IH [of ?e] Cons.prems(3-5) by simp_all
  have "order_status_of (eng_om (fold flatten_entry ids ?e)) i =
      (if i \<in> set (oid # ids) \<and> fillable (order_status_of (eng_om e) i) then PENDING_CANCEL
       else order_status_of (eng_om e) i)" for i
  proof (cases "i = oid")
    case True
    have "\<not> fillable PENDING_CANCEL" by (simp add: fillable_def)
    with True Cons.prems(4) show ?thesis using ih(2) [of i] act(2) by simp
  next
    case False
    then show ?thesis using ih(2) [of i] other [of i] by simp
  qed
  then show ?case using ih(1) act(1) by simp
qed

section \<open>What goes out\<close>

text \<open>
  A message the engine may hand to its sender in a state: an order the risk manager admits under
  the next order id, the cancel request of an order it knows, or a book query.
\<close>

definition legit :: "engine \<Rightarrow> bytes \<Rightarrow> bool" where
  "legit e bs \<longleftrightarrow> (\<exists>vt. eng_codec e = Some vt \<and>
     ((\<exists>ord. vt_encode_order vt ord 256 = Some bs \<and> check_order (eng_rm e) ord \<and>
         order_id ord = next_id (eng_om e)) \<or>
      (\<exists>oid. vt_encode_cancel_request vt oid 64 = Some bs \<and> oid \<in> dom (orders (eng_om e))) \<or>
      (\<exists>sid. vt_encode_book_query vt sid 32 = Some bs)))"

definition sends_legit :: "engine \<Rightarrow> engine \<Rightarrow> bool" where
  "sends_legit e e' \<longleftrightarrow> (\<exists>ms. eng_sent e' = eng_sent e @ ms \<and> list_all (legit e) ms)"

lemma sends_legit_same [simp]: "eng_sent e' = eng_sent e \<Longrightarrow> sends_legit e e'"
  by (simp add: sends_legit_def)

lemma sends_legit_one: "eng_sent e' = eng_sent e @ [bs] \<Longrightarrow> legit e bs \<Longrightarrow> sends_legit e e'"
  by (auto simp: sends_legit_def intro!: exI [of _ "[bs]"])

lemma submit_sends_legit: "sends_legit e (fst (submit_signal e sg strat ty))"
proof -
  obtain m1 ord where n: "new_order (eng_om e) (signal_order sg strat ty (signal_qty e sg)) = (m1, ord)"
    by (cases "new_order (eng_om e) (signal_order sg strat ty (signal_qty e sg))")
  have oid: "order_id ord = next_id (eng_om e)" using n by (auto simp: new_order_def Let_def)
  have "legit e bs" if "eng_codec e = Some vt" "vt_encode_order vt ord 256 = Some bs"
    "check_order (eng_rm e) ord" for vt bs using that oid by (auto simp: legit_def)
  then show ?thesis
    unfolding submit_signal_def
    by (auto simp: Let_def n send_ok_def intro!: sends_legit_one split: option.splits prod.splits)
qed

lemma query_sends_legit: "sends_legit e (fst (query_book e sid qs))"
proof (cases "eng_sender e = None \<or> eng_codec e = None")
  case True
  then show ?thesis by (auto simp: query_book_def split: option.splits)
next
  case False
  then obtain tx vt where c: "eng_sender e = Some tx" "eng_codec e = Some vt" by auto
  have "legit e bs" if "vt_encode_book_query vt sid 32 = Some bs" for bs
    using c that by (auto simp: legit_def)
  then show ?thesis
    using c by (auto simp: query_book_def send_ok_def Let_def on_book_quotes_fields
        intro!: sends_legit_one split: option.splits)
qed

lemma cancel_sends_legit: "sends_legit e (fst (cancel_order e oid))"
proof -
  have "legit e bs" if "eng_codec e = Some vt" "vt_encode_cancel_request vt oid 64 = Some bs"
    "request_cancel (eng_om e) oid = (m, True)" for vt bs m
  proof -
    have "oid \<in> dom (orders (eng_om e))"
      using that(3) by (auto simp: request_cancel_def split: option.splits)
    then show ?thesis using that by (auto simp: legit_def)
  qed
  then show ?thesis
    by (auto simp: cancel_order_def send_ok_def Let_def intro!: sends_legit_one
        split: option.splits prod.splits)
qed

lemma flatten_entry_dom: "dom (orders (eng_om (flatten_entry oid e))) = dom (orders (eng_om e))"
  by (auto simp: flatten_entry_def send_ok_def oms_op_defs split: option.splits prod.splits if_splits)

lemma flatten_sends:
  "\<exists>ms. eng_sent (fold flatten_entry ids e) = eng_sent e @ ms \<and>
     list_all (\<lambda>bs. \<exists>vt oid. eng_codec e = Some vt \<and> vt_encode_cancel_request vt oid 64 = Some bs \<and>
       oid \<in> dom (orders (eng_om e))) ms"
proof (induction ids arbitrary: e)
  case Nil then show ?case by simp
next
  case (Cons oid ids)
  let ?P = "\<lambda>bs. \<exists>vt oid. eng_codec e = Some vt \<and> vt_encode_cancel_request vt oid 64 = Some bs \<and>
       oid \<in> dom (orders (eng_om e))"
  have one: "\<exists>ms. eng_sent (flatten_entry oid e) = eng_sent e @ ms \<and> list_all ?P ms"
    by (auto simp: flatten_entry_def send_ok_def Let_def split: option.splits)
  obtain ms where "eng_sent (fold flatten_entry ids (flatten_entry oid e)) = eng_sent (flatten_entry oid e) @ ms"
    "list_all ?P ms"
    using Cons [of "flatten_entry oid e"] by (auto simp: flatten_entry_fields flatten_entry_dom)
  with one show ?case by (auto simp del: split_paired_Ex)
qed

lemma legit_cong:
  assumes "eng_codec e = eng_codec e'" "eng_rm e = eng_rm e'" "eng_om e = eng_om e'"
  shows "legit e = legit e'"
  using assms by (simp add: legit_def fun_eq_iff)

text \<open>After a fill the cancels go out in the filled state; its orders are the same.\<close>

lemma fill_sends_legit:
  "sends_legit e (flatten_on_drawdown ids (e\<lparr>eng_om := on_fill (eng_om e) i q px, eng_rm := r\<rparr>))"
proof -
  let ?f = "e\<lparr>eng_om := on_fill (eng_om e) i q px, eng_rm := r\<rparr>"
  have dom: "dom (orders (eng_om ?f)) = dom (orders (eng_om e))"
    by (auto simp: on_fill_def oms_op_defs split: option.splits if_splits)
  obtain ms where ms: "eng_sent (fold flatten_entry ids (?f\<lparr>flatten_issued := True\<rparr>)) = eng_sent e @ ms"
    "list_all (\<lambda>bs. \<exists>vt oid. eng_codec e = Some vt \<and> vt_encode_cancel_request vt oid 64 = Some bs \<and>
       oid \<in> dom (orders (eng_om e))) ms"
    using flatten_sends [of ids "?f\<lparr>flatten_issued := True\<rparr>"] dom by auto
  have "list_all (legit e) ms"
    using ms(2) by (rule list.pred_mono_strong) (auto simp: legit_def)
  then show ?thesis using ms(1) by (auto simp: flatten_on_drawdown_def sends_legit_def)
qed

lemma market_sends_legit: "sends_legit e (fst (submit_market_as_limit e sg strat qs))"
proof -
  obtain e1 r where q: "query_book e (sig_locate sg) qs = (e1, r)"
    by (cases "query_book e (sig_locate sg) qs")
  have "sends_legit e e1" using query_sends_legit [of e "sig_locate sg" qs] q by simp
  moreover have "sends_legit e1 x \<Longrightarrow> sends_legit e x" for x
    using \<open>sends_legit e e1\<close> legit_cong [of e e1] query_book_fields [OF q] by (auto simp: sends_legit_def)
  ultimately show ?thesis
    using q submit_sends_legit [of e1] by (auto simp: submit_market_as_limit_def Let_def split: option.splits)
qed

lemma engine_step_sends: "sends_legit e (engine_step e c)"
proof (cases c)
  case (Order_Fill ids oid q px)
  then show ?thesis
    using fill_sends_legit by (auto simp: on_order_fill_def split: option.splits)
next
  case (Report ids f)
  then show ?thesis
    using fill_sends_legit by (auto simp: on_order_report_def split: option.splits)
qed (simp_all add: submit_sends_legit market_sends_legit cancel_sends_legit query_sends_legit
    on_book_quote_def Let_def)

section \<open>Properties\<close>

text \<open>C10. Whatever signals, reports, cancels and quotes reach the engine, and in whatever order, the
  order manager's books stay exact and every order that exists keeps its ticket while its status
  moves only along the arrows of the life-cycle diagram; a filled, cancelled or rejected order
  never changes status again.\<close>

theorem engine_refines_life_cycle:
  assumes "oms_inv (eng_om e)" "unat (next_id (eng_om e)) + length cs < 2 ^ 64"
    "entry_of (eng_om e) i = Some en"
  shows "oms_inv (eng_om (engine_run e cs)) \<and>
    (\<exists>en'. entry_of (eng_om (engine_run e cs)) i = Some en' \<and> e_order en' = e_order en \<and>
       life_step\<^sup>*\<^sup>* (status en) (status en') \<and> (terminal (status en) \<longrightarrow> status en' = status en))"
  using engine_keeps [OF assms(1,2)] assms(3) life_from_terminal unfolding entry_of_def by blast


text \<open>What a submitted signal leads to, on every branch. A signal without a side, with a
  negative price (or none for a limit order) or of zero quantity changes nothing and yields 0.
  Otherwise an order of \<open>base_qty * strength / 10000\<close> is registered under the next id, its encoding
  is handed to the sender exactly if the risk check passes, and it stays PENDING exactly if the
  whole encoding was sent; in every other case it is REJECTED. The risk state never changes.\<close>

theorem submit_signal_outcome:
  assumes "eng_sender e = Some tx" "eng_codec e = Some vt"
    "ord = (signal_order sg strat ty (signal_qty e sg))\<lparr>order_id := next_id (eng_om e)\<rparr>"
    "submit_signal e sg strat ty = (e', oid)"
  shows "eng_rm e' = eng_rm e \<and>
    (if sig_side sg = NONE \<or> sig_price sg <s 0 \<or> (ty = LIMIT \<and> sig_price sg <=s 0) \<or> signal_qty e sg = 0
     then e' = e \<and> oid = 0
     else oid = next_id (eng_om e) \<and> order_of (eng_om e') oid = Some ord \<and>
       (case (if check_order (eng_rm e) ord then vt_encode_order vt ord 256 else None) of
          None \<Rightarrow> eng_sent e' = eng_sent e \<and> order_status_of (eng_om e') oid = REJECTED
        | Some bs \<Rightarrow> eng_sent e' = eng_sent e @ [bs] \<and> order_status_of (eng_om e') oid =
            (if tx (eng_sent e) bs = int (length bs) then PENDING else REJECTED)))"
  using assms(4) unfolding submit_signal_def
  by (auto simp: assms(1-3) Let_def send_ok_def new_order_def signal_order_def order_of_def order_status_of_def
      on_reject_def put_entry_def unindex_def tick_clock_def split: option.splits if_splits)

text \<open>When the drawdown passes the second threshold, the engine asks the exchange to cancel every
  accepted or partly filled order, whatever order the hash table iterates in: one cancel request per
  such order, each of them PENDING\_CANCEL afterwards, every other order untouched; and it does so
  once only.\<close>

theorem drawdown_flattens_once:
  assumes "\<not> flatten_issued e" "drawdown_flatten (eng_rm e)"
    "eng_sender e = Some tx" "eng_codec e = Some vt" "reliable tx"
    "set ids = dom (orders (eng_om e))" "distinct ids"
    "\<forall>oid \<in> set ids. vt_encode_cancel_request vt oid 64 \<noteq> None"
  shows "eng_sent (flatten_on_drawdown ids e) = eng_sent e @ concat (map (cancel_of e vt) ids) \<and>
    order_status_of (eng_om (flatten_on_drawdown ids e)) i =
      (if fillable (order_status_of (eng_om e) i) then PENDING_CANCEL else order_status_of (eng_om e) i) \<and>
    flatten_on_drawdown ids' (flatten_on_drawdown ids e) = flatten_on_drawdown ids e"
proof -
  let ?e = "e\<lparr>flatten_issued := True\<rparr>"
  have f: "flatten_on_drawdown ids e = fold flatten_entry ids ?e"
    using assms(1,2) by (simp add: flatten_on_drawdown_def)
  have "cancel_of ?e vt = cancel_of e vt" by (simp add: cancel_of_def fun_eq_iff)
  moreover have "i \<in> set ids" if "fillable (order_status_of (eng_om e) i)"
    using that assms(6) by (auto simp: order_status_of_def fillable_def split: option.splits)
  moreover have "flatten_issued (fold flatten_entry ids ?e)" by (simp add: flatten_fields)
  ultimately show ?thesis
    using flatten_all [of ?e tx vt ids] assms(3-8) f by (auto simp: flatten_on_drawdown_def)
qed

text \<open>A market order turned into a limit order crosses the spread by one quote: an order is
  submitted only after a quote for its own symbol arrived, it is a limit order priced at the last
  quote's ask for a buy and bid for a sell, and that price is positive.\<close>

theorem market_as_limit_price:
  assumes "submit_market_as_limit e sg strat qs = (e', oid)" "oid \<noteq> 0"
  shows "qs \<noteq> [] \<and> q_symbol_id (last qs) = sig_locate sg \<and> sig_side sg \<noteq> NONE \<and>
    (\<exists>ord. order_of (eng_om e') oid = Some ord \<and> otype ord = LIMIT \<and> side ord = sig_side sg \<and>
       symbol_id ord = sig_locate sg \<and> 0 < sint (price ord) \<and>
       price ord = (if side ord = BUY then q_ask (last qs) else q_bid (last qs)))"
proof -
  have res: "book_result (foldl on_book_quote x qs) = last qs" if "qs \<noteq> []" for x
    using that by (induction qs arbitrary: x rule: rev_induct) (auto simp: on_book_quote_def Let_def)
  obtain e1 q where q: "query_book e (sig_locate sg) qs = (e1, Some q)" and sd: "sig_side sg \<noteq> NONE"
    using assms by (auto simp: submit_market_as_limit_def split: option.splits prod.splits if_splits)
  let ?p = "if sig_side sg = BUY then q_ask q else q_bid q"
  have sub: "\<not> ?p <=s 0" "submit_signal e1 (sg\<lparr>sig_price := ?p\<rparr>) strat LIMIT = (e', oid)"
    using assms q sd by (auto simp: submit_market_as_limit_def Let_def split: if_splits)
  have m: "q_symbol_id q = sig_locate sg" "qs \<noteq> []"
    using q by (auto simp: query_book_def send_ok_def Let_def split: option.splits if_splits)
  have "q = last qs"
    using q res [OF m(2)] by (auto simp: query_book_def send_ok_def Let_def split: option.splits if_splits)
  note m = m this
  have "\<exists>ord. order_of (eng_om e') oid = Some ord \<and> otype ord = LIMIT \<and> side ord = sig_side sg \<and>
       symbol_id ord = sig_locate sg \<and> price ord = ?p"
    using submit_signal_ticket [OF sub(2) assms(2)] by (simp add: signal_order_def)
  moreover have "0 < sint ?p" using sub(1) by (simp add: word_sle_eq not_le)
  ultimately show ?thesis using m sd by auto
qed

text \<open>A fill report for an order whose cancellation has been requested is ignored by the order
  manager but counted by the risk manager: for a buy the position grows by the reported quantity
  although the order's filled quantity stays the same, so the two books disagree from then on.\<close>

theorem fill_during_cancel_diverges:
  assumes "entry_of (eng_om e) oid = Some en" "status en = PENDING_CANCEL" "side (e_order en) = BUY"
    "f = (report_fill kMsgExec oid r)\<lparr>f_filled_qty := q, f_fill_price := px\<rparr>" "flatten_issued e"
  shows "eng_om (on_order_report ids e f) = eng_om e \<and>
    position (eng_rm (on_order_report ids e f)) (symbol_id (e_order en)) =
      position (eng_rm e) (symbol_id (e_order en)) + q"
proof -
  have "on_fill (eng_om e) oid q px = eng_om e"
    using assms(1,2) by (intro on_fill_ignored) (auto simp: entry_of_def fillable_def)
  then show ?thesis
    using assms by (simp add: on_order_report_def order_of_def entry_of_def report_fill_def
        flatten_on_drawdown_def risk_on_fill_def Let_def position_def)
qed

section \<open>Witnesses\<close>

text \<open>An engine on the OUCH protocol with a reliable sender, holding one accepted order.\<close>

definition full_send :: "bytes list \<Rightarrow> bytes \<Rightarrow> int" where
  "full_send h bs = int (length bs)"

definition demo_engine :: engine where
  "demo_engine = new_engine\<lparr>eng_om := demo_oms, eng_rm := demo_risk, eng_sender := Some full_send,
     eng_codec := Some ouch_vt\<rparr>"

definition demo_buy :: signal where
  "demo_buy = \<lparr>sig_side = BUY, sig_locate = 1, sig_price = 110, sig_timestamp = 0, sig_strength = 5000\<rparr>"

lemma demo_engine_simps [simp]:
  "eng_om demo_engine = demo_oms" "eng_rm demo_engine = demo_risk"
  "eng_sender demo_engine = Some full_send" "eng_codec demo_engine = Some ouch_vt"
  "flatten_issued demo_engine = False" "eng_sent demo_engine = []" "base_qty demo_engine = 100"
  by (simp_all add: demo_engine_def new_engine_def)

lemma demo_oms_next [simp]: "next_id demo_oms = 2"
  by (simp add: demo_defs oms_op_defs)

lemma demo_oms_dom: "dom (orders demo_oms) = {1}"
  by (auto simp: demo_defs oms_op_defs split: if_splits)

theorem engine_refines_life_cycle_witness:
  "oms_inv (eng_om (engine_run demo_engine [Submit demo_buy 3 MARKET, Cancel_Order 1])) \<and>
   (\<exists>en'. entry_of (eng_om (engine_run demo_engine [Submit demo_buy 3 MARKET, Cancel_Order 1])) 1 = Some en' \<and>
      e_order en' = e_order demo_entry \<and> life_step\<^sup>*\<^sup>* SUBMITTED (status en'))"
  using engine_refines_life_cycle [of demo_engine "[Submit demo_buy 3 MARKET, Cancel_Order 1]" 1 demo_entry]
    demo_oms_inv demo_entry_of by (auto simp: demo_entry_def)

lemma demo_signal_qty: "signal_qty demo_engine demo_buy = 50"
  by (simp add: signal_qty_def demo_buy_def)

lemma demo_buy_simps [simp]:
  "sig_side demo_buy = BUY" "sig_price demo_buy = 110" "sig_locate demo_buy = 1"
  "sig_timestamp demo_buy = 0" "sig_strength demo_buy = 5000"
  by (simp_all add: demo_buy_def)

theorem submit_signal_outcome_witness:
  "\<exists>e' bs. submit_signal demo_engine demo_buy 3 MARKET = (e', 2) \<and> eng_sent e' = [bs] \<and>
     order_status_of (eng_om e') 2 = PENDING"
proof -
  let ?ord = "(signal_order demo_buy 3 MARKET 50)\<lparr>order_id := 2\<rparr>"
  obtain e' oid where r: "submit_signal demo_engine demo_buy 3 MARKET = (e', oid)"
    by (cases "submit_signal demo_engine demo_buy 3 MARKET")
  have lim: "\<not> rm_realized_pnl demo_risk <=s - rm_max_daily_loss demo_risk \<and> \<not> drawdown_paused demo_risk"
    using demo_check(1) by (auto simp only: check_order_def split: if_splits)
  have chk: "check_order demo_risk ?ord"
    using lim by (simp add: check_order_def signal_order_def empty_order_def)
  obtain bs where bs: "vt_encode_order ouch_vt ?ord 256 = Some bs"
    by (simp add: ouch_vt_def ouch_encode_order_msg_cap)
  have "\<not> (110 :: i64) <s 0" by (simp add: word_sless_alt)
  then show ?thesis
    using submit_signal_outcome [of demo_engine full_send ouch_vt ?ord demo_buy 3 MARKET e' oid] r chk bs
    by (auto simp: demo_signal_qty full_send_def)
qed

lemma demo_flatten: "drawdown_flatten (demo_risk\<lparr>rm_equity_peak := 1200\<rparr>)"
  by (simp add: drawdown_flatten_def drawdown_def demo_risk_equity)
     (simp add: demo_risk_def new_risk_def word_sless_alt)

theorem drawdown_flattens_once_witness:
  "let e = demo_engine\<lparr>eng_rm := demo_risk\<lparr>rm_equity_peak := 1200\<rparr>\<rparr>
   in order_status_of (eng_om (flatten_on_drawdown [1] e)) 1 = PENDING_CANCEL \<and>
      length (eng_sent (flatten_on_drawdown [1] e)) = 1"
proof -
  let ?e = "demo_engine\<lparr>eng_rm := demo_risk\<lparr>rm_equity_peak := 1200\<rparr>\<rparr>"
  have st: "order_status_of demo_oms 1 = SUBMITTED"
    using demo_entry_of by (simp add: order_status_of_def entry_of_def demo_entry_def)
  have rel: "reliable full_send" by (simp add: reliable_def full_send_def)
  show ?thesis
    using drawdown_flattens_once [of ?e full_send ouch_vt "[1]" 1 "[]"] demo_flatten rel st
    by (simp add: demo_oms_dom ouch_vt_def ouch_encode_cancel_request_def cancel_of_def fillable_def)
qed

lemma demo_quote_ask: "q_ask demo_quote = 10010"
  by (simp add: demo_quote_def)

theorem market_as_limit_price_witness:
  "\<exists>e' ord. submit_market_as_limit demo_engine demo_buy 3 [demo_quote\<lparr>q_symbol_id := 1\<rparr>] = (e', 2) \<and>
     order_of (eng_om e') 2 = Some ord \<and> price ord = 10010 \<and> otype ord = LIMIT"
proof -
  let ?qs = "[demo_quote\<lparr>q_symbol_id := 1\<rparr>]"
  obtain e' oid where r: "submit_market_as_limit demo_engine demo_buy 3 ?qs = (e', oid)"
    by (cases "submit_market_as_limit demo_engine demo_buy 3 ?qs")
  obtain e1 a where q0: "query_book demo_engine 1 ?qs = (e1, a)" by (cases "query_book demo_engine 1 ?qs")
  note e1 = query_book_fields [OF q0]
  have "a = Some (demo_quote\<lparr>q_symbol_id := 1\<rparr>)"
    using arg_cong [OF q0, of snd]
    by (simp add: query_book_def ouch_vt_def ouch_encode_book_query_def send_ok_def full_send_def
        on_book_quote_def Let_def demo_quote_def)
  with q0 have q: "query_book demo_engine 1 ?qs = (e1, Some (demo_quote\<lparr>q_symbol_id := 1\<rparr>))" by simp
  have "signal_qty e1 (demo_buy\<lparr>sig_price := 10010\<rparr>) = 50" by (simp add: signal_qty_def e1)
  moreover have "\<not> (10010 :: i64) <=s 0" "\<not> (10010 :: i64) <s 0" by (simp_all add: word_sle_eq word_sless_alt)
  ultimately have "snd (submit_market_as_limit demo_engine demo_buy 3 ?qs) = 2"
    using demo_quote_ask by (simp add: submit_market_as_limit_def q submit_signal_id e1 Let_def)
  then have "oid = 2" using r by simp
  then show ?thesis
    using market_as_limit_price [OF r] r by (auto simp: demo_quote_def)
qed

theorem fill_during_cancel_diverges_witness:
  "let e = demo_engine\<lparr>eng_om := fst (request_cancel demo_oms 1), flatten_issued := True\<rparr>;
       e' = on_order_report [1] e ((report_fill kMsgExec 1 9)\<lparr>f_filled_qty := 4, f_fill_price := 100\<rparr>)
   in filled_of (eng_om e') 1 = 0 \<and> position (eng_rm e') 5 = position (eng_rm e) 5 + 4"
proof -
  let ?m = "fst (request_cancel demo_oms 1)"
  let ?e = "demo_engine\<lparr>eng_om := ?m, flatten_issued := True\<rparr>"
  have en: "entry_of ?m 1 = Some (demo_entry\<lparr>status := PENDING_CANCEL, update_time := 2\<rparr>)"
    by (simp add: demo_defs oms_op_defs entry_of_def)
  show ?thesis
    using fill_during_cancel_diverges [of ?e 1 _ _ 100 4 9 "[1]", OF _ _ _ refl] en
    by (simp add: demo_entry_def empty_order_def filled_of_def entry_of_def Let_def)
qed

end
