(* ===== verification/Price_Levels.thy ===== *)
theory Price_Levels
  imports NX_Types
begin

text \<open>
  The price-level table of \<^verbatim>\<open>market/book/order_book.h\<close> (class \<open>PriceLevelTable\<close>): an open-addressing
  hash table with linear probing, tombstones and doubling, and a cached best price. The arrays are
  functions from indices below the capacity; \<open>operator[]\<close>, which returns a reference, is
  \<open>tab_index\<close>, which returns the slot's index, and \<open>tab_upd\<close> is a use of the reference.

  The interface the order book relies on is the locale \<open>price_levels\<close>: a finite map from prices to
  levels, as the \<open>std::map\<close> the table replaced.
\<close>

section \<open>Data\<close>

record level =
  head_idx :: u32
  tail_idx :: u32
  lv_count :: u32
  total_qty :: u32

definition empty_level :: level where
  "empty_level = \<lparr>head_idx = UINT32_MAX, tail_idx = UINT32_MAX, lv_count = 0, total_qty = 0\<rparr>"

record level_slot =
  sl_price :: i64
  sl_lvl :: level

record level_table =
  tb_bid :: bool
  tb_best :: i64
  tb_slots :: "nat \<Rightarrow> level_slot"
  tb_cap :: nat
  tb_count :: nat

abbreviation kInitCapacity :: nat where "kInitCapacity \<equiv> 1024"
abbreviation kEmpty :: i64 where "kEmpty \<equiv> 0x8000000000000000"
abbreviation kTombstone :: i64 where "kTombstone \<equiv> 0x8000000000000001"

definition no_best :: "bool \<Rightarrow> i64" where
  "no_best bid = (if bid then INT64_MIN else INT64_MAX)"

definition empty_slots :: "nat \<Rightarrow> level_slot" where
  "empty_slots = (\<lambda>_. \<lparr>sl_price = kEmpty, sl_lvl = empty_level\<rparr>)"

definition new_table :: "bool \<Rightarrow> level_table" where
  "new_table bid = \<lparr>tb_bid = bid, tb_best = no_best bid, tb_slots = empty_slots, tb_cap = kInitCapacity,
     tb_count = 0\<rparr>"

section \<open>Probing\<close>

definition probe :: "nat \<Rightarrow> i64 \<Rightarrow> nat" where
  "probe c p = (let h = p * 0x9E3779B97F4A7C15 in unat (drop_bit (64 - ctz c) h) AND (c - 1))"

definition next_slot :: "nat \<Rightarrow> nat \<Rightarrow> nat" where
  "next_slot c i = (i + 1) AND (c - 1)"

text \<open>The search loop \<open>find\<close>, \<open>erase\<close> and \<open>best_qty\<close> share; \<open>n\<close> counts the iterations left of the \<open>cap_\<close>.\<close>

fun find_loop :: "nat \<Rightarrow> (nat \<Rightarrow> level_slot) \<Rightarrow> nat \<Rightarrow> i64 \<Rightarrow> nat \<Rightarrow> nat option" where
  "find_loop c f 0 p i = None"
| "find_loop c f (Suc n) p i =
     (if sl_price (f i) = p then Some i
      else if sl_price (f i) = kEmpty then None
      else find_loop c f n p (next_slot c i))"

definition tab_find_idx :: "level_table \<Rightarrow> i64 \<Rightarrow> nat option" where
  "tab_find_idx t p = find_loop (tb_cap t) (tb_slots t) (tb_cap t) p (probe (tb_cap t) p)"

definition tab_find :: "level_table \<Rightarrow> i64 \<Rightarrow> level option" where
  "tab_find t p = map_option (\<lambda>i. sl_lvl (tb_slots t i)) (tab_find_idx t p)"

text \<open>
  The search loop of \<open>operator[]\<close>: it stops at the price or at an empty slot, remembers the first
  tombstone (the capacity stands for none) and reports whether it went full circle.
\<close>

datatype search = Found nat | Vacant nat nat bool

fun search_loop :: "nat \<Rightarrow> (nat \<Rightarrow> level_slot) \<Rightarrow> nat \<Rightarrow> i64 \<Rightarrow> nat \<Rightarrow> nat \<Rightarrow> search" where
  "search_loop c f 0 p i ft = Vacant i ft True"
| "search_loop c f (Suc n) p i ft =
     (if sl_price (f i) = p then Found i
      else let ft' = (if sl_price (f i) = kTombstone \<and> ft = c then i else ft) in
        if sl_price (f i) = kEmpty then Vacant i ft' False
        else search_loop c f n p (next_slot c i) ft')"

text \<open>\<open>while (slots[j].price != kEmpty) j = (j + 1) & (cap - 1)\<close>; the fuel \<open>n\<close> is the capacity.\<close>

fun find_empty :: "nat \<Rightarrow> (nat \<Rightarrow> level_slot) \<Rightarrow> nat \<Rightarrow> nat \<Rightarrow> nat" where
  "find_empty c f 0 j = j"
| "find_empty c f (Suc n) j = (if sl_price (f j) \<noteq> kEmpty then find_empty c f n (next_slot c j) else j)"

section \<open>Operations\<close>

definition live :: "level_slot \<Rightarrow> bool" where
  "live s \<longleftrightarrow> sl_price s \<noteq> kEmpty \<and> sl_price s \<noteq> kTombstone"

definition better :: "bool \<Rightarrow> i64 \<Rightarrow> i64 \<Rightarrow> bool" where
  "better bid p q \<longleftrightarrow> (if bid then q <s p else p <s q)"

definition tab_grow :: "level_table \<Rightarrow> level_table" where
  "tab_grow t =
     (let new_cap = tb_cap t * 2;
          ns = foldl (\<lambda>ns i. if \<not> live (tb_slots t i) then ns
                 else ns(find_empty new_cap ns new_cap (probe new_cap (sl_price (tb_slots t i))) := tb_slots t i))
               empty_slots [0..<tb_cap t]
      in t\<lparr>tb_slots := ns, tb_cap := new_cap\<rparr>)"

definition raise_best :: "level_table \<Rightarrow> i64 \<Rightarrow> level_table" where
  "raise_best t p = (if better (tb_bid t) p (tb_best t) then t\<lparr>tb_best := p\<rparr> else t)"

definition tab_insert_at :: "level_table \<Rightarrow> i64 \<Rightarrow> nat \<Rightarrow> level_table" where
  "tab_insert_at t p ins = raise_best
     (t\<lparr>tb_slots := (tb_slots t)(ins := \<lparr>sl_price = p, sl_lvl = empty_level\<rparr>), tb_count := tb_count t + 1\<rparr>) p"

definition tab_index :: "level_table \<Rightarrow> i64 \<Rightarrow> level_table \<times> nat" where
  "tab_index t p =
     (case search_loop (tb_cap t) (tb_slots t) (tb_cap t) p (probe (tb_cap t) p) (tb_cap t) of
        Found i \<Rightarrow> (raise_best t p, i)
      | Vacant i ft full \<Rightarrow>
          if full then
            (let g = tab_grow t;
                 ins = find_empty (tb_cap g) (tb_slots g) (tb_cap g) (probe (tb_cap g) p)
             in (tab_insert_at g p ins, ins))
          else
            (let ins = (if ft \<noteq> tb_cap t then ft else i) in (tab_insert_at t p ins, ins)))"

text \<open>\<open>PriceLevel& lvl = table[p]; lvl = f(lvl)\<close>.\<close>

definition tab_upd :: "level_table \<Rightarrow> i64 \<Rightarrow> (level \<Rightarrow> level) \<Rightarrow> level_table" where
  "tab_upd t p f = (case tab_index t p of (t', i) \<Rightarrow>
     t'\<lparr>tb_slots := (tb_slots t')(i := (tb_slots t' i)\<lparr>sl_lvl := f (sl_lvl (tb_slots t' i))\<rparr>)\<rparr>)"

definition rescan_best :: "level_table \<Rightarrow> level_table" where
  "rescan_best t = t\<lparr>tb_best :=
     foldl (\<lambda>b i. if \<not> live (tb_slots t i) then b
                  else if better (tb_bid t) (sl_price (tb_slots t i)) b then sl_price (tb_slots t i) else b)
       (no_best (tb_bid t)) [0..<tb_cap t]\<rparr>"

definition tab_erase :: "level_table \<Rightarrow> i64 \<Rightarrow> level_table" where
  "tab_erase t p =
     (case tab_find_idx t p of
        None \<Rightarrow> t
      | Some i \<Rightarrow>
          (let t' = t\<lparr>tb_slots := (tb_slots t)(i := (tb_slots t i)\<lparr>sl_price := kTombstone\<rparr>),
                      tb_count := tb_count t - 1\<rparr>
           in if p = tb_best t' then rescan_best t' else t'))"

definition tab_size :: "level_table \<Rightarrow> nat" where
  "tab_size t = tb_count t"

definition tab_empty :: "level_table \<Rightarrow> bool" where
  "tab_empty t \<longleftrightarrow> tb_count t = 0"

definition best_qty :: "level_table \<Rightarrow> u64" where
  "best_qty t =
     (if tab_empty t then 0
      else case tab_find t (tb_best t) of Some l \<Rightarrow> to_u64 (total_qty l) | None \<Rightarrow> 0)"

section \<open>The interface\<close>

text \<open>A run of updates and deletions, on a table and on a finite map.\<close>

type_synonym level_ops = "(i64 \<times> (level \<Rightarrow> level) option) list"

fun level_run :: "('t \<Rightarrow> i64 \<Rightarrow> (level \<Rightarrow> level) \<Rightarrow> 't) \<Rightarrow> ('t \<Rightarrow> i64 \<Rightarrow> 't) \<Rightarrow> 't \<Rightarrow> level_ops \<Rightarrow> 't" where
  "level_run upd del t [] = t"
| "level_run upd del t ((p, Some f) # ops) = level_run upd del (upd t p f) ops"
| "level_run upd del t ((p, None) # ops) = level_run upd del (del t p) ops"

fun map_run :: "(i64 \<rightharpoonup> level) \<Rightarrow> level_ops \<Rightarrow> (i64 \<rightharpoonup> level)" where
  "map_run m [] = m"
| "map_run m ((p, Some f) # ops) = map_run (m(p \<mapsto> f (case m p of None \<Rightarrow> empty_level | Some l \<Rightarrow> l))) ops"
| "map_run m ((p, None) # ops) = map_run (m(p := None)) ops"

text \<open>
  What the order book relies on: \<open>get\<close> after an \<open>upd\<close> or a \<open>del\<close>, as on a finite map, for the
  prices that are not one of the table's two markers.
\<close>

locale price_levels =
  fixes get :: "'t \<Rightarrow> i64 \<Rightarrow> level option"
    and upd :: "'t \<Rightarrow> i64 \<Rightarrow> (level \<Rightarrow> level) \<Rightarrow> 't"
    and del :: "'t \<Rightarrow> i64 \<Rightarrow> 't"
    and best :: "'t \<Rightarrow> i64"
    and size_of :: "'t \<Rightarrow> nat"
    and bid :: "'t \<Rightarrow> bool"
    and wf :: "'t \<Rightarrow> bool"
    and ok :: "i64 \<Rightarrow> bool"
  assumes wf_upd: "wf t \<Longrightarrow> ok p \<Longrightarrow> wf (upd t p f)"
    and wf_del: "wf t \<Longrightarrow> ok p \<Longrightarrow> wf (del t p)"
    and get_upd: "wf t \<Longrightarrow> ok p \<Longrightarrow> ok q \<Longrightarrow> get (upd t p f) q =
      (if q = p then Some (f (case get t p of None \<Rightarrow> empty_level | Some l \<Rightarrow> l)) else get t q)"
    and get_del: "wf t \<Longrightarrow> ok p \<Longrightarrow> ok q \<Longrightarrow> get (del t p) q = (if q = p then None else get t q)"
    and bid_upd: "bid (upd t p f) = bid t"
    and bid_del: "bid (del t p) = bid t"
    and size_get: "wf t \<Longrightarrow> size_of t = card {p. ok p \<and> get t p \<noteq> None}"
    and best_in: "wf t \<Longrightarrow> size_of t \<noteq> 0 \<Longrightarrow> ok (best t) \<and> get t (best t) \<noteq> None"
    and best_of: "wf t \<Longrightarrow> ok p \<Longrightarrow> get t p \<noteq> None \<Longrightarrow> p = best t \<or> better (bid t) (best t) p"
begin

text \<open>A run of updates and deletions is the same run on a finite map.\<close>

lemma run_refines:
  assumes "wf t" "\<forall>x \<in> set ops. ok (fst x)" "\<forall>q. ok q \<longrightarrow> get t q = m q"
  shows "wf (level_run upd del t ops) \<and> bid (level_run upd del t ops) = bid t \<and>
    (\<forall>q. ok q \<longrightarrow> get (level_run upd del t ops) q = map_run m ops q)"
  using assms
proof (induction ops arbitrary: t m)
  case Nil
  then show ?case by simp
next
  case (Cons x ops)
  obtain p o' where x: "x = (p, o')" by (cases x)
  then have p: "ok p" using Cons.prems by simp
  show ?case
  proof (cases o')
    case (Some f)
    have "\<forall>q. ok q \<longrightarrow> get (upd t p f) q = (m(p \<mapsto> f (case m p of None \<Rightarrow> empty_level | Some l \<Rightarrow> l))) q"
      using Cons.prems p by (simp add: get_upd)
    from Cons.IH [OF wf_upd [OF Cons.prems(1) p] _ this] show ?thesis
      using Cons.prems by (simp add: x Some bid_upd del: fun_upd_apply)
  next
    case None
    have "\<forall>q. ok q \<longrightarrow> get (del t p) q = (m(p := None)) q" using Cons.prems p by (simp add: get_del)
    from Cons.IH [OF wf_del [OF Cons.prems(1) p] _ this] show ?thesis
      using Cons.prems by (simp add: x None bid_del del: fun_upd_apply)
  qed
qed

text \<open>The best price: the extreme price of the map, and none beats it.\<close>

lemma best_extreme:
  assumes "wf t" "ok p" "get t p \<noteq> None"
  shows "get t (best t) \<noteq> None \<and> \<not> better (bid t) p (best t)"
proof -
  have "finite {q. ok q \<and> get t q \<noteq> None}" by (rule finite_subset [OF subset_UNIV]) simp
  then have "size_of t \<noteq> 0" using assms by (auto simp: size_get)
  then have "get t (best t) \<noteq> None" using assms(1) best_in by blast
  moreover have "\<not> better (bid t) p (best t)"
    using best_of [OF assms] by (auto simp: better_def word_sless_alt split: if_splits)
  ultimately show ?thesis ..
qed

end

section \<open>The probe chain\<close>

text \<open>The \<open>d\<close>-th slot of the chain of a price, in a table of \<open>c\<close> slots.\<close>

definition chain :: "nat \<Rightarrow> i64 \<Rightarrow> nat \<Rightarrow> nat" where
  "chain c p d = (probe c p + d) mod c"

definition ok_price :: "i64 \<Rightarrow> bool" where
  "ok_price p \<longleftrightarrow> p \<noteq> kEmpty \<and> p \<noteq> kTombstone"

lemma live_ok: "live s \<longleftrightarrow> ok_price (sl_price s)"
  by (simp add: live_def ok_price_def)

lemma next_slot_mod: "is_pow2 c \<Longrightarrow> next_slot c i = (i + 1) mod c"
  unfolding next_slot_def by (rule and_pow2_mod)

lemma probe_less: "is_pow2 c \<Longrightarrow> probe c p < c"
  unfolding probe_def Let_def by (subst and_pow2_mod) auto

lemma chain_0 [simp]: "is_pow2 c \<Longrightarrow> chain c p 0 = probe c p"
  by (simp add: chain_def probe_less)

lemma chain_less [simp]: "is_pow2 c \<Longrightarrow> chain c p d < c"
  by (auto simp: chain_def)

lemma chain_Suc: "is_pow2 c \<Longrightarrow> next_slot c (chain c p d) = chain c p (Suc d)"
  by (simp add: next_slot_mod chain_def mod_Suc_eq)

lemma chain_reach: "is_pow2 c \<Longrightarrow> i < c \<Longrightarrow> \<exists>d<c. i = chain c p d"
  unfolding chain_def using mod_reach probe_less by blast

lemma chain_inj: "chain c p d = chain c p e \<Longrightarrow> d < c \<Longrightarrow> e < c \<Longrightarrow> d = e"
  unfolding chain_def by (rule mod_add_inj)

text \<open>
  A well-formed array: no price twice, and every live slot is reached from its price's first slot
  without crossing an empty one.
\<close>

definition arr_wf :: "nat \<Rightarrow> (nat \<Rightarrow> level_slot) \<Rightarrow> bool" where
  "arr_wf c f \<longleftrightarrow> is_pow2 c \<and>
     (\<forall>i<c. \<forall>j<c. live (f i) \<longrightarrow> sl_price (f i) = sl_price (f j) \<longrightarrow> i = j) \<and>
     (\<forall>d<c. \<forall>p. sl_price (f (chain c p d)) = p \<longrightarrow> ok_price p \<longrightarrow>
        (\<forall>e<d. sl_price (f (chain c p e)) \<noteq> kEmpty))"

definition prices :: "nat \<Rightarrow> (nat \<Rightarrow> level_slot) \<Rightarrow> i64 set" where
  "prices c f = {sl_price (f i) |i. i < c \<and> live (f i)}"

lemma arr_wf_unique:
  "arr_wf c f \<Longrightarrow> i < c \<Longrightarrow> j < c \<Longrightarrow> live (f i) \<Longrightarrow> sl_price (f i) = sl_price (f j) \<Longrightarrow> i = j"
  by (simp add: arr_wf_def)

lemma find_loop_Some:
  assumes "is_pow2 c" "find_loop c f n p i = Some k" "i < c"
  shows "k < c \<and> sl_price (f k) = p"
  using assms(2,3)
proof (induction n arbitrary: i)
  case 0 then show ?case by simp
next
  case (Suc n)
  have "next_slot c i < c" using assms(1) by (auto simp: next_slot_mod)
  with Suc show ?case by (auto split: if_splits)
qed

lemma find_loop_hit:
  assumes "is_pow2 c" "sl_price (f (chain c p e)) = p" "\<forall>e'<e. sl_price (f (chain c p e')) \<noteq> kEmpty"
    "d \<le> e" "e < d + n"
  shows "find_loop c f n p (chain c p d) \<noteq> None"
  using assms(4,5)
proof (induction n arbitrary: d)
  case 0 then show ?case by simp
next
  case (Suc n)
  show ?case
  proof (cases "d = e")
    case True
    then show ?thesis using assms(2) by simp
  next
    case False
    then have "find_loop c f n p (chain c p (Suc d)) \<noteq> None" using Suc by auto
    moreover have "sl_price (f (chain c p d)) \<noteq> kEmpty" using False Suc.prems(1) assms(3) by simp
    ultimately show ?thesis using assms(1) by (simp add: chain_Suc)
  qed
qed

lemma arr_wf_chain:
  assumes "arr_wf c f" "i < c" "sl_price (f i) = p" "ok_price p"
  obtains e where "e < c" "i = chain c p e" "\<forall>e'<e. sl_price (f (chain c p e')) \<noteq> kEmpty"
proof -
  have "is_pow2 c" using assms(1) by (simp add: arr_wf_def)
  then obtain e where e: "e < c" "i = chain c p e" using chain_reach assms(2) by blast
  then have "\<forall>e'<e. sl_price (f (chain c p e')) \<noteq> kEmpty"
    using assms by (auto simp: arr_wf_def)
  with e that show thesis by blast
qed

text \<open>The search finds a price exactly where it is.\<close>

lemma find_loop_iff:
  assumes "arr_wf c f" "ok_price p"
  shows "find_loop c f c p (probe c p) = Some i \<longleftrightarrow> i < c \<and> sl_price (f i) = p"
proof
  have c: "is_pow2 c" using assms(1) by (simp add: arr_wf_def)
  show "find_loop c f c p (probe c p) = Some i \<Longrightarrow> i < c \<and> sl_price (f i) = p"
    using find_loop_Some [OF c] probe_less [OF c] by blast
  assume i: "i < c \<and> sl_price (f i) = p"
  then obtain e where "e < c" "i = chain c p e" "\<forall>e'<e. sl_price (f (chain c p e')) \<noteq> kEmpty"
    using arr_wf_chain assms by blast
  then have "find_loop c f c p (chain c p 0) \<noteq> None"
    using i by (intro find_loop_hit [OF c]) auto
  then obtain k where k: "find_loop c f c p (probe c p) = Some k" using c by auto
  then have "k < c \<and> sl_price (f k) = p" using find_loop_Some [OF c] probe_less [OF c] by blast
  then have "k = i" using i assms by (auto simp: arr_wf_def live_ok)
  then show "find_loop c f c p (probe c p) = Some i" using k by simp
qed

lemma search_loop_Found:
  assumes "is_pow2 c" "search_loop c f n p i ft = Found k" "i < c"
  shows "k < c \<and> sl_price (f k) = p"
  using assms(2,3)
proof (induction n arbitrary: i ft)
  case 0 then show ?case by simp
next
  case (Suc n)
  have "next_slot c i < c" using assms(1) by (auto simp: next_slot_mod)
  with Suc show ?case by (auto simp: Let_def split: if_splits)
qed

lemma search_loop_find:
  "(\<exists>k. search_loop c f n p i ft = Found k) \<longleftrightarrow> find_loop c f n p i \<noteq> None"
  by (induction n arbitrary: i ft) (auto simp: Let_def)

text \<open>Where the search gives up: the insertion slot is on the chain, before any empty slot.\<close>

lemma search_loop_Vacant:
  assumes c: "is_pow2 c" and "search_loop c f n p (chain c p d) ft = Vacant i ft' full"
    "d + n = c" "\<forall>e<d. sl_price (f (chain c p e)) \<noteq> kEmpty"
    "ft = c \<or> (\<exists>e<d. ft = chain c p e \<and> sl_price (f ft) = kTombstone)"
  shows "(if full then \<forall>e<c. sl_price (f (chain c p e)) \<noteq> kEmpty
     else \<exists>e<c. (if ft' \<noteq> c then ft' else i) = chain c p e \<and> \<not> live (f (chain c p e)) \<and>
       (\<forall>e'<e. sl_price (f (chain c p e')) \<noteq> kEmpty))"
  using assms(2-5)
proof (induction n arbitrary: d ft)
  case 0
  then show ?case by simp
next
  case (Suc n)
  let ?s = "f (chain c p d)" and ?ft = "if sl_price (f (chain c p d)) = kTombstone \<and> ft = c then chain c p d else ft"
  have ne: "sl_price ?s \<noteq> p" using Suc.prems(1) by (auto split: if_splits)
  have ft: "?ft = c \<or> (\<exists>e<Suc d. ?ft = chain c p e \<and> sl_price (f ?ft) = kTombstone)"
    using Suc.prems(4) by (auto simp: less_Suc_eq)
  show ?case
  proof (cases "sl_price ?s = kEmpty")
    case True
    then have r: "i = chain c p d" "ft' = ft" "\<not> full" using Suc.prems(1) ne by (auto simp: Let_def)
    show ?thesis
    proof (cases "ft = c")
      case True': True
      show ?thesis using r True' True Suc.prems(2,3) by (auto simp: live_def intro!: exI [of _ d])
    next
      case False
      then obtain e where e: "e < d" "ft = chain c p e" "sl_price (f ft) = kTombstone"
        using Suc.prems(4) by blast
      then show ?thesis using r False Suc.prems(2,3) by (auto simp: live_def intro!: exI [of _ e])
    qed
  next
    case False
    have s: "search_loop c f n p (chain c p (Suc d)) ?ft = Vacant i ft' full"
      using Suc.prems(1) ne False by (simp add: Let_def chain_Suc [OF c])
    have before: "\<forall>e<Suc d. sl_price (f (chain c p e)) \<noteq> kEmpty"
      using Suc.prems(3) False by (auto simp: less_Suc_eq)
    show ?thesis using Suc.IH [OF s _ before ft] Suc.prems(2) by simp
  qed
qed

lemma find_empty_chain:
  assumes c: "is_pow2 c" and "d + n = c" "\<forall>e<d. sl_price (f (chain c p e)) \<noteq> kEmpty"
    "\<exists>e<c. sl_price (f (chain c p e)) = kEmpty"
  shows "\<exists>e<c. find_empty c f n (chain c p d) = chain c p e \<and> sl_price (f (chain c p e)) = kEmpty \<and>
    (\<forall>e'<e. sl_price (f (chain c p e')) \<noteq> kEmpty)"
  using assms(2-4)
proof (induction n arbitrary: d)
  case 0
  then show ?case by auto
next
  case (Suc n)
  show ?case
  proof (cases "sl_price (f (chain c p d)) = kEmpty")
    case True
    then show ?thesis using Suc.prems by (intro exI [of _ d]) simp
  next
    case False
    then have "\<forall>e<Suc d. sl_price (f (chain c p e)) \<noteq> kEmpty"
      using Suc.prems(2) by (auto simp: less_Suc_eq)
    then show ?thesis using Suc.IH [of "Suc d"] Suc.prems False by (simp add: chain_Suc [OF c])
  qed
qed

text \<open>Putting a fresh price into a free slot of its chain.\<close>

lemma arr_wf_place:
  assumes wf: "arr_wf c f" and i: "e < c" "i = chain c p e" "\<not> live (f i)"
    "\<forall>e'<e. sl_price (f (chain c p e')) \<noteq> kEmpty"
    and p: "ok_price p" "p \<notin> prices c f" and s: "sl_price s = p"
  shows "arr_wf c (f(i := s))" "prices c (f(i := s)) = insert p (prices c f)"
proof -
  have c: "is_pow2 c" using wf by (simp add: arr_wf_def)
  have ic: "i < c" using i(2) c by simp
  have fresh: "sl_price (f j) \<noteq> p" if "j < c" for j
    using that p by (auto simp: prices_def live_ok)
  have ne: "sl_price ((f(i := s)) j) \<noteq> kEmpty" if "sl_price (f j) \<noteq> kEmpty" for j
    using that p(1) s by (auto simp: ok_price_def)
  show "arr_wf c (f(i := s))"
    unfolding arr_wf_def
  proof (intro conjI allI impI)
    show "is_pow2 c" by (rule c)
  next
    fix j k assume "j < c" "k < c" "live ((f(i := s)) j)" "sl_price ((f(i := s)) j) = sl_price ((f(i := s)) k)"
    then show "j = k"
      using wf s fresh fresh [THEN not_sym] by (auto simp: arr_wf_def split: if_splits)
  next
    fix d q e' assume d: "d < c" "sl_price ((f(i := s)) (chain c q d)) = q" "ok_price q" "e' < d"
    show "sl_price ((f(i := s)) (chain c q e')) \<noteq> kEmpty"
    proof (cases "chain c q d = i")
      case True
      then have q: "q = p" using d(2) s by simp
      then have "d = e" using True d(1) i(1,2) chain_inj by blast
      then show ?thesis using i(4) d(4) q by (intro ne) simp
    next
      case False
      then have "sl_price (f (chain c q d)) = q" using d(2) by simp
      then show ?thesis using wf d by (intro ne) (auto simp: arr_wf_def)
    qed
  qed
  show "prices c (f(i := s)) = insert p (prices c f)"
    using ic i(3) s p(1) by (auto simp: prices_def live_ok)
qed

lemma card_prices_full:
  assumes "arr_wf c f" "\<forall>i<c. live (f i)"
  shows "card (prices c f) = c"
proof -
  have "prices c f = (\<lambda>i. sl_price (f i)) ` {..<c}" using assms(2) by (auto simp: prices_def)
  moreover have "inj_on (\<lambda>i. sl_price (f i)) {..<c}"
    using assms by (auto simp: inj_on_def arr_wf_def)
  ultimately show ?thesis by (simp add: card_image)
qed

lemma exists_empty:
  assumes "arr_wf c f" "\<forall>i<c. sl_price (f i) \<noteq> kTombstone" "card (prices c f) < c"
  shows "\<exists>e<c. sl_price (f (chain c p e)) = kEmpty"
proof -
  have c: "is_pow2 c" using assms(1) by (simp add: arr_wf_def)
  have "\<exists>i<c. \<not> live (f i)" using card_prices_full [OF assms(1)] assms(3) by auto
  then obtain i where i: "i < c" "sl_price (f i) = kEmpty" using assms(2) by (auto simp: live_def)
  obtain e where "e < c" "i = chain c p e" using chain_reach [OF c i(1)] by blast
  then show ?thesis using i(2) by auto
qed

lemma card_prices_le: "card (prices c f) \<le> c"
proof -
  have "prices c f = (\<lambda>i. sl_price (f i)) ` {i. i < c \<and> live (f i)}" by (auto simp: prices_def)
  then have "card (prices c f) \<le> card {i. i < c \<and> live (f i)}" by (simp add: card_image_le)
  also have "\<dots> \<le> card {..<c}" by (intro card_mono) auto
  finally show ?thesis by simp
qed

lemma arr_wf_empty: "is_pow2 c \<Longrightarrow> arr_wf c empty_slots" "prices c empty_slots = {}"
  by (auto simp: arr_wf_def empty_slots_def prices_def live_def ok_price_def)

text \<open>Doubling rehashes every live slot and drops the tombstones.\<close>

definition rehash :: "nat \<Rightarrow> (nat \<Rightarrow> level_slot) \<Rightarrow> nat \<Rightarrow> nat \<Rightarrow> level_slot" where
  "rehash c f k = foldl (\<lambda>ns i. if \<not> live (f i) then ns
      else ns(find_empty (c * 2) ns (c * 2) (probe (c * 2) (sl_price (f i))) := f i)) empty_slots [0..<k]"

lemma rehash_Suc:
  "rehash c f (Suc k) = (if \<not> live (f k) then rehash c f k
     else (rehash c f k)(find_empty (c * 2) (rehash c f k) (c * 2) (probe (c * 2) (sl_price (f k))) := f k))"
  by (simp add: rehash_def)

lemma rehash_wf:
  assumes wf: "arr_wf c f" and "k \<le> c"
  shows "arr_wf (c * 2) (rehash c f k) \<and> prices (c * 2) (rehash c f k) = prices k f \<and>
    (\<forall>j<c * 2. sl_price (rehash c f k j) \<noteq> kTombstone) \<and>
    (\<forall>j<c * 2. live (rehash c f k j) \<longrightarrow> (\<exists>i<k. rehash c f k j = f i))"
  using assms(2)
proof (induction k)
  case 0
  have "is_pow2 (c * 2)" using wf by (auto simp: arr_wf_def)
  then show ?case
    using arr_wf_empty [of "c * 2"] by (simp add: rehash_def prices_def [of 0]) (simp add: empty_slots_def live_def)
next
  case (Suc k)
  let ?n = "rehash c f k" and ?s = "f k"
  have c2: "is_pow2 (c * 2)" using wf by (auto simp: arr_wf_def)
  note ih = Suc.IH [OF Suc_leD [OF Suc.prems]]
  show ?case
  proof (cases "live ?s")
    case False
    then have "prices (Suc k) f = prices k f" by (auto simp: prices_def less_Suc_eq)
    then show ?thesis using ih False by (auto simp: rehash_Suc less_Suc_eq)
  next
    case True
    let ?p = "sl_price ?s"
    have ok: "ok_price ?p" using True by (simp add: live_ok)
    have "card (prices k f) \<le> k" by (rule card_prices_le)
    then have "card (prices (c * 2) ?n) < c * 2" using ih Suc.prems by simp
    then have "\<exists>e<c * 2. sl_price (?n (chain (c * 2) ?p e)) = kEmpty"
      using ih by (intro exists_empty) auto
    then obtain e where e: "e < c * 2"
      "find_empty (c * 2) ?n (c * 2) (probe (c * 2) ?p) = chain (c * 2) ?p e"
      "sl_price (?n (chain (c * 2) ?p e)) = kEmpty"
      "\<forall>e'<e. sl_price (?n (chain (c * 2) ?p e')) \<noteq> kEmpty"
      using find_empty_chain [OF c2, of 0 "c * 2" ?n ?p] c2 by auto
    have fresh: "?p \<notin> prices (c * 2) ?n"
    proof
      assume "?p \<in> prices (c * 2) ?n"
      then obtain i where "i < k" "sl_price (f i) = ?p" "live (f i)" using ih by (auto simp: prices_def)
      then have "i = k" using Suc.prems by (intro arr_wf_unique [OF wf]) auto
      then show False using \<open>i < k\<close> by simp
    qed
    have nl: "\<not> live (?n (chain (c * 2) ?p e))" using e(3) by (simp add: live_def)
    define m where "m = rehash c f (Suc k)"
    have m: "m = ?n(chain (c * 2) ?p e := ?s)" using True e(2) by (simp add: m_def rehash_Suc)
    have pl: "arr_wf (c * 2) m" "prices (c * 2) m = insert ?p (prices (c * 2) ?n)"
      unfolding m using arr_wf_place [OF _ e(1) refl nl e(4) ok fresh refl] ih by auto
    moreover have "insert ?p (prices k f) = prices (Suc k) f"
      using True by (auto simp: prices_def less_Suc_eq)
    moreover have "\<forall>j<c * 2. sl_price (m j) \<noteq> kTombstone"
      using ih ok by (simp add: m ok_price_def)
    moreover have "\<forall>j<c * 2. live (m j) \<longrightarrow> (\<exists>i<Suc k. m j = f i)"
      using ih by (auto simp: m less_Suc_eq)
    ultimately show ?thesis using ih unfolding m_def by simp
  qed
qed

lemma rehash_keeps:
  assumes wf: "arr_wf c f" and i: "i < c" "live (f i)"
  shows "\<exists>j<c * 2. rehash c f c j = f i"
proof -
  note r = rehash_wf [OF wf order_refl]
  have "sl_price (f i) \<in> prices (c * 2) (rehash c f c)" using r i by (auto simp: prices_def)
  then obtain j where j: "j < c * 2" "sl_price (rehash c f c j) = sl_price (f i)" "live (rehash c f c j)"
    by (auto simp: prices_def)
  then obtain i' where "i' < c" "rehash c f c j = f i'" using r by blast
  then have "i' = i" using j(2,3) i by (intro arr_wf_unique [OF wf]) auto
  then show ?thesis using j(1) \<open>rehash c f c j = f i'\<close> by blast
qed

section \<open>The table invariant\<close>

definition best_ok :: "bool \<Rightarrow> i64 set \<Rightarrow> i64 \<Rightarrow> bool" where
  "best_ok bid P b \<longleftrightarrow> (if P = {} then b = no_best bid else b \<in> P) \<and> (\<forall>p\<in>P. p = b \<or> better bid b p)"

definition tab_wf :: "level_table \<Rightarrow> bool" where
  "tab_wf t \<longleftrightarrow> arr_wf (tb_cap t) (tb_slots t) \<and> tb_count t = card (prices (tb_cap t) (tb_slots t)) \<and>
     best_ok (tb_bid t) (prices (tb_cap t) (tb_slots t)) (tb_best t)"

lemma better_total: "p \<noteq> q \<Longrightarrow> \<not> better b p q \<Longrightarrow> better b q p"
proof -
  assume "p \<noteq> q" and n: "\<not> better b p q"
  then have "sint p \<noteq> sint q" using signed_word_eqI by blast
  with n show "better b q p" by (auto simp: better_def word_sless_alt split: if_splits)
qed

lemma better_trans: "better b p q \<Longrightarrow> better b q r \<Longrightarrow> better b p r"
  by (auto simp: better_def word_sless_alt split: if_splits)

lemma better_no_best: "ok_price p \<Longrightarrow> p \<noteq> no_best b \<Longrightarrow> better b p (no_best b)"
proof -
  assume "ok_price p" "p \<noteq> no_best b"
  moreover have "sint INT64_MIN = - (2 ^ 63)" "sint INT64_MAX = 2 ^ 63 - 1" by simp_all
  moreover have "p \<noteq> INT64_MIN \<Longrightarrow> sint p \<noteq> sint INT64_MIN" "p \<noteq> INT64_MAX \<Longrightarrow> sint p \<noteq> sint INT64_MAX"
    by (metis signed_word_eqI)+
  ultimately show ?thesis
    using sint64_bounds [of p] by (auto simp: better_def no_best_def word_sless_alt ok_price_def)
qed

lemma best_ok_insert:
  assumes "best_ok bid P b" "ok_price p" "\<forall>q\<in>P. ok_price q"
  shows "best_ok bid (insert p P) (if better bid p b then p else b)"
proof (cases "P = {}")
  case True
  then show ?thesis using assms better_no_best [of p bid] by (auto simp: best_ok_def)
next
  case False
  then have b: "b \<in> P" "\<forall>q\<in>P. q = b \<or> better bid b q" using assms(1) by (auto simp: best_ok_def)
  show ?thesis
  proof (cases "better bid p b")
    case True
    then have "q = p \<or> better bid p q" if "q \<in> insert p P" for q
      using that b(2) True by (metis better_trans insertE)
    then show ?thesis using True by (simp add: best_ok_def)
  next
    case False
    then have "q = b \<or> better bid b q" if "q \<in> insert p P" for q
      using that b(2) better_total by blast
    then show ?thesis using False b(1) by (simp add: best_ok_def)
  qed
qed

lemma prices_ok: "q \<in> prices c f \<Longrightarrow> ok_price q"
  by (auto simp: prices_def live_ok)

lemma finite_prices [simp]: "finite (prices c f)"
proof -
  have "prices c f \<subseteq> (\<lambda>i. sl_price (f i)) ` {..<c}" by (auto simp: prices_def)
  then show ?thesis by (rule finite_subset) simp
qed

section \<open>Lookups\<close>

definition look :: "nat \<Rightarrow> (nat \<Rightarrow> level_slot) \<Rightarrow> i64 \<Rightarrow> level option" where
  "look c f p = map_option (\<lambda>i. sl_lvl (f i)) (find_loop c f c p (probe c p))"

lemma tab_find_look: "tab_find t p = look (tb_cap t) (tb_slots t) p"
  by (simp add: tab_find_def tab_find_idx_def look_def)

lemma look_Some:
  assumes "arr_wf c f" "ok_price p"
  shows "look c f p = Some l \<longleftrightarrow> (\<exists>i<c. sl_price (f i) = p \<and> sl_lvl (f i) = l)"
  using find_loop_iff [OF assms] by (auto simp: look_def)

lemma look_at:
  assumes "arr_wf c f" "ok_price p" "i < c" "sl_price (f i) = p"
  shows "look c f p = Some (sl_lvl (f i))"
  using assms by (auto simp: look_Some)

lemma look_None:
  assumes "arr_wf c f" "ok_price p"
  shows "look c f p = None \<longleftrightarrow> p \<notin> prices c f"
proof -
  have "look c f p \<noteq> None \<longleftrightarrow> p \<in> prices c f"
    using look_Some [OF assms] assms(2) by (auto simp: prices_def live_ok)
  then show ?thesis by blast
qed

lemma look_cong:
  assumes "arr_wf c f" "arr_wf d g" "ok_price q"
    "\<And>i. i < c \<Longrightarrow> sl_price (f i) = q \<Longrightarrow> \<exists>j<d. g j = f i"
    "\<And>j. j < d \<Longrightarrow> sl_price (g j) = q \<Longrightarrow> \<exists>i<c. f i = g j"
  shows "look d g q = look c f q"
proof (rule option.expand)
  show "(look d g q = None) = (look c f q = None)"
    using assms(4,5) by (auto simp: look_None assms(1-3) prices_def live_ok) metis+
next
  assume "look d g q \<noteq> None" "look c f q \<noteq> None"
  then obtain i where i: "i < c" "sl_price (f i) = q"
    using look_Some [OF assms(1,3)] by auto
  then obtain j where "j < d" "g j = f i" using assms(4) by blast
  then have "look d g q = Some (sl_lvl (f i))" "look c f q = Some (sl_lvl (f i))"
    using i assms(1-3) look_at by metis+
  then show "the (look d g q) = the (look c f q)" by simp
qed

lemma grow_wf:
  assumes wf: "tab_wf t"
  shows "tab_wf (tab_grow t) \<and> prices (tb_cap (tab_grow t)) (tb_slots (tab_grow t)) = prices (tb_cap t) (tb_slots t) \<and>
    tb_bid (tab_grow t) = tb_bid t \<and> (\<forall>q. ok_price q \<longrightarrow> tab_find (tab_grow t) q = tab_find t q) \<and>
    (\<forall>j<tb_cap (tab_grow t). sl_price (tb_slots (tab_grow t) j) \<noteq> kTombstone) \<and> tb_cap (tab_grow t) = tb_cap t * 2"
proof -
  let ?c = "tb_cap t" and ?f = "tb_slots t"
  have a: "arr_wf ?c ?f" using wf by (simp add: tab_wf_def)
  have g: "tb_slots (tab_grow t) = rehash ?c ?f ?c" "tb_cap (tab_grow t) = ?c * 2"
    "tb_bid (tab_grow t) = tb_bid t" "tb_best (tab_grow t) = tb_best t" "tb_count (tab_grow t) = tb_count t"
    by (simp_all add: tab_grow_def rehash_def Let_def)
  note r = rehash_wf [OF a order_refl]
  have "tab_find (tab_grow t) q = tab_find t q" if q: "ok_price q" for q
    unfolding tab_find_look g
  proof (rule look_cong [OF a _ q])
    show "arr_wf (?c * 2) (rehash ?c ?f ?c)" using r by blast
    show "\<exists>j<?c * 2. rehash ?c ?f ?c j = ?f i" if "i < ?c" "sl_price (?f i) = q" for i
      using that q by (intro rehash_keeps [OF a]) (simp_all add: live_ok)
    show "\<exists>i<?c. ?f i = rehash ?c ?f ?c j" if "j < ?c * 2" "sl_price (rehash ?c ?f ?c j) = q" for j
      using r that q by (metis live_ok)
  qed
  then show ?thesis using wf r by (simp add: g tab_wf_def)
qed

lemma raise_best_fields [simp]:
  "tb_slots (raise_best t p) = tb_slots t" "tb_cap (raise_best t p) = tb_cap t"
  "tb_bid (raise_best t p) = tb_bid t" "tb_count (raise_best t p) = tb_count t"
  "tb_best (raise_best t p) = (if better (tb_bid t) p (tb_best t) then p else tb_best t)"
  by (simp_all add: raise_best_def)

text \<open>Insertion of a new price at a free slot of its chain.\<close>

lemma insert_at_wf:
  assumes wf: "tab_wf t" and p: "ok_price p" "p \<notin> prices (tb_cap t) (tb_slots t)"
    and i: "e < tb_cap t" "i = chain (tb_cap t) p e" "\<not> live (tb_slots t i)"
      "\<forall>e'<e. sl_price (tb_slots t (chain (tb_cap t) p e')) \<noteq> kEmpty"
  shows "tab_wf (tab_insert_at t p i) \<and> tb_bid (tab_insert_at t p i) = tb_bid t \<and>
    i < tb_cap (tab_insert_at t p i) \<and>
    tb_slots (tab_insert_at t p i) i = \<lparr>sl_price = p, sl_lvl = empty_level\<rparr> \<and>
    (\<forall>q. ok_price q \<longrightarrow> q \<noteq> p \<longrightarrow> tab_find (tab_insert_at t p i) q = tab_find t q)"
proof -
  let ?c = "tb_cap t" and ?s = "\<lparr>sl_price = p, sl_lvl = empty_level\<rparr>"
  let ?g = "(tb_slots t)(i := ?s)"
  have a: "arr_wf ?c (tb_slots t)" using wf by (simp add: tab_wf_def)
  then have c: "is_pow2 ?c" by (simp add: arr_wf_def)
  have pl: "arr_wf ?c ?g" "prices ?c ?g = insert p (prices ?c (tb_slots t))"
    using arr_wf_place [OF a i p, of ?s] by simp_all
  have f: "tb_slots (tab_insert_at t p i) = ?g" "tb_cap (tab_insert_at t p i) = ?c"
    "tb_bid (tab_insert_at t p i) = tb_bid t" "tb_count (tab_insert_at t p i) = tb_count t + 1"
    "tb_best (tab_insert_at t p i) = (if better (tb_bid t) p (tb_best t) then p else tb_best t)"
    by (simp_all add: tab_insert_at_def)
  have "tab_wf (tab_insert_at t p i)"
    unfolding tab_wf_def f pl(2)
    using pl(1) wf p best_ok_insert [OF _ p(1)] prices_ok by (simp add: tab_wf_def)
  moreover have "tab_find (tab_insert_at t p i) q = tab_find t q" if q: "ok_price q" "q \<noteq> p" for q
    unfolding tab_find_look f
  proof (rule look_cong [OF a pl(1) q(1)])
    show "\<exists>j<?c. ?g j = tb_slots t k" if "k < ?c" "sl_price (tb_slots t k) = q" for k
      using that i(3) q(1) by (intro exI [of _ k]) (auto simp: live_ok)
    show "\<exists>k<?c. tb_slots t k = ?g j" if "j < ?c" "sl_price (?g j) = q" for j
      using that q(2) by (intro exI [of _ j]) (auto split: if_splits)
  qed
  moreover have "i < ?c" using i(2) c by simp
  ultimately show ?thesis by (simp add: f del: fun_upd_apply) (simp add: f)
qed

lemma tab_index_wf:
  assumes wf: "tab_wf t" and p: "ok_price p" and r: "tab_index t p = (t', i)"
  shows "tab_wf t' \<and> tb_bid t' = tb_bid t \<and> i < tb_cap t' \<and> sl_price (tb_slots t' i) = p \<and>
    sl_lvl (tb_slots t' i) = (case tab_find t p of None \<Rightarrow> empty_level | Some l \<Rightarrow> l) \<and>
    (\<forall>q. ok_price q \<longrightarrow> q \<noteq> p \<longrightarrow> tab_find t' q = tab_find t q)"
proof -
  let ?c = "tb_cap t" and ?f = "tb_slots t"
  have a: "arr_wf ?c ?f" using wf by (simp add: tab_wf_def)
  then have c: "is_pow2 ?c" by (simp add: arr_wf_def)
  have fl: "(\<exists>k. search_loop ?c ?f ?c p (probe ?c p) ?c = Found k) \<longleftrightarrow> tab_find t p \<noteq> None"
    by (simp add: search_loop_find tab_find_def tab_find_idx_def)
  show ?thesis
  proof (cases "search_loop ?c ?f ?c p (probe ?c p) ?c")
    case (Found k)
    then have k: "k < ?c \<and> sl_price (?f k) = p"
      using search_loop_Found [OF c] probe_less [OF c] by blast
    have t': "t' = raise_best t p" "i = k" using r Found by (simp_all add: tab_index_def)
    have in_p: "insert p (prices ?c ?f) = prices ?c ?f"
      using k p by (auto simp: prices_def live_ok)
    have "best_ok (tb_bid t) (prices ?c ?f) (tb_best t)" "\<forall>q\<in>prices ?c ?f. ok_price q"
      using wf prices_ok by (auto simp: tab_wf_def)
    then have "tab_wf t'"
      using wf best_ok_insert [of "tb_bid t" "prices ?c ?f" "tb_best t" p] p
      by (simp add: tab_wf_def t' in_p)
    moreover have "tab_find t p = Some (sl_lvl (?f k))"
      unfolding tab_find_look using k by (intro look_at [OF a p]) auto
    ultimately show ?thesis using k by (simp add: t' tab_find_look)
  next
    case (Vacant j ft full)
    then have none: "tab_find t p = None" using fl by auto
    have new: "p \<notin> prices ?c ?f" using none look_None [OF a p] by (simp add: tab_find_look)
    have v: "if full then \<forall>e<?c. sl_price (?f (chain ?c p e)) \<noteq> kEmpty
     else \<exists>e<?c. (if ft \<noteq> ?c then ft else j) = chain ?c p e \<and> \<not> live (?f (chain ?c p e)) \<and>
       (\<forall>e'<e. sl_price (?f (chain ?c p e')) \<noteq> kEmpty)"
      using search_loop_Vacant [OF c, of ?f ?c p 0 ?c j ft full] Vacant c by simp
    show ?thesis
    proof (cases full)
      case False
      then obtain e where e: "e < ?c" "(if ft \<noteq> ?c then ft else j) = chain ?c p e"
        "\<not> live (?f (chain ?c p e))" "\<forall>e'<e. sl_price (?f (chain ?c p e')) \<noteq> kEmpty"
        using v by auto
      have t': "t' = tab_insert_at t p (chain ?c p e)" "i = chain ?c p e"
        using r Vacant False e(2) by (auto simp: tab_index_def Let_def)
      show ?thesis using insert_at_wf [OF wf p new e(1) refl e(3,4)] none by (simp add: t')
    next
      case True
      let ?g = "tab_grow t"
      note g = grow_wf [OF wf]
      from g have "tab_wf ?g" by blast
      then have ga: "arr_wf (tb_cap ?g) (tb_slots ?g)" by (simp add: tab_wf_def)
      then have gc: "is_pow2 (tb_cap ?g)" by (simp add: arr_wf_def)
      have "0 < ?c" using c by auto
      moreover have "tb_cap ?g = ?c * 2" "prices (tb_cap ?g) (tb_slots ?g) = prices ?c ?f" using g by blast+
      ultimately have "card (prices (tb_cap ?g) (tb_slots ?g)) < tb_cap ?g"
        using card_prices_le [of ?c ?f] by (simp only:)
      then have "\<exists>e<tb_cap ?g. sl_price (tb_slots ?g (chain (tb_cap ?g) p e)) = kEmpty"
        using g by (intro exists_empty [OF ga]) auto
      then obtain e where e: "e < tb_cap ?g"
        "find_empty (tb_cap ?g) (tb_slots ?g) (tb_cap ?g) (probe (tb_cap ?g) p) = chain (tb_cap ?g) p e"
        "sl_price (tb_slots ?g (chain (tb_cap ?g) p e)) = kEmpty"
        "\<forall>e'<e. sl_price (tb_slots ?g (chain (tb_cap ?g) p e')) \<noteq> kEmpty"
        using find_empty_chain [OF gc, of 0 "tb_cap ?g" "tb_slots ?g" p] gc by auto
      have t': "t' = tab_insert_at ?g p (chain (tb_cap ?g) p e)" "i = chain (tb_cap ?g) p e"
        using r Vacant True e(2) by (auto simp: tab_index_def Let_def)
      have nl: "\<not> live (tb_slots ?g (chain (tb_cap ?g) p e))" using e(3) by (simp add: live_def)
      have "prices (tb_cap ?g) (tb_slots ?g) = prices ?c ?f" using g by blast
      then have gnew: "p \<notin> prices (tb_cap ?g) (tb_slots ?g)" using new by (simp only:) simp
      show ?thesis
        using insert_at_wf [OF _ p gnew e(1) refl nl e(4)] none g by (simp add: t')
    qed
  qed
qed

section \<open>Updates and deletions\<close>

lemma set_level_wf:
  fixes l :: level
  assumes wf: "tab_wf t" and i: "i < tb_cap t" "sl_price (tb_slots t i) = p" "ok_price p"
  defines "t' \<equiv> t\<lparr>tb_slots := (tb_slots t)(i := (tb_slots t i)\<lparr>sl_lvl := l\<rparr>)\<rparr>"
  shows "tab_wf t' \<and> tab_find t' p = Some l \<and> (\<forall>q. ok_price q \<longrightarrow> q \<noteq> p \<longrightarrow> tab_find t' q = tab_find t q)"
proof -
  let ?c = "tb_cap t" and ?f = "tb_slots t" and ?g = "(tb_slots t)(i := (tb_slots t i)\<lparr>sl_lvl := l\<rparr>)"
  have a: "arr_wf ?c ?f" using wf by (simp add: tab_wf_def)
  have pr: "sl_price (?g j) = sl_price (?f j)" "live (?g j) = live (?f j)" for j
    by (simp_all add: live_def)
  have ga: "arr_wf ?c ?g" using a unfolding arr_wf_def pr .
  have "prices ?c ?g = prices ?c ?f" by (simp only: prices_def pr)
  then have "tab_wf t'" using wf ga by (simp add: tab_wf_def t'_def)
  moreover have "tab_find t' p = Some l"
    using look_at [OF ga i(3,1)] i(2) by (simp add: tab_find_look t'_def)
  moreover have "tab_find t' q = tab_find t q" if q: "ok_price q" "q \<noteq> p" for q
    unfolding tab_find_look t'_def
  proof (simp, rule look_cong [OF a ga q(1)])
    show "\<exists>j<?c. ?g j = ?f k" if "k < ?c" "sl_price (?f k) = q" for k
      using that i(2) q(2) by (intro exI [of _ k]) auto
    show "\<exists>k<?c. ?f k = ?g j" if "j < ?c" "sl_price (?g j) = q" for j
      using that i(2) q(2) by (intro exI [of _ j]) (auto split: if_splits)
  qed
  ultimately show ?thesis by blast
qed

lemma tab_upd_wf:
  assumes wf: "tab_wf t" and p: "ok_price p"
  shows "tab_wf (tab_upd t p f) \<and> tb_bid (tab_upd t p f) = tb_bid t \<and>
    (\<forall>q. ok_price q \<longrightarrow> tab_find (tab_upd t p f) q =
      (if q = p then Some (f (case tab_find t p of None \<Rightarrow> empty_level | Some l \<Rightarrow> l)) else tab_find t q))"
proof -
  obtain t' i where r: "tab_index t p = (t', i)" by (cases "tab_index t p")
  note x = tab_index_wf [OF wf p r]
  then have "tab_wf t'" "i < tb_cap t'" "sl_price (tb_slots t' i) = p" by blast+
  from set_level_wf [OF this p, of "f (sl_lvl (tb_slots t' i))"] show ?thesis
    using x by (simp add: tab_upd_def r)
qed

lemma rescan_best_ok:
  "best_ok bid (prices k f)
    (foldl (\<lambda>b i. if \<not> live (f i) then b else if better bid (sl_price (f i)) b then sl_price (f i) else b)
      (no_best bid) [0..<k])"
proof (induction k)
  case 0
  then show ?case by (simp add: prices_def best_ok_def)
next
  case (Suc k)
  show ?case
  proof (cases "live (f k)")
    case True
    then have "prices (Suc k) f = insert (sl_price (f k)) (prices k f)"
      by (auto simp: prices_def less_Suc_eq)
    moreover have "ok_price (sl_price (f k))" using True by (simp add: live_ok)
    ultimately show ?thesis
      using True best_ok_insert [OF Suc, of "sl_price (f k)"] prices_ok by simp
  next
    case False
    then have "prices (Suc k) f = prices k f" by (auto simp: prices_def less_Suc_eq)
    then show ?thesis using False Suc by simp
  qed
qed

lemma rescan_wf:
  "arr_wf (tb_cap t) (tb_slots t) \<Longrightarrow> tb_count t = card (prices (tb_cap t) (tb_slots t)) \<Longrightarrow>
    tab_wf (rescan_best t)"
  using rescan_best_ok [of "tb_bid t" "tb_cap t" "tb_slots t"] by (simp add: tab_wf_def rescan_best_def)

lemma tomb_wf:
  assumes wf: "arr_wf c f" and i: "i < c" "sl_price (f i) = p" "ok_price p"
  defines "g \<equiv> f(i := (f i)\<lparr>sl_price := kTombstone\<rparr>)"
  shows "arr_wf c g \<and> prices c g = prices c f - {p} \<and>
    (\<forall>q. ok_price q \<longrightarrow> look c g q = (if q = p then None else look c f q))"
proof -
  have nl: "\<not> live (g i)" by (simp add: g_def live_def)
  have g: "g j = f j" if "live (g j)" for j using that nl by (auto simp: g_def split: if_splits)
  have only: "j = i" if "j < c" "sl_price (f j) = p" for j
    using that i by (intro arr_wf_unique [OF wf]) (auto simp: live_ok)
  have ga: "arr_wf c g"
    unfolding arr_wf_def
  proof (intro conjI allI impI)
    show "is_pow2 c" using wf by (simp add: arr_wf_def)
  next
    fix j k assume h: "j < c" "k < c" "live (g j)" "sl_price (g j) = sl_price (g k)"
    then have "live (g k)" by (simp add: live_ok)
    then show "j = k" using h g wf by (auto simp: arr_wf_def)
  next
    fix d q e assume h: "d < c" "sl_price (g (chain c q d)) = q" "ok_price q" "e < d"
    then have "live (g (chain c q d))" by (simp add: live_ok)
    then have "sl_price (f (chain c q d)) = q" using h g by simp
    then have "sl_price (f (chain c q e)) \<noteq> kEmpty" using wf h by (auto simp: arr_wf_def)
    then show "sl_price (g (chain c q e)) \<noteq> kEmpty" by (simp add: g_def)
  qed
  have pr: "prices c g = prices c f - {p}"
  proof (intro set_eqI iffI)
    fix q assume "q \<in> prices c g"
    then obtain j where j: "j < c" "live (g j)" "sl_price (g j) = q" by (auto simp: prices_def)
    then have "q \<noteq> p" using g only nl by fastforce
    moreover have "g j = f j" using g j(2) .
    ultimately show "q \<in> prices c f - {p}" using j by (auto simp: prices_def)
  next
    fix q assume "q \<in> prices c f - {p}"
    then obtain j where j: "j < c" "live (f j)" "sl_price (f j) = q" "q \<noteq> p" by (auto simp: prices_def)
    then have "g j = f j" using i(2) by (auto simp: g_def)
    then show "q \<in> prices c g" using j by (auto simp: prices_def intro!: exI [of _ j])
  qed
  have "look c g q = (if q = p then None else look c f q)" if q: "ok_price q" for q
  proof (cases "q = p")
    case True
    then show ?thesis using look_None [OF ga q] pr by simp
  next
    case False
    have "look c g q = look c f q"
    proof (rule look_cong [OF wf ga q])
      show "\<exists>j<c. g j = f k" if "k < c" "sl_price (f k) = q" for k
        using that i(2) False by (intro exI [of _ k]) (auto simp: g_def)
      show "\<exists>k<c. f k = g j" if "j < c" "sl_price (g j) = q" for j
        using that q g [of j] by (intro exI [of _ j]) (simp add: live_ok)
    qed
    then show ?thesis using False by simp
  qed
  then show ?thesis using ga pr by blast
qed

lemma tab_erase_wf:
  assumes wf: "tab_wf t" and p: "ok_price p"
  shows "tab_wf (tab_erase t p) \<and> tb_bid (tab_erase t p) = tb_bid t \<and>
    (\<forall>q. ok_price q \<longrightarrow> tab_find (tab_erase t p) q = (if q = p then None else tab_find t q))"
proof (cases "tab_find_idx t p")
  case None
  then show ?thesis using wf by (simp add: tab_erase_def tab_find_def)
next
  case (Some i)
  let ?c = "tb_cap t" and ?f = "tb_slots t"
  let ?g = "?f(i := (?f i)\<lparr>sl_price := kTombstone\<rparr>)" and ?P = "prices (tb_cap t) (tb_slots t)"
  have a: "arr_wf ?c ?f" and best: "best_ok (tb_bid t) ?P (tb_best t)" and n: "tb_count t = card ?P"
    using wf by (simp_all add: tab_wf_def)
  have i: "i < ?c" "sl_price (?f i) = p" using Some find_loop_iff [OF a p] by (auto simp: tab_find_idx_def)
  note g = tomb_wf [OF a i p]
  have mem: "p \<in> ?P" using i p by (auto simp: prices_def live_ok)
  have cnt: "tb_count t - 1 = card (?P - {p})" using mem n by simp
  define h where "h = ?g"
  have h: "arr_wf ?c h" "prices ?c h = ?P - {p}"
    "look ?c h q = (if q = p then None else look ?c ?f q)" if "ok_price q" for q
    using g that unfolding h_def by blast+
  let ?t = "t\<lparr>tb_slots := h, tb_count := tb_count t - 1\<rparr>"
  have e: "tab_erase t p = (if p = tb_best t then rescan_best ?t else ?t)"
    by (simp add: tab_erase_def Some Let_def h_def)
  have "tab_wf (tab_erase t p)"
  proof (cases "p = tb_best t")
    case True
    then have "tab_erase t p = rescan_best ?t" using e by presburger
    moreover have "tab_wf (rescan_best ?t)" using h(1,2) [OF p] cnt by (intro rescan_wf) simp_all
    ultimately show ?thesis by simp
  next
    case False
    have "best_ok (tb_bid t) (?P - {p}) (tb_best t)"
      using best mem False by (auto simp: best_ok_def split: if_splits)
    then show ?thesis using h(1,2) [OF p] cnt False by (simp add: e tab_wf_def)
  qed
  moreover have "tab_find (tab_erase t p) q = look ?c h q" for q
    by (simp add: e tab_find_look rescan_best_def)
  moreover have "tb_bid (tab_erase t p) = tb_bid t" by (simp add: e rescan_best_def)
  ultimately show ?thesis using h(3) by (simp add: tab_find_look)
qed

lemma tab_prices:
  assumes "tab_wf t"
  shows "{p. ok_price p \<and> tab_find t p \<noteq> None} = prices (tb_cap t) (tb_slots t)"
proof -
  have "arr_wf (tb_cap t) (tb_slots t)" using assms by (simp add: tab_wf_def)
  note n = look_None [OF this]
  show ?thesis
  proof (intro set_eqI)
    fix p
    show "p \<in> {p. ok_price p \<and> tab_find t p \<noteq> None} \<longleftrightarrow> p \<in> prices (tb_cap t) (tb_slots t)"
      using n [of p] prices_ok [of p "tb_cap t" "tb_slots t"] unfolding tab_find_look mem_Collect_eq
      by (cases "ok_price p") auto
  qed
qed

interpretation levels: price_levels tab_find tab_upd tab_erase tb_best tab_size tb_bid tab_wf ok_price
proof unfold_locales
  show "tab_wf (tab_upd t p f)" if "tab_wf t" "ok_price p" for t p f using tab_upd_wf [OF that] by blast
  show "tab_wf (tab_erase t p)" if "tab_wf t" "ok_price p" for t p using tab_erase_wf [OF that] by blast
  show "tab_find (tab_upd t p f) q =
      (if q = p then Some (f (case tab_find t p of None \<Rightarrow> empty_level | Some l \<Rightarrow> l)) else tab_find t q)"
    if "tab_wf t" "ok_price p" "ok_price q" for t p q f using tab_upd_wf [OF that(1,2)] that(3) by blast
  show "tab_find (tab_erase t p) q = (if q = p then None else tab_find t q)"
    if "tab_wf t" "ok_price p" "ok_price q" for t p q using tab_erase_wf [OF that(1,2)] that(3) by blast
  show "tb_bid (tab_upd t p f) = tb_bid t" for t p f
    by (simp add: tab_upd_def tab_index_def tab_insert_at_def tab_grow_def Let_def split: prod.splits search.splits)
  show "tb_bid (tab_erase t p) = tb_bid t" for t p
    by (simp add: tab_erase_def rescan_best_def Let_def split: option.splits)
  show "tab_size t = card {p. ok_price p \<and> tab_find t p \<noteq> None}" if "tab_wf t" for t
    using that tab_prices [OF that] by (simp add: tab_size_def tab_wf_def)
  show "ok_price (tb_best t) \<and> tab_find t (tb_best t) \<noteq> None" if "tab_wf t" "tab_size t \<noteq> 0" for t
  proof -
    have "prices (tb_cap t) (tb_slots t) \<noteq> {}" using that by (auto simp: tab_wf_def tab_size_def)
    then have "tb_best t \<in> prices (tb_cap t) (tb_slots t)" using that(1) by (simp add: tab_wf_def best_ok_def)
    then show ?thesis using tab_prices [OF that(1)] by blast
  qed
  show "p = tb_best t \<or> better (tb_bid t) (tb_best t) p"
    if "tab_wf t" "ok_price p" "tab_find t p \<noteq> None" for t p
    using that tab_prices [OF that(1)] by (auto simp: tab_wf_def best_ok_def)
qed

lemma new_table_wf [wf_intros]: "tab_wf (new_table bid)" "tab_find (new_table bid) p = None \<or> \<not> ok_price p"
proof -
  have "is_pow2 kInitCapacity" using is_pow2_power [of 10] by simp
  note e = arr_wf_empty(1) [OF this]
  show "tab_wf (new_table bid)" using e arr_wf_empty(2) [of kInitCapacity]
    by (simp add: tab_wf_def new_table_def best_ok_def)
  show "tab_find (new_table bid) p = None \<or> \<not> ok_price p"
    using look_None [OF e] arr_wf_empty(2) [of kInitCapacity] by (auto simp: tab_find_look new_table_def)
qed

section \<open>Properties\<close>

text \<open>C17. The open-addressing table is the ordered map it replaced: after any sequence of
  \<open>operator[]\<close> updates and erasures of real prices, growth and tombstones included, a lookup
  returns what the map would, the size is the number of its keys, and the cached best price is the
  map's extreme key (greatest for bids, least for asks) with \<open>best_qty\<close> its total quantity.\<close>

theorem level_table_refines_map:
  assumes "\<forall>x \<in> set ops. ok_price (fst x)"
    "t = level_run tab_upd tab_erase (new_table bid) ops" "m = map_run Map.empty ops"
  shows "(\<forall>q. ok_price q \<longrightarrow> tab_find t q = m q) \<and> tab_size t = card {q. ok_price q \<and> m q \<noteq> None} \<and>
    (\<forall>q. ok_price q \<longrightarrow> m q \<noteq> None \<longrightarrow> m (tb_best t) \<noteq> None \<and> \<not> better bid q (tb_best t) \<and>
       best_qty t = to_u64 (total_qty (the (m (tb_best t)))))"
proof -
  have "\<forall>q. ok_price q \<longrightarrow> tab_find (new_table bid) q = Map.empty q" using new_table_wf(2) by auto
  from levels.run_refines [OF new_table_wf(1) assms(1) this]
  have t: "tab_wf t" "tb_bid t = bid" "\<And>q. ok_price q \<Longrightarrow> tab_find t q = m q"
    by (simp_all add: assms(2,3) new_table_def)
  have size: "tab_size t = card {q. ok_price q \<and> m q \<noteq> None}"
    using levels.size_get [OF t(1)] t(3) by (metis (mono_tags, lifting) Collect_cong)
  have "m (tb_best t) \<noteq> None \<and> \<not> better bid q (tb_best t) \<and>
      best_qty t = to_u64 (total_qty (the (m (tb_best t))))" if q: "ok_price q" "m q \<noteq> None" for q
  proof -
    have f: "tab_find t q \<noteq> None" using q t(3) by simp
    note b = levels.best_extreme [OF t(1) q(1) f]
    have "finite {q. ok_price q \<and> m q \<noteq> None}" by (rule finite_subset [OF subset_UNIV]) simp
    then have n: "tab_size t \<noteq> 0" using size q by auto
    then have "m (tb_best t) = tab_find t (tb_best t)" using levels.best_in [OF t(1) n] t(3) by simp
    then show ?thesis using b t(2) n by (auto simp: best_qty_def tab_empty_def tab_size_def)
  qed
  then show ?thesis using t(3) size by blast
qed

text \<open>Two bids at 100 and 101, the better one erased, one added back at 99.\<close>

definition demo_level_ops :: level_ops where
  "demo_level_ops = [(100, Some (\<lambda>l. l\<lparr>total_qty := 5\<rparr>)), (101, Some (\<lambda>l. l\<lparr>total_qty := 7\<rparr>)), (101, None),
     (99, Some (\<lambda>l. l\<lparr>total_qty := 9\<rparr>))]"

theorem level_table_refines_map_witness:
  "let t = level_run tab_upd tab_erase (new_table True) demo_level_ops
   in tab_find t 100 = Some (empty_level\<lparr>total_qty := 5\<rparr>) \<and> tab_find t 101 = None \<and> tab_size t = 2"
proof -
  have ok: "\<forall>x \<in> set demo_level_ops. ok_price (fst x)" by (simp add: demo_level_ops_def ok_price_def)
  let ?m = "map_run Map.empty demo_level_ops"
  have m: "?m = (Map.empty(100 \<mapsto> empty_level\<lparr>total_qty := 5\<rparr>, 99 \<mapsto> empty_level\<lparr>total_qty := 9\<rparr>))"
    by (auto simp: demo_level_ops_def fun_eq_iff)
  have "{q. ok_price q \<and> ?m q \<noteq> None} = {99, 100}" by (auto simp: m ok_price_def)
  then show ?thesis
    using level_table_refines_map [OF ok refl refl, of True] by (simp add: m ok_price_def Let_def)
qed

end
