(* ===== verification/Treiber_Stack.thy ===== *)
theory Treiber_Stack
  imports NX_Prelude
begin

text \<open>
  The lock-free free list that \<^verbatim>\<open>core/memory/order_pool.h\<close> and \<^verbatim>\<open>core/memory/order_map.h\<close> share: a
  Treiber stack of slot indices whose head packs a tag (high 32 bits) and an index (low 32 bits).
  First the operations as they run undisturbed, then the code's atomic accesses as a step relation
  over any number of threads, whose invariant shows that the tag keeps a slot from being handed
  out twice.
\<close>

section \<open>The stack\<close>

record tstack =
  ts_head :: u64
  ts_next :: "u32 \<Rightarrow> u32"

definition head_of :: "u64 \<Rightarrow> u32" where
  "head_of fh = to_u32 fh"

definition tag_of :: "u64 \<Rightarrow> u64" where
  "tag_of fh = drop_bit 32 fh"

text \<open>\<open>(((fh >> 32) + 1) << 32) | idx\<close>.\<close>

definition bump :: "u64 \<Rightarrow> u32 \<Rightarrow> u64" where
  "bump fh i = push_bit 32 (drop_bit 32 fh + 1) OR to_u64 i"

definition ts_init :: "nat \<Rightarrow> tstack" where
  "ts_init n = \<lparr>ts_head = 0, ts_next = (\<lambda>i. if unat i + 1 < n then i + 1 else UINT32_MAX)\<rparr>"

definition ts_alloc :: "tstack \<Rightarrow> tstack \<times> u32 option" where
  "ts_alloc s =
     (let fh = ts_head s in
      if head_of fh = UINT32_MAX then (s, None)
      else (s\<lparr>ts_head := bump fh (ts_next s (head_of fh))\<rparr>, Some (head_of fh)))"

definition ts_free :: "tstack \<Rightarrow> u32 \<Rightarrow> tstack" where
  "ts_free s i =
     (let fh = ts_head s
      in s\<lparr>ts_next := (ts_next s)(i := head_of fh), ts_head := bump fh i\<rparr>)"

lemma head_of_bump [simp]: "head_of (bump fh i) = i"
  unfolding head_of_def bump_def by (rule bit_word_eqI) (auto simp: bit_simps)

lemma tag_of_bump: "tag_of (bump fh i) = take_bit 32 (tag_of fh + 1)"
proof -
  have "drop_bit 32 (push_bit 32 x OR to_u64 i) = take_bit 32 x" for x :: u64
    by (rule bit_word_eqI) (auto simp: bit_simps dest: bit_imp_le_length)
  then show ?thesis by (simp add: tag_of_def bump_def)
qed

lemma unat_tag_bump: "unat (tag_of fh) + 1 < 2 ^ 32 \<Longrightarrow> unat (tag_of (bump fh i)) = unat (tag_of fh) + 1"
proof -
  assume a: "unat (tag_of fh) + 1 < 2 ^ 32"
  then have "unat (tag_of fh + 1) = unat (tag_of fh) + 1" by (simp add: unat_add_nowrap)
  then show ?thesis using a by (simp add: tag_of_bump unsigned_take_bit_eq take_bit_nat_eq_self)
qed

section \<open>The free slots\<close>

text \<open>The slots on the stack, from the top.\<close>

fun on_stack :: "(u32 \<Rightarrow> u32) \<Rightarrow> u32 \<Rightarrow> u32 list \<Rightarrow> bool" where
  "on_stack nx h [] \<longleftrightarrow> h = UINT32_MAX"
| "on_stack nx h (x # xs) \<longleftrightarrow> h = x \<and> x \<noteq> UINT32_MAX \<and> on_stack nx (nx x) xs"

lemma on_stack_unique: "on_stack nx h xs \<Longrightarrow> on_stack nx h ys \<Longrightarrow> xs = ys"
proof (induction xs arbitrary: h ys)
  case Nil then show ?case by (cases ys) auto
next
  case (Cons x xs) then show ?case by (cases ys) auto
qed

lemma on_stack_upd: "i \<notin> set xs \<Longrightarrow> on_stack (nx(i := v)) h xs = on_stack nx h xs"
  by (induction xs arbitrary: h) auto

lemma on_stack_no_max: "on_stack nx h xs \<Longrightarrow> UINT32_MAX \<notin> set xs"
  by (induction xs arbitrary: h) auto

lemma on_stack_init:
  assumes "0 < n" "n < 2 ^ 32"
  shows "on_stack (ts_next (ts_init n)) 0 (map of_nat [0..<n])"
proof -
  let ?nx = "ts_next (ts_init n)"
  have u: "unat (of_nat k :: u32) = k" if "k < n" for k
    using that assms(2) by (simp add: unat_of_nat take_bit_nat_eq_self)
  have ne: "(of_nat k :: u32) \<noteq> UINT32_MAX" if "k < n" for k
  proof
    assume "(of_nat k :: u32) = UINT32_MAX"
    then have "unat (of_nat k :: u32) = unat UINT32_MAX" by simp
    then show False using u [OF that] that assms(2) by simp
  qed
  have nx: "?nx (of_nat k) = (if k + 1 < n then of_nat (k + 1) else UINT32_MAX)" if "k < n" for k
    using u [OF that] by (simp add: ts_init_def add.commute)
  have "on_stack ?nx (of_nat (n - k)) (map of_nat [n - k..<n])" if "0 < k" "k \<le> n" for k
    using that
  proof (induction k)
    case 0 then show ?case by simp
  next
    case (Suc k)
    show ?case
    proof (cases "k = 0")
      case True
      have "[n - Suc 0..<n] = [n - 1]" using Suc.prems by (simp add: upt_conv_Cons)
      then show ?thesis using True Suc.prems ne [of "n - 1"] nx [of "n - 1"] by simp
    next
      case False
      then have "[n - Suc k..<n] = (n - Suc k) # [n - k..<n]"
        using Suc.prems by (simp add: upt_conv_Cons Suc_diff_Suc)
      moreover have "?nx (of_nat (n - Suc k)) = of_nat (n - k)"
        using nx [of "n - Suc k"] Suc.prems False by (simp add: Suc_diff_Suc)
      ultimately show ?thesis using Suc ne [of "n - Suc k"] False by simp
    qed
  qed
  from this [of n] show ?thesis using assms(1) by simp
qed

section \<open>The interface of a slot pool\<close>

text \<open>
  What a client of the pool relies on: \<open>free s\<close> lists the slots that can still be handed out; an
  allocation takes one of them or fails when there is none, and a released slot is free again.
\<close>

locale slot_pool =
  fixes alloc :: "'s \<Rightarrow> 's \<times> u32 option"
    and release :: "'s \<Rightarrow> u32 \<Rightarrow> 's"
    and free :: "'s \<Rightarrow> u32 list \<Rightarrow> bool"
  assumes free_fun: "free s xs \<Longrightarrow> free s ys \<Longrightarrow> xs = ys"
    and alloc_some: "free s (x # xs) \<Longrightarrow> \<exists>s'. alloc s = (s', Some x) \<and> free s' xs"
    and alloc_none: "free s [] \<Longrightarrow> alloc s = (s, None)"
    and release_free: "free s xs \<Longrightarrow> i \<notin> set xs \<Longrightarrow> i \<noteq> UINT32_MAX \<Longrightarrow> free (release s i) (i # xs)"
begin

text \<open>The slots handed out by \<open>k\<close> allocations in a row are the first \<open>k\<close> free ones: never one twice.\<close>

fun take_slots :: "nat \<Rightarrow> 's \<Rightarrow> 's \<times> u32 list" where
  "take_slots 0 s = (s, [])"
| "take_slots (Suc k) s = (case alloc s of
     (s', None) \<Rightarrow> (s', [])
   | (s', Some x) \<Rightarrow> (case take_slots k s' of (s2, xs) \<Rightarrow> (s2, x # xs)))"

lemma take_slots_free:
  assumes "free s xs"
  shows "snd (take_slots k s) = take k xs \<and> free (fst (take_slots k s)) (drop k xs)"
  using assms
proof (induction k arbitrary: s xs)
  case 0 then show ?case by simp
next
  case (Suc k)
  show ?case
  proof (cases xs)
    case Nil
    then show ?thesis using Suc.prems alloc_none by auto
  next
    case (Cons x ys)
    then obtain s' where s': "alloc s = (s', Some x)" "free s' ys" using Suc.prems alloc_some by blast
    then show ?thesis using Suc.IH [OF s'(2)] Cons by (auto split: prod.splits)
  qed
qed

lemma release_then_alloc:
  assumes "free s xs" "i \<notin> set xs" "i \<noteq> UINT32_MAX"
  shows "snd (alloc (release s i)) = Some i"
  using alloc_some [OF release_free [OF assms]] by auto

end

definition ts_free_list :: "tstack \<Rightarrow> u32 list \<Rightarrow> bool" where
  "ts_free_list s xs \<longleftrightarrow> on_stack (ts_next s) (head_of (ts_head s)) xs \<and> distinct xs"

interpretation stack: slot_pool ts_alloc ts_free ts_free_list
proof unfold_locales
  show "xs = ys" if "ts_free_list s xs" "ts_free_list s ys" for s xs ys
    using that on_stack_unique by (auto simp: ts_free_list_def)
  show "\<exists>s'. ts_alloc s = (s', Some x) \<and> ts_free_list s' xs" if "ts_free_list s (x # xs)" for s x xs
    using that by (auto simp: ts_alloc_def ts_free_list_def Let_def)
  show "ts_alloc s = (s, None)" if "ts_free_list s []" for s
    using that by (simp add: ts_alloc_def ts_free_list_def)
  show "ts_free_list (ts_free s i) (i # xs)" if "ts_free_list s xs" "i \<notin> set xs" "i \<noteq> UINT32_MAX" for s xs i
    using that by (simp add: ts_free_def ts_free_list_def Let_def on_stack_upd)
qed

text \<open>A fresh pool has every slot free, in index order.\<close>

lemma ts_init_free:
  assumes "0 < n" "n < 2 ^ 32"
  shows "ts_free_list (ts_init n) (map of_nat [0..<n])"
    and "\<forall>i\<in>set (map of_nat [0..<n] :: u32 list). unat i < n"
proof -
  have u: "unat (of_nat k :: u32) = k" if "k < n" for k
    using that assms(2) by (simp add: unat_of_nat take_bit_nat_eq_self)
  then have "inj_on (of_nat :: nat \<Rightarrow> u32) {0..<n}"
    by (intro inj_onI) (metis atLeastLessThan_iff)
  then show "ts_free_list (ts_init n) (map of_nat [0..<n])"
    using on_stack_init [OF assms] by (simp add: ts_free_list_def distinct_map head_of_def ts_init_def)
  show "\<forall>i\<in>set (map of_nat [0..<n] :: u32 list). unat i < n" using u by auto
qed

section \<open>Threads\<close>

text \<open>
  A thread inside \<open>allocate\<close> has loaded the head (\<open>A_Loaded\<close>) and then the next index (\<open>A_Read\<close>);
  inside \<open>deallocate\<close> it has loaded the head (\<open>D_Loaded\<close>) and then stored it into the slot
  (\<open>D_Stored\<close>). A compare-exchange succeeds only on the loaded head; it may also fail spuriously
  (\<open>compare_exchange_weak\<close>), and a failure hands back the current head. \<open>owned\<close> are the slots a
  thread holds, the one it is releasing included; an owner may write its slots' link field.
\<close>

datatype pc = Idle | A_Loaded u64 | A_Read u64 u32 | D_Loaded u32 u64 | D_Stored u32 u64

record 'p threads =
  stk :: tstack
  pcs :: "'p \<Rightarrow> pc"
  owned :: "'p \<Rightarrow> u32 set"

inductive tstep :: "'p threads \<Rightarrow> 'p threads \<Rightarrow> bool" where
  alloc_load: "pcs s t = Idle \<Longrightarrow> tstep s (s\<lparr>pcs := (pcs s)(t := A_Loaded (ts_head (stk s)))\<rparr>)"
| alloc_empty: "pcs s t = A_Loaded fh \<Longrightarrow> head_of fh = UINT32_MAX \<Longrightarrow> tstep s (s\<lparr>pcs := (pcs s)(t := Idle)\<rparr>)"
| alloc_next: "pcs s t = A_Loaded fh \<Longrightarrow> head_of fh \<noteq> UINT32_MAX \<Longrightarrow>
    tstep s (s\<lparr>pcs := (pcs s)(t := A_Read fh (ts_next (stk s) (head_of fh)))\<rparr>)"
| alloc_cas: "pcs s t = A_Read fh n \<Longrightarrow> ts_head (stk s) = fh \<Longrightarrow>
    tstep s (s\<lparr>stk := (stk s)\<lparr>ts_head := bump fh n\<rparr>, pcs := (pcs s)(t := Idle),
               owned := (owned s)(t := insert (head_of fh) (owned s t))\<rparr>)"
| alloc_retry: "pcs s t = A_Read fh n \<Longrightarrow> tstep s (s\<lparr>pcs := (pcs s)(t := A_Loaded (ts_head (stk s)))\<rparr>)"
| free_load: "pcs s t = Idle \<Longrightarrow> i \<in> owned s t \<Longrightarrow>
    tstep s (s\<lparr>pcs := (pcs s)(t := D_Loaded i (ts_head (stk s)))\<rparr>)"
| free_link: "pcs s t = D_Loaded i fh \<Longrightarrow>
    tstep s (s\<lparr>stk := (stk s)\<lparr>ts_next := (ts_next (stk s))(i := head_of fh)\<rparr>, pcs := (pcs s)(t := D_Stored i fh)\<rparr>)"
| free_cas: "pcs s t = D_Stored i fh \<Longrightarrow> ts_head (stk s) = fh \<Longrightarrow>
    tstep s (s\<lparr>stk := (stk s)\<lparr>ts_head := bump fh i\<rparr>, pcs := (pcs s)(t := Idle),
               owned := (owned s)(t := owned s t - {i})\<rparr>)"
| free_retry: "pcs s t = D_Stored i fh \<Longrightarrow> tstep s (s\<lparr>pcs := (pcs s)(t := D_Loaded i (ts_head (stk s)))\<rparr>)"
| owner_write: "pcs s t = Idle \<Longrightarrow> i \<in> owned s t \<Longrightarrow>
    tstep s (s\<lparr>stk := (stk s)\<lparr>ts_next := (ts_next (stk s))(i := v)\<rparr>\<rparr>)"

text \<open>\<open>n\<close> steps.\<close>

inductive tsteps :: "nat \<Rightarrow> 'p threads \<Rightarrow> 'p threads \<Rightarrow> bool" where
  none: "tsteps 0 s s"
| more: "tsteps n s s1 \<Longrightarrow> tstep s1 s2 \<Longrightarrow> tsteps (Suc n) s s2"

definition start :: "nat \<Rightarrow> 'p threads" where
  "start n = \<lparr>stk = ts_init n, pcs = (\<lambda>_. Idle), owned = (\<lambda>_. {})\<rparr>"

text \<open>
  The invariant after steps in which the tag cannot have wrapped: a head a thread has loaded is at
  most as recent as the current one, and is the current one if it is as recent; a link read for a
  head that is still current is still that slot's link; and a slot is owned by one thread or free.
\<close>

fun pc_ok :: "'p threads \<Rightarrow> 'p \<Rightarrow> pc \<Rightarrow> bool" where
  "pc_ok s t Idle \<longleftrightarrow> True"
| "pc_ok s t (A_Loaded fh) \<longleftrightarrow> True"
| "pc_ok s t (A_Read fh n) \<longleftrightarrow> head_of fh \<noteq> UINT32_MAX \<and>
     (fh = ts_head (stk s) \<longrightarrow> n = ts_next (stk s) (head_of fh))"
| "pc_ok s t (D_Loaded i fh) \<longleftrightarrow> i \<in> owned s t"
| "pc_ok s t (D_Stored i fh) \<longleftrightarrow> i \<in> owned s t \<and> ts_next (stk s) i = head_of fh"

fun pc_heads :: "pc \<Rightarrow> u64 set" where
  "pc_heads Idle = {}"
| "pc_heads (A_Loaded fh) = {fh}"
| "pc_heads (A_Read fh n) = {fh}"
| "pc_heads (D_Loaded i fh) = {fh}"
| "pc_heads (D_Stored i fh) = {fh}"

definition recent :: "u64 \<Rightarrow> u64 \<Rightarrow> bool" where
  "recent cur fh \<longleftrightarrow> unat (tag_of fh) \<le> unat (tag_of cur) \<and> (tag_of fh = tag_of cur \<longrightarrow> fh = cur)"

definition slots_ok :: "u32 set \<Rightarrow> tstack \<Rightarrow> ('p \<Rightarrow> u32 set) \<Rightarrow> bool" where
  "slots_ok U st ow \<longleftrightarrow> UINT32_MAX \<notin> U \<and> (\<forall>t u. t \<noteq> u \<longrightarrow> ow t \<inter> ow u = {}) \<and>
     (\<exists>xs. ts_free_list st xs \<and> (\<forall>t. ow t \<inter> set xs = {}) \<and> set xs \<union> (\<Union>t. ow t) = U)"

definition tinv :: "u32 set \<Rightarrow> 'p threads \<Rightarrow> bool" where
  "tinv U s \<longleftrightarrow> slots_ok U (stk s) (owned s) \<and>
     (\<forall>t. pc_ok s t (pcs s t) \<and> (\<forall>fh\<in>pc_heads (pcs s t). recent (ts_head (stk s)) fh))"

lemma recent_refl [simp]: "recent cur cur"
  by (simp add: recent_def)

lemma recent_bump:
  assumes "recent cur fh" "unat (tag_of cur) + 1 < 2 ^ 32"
  shows "recent (bump cur i) fh \<and> fh \<noteq> bump cur i"
proof -
  have "unat (tag_of fh) < unat (tag_of (bump cur i))"
    using assms(1) unat_tag_bump [OF assms(2), of i] by (simp add: recent_def)
  then show ?thesis unfolding recent_def by fastforce
qed

lemma pc_ok_cong:
  assumes "stk s' = stk s" "owned s' = owned s"
  shows "pc_ok s' t p = pc_ok s t p"
  by (cases p) (simp_all only: pc_ok.simps assms)

lemma tinv_recent: "tinv U s \<Longrightarrow> fh \<in> pc_heads (pcs s t) \<Longrightarrow> recent (ts_head (stk s)) fh"
  by (simp add: tinv_def)

text \<open>Steps that only move a program counter.\<close>

lemma tinv_move:
  assumes "tinv U s" "pc_ok s t p" "\<forall>fh\<in>pc_heads p. recent (ts_head (stk s)) fh"
  shows "tinv U (s\<lparr>pcs := (pcs s)(t := p)\<rparr>)"
proof -
  let ?s = "s\<lparr>pcs := (pcs s)(t := p)\<rparr>"
  have eq: "pc_ok ?s u q = pc_ok s u q" for u q by (rule pc_ok_cong) simp_all
  have P: "pc_ok s u (pcs ?s u) \<and> (\<forall>fh\<in>pc_heads (pcs ?s u). recent (ts_head (stk s)) fh)" for u
  proof (cases "u = t")
    case True
    then have "pcs ?s u = p" by simp
    then show ?thesis using assms(2,3) True by (simp only:)
  next
    case False
    then have same: "pcs ?s u = pcs s u" by simp
    have "pc_ok s u (pcs s u)" using assms(1) by (simp add: tinv_def)
    then show ?thesis unfolding same using tinv_recent [OF assms(1)] by blast
  qed
  have "slots_ok U (stk s) (owned s)" using assms(1) by (simp only: tinv_def)
  then have "slots_ok U (stk ?s) (owned ?s)" by simp
  moreover have "\<forall>u. pc_ok ?s u (pcs ?s u) \<and> (\<forall>fh\<in>pc_heads (pcs ?s u). recent (ts_head (stk ?s)) fh)"
    unfolding eq using P by (intro allI) simp
  ultimately show ?thesis unfolding tinv_def by blast
qed

text \<open>A link write to a slot that its writer owns.\<close>

lemma tinv_link:
  assumes inv: "tinv U s" and own: "i \<in> owned s t" and p: "pcs s t = Idle \<or> (\<exists>fh. pcs s t = D_Loaded i fh)"
  shows "tinv U (s\<lparr>stk := (stk s)\<lparr>ts_next := (ts_next (stk s))(i := v)\<rparr>\<rparr>)"
proof -
  let ?s = "s\<lparr>stk := (stk s)\<lparr>ts_next := (ts_next (stk s))(i := v)\<rparr>\<rparr>"
  obtain xs where xs: "ts_free_list (stk s) xs" "\<forall>t. owned s t \<inter> set xs = {}" "set xs \<union> (\<Union>t. owned s t) = U"
    and dis: "\<forall>t u. t \<noteq> u \<longrightarrow> owned s t \<inter> owned s u = {}" and U: "UINT32_MAX \<notin> U"
    using inv unfolding tinv_def slots_ok_def by blast
  have i: "i \<notin> set xs" using xs(2) own by blast
  then have "ts_free_list (stk ?s) xs" using xs(1) by (simp add: ts_free_list_def on_stack_upd)
  then have sl: "slots_ok U (stk ?s) (owned ?s)" using xs(2,3) dis U unfolding slots_ok_def by auto
  have "pc_ok ?s u (pcs s u)" for u
  proof (cases "pcs s u")
    case (A_Read fh n)
    have "pc_ok s u (A_Read fh n)" using inv A_Read unfolding tinv_def by metis
    moreover have "i \<noteq> head_of fh" if "fh = ts_head (stk s)" "head_of fh \<noteq> UINT32_MAX"
    proof -
      have "head_of fh \<in> set xs" using xs(1) that by (cases xs) (auto simp: ts_free_list_def)
      then show ?thesis using i by auto
    qed
    ultimately show ?thesis by (auto simp: A_Read)
  next
    case (D_Stored j fh)
    then have "u \<noteq> t" using p by auto
    have "pc_ok s u (D_Stored j fh)" using inv D_Stored unfolding tinv_def by metis
    then show ?thesis using dis \<open>u \<noteq> t\<close> own by (auto simp: D_Stored)
  next
    case (D_Loaded j fh)
    have "pc_ok s u (D_Loaded j fh)" using inv D_Loaded unfolding tinv_def by metis
    then show ?thesis by (simp add: D_Loaded)
  qed simp_all
  then show ?thesis using sl inv by (simp add: tinv_def)
qed

text \<open>A successful compare-exchange: the head moves on, and every loaded head is out of date.\<close>

lemma tinv_cas:
  assumes inv: "tinv U s" and room: "unat (tag_of (ts_head (stk s))) + 1 < 2 ^ 32"
    and sl: "slots_ok U ((stk s)\<lparr>ts_head := bump (ts_head (stk s)) n\<rparr>) ow"
    and ow: "\<forall>u. u \<noteq> t \<longrightarrow> ow u = owned s u"
  shows "tinv U (s\<lparr>stk := (stk s)\<lparr>ts_head := bump (ts_head (stk s)) n\<rparr>, pcs := (pcs s)(t := Idle), owned := ow\<rparr>)"
proof -
  let ?s = "s\<lparr>stk := (stk s)\<lparr>ts_head := bump (ts_head (stk s)) n\<rparr>, pcs := (pcs s)(t := Idle), owned := ow\<rparr>"
  have old: "pc_ok s u (pcs s u)" "\<forall>fh\<in>pc_heads (pcs s u). recent (ts_head (stk s)) fh" for u
    using inv by (simp_all add: tinv_def)
  have rec: "recent (ts_head (stk ?s)) fh \<and> fh \<noteq> ts_head (stk ?s)" if "fh \<in> pc_heads (pcs s u)" for fh u
    using recent_bump [OF _ room] old(2) that by simp
  have "pc_ok ?s u (pcs ?s u)" for u
  proof (cases "u = t")
    case True then show ?thesis by simp
  next
    case False
    then show ?thesis using old(1) [of u] rec [of _ u] ow by (cases "pcs s u") auto
  qed
  moreover have "\<forall>fh\<in>pc_heads (pcs ?s u). recent (ts_head (stk ?s)) fh" for u
    using rec by (cases "u = t") auto
  ultimately show ?thesis using sl by (simp add: tinv_def)
qed

lemma tinv_step:
  assumes "tinv U s" "tstep s s'" "unat (tag_of (ts_head (stk s))) + 1 < 2 ^ 32"
  shows "tinv U s'"
  using assms(2)
proof cases
  case (alloc_load t)
  then show ?thesis using tinv_move [OF assms(1), of t "A_Loaded (ts_head (stk s))"] by simp
next
  case (alloc_empty t fh)
  then show ?thesis using tinv_move [OF assms(1), of t Idle] by simp
next
  case (alloc_next t fh)
  have "recent (ts_head (stk s)) fh" using tinv_recent [OF assms(1), of fh t] alloc_next(2) by simp
  then show ?thesis
    using tinv_move [OF assms(1), of t "A_Read fh (ts_next (stk s) (head_of fh))"] alloc_next by simp
next
  case (alloc_cas t fh n)
  have ok: "head_of fh \<noteq> UINT32_MAX" "n = ts_next (stk s) (head_of fh)"
    using assms(1) alloc_cas unfolding tinv_def by (metis pc_ok.simps(3))+
  obtain xs where xs: "ts_free_list (stk s) xs" "\<forall>t. owned s t \<inter> set xs = {}" "set xs \<union> (\<Union>t. owned s t) = U"
    and dis: "\<forall>t u. t \<noteq> u \<longrightarrow> owned s t \<inter> owned s u = {}" and U: "UINT32_MAX \<notin> U"
    using assms(1) unfolding tinv_def slots_ok_def by blast
  obtain ys where ys: "xs = head_of fh # ys"
    using xs(1) ok(1) alloc_cas(3) by (cases xs) (auto simp: ts_free_list_def)
  let ?ow = "(owned s)(t := insert (head_of fh) (owned s t))"
  have "ts_free_list ((stk s)\<lparr>ts_head := bump (ts_head (stk s)) n\<rparr>) ys"
    using xs(1) ys ok(2) by (auto simp: ts_free_list_def)
  moreover have "\<forall>u. ?ow u \<inter> set ys = {}" using xs(1,2) ys by (auto simp: ts_free_list_def)
  moreover have "set ys \<union> (\<Union>u. ?ow u) = U" using xs(3) ys by (auto split: if_splits)
  moreover have "\<forall>u v. u \<noteq> v \<longrightarrow> ?ow u \<inter> ?ow v = {}" using dis xs(2) ys by auto
  ultimately have "slots_ok U ((stk s)\<lparr>ts_head := bump (ts_head (stk s)) n\<rparr>) ?ow"
    using U unfolding slots_ok_def by blast
  then show ?thesis using tinv_cas [OF assms(1,3), of n ?ow t] alloc_cas by simp
next
  case (alloc_retry t fh n)
  then show ?thesis using tinv_move [OF assms(1), of t "A_Loaded (ts_head (stk s))"] by simp
next
  case (free_load t i)
  then show ?thesis using tinv_move [OF assms(1), of t "D_Loaded i (ts_head (stk s))"] by simp
next
  case (free_link t i fh)
  have own: "i \<in> owned s t" using assms(1) free_link unfolding tinv_def by (metis pc_ok.simps(4))
  have "recent (ts_head (stk s)) fh" 
    using tinv_recent [OF assms(1), of fh t] free_link(2) by simp
  then show ?thesis
    using tinv_move [OF tinv_link [OF assms(1) own, of "head_of fh"], of t "D_Stored i fh"] free_link own by simp
next
  case (free_cas t i fh)
  have ok: "i \<in> owned s t" "ts_next (stk s) i = head_of fh"
    using assms(1) free_cas unfolding tinv_def by (metis pc_ok.simps(5))+
  obtain xs where xs: "ts_free_list (stk s) xs" "\<forall>t. owned s t \<inter> set xs = {}" "set xs \<union> (\<Union>t. owned s t) = U"
    and dis: "\<forall>t u. t \<noteq> u \<longrightarrow> owned s t \<inter> owned s u = {}" and U: "UINT32_MAX \<notin> U"
    using assms(1) unfolding tinv_def slots_ok_def by blast
  let ?ow = "(owned s)(t := owned s t - {i})"
  have i: "i \<notin> set xs" "i \<noteq> UINT32_MAX" using ok(1) xs(2,3) U by blast+
  have "ts_free_list ((stk s)\<lparr>ts_head := bump (ts_head (stk s)) i\<rparr>) (i # xs)"
    using xs(1) i ok(2) free_cas(3) by (simp add: ts_free_list_def)
  moreover have "i \<notin> owned s u" if "u \<noteq> t" for u using dis ok(1) that by blast
  then have "\<forall>u. ?ow u \<inter> set (i # xs) = {}" using xs(2) by auto
  moreover have "set (i # xs) \<union> (\<Union>u. ?ow u) = U" using xs(3) ok(1) by auto
  moreover have "\<forall>u v. u \<noteq> v \<longrightarrow> ?ow u \<inter> ?ow v = {}" using dis by auto
  ultimately have "slots_ok U ((stk s)\<lparr>ts_head := bump (ts_head (stk s)) i\<rparr>) ?ow"
    using U unfolding slots_ok_def by blast
  then show ?thesis using tinv_cas [OF assms(1,3), of i ?ow t] free_cas by simp
next
  case (free_retry t i fh)
  have "i \<in> owned s t" using assms(1) free_retry unfolding tinv_def by (metis pc_ok.simps(5))
  then show ?thesis using tinv_move [OF assms(1), of t "D_Loaded i (ts_head (stk s))"] free_retry by simp
next
  case (owner_write t i v)
  then show ?thesis using tinv_link [OF assms(1), of i t v] by simp
qed

lemma tstep_tag:
  assumes "tstep s s'" "unat (tag_of (ts_head (stk s))) + 1 < 2 ^ 32"
  shows "unat (tag_of (ts_head (stk s'))) \<le> unat (tag_of (ts_head (stk s))) + 1"
  using assms(1) by cases (auto simp: unat_tag_bump [OF assms(2)])

lemma tinv_start:
  assumes "0 < n" "n < 2 ^ 32"
  shows "tinv (set (map of_nat [0..<n])) (start n)"
proof -
  have inj: "inj_on (of_nat :: nat \<Rightarrow> u32) {0..<n}"
  proof (intro inj_onI)
    fix x y assume "x \<in> {0..<n}" "y \<in> {0..<n}" "(of_nat x :: u32) = of_nat y"
    then show "x = y" using assms(2) by (simp add: word_of_nat_eq_iff take_bit_nat_eq_self)
  qed
  have "UINT32_MAX \<noteq> of_nat k" if "k < n" for k
  proof
    assume "UINT32_MAX = of_nat k"
    then have "unat UINT32_MAX = unat (of_nat k :: u32)" by simp
    then show False using that assms(2) by (simp add: unat_of_nat take_bit_nat_eq_self)
  qed
  then have "slots_ok (set (map of_nat [0..<n])) (ts_init n) (\<lambda>_. {})"
    using on_stack_init [OF assms] inj
    by (auto simp: slots_ok_def ts_free_list_def distinct_map ts_init_def head_of_def
        intro!: exI [of _ "map of_nat [0..<n]"])
  then show ?thesis by (simp add: tinv_def start_def)
qed

lemma tinv_steps:
  assumes "tsteps k (start n) s" "k < 2 ^ 32 - 1" "0 < n" "n < 2 ^ 32"
  shows "tinv (set (map of_nat [0..<n])) s \<and> unat (tag_of (ts_head (stk s))) \<le> k"
proof -
  have "s0 = start n \<Longrightarrow> k < 2 ^ 32 - 1 \<Longrightarrow> ?thesis" if "tsteps k s0 s" for s0
    using that
  proof (induction rule: tsteps.induct)
    case (none s)
    then show ?case using tinv_start [OF assms(3,4)] by (simp add: start_def ts_init_def tag_of_def)
  next
    case (more k s s1 s2)
    then have ih: "tinv (set (map of_nat [0..<n])) s1" "unat (tag_of (ts_head (stk s1))) \<le> k" by auto
    then have room: "unat (tag_of (ts_head (stk s1))) + 1 < 2 ^ 32" using more.prems(2) by simp
    show ?case
      using tinv_step [OF ih(1) more.hyps(2) room] tstep_tag [OF more.hyps(2) room] ih(2) by simp
  qed
  then show ?thesis using assms(1,2) by blast
qed

section \<open>Properties\<close>

text \<open>C18. The lock-free free list never hands a slot out twice and never loses one: whatever threads
  allocate and release slots and however their atomic loads, stores and compare-exchanges
  interleave (spurious failures included), in every state reachable in fewer than 2^32 - 1 steps no
  two threads hold the same slot, and the slots on the stack together with the slots held are
  exactly the slots of the pool, each once. The bound keeps the 32-bit tag from wrapping, which is
  what rules out the ABA case.\<close>

theorem treiber_no_double_allocation:
  assumes "tsteps k (start n) s" "k < 2 ^ 32 - 1" "0 < n" "n < 2 ^ 32"
  shows "(\<forall>t u. t \<noteq> u \<longrightarrow> owned s t \<inter> owned s u = {}) \<and>
    (\<exists>xs. ts_free_list (stk s) xs \<and> (\<forall>t. owned s t \<inter> set xs = {}) \<and>
       set xs \<union> (\<Union>t. owned s t) = of_nat ` {0..<n})"
proof -
  have "slots_ok (set (map of_nat [0..<n])) (stk s) (owned s)"
    using tinv_steps [OF assms] by (simp add: tinv_def)
  then show ?thesis by (simp add: slots_ok_def)
qed

text \<open>Two threads of a pool of two slots: thread 1 loads the head and stalls while thread 0 takes the slot.\<close>

definition demo_race :: "nat threads" where
  "demo_race = \<lparr>stk = (ts_init 2)\<lparr>ts_head := bump 0 1\<rparr>, pcs = (\<lambda>_. Idle)(1 := A_Read 0 1),
     owned = (\<lambda>_. {})(0 := {0})\<rparr>"

lemma demo_race_reachable: "tsteps 5 (start 2) demo_race"
proof -
  let ?s0 = "start 2 :: nat threads"
  let ?s1 = "?s0\<lparr>pcs := (pcs ?s0)(0 := A_Loaded 0)\<rparr>"
  let ?s2 = "?s1\<lparr>pcs := (pcs ?s1)(1 := A_Loaded 0)\<rparr>"
  let ?s3 = "?s2\<lparr>pcs := (pcs ?s2)(0 := A_Read 0 1)\<rparr>"
  let ?s4 = "?s3\<lparr>pcs := (pcs ?s3)(1 := A_Read 0 1)\<rparr>"
  have h: "head_of 0 = 0" by (simp add: head_of_def)
  have 1: "tstep ?s0 ?s1" using alloc_load [of ?s0 0] by (simp add: start_def ts_init_def)
  have 2: "tstep ?s1 ?s2" using alloc_load [of ?s1 1] by (simp add: start_def ts_init_def)
  have 3: "tstep ?s2 ?s3" using alloc_next [of ?s2 0 0] by (simp add: start_def ts_init_def h)
  have 4: "tstep ?s3 ?s4" using alloc_next [of ?s3 1 0] by (simp add: start_def ts_init_def h)
  have 5: "tstep ?s4 demo_race"
    using alloc_cas [of ?s4 0 0 1]
    by (simp add: start_def ts_init_def h demo_race_def fun_upd_twist fun_upd_idem)
  have "tsteps (Suc (Suc (Suc (Suc (Suc 0))))) ?s0 demo_race"
    by (rule more [OF more [OF more [OF more [OF more [OF none 1] 2] 3] 4] 5])
  then show ?thesis by (simp add: numeral_eq_Suc)
qed

theorem treiber_no_double_allocation_witness:
  "owned demo_race 0 = {0} \<and> owned demo_race 0 \<inter> owned demo_race 1 = {}"
  using treiber_no_double_allocation [OF demo_race_reachable] by (simp add: demo_race_def)

end
