(* ===== verification/Order_Pool.thy ===== *)
theory Order_Pool
  imports NX_Types Treiber_Stack
begin

text \<open>
  The order pool of \<^verbatim>\<open>core/memory/order_pool.h\<close>: a fixed array of slots with the lock-free free list
  of \<open>Treiber_Stack\<close>. A pointer to a slot is its index.
\<close>

record order_pool =
  pl_free :: tstack
  pl_slot :: "u32 \<Rightarrow> order_slot"
  pl_cap :: nat
  pl_size :: nat

definition new_pool :: "nat \<Rightarrow> order_pool" where
  "new_pool n = \<lparr>pl_free = ts_init n, pl_slot = (\<lambda>_. empty_slot), pl_cap = n, pl_size = 0\<rparr>"

definition pool_alloc :: "order_pool \<Rightarrow> order_pool \<times> u32 option" where
  "pool_alloc p = (case ts_alloc (pl_free p) of
     (st, None) \<Rightarrow> (p\<lparr>pl_free := st\<rparr>, None)
   | (st, Some i) \<Rightarrow> (p\<lparr>pl_free := st, pl_size := pl_size p + 1\<rparr>, Some i))"

definition pool_dealloc :: "order_pool \<Rightarrow> u32 \<Rightarrow> order_pool" where
  "pool_dealloc p i = p\<lparr>pl_free := ts_free (pl_free p) i, pl_size := pl_size p - 1\<rparr>"

definition pool_at :: "order_pool \<Rightarrow> u32 \<Rightarrow> order_slot" where
  "pool_at p i = pl_slot p i"

text \<open>A write through the pointer \<open>pool.at(i)\<close>.\<close>

definition pool_set :: "order_pool \<Rightarrow> u32 \<Rightarrow> (order_slot \<Rightarrow> order_slot) \<Rightarrow> order_pool" where
  "pool_set p i f = p\<lparr>pl_slot := (pl_slot p)(i := f (pl_slot p i))\<rparr>"

definition rebuild_freelist :: "order_pool \<Rightarrow> order_pool" where
  "rebuild_freelist p = p\<lparr>pl_free := ts_init (pl_cap p), pl_size := 0\<rparr>"

definition pool_free_list :: "order_pool \<Rightarrow> u32 list \<Rightarrow> bool" where
  "pool_free_list p xs \<longleftrightarrow> ts_free_list (pl_free p) xs"

lemma pool_set_fields [simp]:
  "pl_free (pool_set p i f) = pl_free p" "pl_size (pool_set p i f) = pl_size p"
  "pool_free_list (pool_set p i f) = pool_free_list p"
  by (simp_all add: pool_set_def pool_free_list_def fun_eq_iff)

lemma pool_at_set: "pool_at (pool_set p i f) j = (if j = i then f (pool_at p i) else pool_at p j)"
  by (simp add: pool_at_def pool_set_def)

lemma pool_dealloc_at [simp]: "pool_at (pool_dealloc p i) j = pool_at p j"
  by (simp add: pool_at_def pool_dealloc_def)

lemma pool_alloc_at: "pool_alloc p = (p', r) \<Longrightarrow> pool_at p' j = pool_at p j"
  by (auto simp: pool_alloc_def pool_at_def split: prod.splits option.splits)

interpretation pool: slot_pool pool_alloc pool_dealloc pool_free_list
proof unfold_locales
  show "xs = ys" if "pool_free_list s xs" "pool_free_list s ys" for s xs ys
    using that stack.free_fun by (auto simp: pool_free_list_def)
  show "\<exists>s'. pool_alloc s = (s', Some x) \<and> pool_free_list s' xs" if h: "pool_free_list s (x # xs)" for s x xs
  proof -
    obtain st where "ts_alloc (pl_free s) = (st, Some x)" "ts_free_list st xs"
      using stack.alloc_some [of "pl_free s" x xs] h unfolding pool_free_list_def by blast
    then show ?thesis by (simp add: pool_alloc_def pool_free_list_def)
  qed
  show "pool_alloc s = (s, None)" if "pool_free_list s []" for s
    using that stack.alloc_none by (simp add: pool_free_list_def pool_alloc_def)
  show "pool_free_list (pool_dealloc s i) (i # xs)" if "pool_free_list s xs" "i \<notin> set xs" "i \<noteq> UINT32_MAX" for s xs i
    using that stack.release_free by (simp add: pool_free_list_def pool_dealloc_def)
qed

lemma new_pool_free:
  assumes "0 < n" "n < 2 ^ 32"
  shows "pool_free_list (new_pool n) (map of_nat [0..<n])"
  using ts_init_free(1) [OF assms] by (simp add: pool_free_list_def new_pool_def)

section \<open>Properties\<close>

text \<open>A fresh pool of \<open>n\<close> slots serves exactly \<open>n\<close> allocations in a row, each with a different
  slot of the array, and refuses the next one.\<close>

theorem pool_serves_capacity:
  assumes "0 < n" "n < 2 ^ 32" "pool.take_slots n (new_pool n) = (p, slots)"
  shows "slots = map of_nat [0..<n] \<and> distinct slots \<and> snd (pool_alloc p) = None"
proof -
  note f = new_pool_free [OF assms(1,2)]
  have "slots = take n (map of_nat [0..<n])" "pool_free_list p (drop n (map of_nat [0..<n]))"
    using pool.take_slots_free [OF f, of n] assms(3) by simp_all
  then have s: "slots = map of_nat [0..<n]" "pool_free_list p []" by simp_all
  moreover have "distinct (map of_nat [0..<n] :: u32 list)"
    using f by (simp add: pool_free_list_def ts_free_list_def)
  ultimately show ?thesis using pool.alloc_none by simp
qed

theorem pool_serves_capacity_witness:
  "\<exists>p. pool.take_slots 2 (new_pool 2) = (p, [0, 1]) \<and> snd (pool_alloc p) = None"
proof -
  obtain p slots where t: "pool.take_slots 2 (new_pool 2) = (p, slots)" by (cases "pool.take_slots 2 (new_pool 2)")
  then show ?thesis using pool_serves_capacity [OF _ _ t] by (simp add: upt_rec)
qed

end
