(* ===== verification/Order_Map.thy ===== *)
theory Order_Map
  imports NX_Types Treiber_Stack
begin

text \<open>
  The order index of \<^verbatim>\<open>core/memory/order_map.h\<close>: a hash table from order references to pool slots with
  separate chaining in a pool of nodes, whose buckets move to an ordered overflow map when they
  grow to eight nodes. \<open>next_idx\<close> serves both the bucket chains and the free list, so it is the link
  array of the node stack. The operations are modelled as one worker runs them, so every
  compare-exchange succeeds the first time and the retries and the second look at the bucket state
  find what the first one found; interleaved workers are modelled for the node stack itself, in
  \<open>Treiber_Stack\<close>. A null pointer is \<^const>\<open>None\<close>, the pointer to a slot its index.
\<close>

section \<open>State\<close>

record order_map =
  om_free :: tstack
  node_ref :: "u32 \<Rightarrow> u64"
  node_slot :: "u32 \<Rightarrow> u32"
  node_bucket :: "u32 \<Rightarrow> u32"
  buckets :: "u32 \<Rightarrow> u32"
  bucket_len :: "u32 \<Rightarrow> u16"
  bucket_state :: "u32 \<Rightarrow> u8"
  hash_shift :: nat
  map_cap :: nat
  map_size :: u64
  overflow :: "u64 \<rightharpoonup> u32"

abbreviation TREEIFY_THRESHOLD :: u16 where "TREEIFY_THRESHOLD \<equiv> 8"

fun round_pow2_from :: "nat \<Rightarrow> nat \<Rightarrow> nat \<Rightarrow> nat" where
  "round_pow2_from 0 p n = p"
| "round_pow2_from (Suc k) p n = (if p < n then round_pow2_from k (p * 2) n else p)"

text \<open>\<open>roundPow2\<close>; 64 doublings reach every \<open>size_t\<close>.\<close>

definition round_pow2 :: "nat \<Rightarrow> nat" where
  "round_pow2 n = round_pow2_from 64 1 n"

definition new_order_map :: "nat \<Rightarrow> order_map" where
  "new_order_map n = \<lparr>om_free = ts_init n, node_ref = (\<lambda>_. 0), node_slot = (\<lambda>_. 0), node_bucket = (\<lambda>_. 0),
     buckets = (\<lambda>_. UINT32_MAX), bucket_len = (\<lambda>_. 0), bucket_state = (\<lambda>_. 0),
     hash_shift = 64 - ctz (round_pow2 n), map_cap = n, map_size = 0, overflow = Map.empty\<rparr>"

definition hash :: "order_map \<Rightarrow> u64 \<Rightarrow> u32" where
  "hash m r = to_u32 (drop_bit (hash_shift m) (r * 0x9E3779B97F4A7C15))"

abbreviation next_node :: "order_map \<Rightarrow> u32 \<Rightarrow> u32" where
  "next_node m \<equiv> ts_next (om_free m)"

definition set_next :: "order_map \<Rightarrow> u32 \<Rightarrow> u32 \<Rightarrow> order_map" where
  "set_next m i v = m\<lparr>om_free := (om_free m)\<lparr>ts_next := (ts_next (om_free m))(i := v)\<rparr>\<rparr>"

section \<open>Treeification\<close>

text \<open>The loop copies the chain into the map from its head on; the fuel is the number of nodes.\<close>

fun copy_chain :: "order_map \<Rightarrow> nat \<Rightarrow> u32 \<Rightarrow> (u64 \<rightharpoonup> u32) \<Rightarrow> (u64 \<rightharpoonup> u32)" where
  "copy_chain m 0 cur ov = ov"
| "copy_chain m (Suc n) cur ov =
     (if cur = UINT32_MAX then ov
      else copy_chain m n (next_node m cur) (ov(node_ref m cur \<mapsto> node_slot m cur)))"

definition treeify :: "order_map \<Rightarrow> u32 \<Rightarrow> order_map" where
  "treeify m b =
     (if bucket_state m b \<noteq> 0 then m
      else m\<lparr>overflow := copy_chain m (map_cap m) (buckets m b) (overflow m),
             bucket_state := (bucket_state m)(b := 2)\<rparr>)"

definition overflow_put :: "order_map \<Rightarrow> u64 \<Rightarrow> u32 \<Rightarrow> order_map" where
  "overflow_put m r s = m\<lparr>overflow := (overflow m)(r \<mapsto> s), map_size := map_size m + 1\<rparr>"

section \<open>Operations\<close>

text \<open>
  The second condition of the treeify test compares the whole packed head, tag included, with
  \<open>UINT32_MAX\<close>.
\<close>

definition map_insert :: "order_map \<Rightarrow> u64 \<Rightarrow> u32 \<Rightarrow> order_map" where
  "map_insert m r s =
     (let b = hash m r in
      if bucket_state m b \<noteq> 0 then overflow_put m r s
      else if TREEIFY_THRESHOLD \<le> bucket_len m b \<or> ts_head (om_free m) = to_u64 UINT32_MAX
           then overflow_put (treeify m b) r s
      else case ts_alloc (om_free m) of
        (st, None) \<Rightarrow> m\<lparr>om_free := st\<rparr>
      | (st, Some i) \<Rightarrow>
          (let m1 = m\<lparr>om_free := st, node_ref := (node_ref m)(i := r), node_slot := (node_slot m)(i := s),
                      node_bucket := (node_bucket m)(i := b)\<rparr>;
               m2 = set_next m1 i (buckets m1 b);
               m3 = m2\<lparr>buckets := (buckets m2)(b := i), bucket_len := (bucket_len m2)(b := bucket_len m2 b + 1),
                      map_size := map_size m2 + 1\<rparr>
           in if bucket_state m1 b \<noteq> 0 then overflow_put (m1\<lparr>om_free := ts_free (om_free m1) i\<rparr>) r s
              else if TREEIFY_THRESHOLD \<le> bucket_len m3 b then treeify m3 b else m3))"

text \<open>A walk down a chain: \<open>Jumped\<close> is the retry of a node that belongs to another bucket.\<close>

datatype walk = Miss | Jumped | Hit u32

fun find_walk :: "order_map \<Rightarrow> u32 \<Rightarrow> u64 \<Rightarrow> nat \<Rightarrow> u32 \<Rightarrow> walk" where
  "find_walk m b r 0 i = Miss"
| "find_walk m b r (Suc n) i =
     (if i = UINT32_MAX then Miss
      else if node_bucket m i \<noteq> b then Jumped
      else if node_ref m i = r then Hit i
      else find_walk m b r n (next_node m i))"

definition map_find :: "order_map \<Rightarrow> u64 \<Rightarrow> u32 option" where
  "map_find m r =
     (let b = hash m r in
      if bucket_state m b \<noteq> 0 then overflow m r
      else case find_walk m b r (map_cap m) (buckets m b) of Hit i \<Rightarrow> Some (node_slot m i) | _ \<Rightarrow> None)"

text \<open>The walk of \<open>erase\<close> below the chain's head: the node and its predecessor.\<close>

fun erase_walk :: "order_map \<Rightarrow> u32 \<Rightarrow> u64 \<Rightarrow> nat \<Rightarrow> u32 \<Rightarrow> (u32 \<times> u32) option" where
  "erase_walk m b r 0 i = None"
| "erase_walk m b r (Suc n) i =
     (if i = UINT32_MAX then None
      else if node_bucket m i \<noteq> b then None
      else let nx = next_node m i in
        if nx = UINT32_MAX then None
        else if node_ref m nx = r then Some (i, nx)
        else erase_walk m b r n nx)"

definition free_node :: "order_map \<Rightarrow> u32 \<Rightarrow> u32 \<Rightarrow> order_map" where
  "free_node m b i = m\<lparr>om_free := ts_free (om_free m) i, bucket_len := (bucket_len m)(b := bucket_len m b - 1),
     map_size := map_size m - 1\<rparr>"

definition map_erase :: "order_map \<Rightarrow> u64 \<Rightarrow> order_map" where
  "map_erase m r =
     (let b = hash m r in
      if bucket_state m b \<noteq> 0 then
        (if overflow m r \<noteq> None then m\<lparr>overflow := (overflow m)(r := None), map_size := map_size m - 1\<rparr> else m)
      else let i = buckets m b in
        if i = UINT32_MAX then m
        else if node_ref m i = r then
          free_node (m\<lparr>buckets := (buckets m)(b := next_node m i)\<rparr>) b i
        else case erase_walk m b r (map_cap m) i of
          None \<Rightarrow> m
        | Some (p, nd) \<Rightarrow> free_node (set_next m p (next_node m nd)) b nd)"

definition map_contains :: "order_map \<Rightarrow> u64 \<Rightarrow> bool" where
  "map_contains m r \<longleftrightarrow> map_find m r \<noteq> None"

section \<open>The interface\<close>

text \<open>
  What the order book relies on: a finite map on references, as long as a reference is inserted once
  and there is room for it.
\<close>

locale order_index =
  fixes lookup :: "'m \<Rightarrow> u64 \<Rightarrow> u32 option"
    and ins :: "'m \<Rightarrow> u64 \<Rightarrow> u32 \<Rightarrow> 'm"
    and del :: "'m \<Rightarrow> u64 \<Rightarrow> 'm"
    and wf :: "'m \<Rightarrow> bool"
    and room :: "'m \<Rightarrow> u64 \<Rightarrow> bool"
  assumes wf_ins: "wf m \<Longrightarrow> lookup m r = None \<Longrightarrow> wf (ins m r s)"
    and wf_del: "wf m \<Longrightarrow> wf (del m r)"
    and lookup_ins: "wf m \<Longrightarrow> lookup m r = None \<Longrightarrow> room m r \<Longrightarrow>
      lookup (ins m r s) q = (if q = r then Some s else lookup m q)"
    and lookup_full: "wf m \<Longrightarrow> lookup m r = None \<Longrightarrow> \<not> room m r \<Longrightarrow> lookup (ins m r s) q = lookup m q"
    and lookup_del: "wf m \<Longrightarrow> lookup (del m r) q = (if q = r then None else lookup m q)"
    and room_del: "wf m \<Longrightarrow> lookup m r \<noteq> None \<Longrightarrow> room (del m r) r"
begin

text \<open>Replacing an entry: the old reference is gone, the new one is found.\<close>

lemma replace_entry:
  assumes "wf m" "lookup m old \<noteq> None" "lookup m new = None \<or> new = old" "room (del m old) new"
  shows "lookup (ins (del m old) new s) q = (if q = new then Some s else if q = old then None else lookup m q)"
  using assms by (auto simp: lookup_ins wf_del lookup_del)

lemma reinsert_has_room:
  assumes "wf m" "lookup m r \<noteq> None"
  shows "lookup (ins (del m r) r s) r = Some s"
  using assms by (simp add: lookup_ins wf_del lookup_del room_del)

end

section \<open>Representation\<close>

text \<open>
  The chains \<open>cs\<close> of the buckets still in chain form and the free nodes \<open>fs\<close>: disjoint lists of
  nodes below the capacity, every chained node filed under its bucket, no reference twice, fewer
  than eight nodes per chain. A bucket is in chain form (0) or treeified (2), and the overflow map
  holds references of treeified buckets only.
\<close>

definition chain_rep :: "order_map \<Rightarrow> u32 \<Rightarrow> u32 list \<Rightarrow> bool" where
  "chain_rep m b xs \<longleftrightarrow> on_stack (next_node m) (buckets m b) xs \<and> distinct xs \<and>
     (\<forall>i\<in>set xs. node_bucket m i = b \<and> hash m (node_ref m i) = b \<and> unat i < map_cap m) \<and>
     distinct (map (node_ref m) xs) \<and> unat (bucket_len m b) = length xs \<and> length xs < 8"

definition om_rep :: "order_map \<Rightarrow> (u32 \<Rightarrow> u32 list) \<Rightarrow> u32 list \<Rightarrow> bool" where
  "om_rep m cs fs \<longleftrightarrow>
     (\<forall>b. bucket_state m b = 0 \<longrightarrow> chain_rep m b (cs b) \<and> set (cs b) \<inter> set fs = {}) \<and>
     (\<forall>b. bucket_state m b \<in> {0, 2}) \<and>
     (\<forall>r. bucket_state m (hash m r) = 0 \<longrightarrow> overflow m r = None) \<and>
     ts_free_list (om_free m) fs \<and> (\<forall>i\<in>set fs. unat i < map_cap m) \<and> map_cap m < 2 ^ 32"

text \<open>A well-formed map with at least \<open>k\<close> free nodes.\<close>

definition om_frees :: "order_map \<Rightarrow> nat \<Rightarrow> bool" where
  "om_frees m k \<longleftrightarrow> (\<exists>cs fs. om_rep m cs fs \<and> k \<le> length fs)"

definition om_wf :: "order_map \<Rightarrow> bool" where
  "om_wf m \<longleftrightarrow> om_frees m 0"

lemma om_freesI: "om_rep m cs fs \<Longrightarrow> k \<le> length fs \<Longrightarrow> om_frees m k"
  by (auto simp: om_frees_def)

definition om_room :: "order_map \<Rightarrow> u64 \<Rightarrow> bool" where
  "om_room m r \<longleftrightarrow> bucket_state m (hash m r) \<noteq> 0 \<or> head_of (ts_head (om_free m)) \<noteq> UINT32_MAX \<or>
     ts_head (om_free m) = to_u64 UINT32_MAX"

text \<open>A node belongs to one chain, because it records its bucket.\<close>

lemma chains_disjoint:
  assumes "chain_rep m b xs" "chain_rep m c ys" "b \<noteq> c"
  shows "set xs \<inter> set ys = {}"
  using assms by (auto simp: chain_rep_def)

lemma distinct_below:
  assumes "distinct (xs :: u32 list)" "\<forall>i\<in>set xs. unat i < n"
  shows "length xs \<le> n"
proof -
  have "length xs = card (unat ` set xs)"
  proof -
    have "inj_on unat (set xs)" by (auto simp: inj_on_def word_unat_eq_iff)
    then show ?thesis using distinct_card [OF assms(1)] by (simp add: card_image)
  qed
  also have "\<dots> \<le> card {..<n}" using assms(2) by (intro card_mono) auto
  finally show ?thesis by simp
qed

lemma chain_length: "chain_rep m b xs \<Longrightarrow> length xs \<le> map_cap m"
  by (rule distinct_below) (auto simp: chain_rep_def)

lemma find_walk_chain:
  assumes "on_stack (next_node m) i xs" "\<forall>j\<in>set xs. node_bucket m j = b" "length xs \<le> n"
  shows "find_walk m b r n i = (case List.find (\<lambda>j. node_ref m j = r) xs of Some j \<Rightarrow> Hit j | None \<Rightarrow> Miss)"
  using assms
proof (induction xs arbitrary: i n)
  case Nil
  then show ?case by (cases n) auto
next
  case (Cons x xs)
  then obtain k where n: "n = Suc k" by (cases n) auto
  then show ?case using Cons by auto
qed

lemma find_Some:
  "distinct (map f xs) \<Longrightarrow> List.find (\<lambda>j. f j = r) xs = Some i \<longleftrightarrow> i \<in> set xs \<and> f i = r"
  by (induction xs) (auto simp: image_iff)

lemma find_None: "List.find (\<lambda>j. f j = r) xs = None \<longleftrightarrow> (\<forall>i\<in>set xs. f i \<noteq> r)"
  by (induction xs) auto

lemma chain_lookup_cong:
  assumes "\<forall>j\<in>set xs. node_ref m' j = node_ref m j \<and> node_slot m' j = node_slot m j"
  shows "map_option (node_slot m') (List.find (\<lambda>j. node_ref m' j = q) xs) =
    map_option (node_slot m) (List.find (\<lambda>j. node_ref m j = q) xs)"
  using assms by (induction xs) auto

text \<open>A lookup, read off the representation.\<close>

lemma map_find_chain:
  assumes "chain_rep m (hash m r) xs" "bucket_state m (hash m r) = 0"
  shows "map_find m r = map_option (node_slot m) (List.find (\<lambda>j. node_ref m j = r) xs)"
proof -
  have "find_walk m (hash m r) r (map_cap m) (buckets m (hash m r)) =
      (case List.find (\<lambda>j. node_ref m j = r) xs of Some j \<Rightarrow> Hit j | None \<Rightarrow> Miss)"
    using assms chain_length [OF assms(1)] by (intro find_walk_chain) (auto simp: chain_rep_def)
  then show ?thesis using assms(2) by (simp add: map_find_def Let_def split: option.splits)
qed

lemma map_find_tree: "bucket_state m (hash m r) \<noteq> 0 \<Longrightarrow> map_find m r = overflow m r"
  by (simp add: map_find_def)

lemma copy_chain_eq:
  assumes "on_stack (next_node m) i xs" "length xs \<le> n"
  shows "copy_chain m n i ov = fold (\<lambda>j ov. ov(node_ref m j \<mapsto> node_slot m j)) xs ov"
  using assms
proof (induction xs arbitrary: i n ov)
  case Nil
  then show ?case by (cases n) auto
next
  case (Cons x xs)
  then obtain k where "n = Suc k" by (cases n) auto
  then show ?case using Cons by auto
qed

lemma fold_puts:
  assumes "distinct (map f xs)"
  shows "fold (\<lambda>j ov. ov(f j \<mapsto> g j)) xs ov q =
    (case List.find (\<lambda>j. f j = q) xs of Some j \<Rightarrow> Some (g j) | None \<Rightarrow> ov q)"
  using assms
proof (induction xs arbitrary: ov)
  case Nil then show ?case by simp
next
  case (Cons x xs)
  have "List.find (\<lambda>j. f j = q) xs = None" if "f x = q"
    using Cons.prems that by (auto simp: find_None image_iff)
  then show ?case using Cons by (auto split: option.splits)
qed

text \<open>Moving a chain to the overflow map changes no lookup.\<close>

lemma treeify_hash [simp]: "hash (treeify m b) r = hash m r"
  by (simp add: treeify_def hash_def)

text \<open>The chain may have the eight nodes that trigger the move.\<close>

definition pre_rep :: "order_map \<Rightarrow> (u32 \<Rightarrow> u32 list) \<Rightarrow> u32 list \<Rightarrow> u32 \<Rightarrow> bool" where
  "pre_rep m cs fs b \<longleftrightarrow>
     (\<forall>c. c \<noteq> b \<longrightarrow> bucket_state m c = 0 \<longrightarrow> chain_rep m c (cs c) \<and> set (cs c) \<inter> set fs = {}) \<and>
     (\<forall>c. bucket_state m c \<in> {0, 2}) \<and> bucket_state m b = 0 \<and>
     (\<forall>r. bucket_state m (hash m r) = 0 \<longrightarrow> overflow m r = None) \<and>
     ts_free_list (om_free m) fs \<and> (\<forall>i\<in>set fs. unat i < map_cap m) \<and> map_cap m < 2 ^ 32 \<and>
     on_stack (next_node m) (buckets m b) (cs b) \<and> distinct (map (node_ref m) (cs b)) \<and>
     (\<forall>i\<in>set (cs b). hash m (node_ref m i) = b) \<and> length (cs b) \<le> map_cap m"

lemma treeify_rep:
  assumes p: "pre_rep m cs fs b"
  shows "om_rep (treeify m b) cs fs"
    and "map_find (treeify m b) q = (if hash m q = b
      then map_option (node_slot m) (List.find (\<lambda>j. node_ref m j = q) (cs b)) else map_find m q)"
proof -
  have t: "treeify m b = m\<lparr>overflow := fold (\<lambda>j ov. ov(node_ref m j \<mapsto> node_slot m j)) (cs b) (overflow m),
      bucket_state := (bucket_state m)(b := 2)\<rparr>"
    using p copy_chain_eq [of m "buckets m b" "cs b" "map_cap m" "overflow m"]
    by (simp add: treeify_def pre_rep_def)
  have dis: "distinct (map (node_ref m) (cs b))" using p by (simp add: pre_rep_def)
  have ov: "overflow (treeify m b) r = (case List.find (\<lambda>j. node_ref m j = r) (cs b) of
      Some j \<Rightarrow> Some (node_slot m j) | None \<Rightarrow> overflow m r)" for r
    by (simp add: t fold_puts [OF dis])
  have miss: "List.find (\<lambda>j. node_ref m j = r) (cs b) = None" if "hash m r \<noteq> b" for r
    using p that by (auto simp: find_None pre_rep_def)
  have fields: "bucket_state (treeify m b) c = (if c = b then 2 else bucket_state m c)"
    "buckets (treeify m b) = buckets m" "om_free (treeify m b) = om_free m"
    "node_bucket (treeify m b) = node_bucket m" "node_ref (treeify m b) = node_ref m"
    "bucket_len (treeify m b) = bucket_len m" "map_cap (treeify m b) = map_cap m"
    "node_slot (treeify m b) = node_slot m" for c
    by (simp_all add: t)
  have ch: "chain_rep (treeify m b) c xs = chain_rep m c xs" for c xs
    by (simp add: chain_rep_def fields)
  have ov0: "overflow (treeify m b) r = None" if "bucket_state (treeify m b) (hash m r) = 0" for r
    using that p miss [of r] by (auto simp: ov fields pre_rep_def split: if_splits)
  show "om_rep (treeify m b) cs fs"
    using p ov0 unfolding om_rep_def pre_rep_def ch by (simp add: fields)
  have none: "overflow m q = None" if "hash m q = b" using p that by (simp add: pre_rep_def)
  show "map_find (treeify m b) q = (if hash m q = b
      then map_option (node_slot m) (List.find (\<lambda>j. node_ref m j = q) (cs b)) else map_find m q)"
  proof (cases "hash m q = b")
    case True
    then show ?thesis
      using none by (simp add: map_find_tree fields ov split: option.splits)
  next
    case False
    have w: "find_walk (treeify m b) c r n i = find_walk m c r n i" for c r n i
      by (induction n arbitrary: i) (simp_all add: fields)
    show ?thesis using False miss [OF False] by (simp add: map_find_def Let_def w fields ov split: walk.splits)
  qed
qed

section \<open>Insertion\<close>

lemma overflow_put_rep:
  assumes "om_rep m cs fs" "bucket_state m (hash m r) \<noteq> 0"
  shows "om_rep (overflow_put m r s) cs fs"
    and "map_find (overflow_put m r s) q = (if q = r then Some s else map_find m q)"
proof -
  have h: "hash (overflow_put m r s) q = hash m q" for q by (simp add: overflow_put_def hash_def)
  have ch: "chain_rep (overflow_put m r s) c xs = chain_rep m c xs" for c xs
    by (simp add: chain_rep_def h) (simp add: overflow_put_def)
  show "om_rep (overflow_put m r s) cs fs"
    using assms unfolding om_rep_def ch h by (auto simp: overflow_put_def)
  have w: "find_walk (overflow_put m r s) c x n i = find_walk m c x n i" for c x n i
    by (induction n arbitrary: i) (simp_all add: overflow_put_def)
  show "map_find (overflow_put m r s) q = (if q = r then Some s else map_find m q)"
    using assms(2) by (auto simp: map_find_def Let_def w h) (auto simp: overflow_put_def split: walk.splits)
qed

lemma rep_pre:
  assumes "om_rep m cs fs" "bucket_state m b = 0"
  shows "pre_rep m cs fs b"
proof -
  have c: "chain_rep m b (cs b)" using assms by (simp add: om_rep_def)
  then show ?thesis using assms chain_length [OF c] unfolding om_rep_def pre_rep_def by (simp add: chain_rep_def)
qed

text \<open>The new node in front of its chain.\<close>

definition push_node :: "order_map \<Rightarrow> u32 \<Rightarrow> u64 \<Rightarrow> u32 \<Rightarrow> tstack \<Rightarrow> u32 \<Rightarrow> order_map" where
  "push_node m b r s st i =
     (set_next (m\<lparr>om_free := st, node_ref := (node_ref m)(i := r), node_slot := (node_slot m)(i := s),
        node_bucket := (node_bucket m)(i := b)\<rparr>) i (buckets m b))
      \<lparr>buckets := (buckets m)(b := i), bucket_len := (bucket_len m)(b := bucket_len m b + 1),
       map_size := map_size m + 1\<rparr>"

lemma map_insert_push:
  assumes "bucket_state m (hash m r) = 0" "\<not> TREEIFY_THRESHOLD \<le> bucket_len m (hash m r)"
    "ts_head (om_free m) \<noteq> to_u64 UINT32_MAX" "ts_alloc (om_free m) = (st, Some i)"
  shows "map_insert m r s = (let m3 = push_node m (hash m r) r s st i
     in if TREEIFY_THRESHOLD \<le> bucket_len m3 (hash m r) then treeify m3 (hash m r) else m3)"
  using assms by (simp add: map_insert_def Let_def push_node_def set_next_def)

lemma push_node_rep:
  fixes s :: u32
  assumes rep: "om_rep m cs (i # fs)" and b: "bucket_state m b = 0" "b = hash m r"
    and st: "ts_alloc (om_free m) = (st, Some i)" and new: "map_find m r = None"
  defines "m3 \<equiv> push_node m b r s st i"
  shows "pre_rep m3 (cs(b := i # cs b)) fs b"
    and "unat (bucket_len m3 b) = Suc (length (cs b))"
    and "length (cs b) < 7 \<Longrightarrow> om_rep m3 (cs(b := i # cs b)) fs"
    and "hash m q \<noteq> b \<Longrightarrow> map_find m3 q = map_find m q"
proof -
  have c: "chain_rep m b (cs b)" "set (cs b) \<inter> set (i # fs) = {}" using rep b(1) by (simp_all add: om_rep_def)
  have fresh: "i \<notin> set (cs b)" "i \<notin> set fs" "i \<noteq> UINT32_MAX" "unat i < map_cap m"
    using c(2) rep by (auto simp: om_rep_def ts_free_list_def)
  have nref: "r \<notin> node_ref m ` set (cs b)"
    using new map_find_chain [OF c(1) [unfolded b(2)]] b by (auto simp: find_None)
  have st': "ts_next st = next_node m" "ts_free_list st fs"
    using rep st by (auto simp: om_rep_def ts_alloc_def ts_free_list_def Let_def split: if_splits)
  have f: "next_node m3 = (next_node m)(i := buckets m b)" "buckets m3 = (buckets m)(b := i)"
    "node_ref m3 = (node_ref m)(i := r)" "node_bucket m3 = (node_bucket m)(i := b)"
    "node_slot m3 = (node_slot m)(i := s)"
    "bucket_state m3 = bucket_state m" "overflow m3 = overflow m" "map_cap m3 = map_cap m"
    "bucket_len m3 = (bucket_len m)(b := bucket_len m b + 1)" "ts_head (om_free m3) = ts_head st"
    by (simp_all add: m3_def push_node_def set_next_def st'(1))
  have h: "hash m3 x = hash m x" for x by (simp add: m3_def push_node_def set_next_def hash_def)
  have other: "chain_rep m3 d (cs d) \<and> set (cs d) \<inter> set fs = {} \<and> i \<notin> set (cs d)" if "d \<noteq> b" "bucket_state m d = 0" for d
  proof -
    have "chain_rep m d (cs d)" "set (cs d) \<inter> set (i # fs) = {}" using rep that(2) by (simp_all add: om_rep_def)
    moreover from this have "i \<notin> set (cs d)" by simp
    ultimately show ?thesis
      using that(1) by (auto simp: chain_rep_def f h on_stack_upd distinct_map inj_on_def)
  qed
  have stk: "on_stack (next_node m3) (buckets m3 b) (i # cs b)"
    using c(1) fresh by (simp add: f chain_rep_def on_stack_upd)
  have refs: "distinct (map (node_ref m3) (i # cs b))"
    using c(1) fresh nref by (auto simp: f chain_rep_def distinct_map inj_on_def)
  have hs: "\<forall>j\<in>set (i # cs b). hash m3 (node_ref m3 j) = b"
    using c(1) b(2) by (auto simp: f h chain_rep_def)
  have free3: "ts_free_list (om_free m3) fs"
    using st'(2) fresh(2) by (simp add: ts_free_list_def f on_stack_upd st'(1))
  have small: "length (cs b) < 8" using c(1) by (simp add: chain_rep_def)
  have d: "distinct (i # cs b)" "\<forall>j\<in>set (i # cs b). unat j < map_cap m"
    using c(1) fresh by (auto simp: chain_rep_def)
  then have cap: "length (i # cs b) \<le> map_cap m" by (rule distinct_below)
  show pre: "pre_rep m3 (cs(b := i # cs b)) fs b"
    unfolding pre_rep_def
    using other rep b(1) stk refs hs free3 cap fresh by (auto simp: f h om_rep_def)
  have "unat (bucket_len m b) = length (cs b)" using c(1) by (simp add: chain_rep_def)
  then show len: "unat (bucket_len m3 b) = Suc (length (cs b))"
    using small by (simp add: f unat_add_nowrap)
  show "om_rep m3 (cs(b := i # cs b)) fs" if "length (cs b) < 7"
  proof -
    have "chain_rep m3 b (i # cs b)"
      unfolding chain_rep_def using stk d refs hs len that c(1) by (auto simp: f chain_rep_def)
    moreover have "set (i # cs b) \<inter> set fs = {}" using c(2) fresh by auto
    ultimately show ?thesis
      unfolding om_rep_def using other rep b(1) free3 by (auto simp: f h om_rep_def)
  qed
  show "map_find m3 q = map_find m q" if q: "hash m q \<noteq> b"
  proof (cases "bucket_state m (hash m q) = 0")
    case True
    note o = other [OF q True]
    then have o1: "chain_rep m3 (hash m3 q) (cs (hash m q))" by (simp add: h)
    have "chain_rep m (hash m q) (cs (hash m q))" using rep True by (simp add: om_rep_def)
    from map_find_chain [OF this True] map_find_chain [OF o1] True show ?thesis
      using chain_lookup_cong [of "cs (hash m q)" m3 m q] o by (auto simp: f h)
  next
    case False
    then show ?thesis by (simp add: map_find_tree f h)
  qed
qed

lemma map_insert_spec:
  assumes wf: "om_frees m k" and new: "map_find m r = None"
  shows "om_frees (map_insert m r s) (k - 1) \<and>
    map_find (map_insert m r s) q = (if om_room m r \<and> q = r then Some s else map_find m q)"
proof -
  let ?b = "hash m r"
  obtain cs fs where rep: "om_rep m cs fs" and k: "k \<le> length fs" using wf by (auto simp: om_frees_def)
  have fr: "om_frees m' (k - Suc 0)" if "om_rep m' cs' fs'" "length fs \<le> Suc (length fs')" for m' cs' fs'
    by (rule om_freesI [OF that(1)]) (use k that(2) in simp)
  show ?thesis
  proof (cases "bucket_state m ?b = 0")
    case False
    then have "map_insert m r s = overflow_put m r s" by (simp add: map_insert_def)
    then show ?thesis using fr [OF overflow_put_rep(1) [OF rep False]] overflow_put_rep(2) [OF rep False] False
      by (auto simp: om_room_def)
  next
    case True
    have c: "chain_rep m ?b (cs ?b)" using rep True by (simp add: om_rep_def)
    then have short: "unat (bucket_len m ?b) = length (cs ?b)" "length (cs ?b) < 8"
      by (simp_all add: chain_rep_def)
    then have len: "\<not> TREEIFY_THRESHOLD \<le> bucket_len m ?b" by (simp add: word_le_nat_alt)
    show ?thesis
    proof (cases "ts_head (om_free m) = to_u64 UINT32_MAX")
      case head: True
      then have ins: "map_insert m r s = overflow_put (treeify m ?b) r s"
        using True by (simp add: map_insert_def)
      note t = treeify_rep [OF rep_pre [OF rep True]]
      have "bucket_state (treeify m ?b) ?b = 2" using True by (simp add: treeify_def)
      then have st: "bucket_state (treeify m ?b) (hash (treeify m ?b) r) \<noteq> 0" by simp
      have "map_find (treeify m ?b) x = map_find m x" for x
        using t(2) [of x] map_find_chain [of m x "cs ?b"] c True by auto
      then show ?thesis
        using fr [OF overflow_put_rep(1) [OF t(1) st]] overflow_put_rep(2) [OF t(1) st] head
        by (auto simp: ins om_room_def)
    next
      case head: False
      show ?thesis
      proof (cases "head_of (ts_head (om_free m)) = UINT32_MAX")
        case True': True
        then have "map_insert m r s = m"
          using True len head by (simp add: map_insert_def ts_alloc_def Let_def)
        then show ?thesis using fr [OF rep] True True' head by (auto simp: om_room_def)
      next
        case False
        then obtain i fs' where fs: "fs = i # fs'"
          using rep by (cases fs) (auto simp: om_rep_def ts_free_list_def)
        obtain st where st: "ts_alloc (om_free m) = (st, Some i)"
          using stack.alloc_some [of "om_free m" i fs'] rep fs by (auto simp: om_rep_def)
        let ?m = "push_node m ?b r s st i"
        note p = push_node_rep [OF rep [unfolded fs] True refl st new, where s = s]
        have room: "om_room m r" using False by (simp add: om_room_def)
        have ins: "map_insert m r s = (if 7 \<le> length (cs ?b) then treeify ?m ?b else ?m)"
          using map_insert_push [OF True len head st, where s = s] p(2) by (simp add: Let_def word_le_nat_alt)
        have h: "hash ?m x = hash m x" for x by (simp add: push_node_def set_next_def hash_def)
        have node: "node_ref ?m = (node_ref m)(i := r)" "node_slot ?m = (node_slot m)(i := s)"
          by (simp_all add: push_node_def set_next_def)
        have i: "i \<notin> set (cs ?b)" using rep True fs by (auto simp: om_rep_def)
        have in_b: "map_option (node_slot ?m) (List.find (\<lambda>j. node_ref ?m j = q) (i # cs ?b)) =
            (if q = r then Some s else map_option (node_slot m) (List.find (\<lambda>j. node_ref m j = q) (cs ?b)))"
          using chain_lookup_cong [of "cs ?b" ?m m q] i by (auto simp: node)
        have old: "map_find m q = map_option (node_slot m) (List.find (\<lambda>j. node_ref m j = q) (cs ?b))"
          if "hash m q = ?b" using map_find_chain [of m q "cs ?b"] c True that by simp
        show ?thesis
        proof (cases "7 \<le> length (cs ?b)")
          case seven: True
          note t = treeify_rep [OF p(1)]
          have "map_find (treeify ?m ?b) q = (if q = r then Some s else map_find m q)"
            using t(2) [of q] in_b old p(4) [of q] h by auto
          then show ?thesis using t(1) seven room ins fs by (auto intro: fr)
        next
          case seven: False
          have rep3: "om_rep ?m (cs(?b := i # cs ?b)) fs'" using p(3) seven by simp
          have "map_find ?m q = (if q = r then Some s else map_find m q)"
          proof (cases "hash m q = ?b")
            case hq: True
            have "chain_rep ?m ?b (i # cs ?b)" "bucket_state ?m ?b = 0"
              using rep3 True by (auto simp: om_rep_def push_node_def set_next_def split: if_splits)
            then show ?thesis using map_find_chain [of ?m q "i # cs ?b"] in_b old hq h by auto
          next
            case False
            then show ?thesis using p(4) by auto
          qed
          then show ?thesis using rep3 seven room ins fs by (auto intro: fr)
        qed
      qed
    qed
  qed
qed

section \<open>Removal\<close>

lemma on_stack_skip:
  assumes "on_stack nx h (ys @ p # nd # zs)" "distinct (ys @ p # nd # zs)"
  shows "on_stack (nx(p := nx nd)) h (ys @ p # zs)"
  using assms
proof (induction ys arbitrary: h)
  case Nil
  then have p: "h = p" "p \<noteq> UINT32_MAX" "nx p = nd" "nd \<noteq> UINT32_MAX" "on_stack nx (nx nd) zs" "p \<notin> set zs"
    by auto
  then have "on_stack (nx(p := nx nd)) (nx nd) zs" using on_stack_upd [of p zs nx "nx nd" "nx nd"] by blast
  then show ?case using p by (simp add: fun_upd_def)
next
  case (Cons y ys)
  then show ?case by auto
qed

lemma erase_walk_chain:
  assumes "on_stack (next_node m) i (i # xs)" "\<forall>j\<in>set (i # xs). node_bucket m j = b" "length xs < n"
  shows "case erase_walk m b r n i of
      None \<Rightarrow> r \<notin> node_ref m ` set xs
    | Some (p, nd) \<Rightarrow> node_ref m nd = r \<and> (\<exists>ys zs. i # xs = ys @ p # nd # zs)"
  using assms
proof (induction xs arbitrary: i n)
  case Nil
  then show ?case by (cases n) auto
next
  case (Cons x xs)
  then obtain k where n: "n = Suc k" by (cases n) auto
  have i: "i \<noteq> UINT32_MAX" "node_bucket m i = b" "next_node m i = x" "x \<noteq> UINT32_MAX"
    using Cons.prems by auto
  show ?case
  proof (cases "node_ref m x = r")
    case True
    then have "i # x # xs = [] @ i # x # xs" by simp
    then show ?thesis using i True by (auto simp: n Let_def)
  next
    case False
    have e: "erase_walk m b r n i = erase_walk m b r k x" using i False by (simp add: n Let_def)
    have ih: "case erase_walk m b r k x of None \<Rightarrow> r \<notin> node_ref m ` set xs
      | Some (p, nd) \<Rightarrow> node_ref m nd = r \<and> (\<exists>ys zs. x # xs = ys @ p # nd # zs)"
      using Cons.prems by (intro Cons.IH) (auto simp: n)
    show ?thesis
    proof (cases "erase_walk m b r k x")
      case None
      then show ?thesis using ih e False by simp
    next
      case (Some a)
      obtain p nd where a: "a = (p, nd)" by (cases a)
      then obtain ys zs where y: "x # xs = ys @ p # nd # zs" and r: "node_ref m nd = r" using ih Some by auto
      have "i # x # xs = (i # ys) @ p # nd # zs" using y by simp
      then show ?thesis using e Some a r by (simp only: option.case prod.case) blast
    qed
  qed
qed

text \<open>
  One node taken out of its chain and freed. \<open>m1\<close> is the map after the links have been rewritten
  around it.
\<close>

lemma free_node_rep:
  assumes rep: "om_rep m cs fs" and b: "bucket_state m b = 0" and nd: "cs b = us @ nd # vs"
    and m1: "m1 = m\<lparr>om_free := (om_free m)\<lparr>ts_next := nx\<rparr>, buckets := (buckets m)(b := h)\<rparr>"
    and stk: "on_stack nx h (us @ vs)" and keep: "\<forall>i. i \<notin> set us \<longrightarrow> nx i = next_node m i"
  shows "om_rep (free_node m1 b nd) (cs(b := us @ vs)) (nd # fs)"
    and "map_find (free_node m1 b nd) q = (if q = node_ref m nd then None else map_find m q)"
    and "head_of (ts_head (om_free (free_node m1 b nd))) = nd" "nd \<noteq> UINT32_MAX"
proof -
  let ?f = "free_node m1 b nd"
  have c: "chain_rep m b (cs b)" "set (cs b) \<inter> set fs = {}" using rep b by (simp_all add: om_rep_def)
  have d: "distinct (us @ nd # vs)" "nd \<noteq> UINT32_MAX" "nd \<notin> set fs"
    using c on_stack_no_max [of "next_node m" "buckets m b" "us @ nd # vs"] nd by (auto simp: chain_rep_def)
  then show "nd \<noteq> UINT32_MAX" by simp
  have free: "ts_free_list (om_free m) fs" using rep by (simp add: om_rep_def)
  have f: "next_node ?f = nx(nd := head_of (ts_head (om_free m)))"
    "buckets ?f = (buckets m)(b := h)" "node_ref ?f = node_ref m" "node_bucket ?f = node_bucket m"
    "node_slot ?f = node_slot m" "bucket_state ?f = bucket_state m" "overflow ?f = overflow m"
    "map_cap ?f = map_cap m" "bucket_len ?f = (bucket_len m)(b := bucket_len m b - 1)"
    by (simp_all add: free_node_def m1 ts_free_def Let_def)
  show head: "head_of (ts_head (om_free ?f)) = nd" by (simp add: free_node_def ts_free_def Let_def)
  have hh: "hash ?f x = hash m x" for x by (simp add: free_node_def m1 hash_def)
  have same: "on_stack (next_node ?f) k xs = on_stack (next_node m) k xs"
    if "set xs \<inter> set us = {}" "nd \<notin> set xs" for xs k
    using that keep by (induction xs arbitrary: k) (auto simp: f)
  have other: "chain_rep ?f e (cs e) \<and> set (cs e) \<inter> set (nd # fs) = {}" if e: "e \<noteq> b" "bucket_state m e = 0" for e
  proof -
    have ce: "chain_rep m e (cs e)" "set (cs e) \<inter> set fs = {}" using rep e(2) by (simp_all add: om_rep_def)
    have dis: "set (cs e) \<inter> set (us @ nd # vs) = {}"
      using chains_disjoint [OF ce(1) c(1) e(1)] nd by simp
    then have "on_stack (next_node ?f) (buckets m e) (cs e)"
      using ce(1) same [of "cs e" "buckets m e"] by (auto simp: chain_rep_def)
    then show ?thesis using ce dis e(1) by (auto simp: chain_rep_def f hh)
  qed
  have len: "length (cs b) = Suc (length (us @ vs))" by (simp add: nd)
  have bl: "unat (bucket_len m b) = Suc (length (us @ vs))" using c(1) len by (simp add: chain_rep_def)
  then have bl1: "unat (bucket_len m b - 1) = length (us @ vs)"
    using unat_diff_le [of 1 "bucket_len m b"] by (simp add: word_le_nat_alt)
  have mine: "chain_rep ?f b (us @ vs) \<and> set (us @ vs) \<inter> set (nd # fs) = {}"
  proof -
    have "on_stack (next_node ?f) h (us @ vs)"
      using stk d(1) on_stack_upd [of nd "us @ vs" nx] by (simp add: f)
    then show ?thesis
      using c d bl1 unfolding nd chain_rep_def by (auto simp: f hh)
  qed
  have ff: "ts_free_list (om_free ?f) (nd # fs)"
  proof -
    have "set fs \<inter> set us = {}" "nd \<notin> set fs" using c(2) d(3) nd by auto
    then have "on_stack (next_node ?f) (head_of (ts_head (om_free m))) fs"
      using free same by (simp add: ts_free_list_def)
    then show ?thesis using d free head by (simp add: ts_free_list_def f)
  qed
  have nd_cap: "unat nd < map_cap m" using c(1) nd by (simp add: chain_rep_def)
  show "om_rep ?f (cs(b := us @ vs)) (nd # fs)"
    unfolding om_rep_def using other mine ff rep nd_cap b by (auto simp: f hh om_rep_def)
  show "map_find ?f q = (if q = node_ref m nd then None else map_find m q)"
  proof (cases "bucket_state m (hash m q) = 0")
    case False
    have "hash m (node_ref m nd) = b" using c(1) nd by (simp add: chain_rep_def)
    then have "q \<noteq> node_ref m nd" using False b by auto
    then show ?thesis using False by (simp add: map_find_tree f hh)
  next
    case True
    show ?thesis
    proof (cases "hash m q = b")
      case False
      then have "q \<noteq> node_ref m nd" using c(1) nd by (auto simp: chain_rep_def)
      moreover have "chain_rep m (hash m q) (cs (hash m q))" using rep True by (simp add: om_rep_def)
      ultimately show ?thesis
        using other [OF False True] map_find_chain [of ?f q "cs (hash m q)"] map_find_chain [of m q "cs (hash m q)"]
          True by (simp add: f hh)
    next
      case hq: True
      have r: "distinct (map (node_ref m) (us @ nd # vs))" using c(1) nd by (simp add: chain_rep_def)
      have "List.find (\<lambda>j. node_ref m j = q) (us @ vs) =
          (if q = node_ref m nd then None else List.find (\<lambda>j. node_ref m j = q) (us @ nd # vs))"
        using r by (induction us) (auto simp: find_None image_iff)
      then show ?thesis
        using mine map_find_chain [of ?f q "us @ vs"] map_find_chain [of m q "cs b"] c(1) True hq
        by (simp add: f hh nd)
    qed
  qed
qed

lemma free_room:
  assumes "head_of (ts_head (om_free m')) = nd" "nd \<noteq> UINT32_MAX"
  shows "om_room m' r"
  using assms by (simp add: om_room_def)

lemma map_erase_spec:
  assumes wf: "om_frees m k"
  shows "om_frees (map_erase m r) k"
    and "map_find (map_erase m r) q = (if q = r then None else map_find m q)"
    and "map_find m r \<noteq> None \<Longrightarrow> om_room (map_erase m r) r"
proof -
  let ?b = "hash m r"
  let ?e = "map_erase m r"
  obtain cs fs where rep: "om_rep m cs fs" and k: "k \<le> length fs" using wf by (auto simp: om_frees_def)
  have fr: "om_frees m' k" if "om_rep m' cs' fs'" "length fs \<le> length fs'" for m' cs' fs'
    by (rule om_freesI [OF that(1)]) (use k that(2) in simp)
  have "om_frees ?e k \<and> map_find ?e q = (if q = r then None else map_find m q) \<and>
    (map_find m r \<noteq> None \<longrightarrow> om_room ?e r)"
  proof (cases "bucket_state m ?b = 0")
    case False
    show ?thesis
    proof (cases "overflow m r = None")
      case True
      then have "?e = m" using False by (simp add: map_erase_def)
      then show ?thesis using wf True False by (auto simp: map_find_tree)
    next
      case some: False
      then have e: "?e = m\<lparr>overflow := (overflow m)(r := None), map_size := map_size m - 1\<rparr>"
        using False by (simp add: map_erase_def Let_def)
      have h: "hash ?e x = hash m x" for x by (simp add: e hash_def)
      have ch: "chain_rep ?e c xs = chain_rep m c xs" for c xs by (simp add: chain_rep_def h) (simp add: e)
      have "om_rep ?e cs fs"
        using rep unfolding om_rep_def ch h by (auto simp: e)
      moreover have w: "find_walk ?e c x n i = find_walk m c x n i" for c x n i
        by (induction n arbitrary: i) (simp_all add: e)
      have "map_find ?e q = (if q = r then None else map_find m q)"
        using False by (auto simp: map_find_def Let_def w h) (auto simp: e split: walk.splits)
      moreover have "om_room ?e r" using False by (simp add: om_room_def h) (simp add: e)
      ultimately show ?thesis by (auto intro: fr)
    qed
  next
    case True
    have c: "chain_rep m ?b (cs ?b)" using rep True by (simp add: om_rep_def)
    have miss: ?thesis if u: "?e = m" "r \<notin> node_ref m ` set (cs ?b)"
    proof -
      have "List.find (\<lambda>j. node_ref m j = r) (cs ?b) = None" using u(2) by (auto simp: find_None)
      then have "map_find m r = None" using map_find_chain [OF c True] by simp
      then show ?thesis using wf u(1) by auto
    qed
    show ?thesis
    proof (cases "cs ?b")
      case Nil
      then have "?e = m" using c True by (simp add: chain_rep_def map_erase_def Let_def)
      then show ?thesis using Nil by (intro miss) simp_all
    next
      case (Cons x xs)
      have x: "buckets m ?b = x" "x \<noteq> UINT32_MAX" "on_stack (next_node m) (next_node m x) xs"
        using c Cons by (simp_all add: chain_rep_def)
      show ?thesis
      proof (cases "node_ref m x = r")
        case hit: True
        let ?m1 = "m\<lparr>buckets := (buckets m)(?b := next_node m x)\<rparr>"
        have e: "?e = free_node ?m1 ?b x" using x True hit by (simp add: map_erase_def Let_def)
        have m1: "?m1 = m\<lparr>om_free := (om_free m)\<lparr>ts_next := next_node m\<rparr>,
            buckets := (buckets m)(?b := next_node m x)\<rparr>" by simp
        note f = free_node_rep [OF rep True, where us = "[]" and vs = xs and nd = x, OF _ m1]
        have "om_rep ?e (cs(?b := xs)) (x # fs)" "map_find ?e q = (if q = r then None else map_find m q)"
          "head_of (ts_head (om_free ?e)) = x"
          using f Cons x hit unfolding e by auto
        then show ?thesis using free_room x(2) by (auto intro: fr)
      next
        case no: False
        have stk: "on_stack (next_node m) x (x # xs)" using x by simp
        have bs: "\<forall>j\<in>set (x # xs). node_bucket m j = ?b" using c Cons by (simp add: chain_rep_def)
        have len: "length xs < map_cap m" using chain_length [OF c] Cons by simp
        note w = erase_walk_chain [OF stk bs len, of r]
        show ?thesis
        proof (cases "erase_walk m ?b r (map_cap m) x")
          case None
          have "?e = m" using x True no None by (simp add: map_erase_def Let_def)
          moreover have "r \<notin> node_ref m ` set (cs ?b)" using w None no Cons by auto
          ultimately show ?thesis by (rule miss)
        next
          case (Some a)
          obtain p nd where a: "a = (p, nd)" by (cases a)
          obtain ys zs where yz: "x # xs = ys @ p # nd # zs" and r: "node_ref m nd = r"
            using w Some a by auto
          let ?m1 = "set_next m p (next_node m nd)"
          have e: "?e = free_node ?m1 ?b nd"
            using x True no Some a by (simp add: map_erase_def Let_def)
          have m1: "?m1 = m\<lparr>om_free := (om_free m)\<lparr>ts_next := (next_node m)(p := next_node m nd)\<rparr>,
              buckets := (buckets m)(?b := x)\<rparr>" using x(1) by (simp add: set_next_def fun_upd_idem)
          have cb: "cs ?b = (ys @ [p]) @ nd # zs" using Cons yz by simp
          have d: "distinct (ys @ p # nd # zs)" using c cb by (simp add: chain_rep_def)
          have skip: "on_stack ((next_node m)(p := next_node m nd)) x ((ys @ [p]) @ zs)"
            using on_stack_skip [of "next_node m" x ys p nd zs] stk yz d by simp
          have keep: "\<forall>i. i \<notin> set (ys @ [p]) \<longrightarrow> ((next_node m)(p := next_node m nd)) i = next_node m i" by simp
          note f = free_node_rep [OF rep True cb m1 skip keep]
          have "om_rep ?e (cs(?b := (ys @ [p]) @ zs)) (nd # fs)"
            "map_find ?e q = (if q = r then None else map_find m q)"
            "head_of (ts_head (om_free ?e)) = nd" "nd \<noteq> UINT32_MAX"
            using f r unfolding e by auto
          then show ?thesis using free_room by (auto intro: fr)
        qed
      qed
    qed
  qed
  then show "om_frees ?e k" "map_find ?e q = (if q = r then None else map_find m q)"
    "map_find m r \<noteq> None \<Longrightarrow> om_room ?e r" by auto
qed

interpretation order_map: order_index map_find map_insert map_erase om_wf om_room
proof unfold_locales
  show "om_wf (map_insert m r s)" if "om_wf m" "map_find m r = None" for m r s
    using map_insert_spec [of m 0 r s] that by (simp add: om_wf_def)
  show "om_wf (map_erase m r)" if "om_wf m" for m r
    using map_erase_spec(1) [of m 0 r] that by (simp add: om_wf_def)
  show "map_find (map_insert m r s) q = (if q = r then Some s else map_find m q)"
    if "om_wf m" "map_find m r = None" "om_room m r" for m r s q
    using map_insert_spec [of m 0 r s q] that by (simp add: om_wf_def)
  show "map_find (map_insert m r s) q = map_find m q"
    if "om_wf m" "map_find m r = None" "\<not> om_room m r" for m r s q
    using map_insert_spec [of m 0 r s q] that by (simp add: om_wf_def)
  show "map_find (map_erase m r) q = (if q = r then None else map_find m q)" if "om_wf m" for m r q
    using map_erase_spec(2) [of m 0 r q] that by (simp add: om_wf_def)
  show "om_room (map_erase m r) r" if "om_wf m" "map_find m r \<noteq> None" for m r
    using map_erase_spec(3) [of m 0 r] that by (simp add: om_wf_def)
qed

section \<open>The initial table\<close>

lemma new_order_map_wf:
  assumes "0 < n" "n < 2 ^ 32"
  shows "om_frees (new_order_map n) n" "map_find (new_order_map n) r = None"
proof -
  let ?m = "new_order_map n"
  let ?fs = "map of_nat [0..<n] :: u32 list"
  note fs = ts_init_free [OF assms]
  have "om_rep ?m (\<lambda>_. []) ?fs"
    using fs assms by (simp add: om_rep_def chain_rep_def new_order_map_def)
  then show "om_frees ?m n" by (rule om_freesI) simp
  have "find_walk ?m b r k UINT32_MAX = Miss" for b k by (cases k) simp_all
  then show "map_find ?m r = None" by (simp add: map_find_def new_order_map_def Let_def)
qed

lemma frees_room: "om_frees m (Suc k) \<Longrightarrow> om_room m r"
proof -
  assume "om_frees m (Suc k)"
  then obtain cs fs where rep: "om_rep m cs fs" and l: "Suc k \<le> length fs" by (auto simp: om_frees_def)
  then obtain x xs where "fs = x # xs" by (cases fs) auto
  then show ?thesis using rep by (auto simp: om_rep_def ts_free_list_def om_room_def)
qed

section \<open>Table size and hash range\<close>

lemma ctz_power: "ctz (2 ^ k) = k"
  by (induction k) (simp_all add: ctz.simps)

lemma round_pow2_from_power:
  assumes "n \<le> 2 ^ (j + k)" "j = 0 \<or> 2 ^ (j - 1) < n"
  shows "\<exists>i\<le>j + k. round_pow2_from k (2 ^ j) n = 2 ^ i \<and> n \<le> 2 ^ i \<and> (i = 0 \<or> 2 ^ (i - 1) < n)"
  using assms
proof (induction k arbitrary: j)
  case 0
  then show ?case by (intro exI [of _ j]) simp
next
  case (Suc k)
  show ?case
  proof (cases "2 ^ j < n")
    case True
    have "\<exists>i\<le>Suc j + k. round_pow2_from k (2 ^ Suc j) n = 2 ^ i \<and> n \<le> 2 ^ i \<and> (i = 0 \<or> 2 ^ (i - 1) < n)"
      using Suc.IH [of "Suc j"] Suc.prems True by simp
    then show ?thesis using True by (simp add: mult.commute)
  next
    case False
    then show ?thesis using Suc.prems by (intro exI [of _ j]) simp
  qed
qed

text \<open>The table has a power of two of buckets, the least one that is at least the capacity.\<close>

lemma round_pow2_power:
  assumes "n \<le> 2 ^ 64"
  obtains i where "i \<le> 64" "round_pow2 n = 2 ^ i" "n \<le> 2 ^ i" "i = 0 \<or> 2 ^ (i - 1) < n"
  using round_pow2_from_power [of n 0 64] assms by (auto simp: round_pow2_def)

lemma unat_drop_bit_less:
  assumes "k \<le> 64"
  shows "unat (drop_bit (64 - k) (w :: u64)) < 2 ^ k"
proof -
  have "unat w < 2 ^ (64 - k) * 2 ^ k"
    using unat64_less [of w] assms by (simp flip: power_add)
  then have "unat w div 2 ^ (64 - k) < 2 ^ k" by (intro less_mult_imp_div_less) (simp add: mult.commute)
  then have "drop_bit (64 - k) (unat w) < 2 ^ k" by (simp only: drop_bit_eq_div)
  then show ?thesis by (simp only: unat_drop_bit_eq)
qed

section \<open>Properties\<close>

datatype map_op = Put u64 u32 | Del u64

fun map_do :: "order_map \<Rightarrow> map_op \<Rightarrow> order_map" where
  "map_do m (Put r s) = map_insert m r s"
| "map_do m (Del r) = map_erase m r"

fun ref_do :: "(u64 \<rightharpoonup> u32) \<Rightarrow> map_op \<Rightarrow> (u64 \<rightharpoonup> u32)" where
  "ref_do f (Put r s) = f(r \<mapsto> s)"
| "ref_do f (Del r) = f(r := None)"

text \<open>A sequence that inserts no reference already present, and its number of insertions.\<close>

fun fresh_puts :: "(u64 \<rightharpoonup> u32) \<Rightarrow> map_op list \<Rightarrow> bool" where
  "fresh_puts f [] \<longleftrightarrow> True"
| "fresh_puts f (op # ops) \<longleftrightarrow> (case op of Put r s \<Rightarrow> f r = None | Del r \<Rightarrow> True) \<and> fresh_puts (ref_do f op) ops"

fun puts :: "map_op list \<Rightarrow> nat" where
  "puts [] = 0"
| "puts (Put r s # ops) = Suc (puts ops)"
| "puts (Del r # ops) = puts ops"

lemma map_do_run:
  assumes "om_frees m k" "map_find m = f" "fresh_puts f ops" "puts ops \<le> k"
  shows "map_find (foldl map_do m ops) = foldl ref_do f ops"
  using assms
proof (induction ops arbitrary: m f k)
  case Nil
  then show ?case by simp
next
  case (Cons op ops)
  show ?case
  proof (cases op)
    case (Put r s)
    then obtain k' where k: "k = Suc k'" using Cons.prems(4) by (cases k) auto
    have new: "map_find m r = None" using Cons.prems Put by auto
    note i = map_insert_spec [OF Cons.prems(1) new, of s]
    have "om_room m r" using Cons.prems(1) frees_room k by blast
    then have u: "map_find (map_insert m r s) = f(r \<mapsto> s)" using i Cons.prems(2) by auto
    have fr: "om_frees (map_insert m r s) k'" using i k by simp
    have "map_find (foldl map_do (map_insert m r s) ops) = foldl ref_do (f(r \<mapsto> s)) ops"
      by (rule Cons.IH [OF fr u]) (use Cons.prems(3,4) Put k in \<open>simp_all add: fun_upd_def\<close>)
    then show ?thesis using Put by simp
  next
    case (Del r)
    note e = map_erase_spec [OF Cons.prems(1), of r]
    have "map_find (map_erase m r) = f(r := None)" using e(2) Cons.prems(2) by auto
    then have u: "map_find (map_erase m r) = f(r := None)" .
    have "map_find (foldl map_do (map_erase m r) ops) = foldl ref_do (f(r := None)) ops"
      by (rule Cons.IH [OF e(1) u]) (use Cons.prems(3,4) Del in \<open>simp_all add: fun_upd_def\<close>)
    then show ?thesis using Del by simp
  qed
qed



text \<open>When every node is in use, an insertion into a bucket that is still in chain form loses the
  order: the table does not fall back to the overflow map, because the exhaustion test compares the
  tagged head with \<open>UINT32_MAX\<close> and the tag is no longer zero, and \<open>find\<close> misses the reference.\<close>

theorem order_map_drops_when_full:
  assumes "om_wf m" "bucket_state m (hash m r) = 0" "map_find m r = None"
    "head_of (ts_head (om_free m)) = UINT32_MAX" "tag_of (ts_head (om_free m)) \<noteq> 0"
  shows "map_insert m r s = m \<and> map_find (map_insert m r s) r = None"
proof -
  have h: "ts_head (om_free m) \<noteq> to_u64 UINT32_MAX"
    using assms(5) by (auto simp: tag_of_def)
  then have "\<not> om_room m r" using assms(2,4) by (simp add: om_room_def)
  moreover obtain cs fs where "om_rep m cs fs" using assms(1) by (auto simp: om_wf_def om_frees_def)
  then have "chain_rep m (hash m r) (cs (hash m r))" using assms(2) by (simp add: om_rep_def)
  then have "\<not> TREEIFY_THRESHOLD \<le> bucket_len m (hash m r)" by (simp add: chain_rep_def word_le_nat_alt)
  then have "map_insert m r s = m"
    using assms(2,4) h by (simp add: map_insert_def ts_alloc_def Let_def)
  ultimately show ?thesis using assms(3) by simp
qed

theorem order_map_drops_when_full_witness:
  "map_find (map_insert (map_insert (map_insert (new_order_map 2) 7 0) 9 1) 11 0) 11 = None"
proof -
  let ?m = "map_insert (map_insert (new_order_map 2) 7 0) 9 1"
  have n: "map_find (new_order_map 2) 7 = None" "map_find (map_insert (new_order_map 2) 7 0) 9 = None"
    "map_find ?m 11 = None" "bucket_state ?m (hash ?m 11) = 0"
    "head_of (ts_head (om_free ?m)) = UINT32_MAX" "tag_of (ts_head (om_free ?m)) \<noteq> 0"
    by code_simp+
  have "om_wf (new_order_map 2)" using new_order_map_wf [of 2] by (auto simp: om_wf_def om_frees_def)
  then have "om_wf ?m" using n(1,2) by (simp add: order_map.wf_ins)
  then show ?thesis using order_map_drops_when_full [of ?m 11 0] n by simp
qed

text \<open>\<open>hash\<close> stays inside the bucket array: for a capacity of two or more (up to \<open>2 ^ 31\<close>) the
  number of buckets is the least power of two that holds the capacity, and every reference hashes
  below it.\<close>

theorem hash_in_table:
  assumes "1 < n" "n \<le> 2 ^ 31"
  shows "unat (hash (new_order_map n) r) < round_pow2 n \<and> n \<le> round_pow2 n \<and> round_pow2 n < 2 * n"
proof -
  obtain i where i: "i \<le> 64" "round_pow2 n = 2 ^ i" "n \<le> 2 ^ i" "i = 0 \<or> 2 ^ (i - 1) < n"
    using round_pow2_power [of n] assms by auto
  then have pos: "0 < i" "2 ^ (i - 1) < n" using assms(1) by (cases i; simp)+
  then have up: "(2 :: nat) ^ i < 2 * n" by (cases i) simp_all
  have "(2 :: nat) ^ (i - 1) < 2 ^ 31" using pos(2) assms(2) by simp
  then have "i \<le> 31" using power_less_imp_less_exp [of "2 :: nat" "i - 1" 31] pos(1) by simp
  then have small: "(2 :: nat) ^ i < 2 ^ 32" by (intro power_strict_increasing) simp_all
  let ?h = "drop_bit (64 - i) (r * 0x9E3779B97F4A7C15)"
  have "unat ?h < 2 ^ i" using unat_drop_bit_less i(1) .
  then have "unat (to_u32 ?h) < 2 ^ i"
    using small by (simp add: unsigned_ucast_eq take_bit_nat_eq_self)
  then show ?thesis using i up by (simp add: hash_def new_order_map_def ctz_power)
qed

theorem hash_in_table_witness: "unat (hash (new_order_map 1000) 77) < 1024"
proof -
  have "round_pow2 1000 = 1024" by (simp add: round_pow2_def eval_nat_numeral)
  then show ?thesis using hash_in_table [of 1000 77] by simp
qed

end
