(* ===== verification/Order_Book.thy ===== *)
theory Order_Book
  imports Order_Pool Order_Map Price_Levels
begin

text \<open>
  The order book of \<^verbatim>\<open>market/book/order_book.h\<close>. A book owns its two price-level tables and shares the
  order pool and the order index with every other book, so an operation takes and returns all
  four. A level heads a doubly linked chain of slots, newest order first. A pointer \<open>OrderSlot*\<close>
  is the slot's index.
\<close>

section \<open>State\<close>

record order_book =
  ob_pool :: order_pool
  ob_index :: order_map
  ob_bids :: level_table
  ob_asks :: level_table

record order_view =
  v_ref :: u64
  v_side :: order_side
  v_price :: i64
  v_shares :: u64
  v_remaining :: u64
  v_sequence :: u64

definition new_book :: "order_pool \<Rightarrow> order_map \<Rightarrow> order_book" where
  "new_book p m = \<lparr>ob_pool = p, ob_index = m, ob_bids = new_table True, ob_asks = new_table False\<rparr>"

abbreviation slot_of :: "order_book \<Rightarrow> u32 \<Rightarrow> order_slot" where
  "slot_of ob i \<equiv> pool_at (ob_pool ob) i"

text \<open>\<open>(side == BUY) ? bids_ : asks_\<close>\<close>

definition side_table :: "order_book \<Rightarrow> bool \<Rightarrow> level_table" where
  "side_table ob b = (if b then ob_bids ob else ob_asks ob)"

definition set_side :: "order_book \<Rightarrow> bool \<Rightarrow> level_table \<Rightarrow> order_book" where
  "set_side ob b t = (if b then ob\<lparr>ob_bids := t\<rparr> else ob\<lparr>ob_asks := t\<rparr>)"

text \<open>The level the reference \<open>table[price]\<close> denotes.\<close>

definition level_ref :: "level_table \<Rightarrow> i64 \<Rightarrow> level" where
  "level_ref t p = (case tab_index t p of (t', i) \<Rightarrow> sl_lvl (tb_slots t' i))"

section \<open>Orders\<close>

definition book_add :: "order_book \<Rightarrow> u64 \<Rightarrow> order_side \<Rightarrow> i64 \<Rightarrow> u64 \<Rightarrow> u64 \<Rightarrow> order_book \<times> u32" where
  "book_add ob r sd px q sq =
     (case pool_alloc (ob_pool ob) of
        (pl, None) \<Rightarrow> (ob\<lparr>ob_pool := pl\<rparr>, UINT32_MAX)
      | (pl, Some i) \<Rightarrow>
          (let b = (sd = BUY);
               p1 = pool_set pl i (\<lambda>_. \<lparr>s_order_ref = r, s_side = sd, s_price = px, s_shares = q,
                      s_remaining = q, s_sequence = sq, prev_idx = UINT32_MAX, next_idx = UINT32_MAX\<rparr>);
               head = head_idx (level_ref (side_table ob b) px);
               p2 = (if head \<noteq> UINT32_MAX
                     then pool_set (pool_set p1 head (\<lambda>s. s\<lparr>prev_idx := i\<rparr>)) i (\<lambda>s. s\<lparr>next_idx := head\<rparr>)
                     else p1);
               t = tab_upd (side_table ob b) px (\<lambda>l.
                     \<lparr>head_idx = i, tail_idx = (if tail_idx l = UINT32_MAX then i else tail_idx l),
                      lv_count = lv_count l + 1, total_qty = total_qty l + to_u32 q\<rparr>)
           in (set_side (ob\<lparr>ob_pool := p2, ob_index := map_insert (ob_index ob) r i\<rparr>) b t, i)))"

definition unlink_and_free :: "order_book \<Rightarrow> u32 \<Rightarrow> order_book" where
  "unlink_and_free ob i =
     (let s = slot_of ob i; b = (s_side s = BUY); px = s_price s;
          p1 = (if prev_idx s \<noteq> UINT32_MAX
                then pool_set (ob_pool ob) (prev_idx s) (\<lambda>x. x\<lparr>next_idx := next_idx s\<rparr>) else ob_pool ob);
          s1 = pool_at p1 i;
          p2 = (if next_idx s1 \<noteq> UINT32_MAX
                then pool_set p1 (next_idx s1) (\<lambda>x. x\<lparr>prev_idx := prev_idx s1\<rparr>) else p1);
          t = tab_upd (side_table ob b) px (\<lambda>l.
                \<lparr>head_idx = (if prev_idx s \<noteq> UINT32_MAX then head_idx l else next_idx s),
                 tail_idx = (if next_idx s1 \<noteq> UINT32_MAX then tail_idx l else prev_idx s1),
                 lv_count = lv_count l - 1, total_qty = total_qty l - to_u32 (s_shares s)\<rparr>);
          t' = (if lv_count (level_ref t px) = 0 then tab_erase t px else t)
      in set_side (ob\<lparr>ob_pool := pool_dealloc p2 i\<rparr>) b t')"

definition dec_level_qty :: "order_book \<Rightarrow> order_side \<Rightarrow> i64 \<Rightarrow> u64 \<Rightarrow> order_book" where
  "dec_level_qty ob sd px q =
     (let b = (sd = BUY);
          t = tab_upd (side_table ob b) px (\<lambda>l. l\<lparr>total_qty := total_qty l - to_u32 q\<rparr>);
          t' = (if total_qty (level_ref t px) = 0 then tab_erase t px else t)
      in set_side ob b t')"

definition book_remove :: "order_book \<Rightarrow> u64 \<Rightarrow> order_book \<times> bool" where
  "book_remove ob r =
     (case map_find (ob_index ob) r of
        None \<Rightarrow> (ob, False)
      | Some i \<Rightarrow> (let ob1 = unlink_and_free ob i in (ob1\<lparr>ob_index := map_erase (ob_index ob1) r\<rparr>, True)))"

text \<open>\<open>cancel\<close> and \<open>execute\<close> have the same body.\<close>

definition book_cancel :: "order_book \<Rightarrow> u64 \<Rightarrow> u64 \<Rightarrow> order_book \<times> bool" where
  "book_cancel ob r q0 =
     (case map_find (ob_index ob) r of
        None \<Rightarrow> (ob, False)
      | Some i \<Rightarrow>
          (let q = (if s_remaining (slot_of ob i) < q0 then s_remaining (slot_of ob i) else q0);
               ob1 = ob\<lparr>ob_pool := pool_set (ob_pool ob) i (\<lambda>s. s\<lparr>s_remaining := s_remaining s - q\<rparr>)\<rparr>;
               ob2 = dec_level_qty ob1 (s_side (slot_of ob1 i)) (s_price (slot_of ob1 i)) q;
               ob3 = (if s_remaining (slot_of ob2 i) = 0
                      then let ob' = unlink_and_free ob2 i in ob'\<lparr>ob_index := map_erase (ob_index ob') r\<rparr>
                      else ob2)
           in (ob3, True)))"

definition book_execute :: "order_book \<Rightarrow> u64 \<Rightarrow> u64 \<Rightarrow> order_book \<times> bool" where
  "book_execute ob r q0 =
     (case map_find (ob_index ob) r of
        None \<Rightarrow> (ob, False)
      | Some i \<Rightarrow>
          (let q = (if s_remaining (slot_of ob i) < q0 then s_remaining (slot_of ob i) else q0);
               ob1 = ob\<lparr>ob_pool := pool_set (ob_pool ob) i (\<lambda>s. s\<lparr>s_remaining := s_remaining s - q\<rparr>)\<rparr>;
               ob2 = dec_level_qty ob1 (s_side (slot_of ob1 i)) (s_price (slot_of ob1 i)) q;
               ob3 = (if s_remaining (slot_of ob2 i) = 0
                      then let ob' = unlink_and_free ob2 i in ob'\<lparr>ob_index := map_erase (ob_index ob') r\<rparr>
                      else ob2)
           in (ob3, True)))"

definition book_replace ::
    "order_book \<Rightarrow> u64 \<Rightarrow> u64 \<Rightarrow> order_side \<Rightarrow> i64 \<Rightarrow> u64 \<Rightarrow> u64 \<Rightarrow> order_book \<times> bool" where
  "book_replace ob old new sd px q sq0 =
     (case map_find (ob_index ob) old of
        None \<Rightarrow> (ob, False)
      | Some i \<Rightarrow>
          (let sq = (if sq0 \<noteq> 0 then sq0 else s_sequence (slot_of ob i))
           in case book_add (fst (book_remove ob old)) new sd px q sq of (ob', idx) \<Rightarrow> (ob', idx \<noteq> UINT32_MAX)))"

section \<open>Queries\<close>

definition view_of :: "order_slot \<Rightarrow> order_view" where
  "view_of s = \<lparr>v_ref = s_order_ref s, v_side = s_side s, v_price = s_price s, v_shares = s_shares s,
     v_remaining = s_remaining s, v_sequence = s_sequence s\<rparr>"

definition book_get :: "order_book \<Rightarrow> u64 \<Rightarrow> order_view option" where
  "book_get ob r = (case map_find (ob_index ob) r of None \<Rightarrow> None | Some i \<Rightarrow> Some (view_of (slot_of ob i)))"

definition side_of :: "order_book \<Rightarrow> u64 \<Rightarrow> order_side" where
  "side_of ob r = (case map_find (ob_index ob) r of None \<Rightarrow> NONE | Some i \<Rightarrow> s_side (slot_of ob i))"

definition best_bid :: "order_book \<Rightarrow> i64" where
  "best_bid ob = (if tab_empty (ob_bids ob) then - 1 else tb_best (ob_bids ob))"

definition best_ask :: "order_book \<Rightarrow> i64" where
  "best_ask ob = (if tab_empty (ob_asks ob) then - 1 else tb_best (ob_asks ob))"

definition bid_volume_at :: "order_book \<Rightarrow> i64 \<Rightarrow> u64" where
  "bid_volume_at ob p = (case tab_find (ob_bids ob) p of None \<Rightarrow> 0 | Some l \<Rightarrow> to_u64 (total_qty l))"

definition ask_volume_at :: "order_book \<Rightarrow> i64 \<Rightarrow> u64" where
  "ask_volume_at ob p = (case tab_find (ob_asks ob) p of None \<Rightarrow> 0 | Some l \<Rightarrow> to_u64 (total_qty l))"

definition best_bid_volume :: "order_book \<Rightarrow> u64" where
  "best_bid_volume ob = best_qty (ob_bids ob)"

definition best_ask_volume :: "order_book \<Rightarrow> u64" where
  "best_ask_volume ob = best_qty (ob_asks ob)"

definition bid_levels :: "order_book \<Rightarrow> nat" where
  "bid_levels ob = tab_size (ob_bids ob)"

definition ask_levels :: "order_book \<Rightarrow> nat" where
  "ask_levels ob = tab_size (ob_asks ob)"

definition book_empty :: "order_book \<Rightarrow> bool" where
  "book_empty ob \<longleftrightarrow> tab_empty (ob_bids ob) \<and> tab_empty (ob_asks ob)"

section \<open>Chains\<close>

text \<open>
  \<open>dchain f p xs h t\<close>: from the head \<open>h\<close> the slots \<open>xs\<close> are linked both ways and end at the tail
  \<open>t\<close>; \<open>p\<close> is the predecessor of the first one.
\<close>

fun dchain :: "(u32 \<Rightarrow> order_slot) \<Rightarrow> u32 \<Rightarrow> u32 list \<Rightarrow> u32 \<Rightarrow> u32 \<Rightarrow> bool" where
  "dchain f p [] h t \<longleftrightarrow> h = UINT32_MAX \<and> t = p"
| "dchain f p (x # xs) h t \<longleftrightarrow>
     h = x \<and> x \<noteq> UINT32_MAX \<and> prev_idx (f x) = p \<and> dchain f x xs (next_idx (f x)) t"

lemma dchain_cong:
  assumes "\<forall>x\<in>set xs. prev_idx (g x) = prev_idx (f x) \<and> next_idx (g x) = next_idx (f x)"
  shows "dchain g p xs h t = dchain f p xs h t"
  using assms by (induction xs arbitrary: p h) auto

lemma dchain_no_max: "dchain f p xs h t \<Longrightarrow> UINT32_MAX \<notin> set xs"
  by (induction xs arbitrary: p h) auto

lemma dchain_ends:
  "dchain f UINT32_MAX xs h t \<Longrightarrow> h = (case xs of [] \<Rightarrow> UINT32_MAX | x # _ \<Rightarrow> x)"
  "dchain f p xs h t \<Longrightarrow> t = (if xs = [] then p else last xs)"
  by (cases xs, auto) (induction xs arbitrary: p h, auto)

lemma dchain_prev: "dchain f p (us @ x # vs) h t \<Longrightarrow> prev_idx (f x) = (if us = [] then p else last us)"
  by (induction us arbitrary: p h) auto

lemma dchain_next:
  "dchain f p (us @ x # vs) h t \<Longrightarrow> next_idx (f x) = (case vs of [] \<Rightarrow> UINT32_MAX | v # _ \<Rightarrow> v)"
  by (induction us arbitrary: p h) (auto split: list.splits)

text \<open>A slot put in front of a chain.\<close>

lemma dchain_push:
  assumes ch: "dchain f UINT32_MAX xs h t" and i: "i \<notin> set xs" "i \<noteq> UINT32_MAX" "distinct xs"
    and g: "prev_idx (g i) = UINT32_MAX" "next_idx (g i) = h"
    and old: "\<forall>x\<in>set xs. next_idx (g x) = next_idx (f x) \<and> prev_idx (g x) = (if x = h then i else prev_idx (f x))"
  shows "dchain g UINT32_MAX (i # xs) i (if t = UINT32_MAX then i else t)"
proof (cases xs)
  case Nil
  then show ?thesis using ch i g by simp
next
  case (Cons x ys)
  then have "dchain f x ys (next_idx (f x)) t" "h = x" "t \<noteq> UINT32_MAX"
    using ch dchain_ends(2) [OF ch] dchain_no_max [OF ch] last_in_set [of xs] by (simp_all, metis)
  moreover have "dchain g x ys (next_idx (f x)) t = dchain f x ys (next_idx (f x)) t"
    using old i(3) Cons \<open>h = x\<close> by (intro dchain_cong) auto
  ultimately show ?thesis using ch i g old Cons by simp
qed

text \<open>A slot taken out of a chain.\<close>

lemma dchain_unlink:
  assumes "dchain f p (us @ x # vs) h t" "distinct (us @ x # vs)" "p \<notin> set (us @ x # vs)"
    and "\<forall>y\<in>set (us @ vs). next_idx (g y) = (if y = prev_idx (f x) then next_idx (f x) else next_idx (f y)) \<and>
      prev_idx (g y) = (if y = next_idx (f x) then prev_idx (f x) else prev_idx (f y))"
  shows "dchain g p (us @ vs) (if us = [] then next_idx (f x) else h)
    (if next_idx (f x) = UINT32_MAX then prev_idx (f x) else t)"
  using assms
proof (induction us arbitrary: p h)
  case Nil
  show ?case
  proof (cases vs)
    case Nil
    then show ?thesis using Nil.prems by simp
  next
    case (Cons v ws)
    then have v: "next_idx (f x) = v" "v \<noteq> UINT32_MAX" "prev_idx (f x) = p" "dchain f v ws (next_idx (f v)) t"
      using Nil.prems(1) by auto
    have "dchain g v ws (next_idx (f v)) t = dchain f v ws (next_idx (f v)) t"
      using Nil.prems v Cons by (intro dchain_cong) auto
    moreover have "v \<noteq> p" using Nil.prems(3) Cons by auto
    ultimately show ?thesis using Nil.prems v Cons by simp
  qed
next
  case (Cons u us)
  have u: "h = u" "u \<noteq> UINT32_MAX" "prev_idx (f u) = p" "dchain f u (us @ x # vs) (next_idx (f u)) t"
    using Cons.prems(1) by auto
  have nx: "next_idx (f x) = (case vs of [] \<Rightarrow> UINT32_MAX | v # _ \<Rightarrow> v)"
    and pv: "prev_idx (f x) = (if us = [] then u else last us)"
    using dchain_next [OF u(4)] dchain_prev [OF u(4)] by simp_all
  have "u \<noteq> next_idx (f x)" using nx u(2) Cons.prems(2) by (auto split: list.splits)
  then have "prev_idx (g u) = p" using Cons.prems(4) u(3) by simp
  moreover have "next_idx (g u) = (if us = [] then next_idx (f x) else next_idx (f u))"
    using Cons.prems(2,4) pv by (auto dest: last_in_set)
  moreover have "dchain g u (us @ vs) (if us = [] then next_idx (f x) else next_idx (f u))
      (if next_idx (f x) = UINT32_MAX then prev_idx (f x) else t)"
    using u Cons.prems by (intro Cons.IH) auto
  ultimately show ?case using u by simp
qed

section \<open>Invariant\<close>

definition tables_ok :: "order_book \<Rightarrow> bool" where
  "tables_ok ob \<longleftrightarrow> (\<forall>b. tab_wf (side_table ob b) \<and> tb_bid (side_table ob b) = b)"

definition at_level :: "(u32 \<Rightarrow> order_slot) \<Rightarrow> bool \<Rightarrow> i64 \<Rightarrow> u32 \<Rightarrow> bool" where
  "at_level f b p i \<longleftrightarrow> (s_side (f i) = BUY) = b \<and> s_price (f i) = p"

text \<open>
  A level holds the slots \<open>xs\<close>: it exists when there are any, its chain links them in this order,
  its count is their number and its total the sum of what each contributes (\<open>w\<close>).
\<close>

definition level_ok :: "(u32 \<Rightarrow> order_slot) \<Rightarrow> (u32 \<Rightarrow> u32) \<Rightarrow> u32 list \<Rightarrow> level option \<Rightarrow> bool" where
  "level_ok f w xs lo \<longleftrightarrow> (case lo of None \<Rightarrow> xs = []
     | Some l \<Rightarrow> xs \<noteq> [] \<and> dchain f UINT32_MAX xs (head_idx l) (tail_idx l) \<and>
         lv_count l = of_nat (length xs) \<and> total_qty l = sum_list (map w xs))"

abbreviation level_or_new :: "level option \<Rightarrow> level" where
  "level_or_new lo \<equiv> (case lo of None \<Rightarrow> empty_level | Some l \<Rightarrow> l)"

text \<open>
  The book owns the live slots \<open>L\<close>, newest first; \<open>Os\<close> are the live slots of the other books, \<open>fs\<close>
  the free ones, \<open>k\<close> bounds the index nodes left from below. The index finds exactly the live slots.
\<close>

definition book_inv :: "order_book \<Rightarrow> u32 list \<Rightarrow> u32 set \<Rightarrow> u32 list \<Rightarrow> nat \<Rightarrow> (u32 \<Rightarrow> u32) \<Rightarrow> bool" where
  "book_inv ob L Os fs k w \<longleftrightarrow>
     pool_free_list (ob_pool ob) fs \<and> distinct (L @ fs) \<and> Os \<inter> set (L @ fs) = {} \<and>
     UINT32_MAX \<notin> set (L @ fs) \<union> Os \<and> om_frees (ob_index ob) k \<and>
     (\<forall>r i. map_find (ob_index ob) r = Some i \<longleftrightarrow> i \<in> set L \<union> Os \<and> s_order_ref (slot_of ob i) = r) \<and>
     tables_ok ob \<and> (\<forall>i\<in>set L. ok_price (s_price (slot_of ob i))) \<and>
     (\<forall>b p. ok_price p \<longrightarrow> level_ok (slot_of ob) w (filter (at_level (slot_of ob) b p) L) (tab_find (side_table ob b) p))"

lemma level_okD:
  assumes "level_ok f w xs lo"
  shows "dchain f UINT32_MAX xs (head_idx (level_or_new lo)) (tail_idx (level_or_new lo))"
    and "lv_count (level_or_new lo) = of_nat (length xs)"
    and "total_qty (level_or_new lo) = sum_list (map w xs)" and "lo = None \<longleftrightarrow> xs = []"
  using assms by (auto simp: level_ok_def empty_level_def split: option.splits)

lemma level_ok_cong:
  assumes "\<forall>x\<in>set xs. prev_idx (g x) = prev_idx (f x) \<and> next_idx (g x) = next_idx (f x) \<and> v x = w x"
  shows "level_ok g v xs lo = level_ok f w xs lo"
proof -
  have "dchain g UINT32_MAX xs h t = dchain f UINT32_MAX xs h t" for h t
    using assms by (intro dchain_cong) auto
  moreover have "sum_list (map v xs) = sum_list (map w xs)"
    using assms by (intro arg_cong [of _ _ sum_list] map_cong) auto
  ultimately show ?thesis by (cases lo) (simp_all add: level_ok_def)
qed

lemma level_ref_eq:
  assumes "tab_wf t" "ok_price p"
  shows "level_ref t p = level_or_new (tab_find t p)"
proof -
  obtain t' i where r: "tab_index t p = (t', i)" by (cases "tab_index t p")
  then show ?thesis using tab_index_wf [OF assms r] by (simp add: level_ref_def)
qed

lemma side_simps [simp]:
  "side_table (set_side ob b t) c = (if c = b then t else side_table ob c)"
  "side_table (ob\<lparr>ob_pool := p\<rparr>) c = side_table ob c" "side_table (ob\<lparr>ob_index := m\<rparr>) c = side_table ob c"
  "ob_pool (set_side ob b t) = ob_pool ob" "ob_index (set_side ob b t) = ob_index ob"
  by (auto simp: side_table_def set_side_def)

text \<open>A level never holds \<open>2 ^ 32\<close> slots, so its count does not wrap.\<close>

lemma slots_below:
  assumes "distinct (xs :: u32 list)" "UINT32_MAX \<notin> set xs"
  shows "length xs < 2 ^ 32"
proof -
  have "set xs \<subset> UNIV" using assms(2) by blast
  then have "card (set xs) < card (UNIV :: u32 set)" by (rule psubset_card_mono [OF finite])
  moreover have "card (UNIV :: u32 set) = 2 ^ 32" by (simp only: card_word) simp
  ultimately show ?thesis unfolding distinct_card [OF assms(1)] by (simp only:)
qed

lemma count_zero:
  assumes "distinct (xs :: u32 list)" "UINT32_MAX \<notin> set xs"
  shows "(of_nat (length xs) = (0 :: u32)) \<longleftrightarrow> xs = []"
proof -
  have "unat (of_nat (length xs) :: u32) = length xs"
    using slots_below [OF assms] by (simp add: unat_of_nat take_bit_nat_eq_self)
  then have "(of_nat (length xs) = (0 :: u32)) \<longleftrightarrow> length xs = 0" by (simp add: unat_eq_zero [symmetric])
  then show ?thesis by simp
qed

lemma view_eq_fields:
  "view_of s = view_of s' \<Longrightarrow> s_order_ref s = s_order_ref s' \<and> s_side s = s_side s' \<and> s_price s = s_price s' \<and>
    s_shares s = s_shares s' \<and> s_remaining s = s_remaining s' \<and> s_sequence s = s_sequence s'"
  by (simp add: view_of_def)

lemma at_level_view: "view_of (g i) = view_of (f i) \<Longrightarrow> at_level g b p i = at_level f b p i"
  by (simp add: at_level_def view_of_def)

lemma head_in:
  assumes "dchain f UINT32_MAX xs h t" "h \<noteq> UINT32_MAX"
  shows "h \<in> set xs"
  using assms by (cases xs) auto

section \<open>Adding an order\<close>

lemma book_add_none:
  assumes "book_inv ob L Os [] k w"
  shows "book_add ob r sd px q sq = (ob, UINT32_MAX)"
  using assms pool.alloc_none [of "ob_pool ob"] by (simp add: book_add_def book_inv_def)

lemma book_add_inv:
  assumes inv: "book_inv ob L Os (i # fs) (Suc k) w" and new: "map_find (ob_index ob) r = None"
    and px: "ok_price px" and add: "book_add ob r sd px q sq = (ob', j)"
  shows "j = i" and "book_inv ob' (i # L) Os fs k (w(i := to_u32 q))"
    and "view_of (slot_of ob' i) = \<lparr>v_ref = r, v_side = sd, v_price = px, v_shares = q, v_remaining = q, v_sequence = sq\<rparr>"
    and "x \<noteq> i \<Longrightarrow> view_of (slot_of ob' x) = view_of (slot_of ob x)"
    and "x \<notin> set (i # L) \<Longrightarrow> slot_of ob' x = slot_of ob x"
proof -
  let ?b = "sd = BUY"
  let ?f = "slot_of ob" and ?g = "slot_of ob'"
  let ?xs = "filter (at_level ?f ?b px) L"
  let ?t = "side_table ob ?b"
  let ?l = "level_or_new (tab_find ?t px)"
  let ?h = "head_idx ?l"
  obtain pl where pl: "pool_alloc (ob_pool ob) = (pl, Some i)" "pool_free_list pl fs"
    using pool.alloc_some [of "ob_pool ob" i fs] inv by (auto simp: book_inv_def)
  have at: "pool_at pl x = ?f x" for x using pool_alloc_at [OF pl(1)] .
  have i: "i \<notin> set L" "i \<notin> Os" "i \<notin> set fs" "i \<noteq> UINT32_MAX" "distinct L"
    using inv by (auto simp: book_inv_def)
  have tab: "tab_wf (side_table ob c)" "tb_bid (side_table ob c) = c" for c
    using inv by (auto simp: book_inv_def tables_ok_def)
  have lvl: "level_ok ?f w ?xs (tab_find ?t px)" using inv px by (simp add: book_inv_def)
  note l = level_okD [OF lvl]
  have href: "head_idx (level_ref ?t px) = ?h" using level_ref_eq [OF tab(1) px] by simp
  have hi: "?h \<noteq> i" using head_in [OF l(1)] i by auto
  let ?node = "\<lparr>s_order_ref = r, s_side = sd, s_price = px, s_shares = q, s_remaining = q, s_sequence = sq,
    prev_idx = UINT32_MAX, next_idx = ?h\<rparr>"
  let ?upd = "\<lambda>l. \<lparr>head_idx = i, tail_idx = (if tail_idx l = UINT32_MAX then i else tail_idx l),
      lv_count = lv_count l + 1, total_qty = total_qty l + to_u32 q\<rparr>"
  let ?t' = "tab_upd ?t px ?upd"
  have res: "j = i" "side_table ob' c = (if c = ?b then ?t' else side_table ob c)"
    "ob_index ob' = map_insert (ob_index ob) r i" "pool_free_list (ob_pool ob') fs" for c
    using add by (auto simp: book_add_def pl Let_def)
  have slot: "?g x = (if x = i then ?node else if x = ?h \<and> ?h \<noteq> UINT32_MAX then (?f x)\<lparr>prev_idx := i\<rparr> else ?f x)" for x
    using add hi by (auto simp: book_add_def pl Let_def href pool_at_set at)
  show "j = i" by (fact res)
  show "view_of (?g i) = \<lparr>v_ref = r, v_side = sd, v_price = px, v_shares = q, v_remaining = q, v_sequence = sq\<rparr>"
    by (simp add: slot view_of_def)
  have vw: "view_of (?g x) = view_of (?f x)" if "x \<noteq> i" for x
    using that by (simp add: slot view_of_def)
  then show "x \<noteq> i \<Longrightarrow> view_of (?g x) = view_of (?f x)" .
  show "x \<notin> set (i # L) \<Longrightarrow> ?g x = ?f x" using head_in [OF l(1)] by (auto simp: slot)
  have room: "om_room (ob_index ob) r" using inv frees_room by (auto simp: book_inv_def)
  have "om_frees (ob_index ob) (Suc k)" using inv by (simp add: book_inv_def)
  note mi = map_insert_spec [OF this new, of i]
  have frees: "om_frees (ob_index ob') k" using mi by (simp add: res)
  have find: "map_find (ob_index ob') r' = (if r' = r then Some i else map_find (ob_index ob) r')" for r'
    using mi room by (simp add: res)
  have idx: "map_find (ob_index ob') r' = Some x \<longleftrightarrow> x \<in> set (i # L) \<union> Os \<and> s_order_ref (?g x) = r'" for r' x
  proof (cases "x = i")
    case True
    have "map_find (ob_index ob) r' \<noteq> Some i" using inv i by (auto simp: book_inv_def)
    then show ?thesis using True by (auto simp: find slot)
  next
    case False
    have old: "map_find (ob_index ob) r' = Some x \<longleftrightarrow> x \<in> set L \<union> Os \<and> s_order_ref (?f x) = r'" for r'
      using inv by (simp add: book_inv_def)
    have "s_order_ref (?g x) = s_order_ref (?f x)" using False by (simp add: slot)
    moreover have "s_order_ref (?f x) \<noteq> r" if "x \<in> set L \<union> Os" using old [of r] that new by auto
    ultimately show ?thesis using False old [of r'] by (auto simp: find)
  qed
  note up = tab_upd_wf [OF tab(1) [of ?b] px, of ?upd]
  have tabs: "tables_ok ob'" using up tab by (simp add: tables_ok_def res)
  have prices: "\<forall>x\<in>set (i # L). ok_price (s_price (?g x))"
    using inv px by (auto simp: slot book_inv_def)
  have flt: "filter (at_level ?g c p) (i # L) = (if c = ?b \<and> p = px then i # ?xs else filter (at_level ?f c p) L)" for c p
  proof -
    have "filter (at_level ?g c p) L = filter (at_level ?f c p) L"
      using i(1) by (intro filter_cong refl at_level_view vw) auto
    moreover have "at_level ?g c p i \<longleftrightarrow> c = ?b \<and> p = px" by (auto simp: at_level_def slot)
    ultimately show ?thesis by auto
  qed
  have mine: "level_ok ?g (w(i := to_u32 q)) (i # ?xs) (tab_find ?t' px)"
  proof -
    have find': "tab_find ?t' px = Some (?upd ?l)" using up px by simp
    have ch: "dchain ?g UINT32_MAX (i # ?xs) i (if tail_idx ?l = UINT32_MAX then i else tail_idx ?l)"
      using l(1) i dchain_no_max [OF l(1)] by (intro dchain_push) (auto simp: slot)
    have "i \<notin> set ?xs" using i by simp
    then have sum: "sum_list (map (w(i := to_u32 q)) (i # ?xs)) = total_qty ?l + to_u32 q"
      by (simp add: l(3) map_fun_upd add.commute del: fun_upd_apply) simp
    have "level_ok ?g (w(i := to_u32 q)) (i # ?xs) (Some (?upd ?l))"
      unfolding level_ok_def option.case sum using ch l(2) by simp
    then show ?thesis by (simp only: find')
  qed
  have levels: "level_ok ?g (w(i := to_u32 q)) (filter (at_level ?g c p) (i # L)) (tab_find (side_table ob' c) p)"
    if p: "ok_price p" for c p
  proof (cases "c = ?b \<and> p = px")
    case True
    then show ?thesis using mine flt [of c p] res(2) [of c] by simp
  next
    case False
    have old: "level_ok ?f w (filter (at_level ?f c p) L) (tab_find (side_table ob c) p)"
      using inv p by (simp add: book_inv_def)
    have "tab_find (side_table ob' c) p = tab_find (side_table ob c) p"
      using False up p by (auto simp: res)
    moreover have "?h \<notin> set (filter (at_level ?f c p) L)" if "?h \<noteq> UINT32_MAX"
      using head_in [OF l(1) that] False by (auto simp: at_level_def)
    then have "level_ok ?g (w(i := to_u32 q)) (filter (at_level ?f c p) L) lo =
        level_ok ?f w (filter (at_level ?f c p) L) lo" for lo
      using i by (intro level_ok_cong) (auto simp: slot)
    ultimately show ?thesis using old False flt [of c p] by auto
  qed
  show "book_inv ob' (i # L) Os fs k (w(i := to_u32 q))"
    unfolding book_inv_def using inv res(4) frees idx tabs prices levels i by (auto simp: book_inv_def)
qed

section \<open>Removing an order\<close>

text \<open>The links of every slot after \<open>unlink_and_free\<close>.\<close>

lemma unlink_slots:
  assumes "prev_idx (slot_of ob i) \<noteq> i"
  shows "slot_of (unlink_and_free ob i) x =
    (slot_of ob x)\<lparr>next_idx := (if x = prev_idx (slot_of ob i) \<and> x \<noteq> UINT32_MAX then next_idx (slot_of ob i)
                       else next_idx (slot_of ob x)),
           prev_idx := (if x = next_idx (slot_of ob i) \<and> x \<noteq> UINT32_MAX then prev_idx (slot_of ob i)
                       else prev_idx (slot_of ob x))\<rparr>"
  using assms by (simp add: unlink_and_free_def Let_def pool_at_set)

lemma unlink_other:
  fixes ob i
  assumes "prev_idx (slot_of ob i) \<noteq> i"
  defines "b \<equiv> (s_side (slot_of ob i) = BUY)" and "px \<equiv> s_price (slot_of ob i)"
    and "upd \<equiv> \<lambda>l. \<lparr>head_idx = (if prev_idx (slot_of ob i) \<noteq> UINT32_MAX then head_idx l else next_idx (slot_of ob i)),
                 tail_idx = (if next_idx (slot_of ob i) \<noteq> UINT32_MAX then tail_idx l else prev_idx (slot_of ob i)),
                 lv_count = lv_count l - 1, total_qty = total_qty l - to_u32 (s_shares (slot_of ob i))\<rparr>"
  defines "t \<equiv> tab_upd (side_table ob b) px upd"
  shows "side_table (unlink_and_free ob i) c =
      (if c = b then if lv_count (level_ref t px) = 0 then tab_erase t px else t else side_table ob c)"
    and "ob_index (unlink_and_free ob i) = ob_index ob"
    and "pool_free_list (ob_pool ob) fs \<Longrightarrow> i \<notin> set fs \<Longrightarrow> i \<noteq> UINT32_MAX \<Longrightarrow>
      pool_free_list (ob_pool (unlink_and_free ob i)) (i # fs)"
proof -
  show "side_table (unlink_and_free ob i) c =
      (if c = b then if lv_count (level_ref t px) = 0 then tab_erase t px else t else side_table ob c)"
    using assms(1) not_sym [OF assms(1)]
    by (simp add: unlink_and_free_def Let_def t_def upd_def b_def px_def pool_at_set cong: if_cong)
  show "ob_index (unlink_and_free ob i) = ob_index ob"
    by (simp add: unlink_and_free_def Let_def)
  show "pool_free_list (ob_pool (unlink_and_free ob i)) (i # fs)"
    if "pool_free_list (ob_pool ob) fs" "i \<notin> set fs" "i \<noteq> UINT32_MAX"
    using that by (auto simp: unlink_and_free_def Let_def intro!: pool.release_free)
qed

lemma filter_neq_split:
  "distinct (us @ i # vs) \<Longrightarrow> filter (\<lambda>x. x \<noteq> i) (us @ i # vs) = us @ vs"
  by (induction us) (auto intro!: filter_True)

lemma book_remove_inv:
  assumes inv: "book_inv ob L Os fs k w" and i: "i \<in> set L" "w i = to_u32 (s_shares (slot_of ob i))"
    and r: "s_order_ref (slot_of ob i) = r"
  defines "ob' \<equiv> fst (book_remove ob r)"
  shows "snd (book_remove ob r)" and "book_inv ob' (filter (\<lambda>x. x \<noteq> i) L) Os (i # fs) k w"
    and "view_of (slot_of ob' x) = view_of (slot_of ob x)"
    and "x \<notin> set L \<Longrightarrow> slot_of ob' x = slot_of ob x"
proof -
  let ?f = "slot_of ob" and ?g = "slot_of ob'"
  let ?b = "s_side (?f i) = BUY" and ?px = "s_price (?f i)"
  let ?xs = "filter (at_level ?f ?b ?px) L"
  let ?L = "filter (\<lambda>x. x \<noteq> i) L"
  let ?t = "side_table ob ?b"
  let ?l = "level_or_new (tab_find ?t ?px)"
  have find: "map_find (ob_index ob) r = Some i" using inv i(1) r by (simp add: book_inv_def)
  then show "snd (book_remove ob r)" by (simp add: book_remove_def Let_def)
  have ob': "ob' = (unlink_and_free ob i)\<lparr>ob_index := map_erase (ob_index (unlink_and_free ob i)) r\<rparr>"
    using find by (simp add: ob'_def book_remove_def Let_def)
  have dL: "distinct L" "i \<notin> set fs" "i \<noteq> UINT32_MAX" "UINT32_MAX \<notin> set L"
    using inv i(1) by (auto simp: book_inv_def)
  have tab: "tab_wf (side_table ob c)" "tb_bid (side_table ob c) = c" for c
    using inv by (auto simp: book_inv_def tables_ok_def)
  have px: "ok_price ?px" using inv i(1) by (simp add: book_inv_def)
  have lvl: "level_ok ?f w ?xs (tab_find ?t ?px)" using inv px by (simp add: book_inv_def)
  note l = level_okD [OF lvl]
  have "i \<in> set ?xs" using i(1) by (simp add: at_level_def)
  then obtain us vs where xs: "?xs = us @ i # vs" by (meson split_list)
  have dxs: "distinct (us @ i # vs)" using dL(1) xs [symmetric] by simp
  note ch = l(1) [unfolded xs]
  have pv: "prev_idx (?f i) = (if us = [] then UINT32_MAX else last us)"
    and nx: "next_idx (?f i) = (case vs of [] \<Rightarrow> UINT32_MAX | v # _ \<Rightarrow> v)"
    using dchain_prev [OF ch] dchain_next [OF ch] by simp_all
  have sub: "set us \<subseteq> set ?xs" "set vs \<subseteq> set ?xs" unfolding xs by auto
  have pin: "prev_idx (?f i) = UINT32_MAX \<or> prev_idx (?f i) \<in> set ?xs"
    using pv subsetD [OF sub(1) last_in_set] by (cases "us = []") (simp_all only: if_True if_False simp_thms)
  have nin: "next_idx (?f i) = UINT32_MAX \<or> next_idx (?f i) \<in> set ?xs"
    using nx sub(2) by (cases vs) auto
  have self: "prev_idx (?f i) \<noteq> i" using pv dxs dL(3) last_in_set [of us] by (auto split: if_splits)
  note slot = unlink_slots [OF self]
  have g: "?g x = slot_of (unlink_and_free ob i) x" for x by (simp add: ob')
  show vw: "view_of (?g x) = view_of (?f x)" for x by (simp add: g slot view_of_def)
  show "x \<notin> set L \<Longrightarrow> ?g x = ?f x" for x
    using pin nin by (cases "x = UINT32_MAX") (auto simp: g slot)
  let ?upd = "\<lambda>l. \<lparr>head_idx = (if prev_idx (?f i) \<noteq> UINT32_MAX then head_idx l else next_idx (?f i)),
                 tail_idx = (if next_idx (?f i) \<noteq> UINT32_MAX then tail_idx l else prev_idx (?f i)),
                 lv_count = lv_count l - 1, total_qty = total_qty l - to_u32 (s_shares (?f i))\<rparr>"
  let ?t1 = "tab_upd ?t ?px ?upd"
  note un = unlink_other [OF self]
  note up = tab_upd_wf [OF tab(1) [of ?b] px, of ?upd]
  have t1: "tab_wf ?t1" "tb_bid ?t1 = ?b" "tab_find ?t1 ?px = Some (?upd ?l)" using up px tab by simp_all
  have refl: "level_ref ?t1 ?px = ?upd ?l" using level_ref_eq [OF t1(1) px] t1(3) by simp
  have cnt: "lv_count (?upd ?l) = of_nat (length (us @ vs))" using l(2) xs by simp
  have zero: "lv_count (?upd ?l) = 0 \<longleftrightarrow> us @ vs = []"
    unfolding cnt using dxs dL(4) sub by (intro count_zero) auto
  let ?t2 = "if us @ vs = [] then tab_erase ?t1 ?px else ?t1"
  have side: "side_table ob' c = (if c = ?b then ?t2 else side_table ob c)" for c
    using un(1) [of c] by (simp only: ob' side_simps refl zero)
  have er: "tab_wf (tab_erase ?t1 ?px) \<and> tb_bid (tab_erase ?t1 ?px) = ?b \<and>
      (\<forall>q. ok_price q \<longrightarrow> tab_find (tab_erase ?t1 ?px) q = (if q = ?px then None else tab_find ?t1 q))"
    using tab_erase_wf [OF t1(1) px] t1(2) by simp
  have tabs: "tables_ok ob'" using er t1 tab unfolding tables_ok_def side by simp
  have free: "pool_free_list (ob_pool ob') (i # fs)"
    using un(3) [of fs] inv dL by (simp add: ob' book_inv_def)
  have "om_frees (ob_index ob) k" using inv by (simp add: book_inv_def)
  note me = map_erase_spec [OF this, of r]
  have index: "ob_index ob' = map_erase (ob_index ob) r" using un(2) by (simp add: ob')
  have idx: "map_find (ob_index ob') r' = Some x \<longleftrightarrow> x \<in> set ?L \<union> Os \<and> s_order_ref (?g x) = r'" for r' x
  proof -
    have old: "map_find (ob_index ob) r' = Some x \<longleftrightarrow> x \<in> set L \<union> Os \<and> s_order_ref (?f x) = r'" for r' x
      using inv by (simp add: book_inv_def)
    have "s_order_ref (?g x) = s_order_ref (?f x)" by (simp add: g slot)
    moreover have "x \<in> set L \<union> Os \<Longrightarrow> s_order_ref (?f x) = r \<Longrightarrow> x = i" using old [of r x] find by simp
    moreover have "i \<notin> Os" using inv i(1) by (auto simp: book_inv_def)
    ultimately show ?thesis using old [of r' x] r me(2) by (auto simp: index)
  qed
  have at: "at_level ?g c p x = at_level ?f c p x" for c p x by (intro at_level_view vw)
  have flt: "filter (at_level ?g c p) ?L = (if c = ?b \<and> p = ?px then us @ vs else filter (at_level ?f c p) L)" for c p
  proof -
    have "filter (at_level ?g c p) ?L = filter (\<lambda>x. x \<noteq> i) (filter (at_level ?f c p) L)"
      unfolding at by (simp add: conj_commute)
    moreover have "filter (\<lambda>x. x \<noteq> i) ?xs = us @ vs" unfolding xs by (rule filter_neq_split [OF dxs])
    moreover have "filter (\<lambda>x. x \<noteq> i) (filter (at_level ?f c p) L) = filter (at_level ?f c p) L"
      if "\<not> (c = ?b \<and> p = ?px)" using that by (intro filter_True) (auto simp: at_level_def)
    ultimately show ?thesis by auto
  qed
  have mine: "level_ok ?g w (us @ vs) (tab_find ?t2 ?px)"
  proof (cases "us @ vs = []")
    case True
    then show ?thesis using er px by (simp add: level_ok_def)
  next
    case False
    have "\<forall>y\<in>set (us @ vs). next_idx (?g y) = (if y = prev_idx (?f i) then next_idx (?f i) else next_idx (?f y)) \<and>
        prev_idx (?g y) = (if y = next_idx (?f i) then prev_idx (?f i) else prev_idx (?f y))"
      using dL(4) sub by (auto simp: g slot)
    moreover have "UINT32_MAX \<notin> set (us @ i # vs)" using dchain_no_max [OF ch] .
    ultimately have "dchain ?g UINT32_MAX (us @ vs) (if us = [] then next_idx (?f i) else head_idx ?l)
        (if next_idx (?f i) = UINT32_MAX then prev_idx (?f i) else tail_idx ?l)"
      using dchain_unlink [OF ch dxs] by blast
    moreover have "us = [] \<longleftrightarrow> prev_idx (?f i) = UINT32_MAX"
      using pv dchain_no_max [OF ch] by (metis Un_iff last_in_set set_append)
    ultimately have "dchain ?g UINT32_MAX (us @ vs) (head_idx (?upd ?l)) (tail_idx (?upd ?l))"
      by (cases "us = []"; cases "next_idx (?f i) = UINT32_MAX") simp_all
    moreover have "total_qty (?upd ?l) = sum_list (map w (us @ vs))"
      using l(3) i(2) unfolding xs by simp
    ultimately have "level_ok ?g w (us @ vs) (Some (?upd ?l))"
      unfolding level_ok_def option.case using cnt False by blast
    then show ?thesis unfolding t1(3) [symmetric] using False by (simp only: if_False)
  qed
  have levels: "level_ok ?g w (filter (at_level ?g c p) ?L) (tab_find (side_table ob' c) p)" if p: "ok_price p" for c p
  proof (cases "c = ?b \<and> p = ?px")
    case True
    then show ?thesis using mine unfolding flt side by simp
  next
    case False
    have old: "level_ok ?f w (filter (at_level ?f c p) L) (tab_find (side_table ob c) p)"
      using inv p by (simp add: book_inv_def)
    have find: "tab_find (side_table ob' c) p = tab_find (side_table ob c) p"
      using False up er p unfolding side by auto
    have "x \<noteq> prev_idx (?f i) \<and> x \<noteq> next_idx (?f i)" if "x \<in> set (filter (at_level ?f c p) L)" for x
      using that pin nin False dL(4) by (auto simp: at_level_def)
    then have "level_ok ?g w (filter (at_level ?f c p) L) lo = level_ok ?f w (filter (at_level ?f c p) L) lo" for lo
      by (intro level_ok_cong) (simp add: g slot)
    then show ?thesis unfolding flt find if_not_P [OF False] using old by simp
  qed
  show "book_inv ob' ?L Os (i # fs) k w"
    unfolding book_inv_def using inv free me(1) index idx tabs levels i(1) dL
    by (auto simp: book_inv_def view_eq_fields [OF vw])
qed

section \<open>Partial cancels and executions\<close>

lemma execute_is_cancel: "book_execute ob r q = book_cancel ob r q"
  by (simp add: book_execute_def book_cancel_def)

lemma sum_list_upd:
  fixes w :: "'a \<Rightarrow> 'b::comm_ring_1"
  assumes "distinct xs" "i \<in> set xs"
  shows "sum_list (map (w(i := w i - d)) xs) = sum_list (map w xs) - d"
  using sum_list_update_at [OF assms, of w "w i - d"] by simp

lemma book_cut_inv:
  assumes inv: "book_inv ob L Os fs k w" and i: "i \<in> set L" and r: "s_order_ref (slot_of ob i) = r"
    and q: "q < s_remaining (slot_of ob i)"
    and rest: "sum_list (map w (filter (at_level (slot_of ob) (s_side (slot_of ob i) = BUY) (s_price (slot_of ob i))) L)) \<noteq> to_u32 q"
  defines "ob' \<equiv> fst (book_cancel ob r q)"
  shows "snd (book_cancel ob r q)" and "book_inv ob' L Os fs k (w(i := w i - to_u32 q))"
    and "slot_of ob' x = (if x = i then (slot_of ob i)\<lparr>s_remaining := s_remaining (slot_of ob i) - q\<rparr> else slot_of ob x)"
proof -
  let ?f = "slot_of ob" and ?g = "slot_of ob'"
  let ?b = "s_side (?f i) = BUY" and ?px = "s_price (?f i)"
  let ?xs = "filter (at_level ?f ?b ?px) L"
  let ?t = "side_table ob ?b"
  let ?l = "level_or_new (tab_find ?t ?px)"
  let ?w = "w(i := w i - to_u32 q)"
  have find: "map_find (ob_index ob) r = Some i" using inv i r by (simp add: book_inv_def)
  then show "snd (book_cancel ob r q)" by (simp add: book_cancel_def Let_def)
  have tab: "tab_wf (side_table ob c)" "tb_bid (side_table ob c) = c" for c
    using inv by (auto simp: book_inv_def tables_ok_def)
  have px: "ok_price ?px" using inv i by (simp add: book_inv_def)
  have lvl: "level_ok ?f w ?xs (tab_find ?t ?px)" using inv px by (simp add: book_inv_def)
  note l = level_okD [OF lvl]
  let ?ob1 = "ob\<lparr>ob_pool := pool_set (ob_pool ob) i (\<lambda>s. s\<lparr>s_remaining := s_remaining s - q\<rparr>)\<rparr>"
  have f1: "slot_of ?ob1 x = (if x = i then (?f i)\<lparr>s_remaining := s_remaining (?f i) - q\<rparr> else ?f x)" for x
    by (simp add: pool_at_set)
  let ?upd = "\<lambda>l. l\<lparr>total_qty := total_qty l - to_u32 q\<rparr>"
  let ?t1 = "tab_upd ?t ?px ?upd"
  note up = tab_upd_wf [OF tab(1) [of ?b] px, of ?upd]
  have t1: "tab_wf ?t1" "tb_bid ?t1 = ?b" "tab_find ?t1 ?px = Some (?upd ?l)" using up px tab by simp_all
  have "level_ref ?t1 ?px = ?upd ?l" using level_ref_eq [OF t1(1) px] t1(3) by simp
  then have nz: "total_qty (level_ref ?t1 ?px) \<noteq> 0" using rest l(3) by simp
  have "s_remaining (?f i) - q \<noteq> 0" using q by auto
  then have ob': "ob' = set_side ?ob1 ?b ?t1"
    using find q nz by (simp add: ob'_def book_cancel_def Let_def dec_level_qty_def pool_at_set not_less_iff_gr_or_eq)
  have g: "?g x = (if x = i then (?f i)\<lparr>s_remaining := s_remaining (?f i) - q\<rparr> else ?f x)" for x
    using f1 by (simp add: ob')
  then show "?g x = (if x = i then (?f i)\<lparr>s_remaining := s_remaining (?f i) - q\<rparr> else ?f x)" .
  have side: "side_table ob' c = (if c = ?b then ?t1 else side_table ob c)" for c by (simp add: ob')
  have at: "at_level ?g c p x = at_level ?f c p x" for c p x by (simp add: at_level_def g)
  have same: "dchain ?g p xs h t = dchain ?f p xs h t" for p xs h t by (intro dchain_cong) (simp add: g)
  have xs: "?xs \<noteq> []" "distinct ?xs" "i \<in> set ?xs"
    using i inv by (auto simp: at_level_def book_inv_def filter_empty_conv)
  have mine: "level_ok ?g ?w ?xs (tab_find ?t1 ?px)"
    unfolding t1(3) level_ok_def option.case same sum_list_upd [OF xs(2,3)]
    using l(1,2,3) xs(1) by simp
  have levels: "level_ok ?g ?w (filter (at_level ?g c p) L) (tab_find (side_table ob' c) p)" if p: "ok_price p" for c p
  proof (cases "c = ?b \<and> p = ?px")
    case True
    then show ?thesis using mine unfolding at side by simp
  next
    case False
    have old: "level_ok ?f w (filter (at_level ?f c p) L) (tab_find (side_table ob c) p)"
      using inv p by (simp add: book_inv_def)
    have find: "tab_find (side_table ob' c) p = tab_find (side_table ob c) p"
      using False up p unfolding side by auto
    have "i \<notin> set (filter (at_level ?f c p) L)" using False by (auto simp: at_level_def)
    then have "level_ok ?g ?w (filter (at_level ?f c p) L) lo = level_ok ?f w (filter (at_level ?f c p) L) lo" for lo
      by (intro level_ok_cong) (auto simp: g)
    then show ?thesis unfolding at find using old by simp
  qed
  have "s_order_ref (?g x) = s_order_ref (?f x)" "s_price (?g x) = s_price (?f x)" for x by (simp_all add: g)
  moreover have "pool_free_list (ob_pool ob') fs" "ob_index ob' = ob_index ob" "tables_ok ob'"
    using inv t1 tab by (simp_all add: ob' book_inv_def tables_ok_def)
  ultimately show "book_inv ob' L Os fs k ?w"
    unfolding book_inv_def using inv levels by (simp add: book_inv_def)
qed

section \<open>The specification: a list of live orders\<close>

datatype book_op =
    BAdd u64 order_side i64 u64 u64
  | BRemove u64
  | BCancel u64 u64
  | BExecute u64 u64
  | BReplace u64 u64 order_side i64 u64 u64

fun book_do :: "order_book \<Rightarrow> book_op \<Rightarrow> order_book" where
  "book_do ob (BAdd r sd px q sq) = fst (book_add ob r sd px q sq)"
| "book_do ob (BRemove r) = fst (book_remove ob r)"
| "book_do ob (BCancel r q) = fst (book_cancel ob r q)"
| "book_do ob (BExecute r q) = fst (book_execute ob r q)"
| "book_do ob (BReplace old new sd px q sq) = fst (book_replace ob old new sd px q sq)"

text \<open>The live orders, newest first.\<close>

definition spec_find :: "order_view list \<Rightarrow> u64 \<Rightarrow> order_view option" where
  "spec_find V r = List.find (\<lambda>v. v_ref v = r) V"

definition spec_del :: "order_view list \<Rightarrow> u64 \<Rightarrow> order_view list" where
  "spec_del V r = filter (\<lambda>v. v_ref v \<noteq> r) V"

definition spec_cut :: "order_view list \<Rightarrow> u64 \<Rightarrow> u64 \<Rightarrow> order_view list" where
  "spec_cut V r q = map (\<lambda>v. if v_ref v = r then v\<lparr>v_remaining := v_remaining v - q\<rparr> else v) V"

definition fresh_view :: "u64 \<Rightarrow> order_side \<Rightarrow> i64 \<Rightarrow> u64 \<Rightarrow> u64 \<Rightarrow> order_view" where
  "fresh_view r sd px q sq =
     \<lparr>v_ref = r, v_side = sd, v_price = px, v_shares = q, v_remaining = q, v_sequence = sq\<rparr>"

fun spec_do :: "order_view list \<Rightarrow> book_op \<Rightarrow> order_view list" where
  "spec_do V (BAdd r sd px q sq) = fresh_view r sd px q sq # V"
| "spec_do V (BRemove r) = spec_del V r"
| "spec_do V (BCancel r q) = spec_cut V r q"
| "spec_do V (BExecute r q) = spec_cut V r q"
| "spec_do V (BReplace old new sd px q sq) = (case spec_find V old of None \<Rightarrow> V
     | Some v \<Rightarrow> fresh_view new sd px q (if sq \<noteq> 0 then sq else v_sequence v) # spec_del V old)"

definition on_level :: "bool \<Rightarrow> i64 \<Rightarrow> order_view \<Rightarrow> bool" where
  "on_level b p v \<longleftrightarrow> (v_side v = BUY) = b \<and> v_price v = p"

definition level_volume :: "order_view list \<Rightarrow> bool \<Rightarrow> i64 \<Rightarrow> nat" where
  "level_volume V b p = sum_list (map (unat \<circ> v_remaining) (filter (on_level b p) V))"

text \<open>
  The operations on which the book is exact: additions and replacements bring a new reference and a
  price that is not a table sentinel, only untouched orders are deleted or replaced, and a cancel or
  an execution leaves part of the order, on a level whose volume fits the 32-bit total.
\<close>

fun regular :: "order_view list \<Rightarrow> book_op \<Rightarrow> bool" where
  "regular V (BAdd r sd px q sq) \<longleftrightarrow> spec_find V r = None \<and> ok_price px"
| "regular V (BRemove r) \<longleftrightarrow> (case spec_find V r of None \<Rightarrow> True | Some v \<Rightarrow> v_remaining v = v_shares v)"
| "regular V (BCancel r q) \<longleftrightarrow> (case spec_find V r of None \<Rightarrow> True
     | Some v \<Rightarrow> q < v_remaining v \<and> level_volume V (v_side v = BUY) (v_price v) < 2 ^ 32)"
| "regular V (BExecute r q) \<longleftrightarrow> (case spec_find V r of None \<Rightarrow> True
     | Some v \<Rightarrow> q < v_remaining v \<and> level_volume V (v_side v = BUY) (v_price v) < 2 ^ 32)"
| "regular V (BReplace old new sd px q sq) \<longleftrightarrow> (case spec_find V old of None \<Rightarrow> True
     | Some v \<Rightarrow> v_remaining v = v_shares v \<and> ok_price px \<and> spec_find (spec_del V old) new = None)"

fun op_refs :: "book_op \<Rightarrow> u64 set" where
  "op_refs (BAdd r sd px q sq) = {r}"
| "op_refs (BRemove r) = {r}"
| "op_refs (BCancel r q) = {r}"
| "op_refs (BExecute r q) = {r}"
| "op_refs (BReplace old new sd px q sq) = {old, new}"

fun adds :: "book_op \<Rightarrow> nat" where
  "adds (BAdd r sd px q sq) = 1"
| "adds (BReplace old new sd px q sq) = 1"
| "adds _ = 0"

section \<open>Refinement\<close>

text \<open>The book represents the orders \<open>V\<close>; each contributes its remaining shares to its level.\<close>

definition book_rep :: "order_book \<Rightarrow> u32 list \<Rightarrow> u32 set \<Rightarrow> u32 list \<Rightarrow> nat \<Rightarrow> order_view list \<Rightarrow> bool" where
  "book_rep ob L Os fs k V \<longleftrightarrow> book_inv ob L Os fs k (\<lambda>i. to_u32 (s_remaining (slot_of ob i))) \<and>
     V = map (\<lambda>i. view_of (slot_of ob i)) L"

lemma book_inv_cong:
  assumes "\<forall>i\<in>set L. v i = w i"
  shows "book_inv ob L Os fs k v = book_inv ob L Os fs k w"
proof -
  have "level_ok f v (filter P L) lo = level_ok f w (filter P L) lo" for f P lo
    using assms by (intro level_ok_cong) simp
  then show ?thesis by (simp add: book_inv_def)
qed

lemma book_inv_fewer: "book_inv ob L Os fs k w \<Longrightarrow> j \<le> k \<Longrightarrow> book_inv ob L Os fs j w"
  by (auto simp: book_inv_def om_frees_def) (meson le_trans)

text \<open>
  What every representation of orders by live slots has in common: the views of the slots \<open>L\<close> are the
  orders, and the index finds exactly the slots of this book and of the others.
\<close>

locale order_rep =
  fixes rep :: "order_book \<Rightarrow> u32 list \<Rightarrow> u32 set \<Rightarrow> u32 list \<Rightarrow> nat \<Rightarrow> order_view list \<Rightarrow> bool"
  assumes views: "rep ob L Os fs k V \<Longrightarrow> V = map (\<lambda>i. view_of (slot_of ob i)) L"
    and index: "rep ob L Os fs k V \<Longrightarrow> map_find (ob_index ob) r = Some i \<longleftrightarrow> i \<in> set L \<union> Os \<and> s_order_ref (slot_of ob i) = r"
    and slots: "rep ob L Os fs k V \<Longrightarrow> distinct (L @ fs) \<and> Os \<inter> set (L @ fs) = {} \<and> UINT32_MAX \<notin> set (L @ fs) \<union> Os"
begin

lemma find:
  assumes rep: "rep ob L Os fs k V" and r: "\<forall>x\<in>Os. s_order_ref (slot_of ob x) \<noteq> r"
  shows "map_find (ob_index ob) r = List.find (\<lambda>i. s_order_ref (slot_of ob i) = r) L"
    and "spec_find V r = map_option (\<lambda>i. view_of (slot_of ob i)) (map_find (ob_index ob) r)"
proof -
  let ?F = "List.find (\<lambda>i. s_order_ref (slot_of ob i) = r) L"
  have idx: "map_find (ob_index ob) r = Some i \<longleftrightarrow> i \<in> set L \<and> s_order_ref (slot_of ob i) = r" for i
    using index [OF rep] r by auto
  show f: "map_find (ob_index ob) r = ?F"
  proof (cases ?F)
    case None
    then have "\<forall>i\<in>set L. s_order_ref (slot_of ob i) \<noteq> r" by (simp add: find_None)
    then show ?thesis using idx None by (cases "map_find (ob_index ob) r") auto
  next
    case (Some i)
    then have "i \<in> set L \<and> s_order_ref (slot_of ob i) = r"
      by (metis (mono_tags, lifting) find_Some_iff nth_mem)
    then show ?thesis using idx [of i] Some by simp
  qed
  have "List.find (\<lambda>v. v_ref v = r) (map (\<lambda>i. view_of (slot_of ob i)) L) = map_option (\<lambda>i. view_of (slot_of ob i)) ?F"
    by (induction L) (auto simp: view_of_def)
  then show "spec_find V r = map_option (\<lambda>i. view_of (slot_of ob i)) (map_find (ob_index ob) r)"
    using views [OF rep] by (simp add: spec_find_def f)
qed

lemma found:
  assumes rep: "rep ob L Os fs k V" and r: "\<forall>x\<in>Os. s_order_ref (slot_of ob x) \<noteq> r"
    and v: "spec_find V r = Some v"
  obtains i where "i \<in> set L" "s_order_ref (slot_of ob i) = r" "v = view_of (slot_of ob i)"
    "map_find (ob_index ob) r = Some i"
proof -
  obtain i where i: "map_find (ob_index ob) r = Some i" "v = view_of (slot_of ob i)"
    using find(2) [OF rep r] v by (cases "map_find (ob_index ob) r") auto
  then have "i \<in> set L \<and> s_order_ref (slot_of ob i) = r"
    using index [OF rep, of r i] r by blast
  then show thesis using that i by blast
qed

lemma get: "rep ob L Os fs k V \<Longrightarrow> \<forall>x\<in>Os. s_order_ref (slot_of ob x) \<noteq> r \<Longrightarrow> book_get ob r = spec_find V r"
  using find(2) [of ob L Os fs k V r] by (simp add: book_get_def split: option.splits)

lemma get_live:
  assumes "rep ob L Os fs k V" "v \<in> set V"
  shows "book_get ob (v_ref v) = Some v"
proof -
  obtain i where "i \<in> set L" "v = view_of (slot_of ob i)" using views [OF assms(1)] assms(2) by auto
  then show ?thesis using index [OF assms(1), of "v_ref v" i] by (simp add: book_get_def view_of_def)
qed

lemma ref_unique:
  assumes "rep ob L Os fs k V" "i \<in> set L" "j \<in> set L" "s_order_ref (slot_of ob i) = s_order_ref (slot_of ob j)"
  shows "i = j"
proof -
  note idx = index [OF assms(1)]
  have "map_find (ob_index ob) (s_order_ref (slot_of ob i)) = Some i" "map_find (ob_index ob) (s_order_ref (slot_of ob j)) = Some j"
    using assms(2,3) by (simp_all only: idx) simp_all
  then have "Some i = Some j" unfolding assms(4) by (rule subst)
  then show ?thesis by simp
qed

lemma ref_iff: "rep ob L Os fs k V \<Longrightarrow> i \<in> set L \<Longrightarrow> s_order_ref (slot_of ob i) = r \<Longrightarrow> j \<in> set L \<Longrightarrow>
  s_order_ref (slot_of ob j) = r \<longleftrightarrow> j = i"
  using ref_unique by blast

lemma del:
  assumes "rep ob L Os fs k V" "i \<in> set L" "s_order_ref (slot_of ob i) = r"
  shows "spec_del V r = map (\<lambda>i. view_of (slot_of ob i)) (filter (\<lambda>x. x \<noteq> i) L)"
proof -
  have "spec_del V r = map (\<lambda>i. view_of (slot_of ob i)) (filter (\<lambda>x. s_order_ref (slot_of ob x) \<noteq> r) L)"
    by (simp add: views [OF assms(1)] spec_del_def filter_map o_def view_of_def)
  also have "filter (\<lambda>x. s_order_ref (slot_of ob x) \<noteq> r) L = filter (\<lambda>x. x \<noteq> i) L"
    using ref_iff [OF assms] by (intro filter_cong) auto
  finally show ?thesis .
qed

lemma drop_live:
  assumes "rep ob L Os fs k V" "i \<in> set L"
  shows "set (filter (\<lambda>x. x \<noteq> i) L) \<union> set (i # fs) = set L \<union> set fs"
    "length (filter (\<lambda>x. x \<noteq> i) L) + length (i # fs) = length L + length fs" "set (filter (\<lambda>x. x \<noteq> i) L) = set L - {i}"
proof -
  obtain us vs where L: "L = us @ i # vs" using assms(2) by (meson split_list)
  have "distinct L" using slots [OF assms(1)] by simp
  then show "length (filter (\<lambda>x. x \<noteq> i) L) + length (i # fs) = length L + length fs"
    using filter_neq_split [of us i vs] L by simp
qed (use assms(2) in auto)

end

interpretation books: order_rep book_rep
  by unfold_locales (simp_all add: book_rep_def book_inv_def)

lemmas rep_find = books.find and rep_found = books.found and rep_ref_unique = books.ref_unique and rep_spec_del = books.del

lemma spec_missing: "spec_find V r = None \<Longrightarrow> spec_del V r = V \<and> spec_cut V r q = V"
  by (auto simp: spec_find_def spec_del_def spec_cut_def find_None filter_id_conv intro!: map_idI)

lemma add_rep:
  fixes q sq :: u64 and sd :: order_side
  assumes rep: "book_rep ob L Os (i # fs) (Suc k) V" and new: "spec_find V r = None" "ok_price px"
    and r: "\<forall>x\<in>Os. s_order_ref (slot_of ob x) \<noteq> r"
  defines "ob' \<equiv> fst (book_add ob r sd px q sq)"
  shows "book_rep ob' (i # L) Os fs k (fresh_view r sd px q sq # V)"
    and "snd (book_add ob r sd px q sq) = i" and "x \<notin> set (i # L) \<Longrightarrow> slot_of ob' x = slot_of ob x"
proof -
  let ?w = "\<lambda>i. to_u32 (s_remaining (slot_of ob i))"
  have inv: "book_inv ob L Os (i # fs) (Suc k) ?w" and V: "V = map (\<lambda>i. view_of (slot_of ob i)) L"
    using rep by (simp_all add: book_rep_def)
  have "map_find (ob_index ob) r = None" using rep_find(2) [OF rep r] new(1) by simp
  note a = book_add_inv [OF inv this new(2) prod.collapse [symmetric, of "book_add ob r sd px q sq"], folded ob'_def]
  show "snd (book_add ob r sd px q sq) = i" by (rule a(1))
  show "x \<notin> set (i # L) \<Longrightarrow> slot_of ob' x = slot_of ob x" by (rule a(5))
  have iL: "i \<notin> set L" using inv by (simp add: book_inv_def)
  have vw: "view_of (slot_of ob' x) = view_of (slot_of ob x)" if "x \<in> set L" for x
    using a(4) [of x] that iL by auto
  have rem: "s_remaining (slot_of ob' i) = q" "\<forall>x\<in>set L. s_remaining (slot_of ob' x) = s_remaining (slot_of ob x)"
    using a(3) vw by (auto simp: view_of_def)
  have "book_inv ob' (i # L) Os fs k (\<lambda>i. to_u32 (s_remaining (slot_of ob' i)))"
    using a(2) by (rule iffD1 [OF book_inv_cong, rotated]) (use rem iL in auto)
  then show "book_rep ob' (i # L) Os fs k (fresh_view r sd px q sq # V)"
    using a(3) vw by (simp add: book_rep_def V fresh_view_def)
qed

lemma remove_rep:
  assumes rep: "book_rep ob L Os fs k V" and r: "\<forall>x\<in>Os. s_order_ref (slot_of ob x) \<noteq> r"
    and v: "spec_find V r = Some v" "v_remaining v = v_shares v"
  defines "ob' \<equiv> fst (book_remove ob r)"
  obtains i where "i \<in> set L" "book_rep ob' (filter (\<lambda>x. x \<noteq> i) L) Os (i # fs) k (spec_del V r)"
    "\<And>x. x \<notin> set L \<Longrightarrow> slot_of ob' x = slot_of ob x"
proof -
  let ?w = "\<lambda>i. to_u32 (s_remaining (slot_of ob i))"
  have inv: "book_inv ob L Os fs k ?w" using rep by (simp add: book_rep_def)
  obtain i where i: "i \<in> set L" "s_order_ref (slot_of ob i) = r" "v = view_of (slot_of ob i)"
    using rep_found [OF rep r v(1)] by blast
  have w: "?w i = to_u32 (s_shares (slot_of ob i))" using v(2) i(3) by (simp add: view_of_def)
  note a = book_remove_inv [OF inv i(1) w i(2), folded ob'_def]
  have vw: "view_of (slot_of ob' x) = view_of (slot_of ob x)" for x by (rule a(3))
  have "book_inv ob' (filter (\<lambda>x. x \<noteq> i) L) Os (i # fs) k (\<lambda>i. to_u32 (s_remaining (slot_of ob' i)))"
    using a(2) view_eq_fields [OF vw] by simp
  then have "book_rep ob' (filter (\<lambda>x. x \<noteq> i) L) Os (i # fs) k (spec_del V r)"
    by (simp add: book_rep_def vw rep_spec_del [OF rep i(1,2)])
  then show thesis using that i(1) a(4) by blast
qed

lemma to_u32_diff: "to_u32 (a - b :: u64) = to_u32 a - to_u32 b"
proof -
  have "to_u32 (of_int k :: u64) = of_int k" for k :: int
    by (simp add: unsigned_of_int word_of_int_eq_iff)
  from this [of "uint a - uint b"] show ?thesis by simp
qed

lemma cut_rep:
  assumes rep: "book_rep ob L Os fs k V" and r: "\<forall>x\<in>Os. s_order_ref (slot_of ob x) \<noteq> r"
    and v: "spec_find V r = Some v" "q < v_remaining v" "level_volume V (v_side v = BUY) (v_price v) < 2 ^ 32"
  defines "ob' \<equiv> fst (book_cancel ob r q)"
  shows "book_rep ob' L Os fs k (spec_cut V r q)" and "x \<notin> set L \<Longrightarrow> slot_of ob' x = slot_of ob x"
proof -
  let ?w = "\<lambda>i. to_u32 (s_remaining (slot_of ob i))"
  have inv: "book_inv ob L Os fs k ?w" and V: "V = map (\<lambda>i. view_of (slot_of ob i)) L"
    using rep by (simp_all add: book_rep_def)
  obtain i where i: "i \<in> set L" "s_order_ref (slot_of ob i) = r" "v = view_of (slot_of ob i)"
    using rep_found [OF rep r v(1)] by blast
  let ?xs = "filter (at_level (slot_of ob) (s_side (slot_of ob i) = BUY) (s_price (slot_of ob i))) L"
  have qi: "q < s_remaining (slot_of ob i)" using v(2) i(3) by (simp add: view_of_def)
  have "filter (on_level (v_side v = BUY) (v_price v)) V = map (\<lambda>i. view_of (slot_of ob i)) ?xs"
  proof -
    have "on_level c p (view_of s) \<longleftrightarrow> (s_side s = BUY) = c \<and> s_price s = p" for c p s
      by (simp add: on_level_def view_of_def)
    then have "on_level c p \<circ> (\<lambda>i. view_of (slot_of ob i)) = at_level (slot_of ob) c p" for c p
      by (auto simp: at_level_def fun_eq_iff)
    then show ?thesis by (simp add: V filter_map i(3)) (simp add: view_of_def)
  qed
  then have vol: "level_volume V (v_side v = BUY) (v_price v) = sum_list (map (\<lambda>i. unat (s_remaining (slot_of ob i))) ?xs)"
    by (simp add: level_volume_def o_def view_of_def)
  have ixs: "i \<in> set ?xs" using i(1) by (simp add: at_level_def)
  have ge: "unat (s_remaining (slot_of ob i)) \<le> sum_list (map (\<lambda>i. unat (s_remaining (slot_of ob i))) ?xs)"
    using ixs by (intro member_le_sum_list) auto
  have "sum_list (map ?w ?xs) = of_nat (sum_list (map (\<lambda>i. unat (s_remaining (slot_of ob i))) ?xs))"
    by (induction L) (simp_all add: of_nat_unat)
  moreover have "unat q < sum_list (map (\<lambda>i. unat (s_remaining (slot_of ob i))) ?xs)"
    using ge qi by (simp add: word_less_nat_alt)
  ultimately have "unat (sum_list (map ?w ?xs)) \<noteq> unat q"
    using v(3) vol by (simp add: unat_of_nat take_bit_nat_eq_self)
  moreover have "unat (to_u32 q) = unat q"
    using \<open>unat q < _\<close> v(3) vol by (simp add: unsigned_ucast_eq take_bit_nat_eq_self)
  ultimately have rest: "sum_list (map ?w ?xs) \<noteq> to_u32 q" by metis
  note a = book_cut_inv [OF inv i(1,2) qi rest, folded ob'_def]
  show "x \<notin> set L \<Longrightarrow> slot_of ob' x = slot_of ob x" using a(3) i(1) by auto
  have sl: "slot_of ob' x = (if x = i then (slot_of ob i)\<lparr>s_remaining := s_remaining (slot_of ob i) - q\<rparr> else slot_of ob x)" for x
    by (rule a(3))
  have "\<forall>j\<in>set L. (?w(i := ?w i - to_u32 q)) j = to_u32 (s_remaining (slot_of ob' j))"
    by (simp add: sl to_u32_diff)
  then have "book_inv ob' L Os fs k (\<lambda>i. to_u32 (s_remaining (slot_of ob' i)))"
    using a(2) by (rule iffD1 [OF book_inv_cong])
  moreover have "spec_cut V r q = map (\<lambda>i. view_of (slot_of ob' i)) L"
  proof -
    have "s_order_ref (slot_of ob j) = r \<longleftrightarrow> j = i" if "j \<in> set L" for j
      using rep_ref_unique [OF rep i(1) that, OF trans [OF i(2) sym]] i(2) by blast
    then show ?thesis by (simp add: spec_cut_def V sl view_of_def)
  qed
  ultimately show "book_rep ob' L Os fs k (spec_cut V r q)" by (simp add: book_rep_def)
qed

text \<open>One operation of the book is one operation of the specification.\<close>

lemma book_step:
  assumes rep: "book_rep ob L Os fs k V" and ok: "regular V op" and k: "adds op \<le> k"
    and room: "adds op \<noteq> 0 \<Longrightarrow> length V < length L + length fs"
    and r: "\<forall>x\<in>Os. s_order_ref (slot_of ob x) \<notin> op_refs op"
  shows "\<exists>L' fs'. book_rep (book_do ob op) L' Os fs' (k - adds op) (spec_do V op) \<and>
    set L' \<union> set fs' = set L \<union> set fs \<and> length L' + length fs' = length L + length fs \<and>
    (\<forall>x. x \<notin> set L \<union> set fs \<longrightarrow> slot_of (book_do ob op) x = slot_of ob x)"
proof -
  have refs: "\<forall>x\<in>Os. s_order_ref (slot_of ob x) \<noteq> q" if "q \<in> op_refs op" for q using r that by auto
  have len: "length V = length L" using rep by (simp add: book_rep_def)
  have dL: "distinct L" using rep by (simp add: book_rep_def book_inv_def)
  have drop: "length (filter (\<lambda>x. x \<noteq> i) L) + 1 = length L" "set (filter (\<lambda>x. x \<noteq> i) L) = set L - {i}"
    if h: "i \<in> set L" for i
  proof -
    obtain us vs where "L = us @ i # vs" using h by (meson split_list)
    then show "length (filter (\<lambda>x. x \<noteq> i) L) + 1 = length L" using dL filter_neq_split [of us i vs] by simp
  qed auto
  have miss: "map_find (ob_index ob) q = None" if "spec_find V q = None" "q \<in> op_refs op" for q
    using rep_find(2) [OF rep refs [OF that(2)]] that(1) by simp
  have keep: ?thesis if "book_do ob op = ob" "spec_do V op = V"
  proof -
    have "book_rep ob L Os fs (k - adds op) V" using rep book_inv_fewer by (auto simp: book_rep_def)
    then show ?thesis unfolding that by blast
  qed
  have cut: ?thesis if b: "book_do ob op = fst (book_cancel ob q n)" "spec_do V op = spec_cut V q n" "q \<in> op_refs op"
    "adds op = 0" and g: "case spec_find V q of None \<Rightarrow> True
      | Some v \<Rightarrow> n < v_remaining v \<and> level_volume V (v_side v = BUY) (v_price v) < 2 ^ 32" for q n
  proof (cases "spec_find V q")
    case None
    then show ?thesis using miss b spec_missing by (intro keep) (simp_all add: book_cancel_def)
  next
    case (Some v)
    note c = cut_rep [OF rep refs [OF b(3)] Some, of n]
    have "book_rep (fst (book_cancel ob q n)) L Os fs k (spec_cut V q n)" using c(1) g Some by simp
    moreover have "slot_of (fst (book_cancel ob q n)) x = slot_of ob x" if "x \<notin> set L" for x
      using c(2) [of x] g Some that by simp
    ultimately show ?thesis unfolding b by (intro exI [of _ L] exI [of _ fs]) simp
  qed
  show ?thesis
  proof (cases op)
    case (BAdd q sd px n sq)
    then obtain i fs' k' where fs: "fs = i # fs'" "k = Suc k'" using room k len by (cases fs; cases k) auto
    have "spec_find V q = None" "ok_price px" "\<forall>x\<in>Os. s_order_ref (slot_of ob x) \<noteq> q" using ok refs BAdd by auto
    note a = add_rep [OF rep [unfolded fs] this]
    show ?thesis by (intro exI [of _ "i # L"] exI [of _ fs']) (use a fs BAdd in auto)
  next
    case (BRemove q)
    show ?thesis
    proof (cases "spec_find V q")
      case None
      then show ?thesis using BRemove miss spec_missing by (intro keep) (simp_all add: book_remove_def)
    next
      case (Some v)
      have rem: "v_remaining v = v_shares v" using ok BRemove Some by simp
      have rq: "\<forall>x\<in>Os. s_order_ref (slot_of ob x) \<noteq> q" using refs BRemove by simp
      obtain i where i: "i \<in> set L" "book_rep (fst (book_remove ob q)) (filter (\<lambda>x. x \<noteq> i) L) Os (i # fs) k (spec_del V q)"
          "\<And>x. x \<notin> set L \<Longrightarrow> slot_of (fst (book_remove ob q)) x = slot_of ob x"
        using remove_rep [OF rep rq Some rem] by blast
      have "set (filter (\<lambda>x. x \<noteq> i) L) \<union> set (i # fs) = set L \<union> set fs"
        "length (filter (\<lambda>x. x \<noteq> i) L) + length (i # fs) = length L + length fs"
        using drop [OF i(1)] i(1) by auto
      moreover have "\<forall>x. x \<notin> set L \<union> set fs \<longrightarrow> slot_of (fst (book_remove ob q)) x = slot_of ob x" using i(3) by simp
      moreover have "book_do ob op = fst (book_remove ob q)" "spec_do V op = spec_del V q" "k - adds op = k"
        by (simp_all add: BRemove)
      ultimately show ?thesis using i(2) by metis
    qed
  next
    case (BCancel q n)
    then show ?thesis using ok by (intro cut [of q n]) simp_all
  next
    case (BExecute q n)
    then show ?thesis using ok by (intro cut [of q n]) (simp_all add: execute_is_cancel)
  next
    case (BReplace old new sd px n sq)
    show ?thesis
    proof (cases "spec_find V old")
      case None
      then show ?thesis using BReplace miss by (intro keep) (simp_all add: book_replace_def)
    next
      case (Some v)
      have g: "v_remaining v = v_shares v" "ok_price px" "spec_find (spec_del V old) new = None"
        using ok BReplace Some by simp_all
      have ro: "\<forall>x\<in>Os. s_order_ref (slot_of ob x) \<noteq> old" using refs BReplace by simp
      obtain j where j: "map_find (ob_index ob) old = Some j" "v = view_of (slot_of ob j)"
        using rep_found [OF rep ro Some] by blast
      let ?ob1 = "fst (book_remove ob old)"
      let ?sq = "if sq \<noteq> 0 then sq else v_sequence v"
      obtain i where i: "i \<in> set L" "book_rep ?ob1 (filter (\<lambda>x. x \<noteq> i) L) Os (i # fs) k (spec_del V old)"
          "\<And>x. x \<notin> set L \<Longrightarrow> slot_of ?ob1 x = slot_of ob x"
        using remove_rep [OF rep ro Some g(1)] by blast
      obtain k' where k': "k = Suc k'" using k BReplace by (cases k) auto
      have os: "Os \<inter> set L = {}" using rep by (auto simp: book_rep_def book_inv_def)
      have rn: "\<forall>x\<in>Os. s_order_ref (slot_of ?ob1 x) \<noteq> new"
      proof
        fix x assume "x \<in> Os"
        then have "slot_of ?ob1 x = slot_of ob x" "s_order_ref (slot_of ob x) \<noteq> new" using os i(3) refs BReplace by auto
        then show "s_order_ref (slot_of ?ob1 x) \<noteq> new" by simp
      qed
      note a = add_rep [OF i(2) [unfolded k'] g(3,2) rn, where sd = sd and q = n and sq = ?sq]
      have imax: "i \<noteq> UINT32_MAX" using rep i(1) by (auto simp: book_rep_def book_inv_def)
      have bd: "book_do ob op = fst (book_add ?ob1 new sd px n ?sq)"
        using j by (simp add: BReplace book_replace_def view_of_def split: prod.splits)
      have sd: "spec_do V op = fresh_view new sd px n ?sq # spec_del V old" using Some by (simp add: BReplace)
      have ad: "k - adds op = k'" using k' BReplace by simp
      have "\<forall>x. x \<notin> set L \<union> set fs \<longrightarrow> slot_of (fst (book_add ?ob1 new sd px n ?sq)) x = slot_of ob x"
      proof (intro allI impI)
        fix x assume "x \<notin> set L \<union> set fs"
        then have "x \<notin> set L" "x \<notin> set (i # filter (\<lambda>x. x \<noteq> i) L)" using i(1) by auto
        then show "slot_of (fst (book_add ?ob1 new sd px n ?sq)) x = slot_of ob x"
          using trans [OF a(3) i(3)] by blast
      qed
      moreover have "set (i # filter (\<lambda>x. x \<noteq> i) L) \<union> set fs = set L \<union> set fs"
        "length (i # filter (\<lambda>x. x \<noteq> i) L) + length fs = length L + length fs"
        using drop [OF i(1)] i(1) by auto
      ultimately show ?thesis unfolding bd sd ad using a(1) by metis
    qed
  qed
qed

section \<open>Runs and queries\<close>

text \<open>Another book keeps its orders: its slots are not touched, and the index still finds them.\<close>

lemma other_book:
  assumes old: "book_rep ox Lx Ox fs k Vx"
    and new: "book_rep ob L Os fs' k' V" and fr: "\<forall>x\<in>set Lx. slot_of ob x = slot_of ox x"
    and dis: "set Lx \<inter> set fs' = {}" and all: "set Lx \<union> Ox' = set L \<union> Os" "set Lx \<inter> Ox' = {}"
  shows "book_rep (ox\<lparr>ob_pool := ob_pool ob, ob_index := ob_index ob\<rparr>) Lx Ox' fs' k' Vx"
proof -
  let ?o = "ox\<lparr>ob_pool := ob_pool ob, ob_index := ob_index ob\<rparr>"
  have side: "side_table ?o b = side_table ox b" for b by (simp add: side_table_def)
  have n: "pool_free_list (ob_pool ob) fs'" "distinct fs'" "Os \<inter> set fs' = {}" "set L \<inter> set fs' = {}"
    "UINT32_MAX \<notin> set (L @ fs') \<union> Os" "om_frees (ob_index ob) k'"
    "\<And>r i. map_find (ob_index ob) r = Some i \<longleftrightarrow> i \<in> set L \<union> Os \<and> s_order_ref (slot_of ob i) = r"
    using new by (auto simp: book_rep_def book_inv_def)
  have x: "distinct Lx" "tables_ok ox" "\<forall>i\<in>set Lx. ok_price (s_price (slot_of ox i))" "Vx = map (\<lambda>i. view_of (slot_of ox i)) Lx"
    "\<And>b p. ok_price p \<Longrightarrow> level_ok (slot_of ox) (\<lambda>i. to_u32 (s_remaining (slot_of ox i)))
      (filter (at_level (slot_of ox) b p) Lx) (tab_find (side_table ox b) p)"
    using old by (auto simp: book_rep_def book_inv_def)
  have lvl: "level_ok (slot_of ob) (\<lambda>i. to_u32 (s_remaining (slot_of ob i)))
      (filter (at_level (slot_of ob) b p) Lx) (tab_find (side_table ox b) p)" if "ok_price p" for b p
  proof -
    have "filter (at_level (slot_of ob) b p) Lx = filter (at_level (slot_of ox) b p) Lx"
      using fr by (intro filter_cong refl at_level_view) simp
    moreover have "level_ok (slot_of ob) (\<lambda>i. to_u32 (s_remaining (slot_of ob i))) (filter P Lx) lo =
        level_ok (slot_of ox) (\<lambda>i. to_u32 (s_remaining (slot_of ox i))) (filter P Lx) lo" for P lo
      using fr by (intro level_ok_cong) simp
    ultimately show ?thesis using x(5) [OF that, of b] by simp
  qed
  have "Ox' \<inter> set fs' = {}" "UINT32_MAX \<notin> set (Lx @ fs') \<union> Ox'" using n(3-5) all(1) by auto
  then show ?thesis
    unfolding book_rep_def book_inv_def side
    using n(1,2,6) n(7) [folded all(1)] x(1-4) lvl dis all(2) fr by (auto simp: tables_ok_def side)
qed

text \<open>A run of admissible operations on a book of at most \<open>c\<close> orders.\<close>

fun run_ok :: "(order_view list \<Rightarrow> book_op \<Rightarrow> bool) \<Rightarrow> (order_view list \<Rightarrow> book_op \<Rightarrow> order_view list) \<Rightarrow> nat \<Rightarrow>
    order_view list \<Rightarrow> book_op list \<Rightarrow> bool" where
  "run_ok ok act c V [] \<longleftrightarrow> True"
| "run_ok ok act c V (op # ops) \<longleftrightarrow>
     ok V op \<and> (adds op \<noteq> 0 \<longrightarrow> length V < c) \<and> run_ok ok act c (act V op) ops"

abbreviation regular_run :: "nat \<Rightarrow> order_view list \<Rightarrow> book_op list \<Rightarrow> bool" where
  "regular_run \<equiv> run_ok regular spec_do"

text \<open>
  The contract between the book and its clients: an admissible operation (\<open>ok\<close>) changes the orders as
  the specification (\<open>act\<close>) says, touches only its own slots and the free ones, and so the orders of
  another book stay as they are.
\<close>

locale order_tracker = order_rep rep
  for rep :: "order_book \<Rightarrow> u32 list \<Rightarrow> u32 set \<Rightarrow> u32 list \<Rightarrow> nat \<Rightarrow> order_view list \<Rightarrow> bool" +
  fixes ok :: "order_view list \<Rightarrow> book_op \<Rightarrow> bool" and act :: "order_view list \<Rightarrow> book_op \<Rightarrow> order_view list"
  assumes step: "\<lbrakk>rep ob L Os fs k V; ok V op; adds op \<le> k; adds op \<noteq> 0 \<Longrightarrow> length V < length L + length fs;
      \<forall>x\<in>Os. s_order_ref (slot_of ob x) \<notin> op_refs op\<rbrakk> \<Longrightarrow>
      \<exists>L' fs'. rep (book_do ob op) L' Os fs' (k - adds op) (act V op) \<and>
        set L' \<union> set fs' = set L \<union> set fs \<and> length L' + length fs' = length L + length fs \<and>
        (\<forall>x. x \<notin> set L \<union> set fs \<longrightarrow> slot_of (book_do ob op) x = slot_of ob x)"
    and frame: "\<lbrakk>rep ox Lx Ox fs k Vx; rep ob L Os fs' k' V; \<forall>x\<in>set Lx. slot_of ob x = slot_of ox x;
      set Lx \<inter> set fs' = {}; set Lx \<union> Ox' = set L \<union> Os; set Lx \<inter> Ox' = {}\<rbrakk> \<Longrightarrow>
      rep (ox\<lparr>ob_pool := ob_pool ob, ob_index := ob_index ob\<rparr>) Lx Ox' fs' k' Vx"
    and start: "\<lbrakk>0 < n; n < 2 ^ 32; 0 < m; m < 2 ^ 32\<rbrakk> \<Longrightarrow>
      rep (new_book (new_pool n) (new_order_map m)) [] {} (map of_nat [0..<n]) m []"
    and act_adds: "length (act V op) \<le> length V + adds op"
begin

lemma run:
  assumes "rep ob L {} fs k V" "run_ok ok act (length L + length fs) V ops" "sum_list (map adds ops) \<le> k"
  shows "\<exists>L' fs' k'. rep (foldl book_do ob ops) L' {} fs' k' (foldl act V ops)"
  using assms
proof (induction ops arbitrary: ob L fs k V)
  case Nil
  then show ?case by auto
next
  case (Cons op ops)
  have "\<exists>L' fs'. rep (book_do ob op) L' {} fs' (k - adds op) (act V op) \<and>
    set L' \<union> set fs' = set L \<union> set fs \<and> length L' + length fs' = length L + length fs \<and>
    (\<forall>x. x \<notin> set L \<union> set fs \<longrightarrow> slot_of (book_do ob op) x = slot_of ob x)"
    using Cons.prems by (intro step) auto
  then obtain L' fs' where s: "rep (book_do ob op) L' {} fs' (k - adds op) (act V op)"
    "length L' + length fs' = length L + length fs" by blast
  show ?case using Cons.IH [OF s(1)] Cons.prems(2,3) s(2) by simp
qed

end

lemma new_book_rep:
  assumes "0 < n" "n < 2 ^ 32" "0 < m" "m < 2 ^ 32"
  shows "book_rep (new_book (new_pool n) (new_order_map m)) [] {} (map of_nat [0..<n]) m []"
proof -
  let ?ob = "new_book (new_pool n) (new_order_map m)"
  note f = new_pool_free [OF assms(1,2)]
  have d: "distinct (map of_nat [0..<n] :: u32 list)" "UINT32_MAX \<notin> set (map of_nat [0..<n] :: u32 list)"
    using f on_stack_no_max unfolding pool_free_list_def ts_free_list_def by blast+
  have side: "side_table ?ob b = new_table b" for b by (simp add: side_table_def new_book_def)
  have tabs: "tables_ok ?ob" using new_table_wf(1) by (simp add: tables_ok_def side) (simp add: new_table_def)
  have none: "tab_find (new_table b) p = None" if "ok_price p" for b p using new_table_wf(2) [of b p] that by blast
  show ?thesis
    unfolding book_rep_def book_inv_def side
    using f d tabs none new_order_map_wf [OF assms(3,4)] by (auto simp: new_book_def level_ok_def)
qed

lemma spec_do_adds: "length (spec_do V op) \<le> length V + adds op"
  by (cases op) (auto simp: spec_del_def spec_cut_def le_SucI split: option.splits)

interpretation books: order_tracker book_rep regular spec_do
  by unfold_locales (rule book_step other_book new_book_rep spec_do_adds; (assumption | simp))+

lemmas book_run = books.run

text \<open>What the queries answer on a specification state.\<close>

definition spec_volume :: "order_view list \<Rightarrow> bool \<Rightarrow> i64 \<Rightarrow> u64" where
  "spec_volume V b p = to_u64 (sum_list (map (\<lambda>v. to_u32 (v_remaining v)) (filter (on_level b p) V)))"

text \<open>\<open>-1\<close> for an empty side, else the price of an order of this side that no order of it beats.\<close>

definition spec_best :: "order_view list \<Rightarrow> bool \<Rightarrow> i64 \<Rightarrow> bool" where
  "spec_best V b x \<longleftrightarrow> (let S = filter (\<lambda>v. (v_side v = BUY) = b) V in
     if S = [] then x = - 1 else x \<in> v_price ` set S \<and> (\<forall>v\<in>set S. \<not> better b (v_price v) x))"

lemma rep_level:
  fixes b :: bool
  assumes rep: "book_rep ob L Os fs k V" and p: "ok_price p"
  defines "xs \<equiv> filter (at_level (slot_of ob) b p) L"
  shows "filter (on_level b p) V = map (\<lambda>i. view_of (slot_of ob i)) xs"
    and "level_ok (slot_of ob) (\<lambda>i. to_u32 (s_remaining (slot_of ob i))) xs (tab_find (side_table ob b) p)"
proof -
  have "on_level b p (view_of s) \<longleftrightarrow> (s_side s = BUY) = b \<and> s_price s = p" for s
    by (simp add: on_level_def view_of_def)
  then have "on_level b p \<circ> (\<lambda>i. view_of (slot_of ob i)) = at_level (slot_of ob) b p"
    by (auto simp: at_level_def fun_eq_iff)
  then show "filter (on_level b p) V = map (\<lambda>i. view_of (slot_of ob i)) xs"
    using rep by (simp add: book_rep_def filter_map xs_def)
  show "level_ok (slot_of ob) (\<lambda>i. to_u32 (s_remaining (slot_of ob i))) xs (tab_find (side_table ob b) p)"
    using rep p by (simp add: book_rep_def book_inv_def xs_def)
qed

lemma rep_volume:
  assumes "book_rep ob L Os fs k V" "ok_price p"
  shows "(case tab_find (side_table ob b) p of None \<Rightarrow> 0 | Some l \<Rightarrow> to_u64 (total_qty l)) = spec_volume V b p"
  using level_okD(3) [OF rep_level(2) [OF assms, of b]] rep_level(1) [OF assms, of b]
  by (auto simp: spec_volume_def view_of_def empty_level_def o_def split: option.splits)

lemma rep_best:
  assumes rep: "book_rep ob L Os fs k V"
  shows "spec_best V b (if tab_empty (side_table ob b) then - 1 else tb_best (side_table ob b))"
proof -
  let ?t = "side_table ob b"
  let ?S = "filter (\<lambda>v. (v_side v = BUY) = b) V"
  have t: "tab_wf ?t" "tb_bid ?t = b" using rep by (simp_all add: book_rep_def book_inv_def tables_ok_def)
  have okp: "ok_price (v_price v)" if "v \<in> set V" for v
    using rep that by (auto simp: book_rep_def book_inv_def view_of_def)
  have lv: "tab_find ?t p \<noteq> None \<longleftrightarrow> p \<in> v_price ` set ?S" if "ok_price p" for p
  proof -
    have "tab_find ?t p = None \<longleftrightarrow> filter (on_level b p) V = []"
      using level_okD(4) [OF rep_level(2) [OF rep that]] rep_level(1) [OF rep that, of b] by simp
    then show ?thesis by (auto simp: filter_empty_conv on_level_def)
  qed
  have fin: "finite {p. ok_price p \<and> tab_find ?t p \<noteq> None}" by (rule finite_subset [OF subset_UNIV]) simp
  have sz: "tab_empty ?t \<longleftrightarrow> {p. ok_price p \<and> tab_find ?t p \<noteq> None} = {}"
    using levels.size_get [OF t(1)] fin by (simp add: tab_empty_def tab_size_def)
  have "tab_empty ?t \<longleftrightarrow> ?S = []"
  proof
    assume "tab_empty ?t"
    then have "p \<notin> v_price ` set ?S" if "ok_price p" for p using sz lv that by blast
    then have "v \<notin> set ?S" for v using okp [of v] by auto
    then show "?S = []" by (cases ?S) auto
  next
    assume "?S = []"
    then show "tab_empty ?t" using sz lv by auto
  qed
  moreover have "tb_best ?t \<in> v_price ` set ?S \<and> (\<forall>v\<in>set ?S. \<not> better b (v_price v) (tb_best ?t))"
    if ne: "\<not> tab_empty ?t"
  proof -
    have "tab_size ?t \<noteq> 0" using ne by (simp add: tab_empty_def tab_size_def)
    note bi = levels.best_in [OF t(1) this]
    have "\<not> better b (v_price v) (tb_best ?t)" if "v \<in> set ?S" for v
    proof -
      have o: "ok_price (v_price v)" using that okp by simp
      have "tab_find ?t (v_price v) \<noteq> None" unfolding lv [OF o] by (rule imageI [OF that])
      from levels.best_extreme [OF t(1) o this] show ?thesis unfolding t(2) by (rule conjunct2)
    qed
    then show ?thesis using bi lv by blast
  qed
  ultimately show ?thesis by (simp add: spec_best_def Let_def)
qed

section \<open>Properties\<close>

text \<open>The book reconstructs the orders: from an empty book over fresh pools, after any sequence
  of additions, deletions, partial cancels, partial executions and replacements that the feed may
  send on untouched orders (\<^const>\<open>regular\<close>), \<open>get\<close> finds exactly the live orders with their
  remaining shares, the volume at every price is the 32-bit sum of what remains there, and the best
  bid and ask are the extreme prices of the live orders, or \<open>-1\<close>.\<close>

theorem book_tracks_orders:
  assumes "0 < n" "n < 2 ^ 32" "0 < m" "m < 2 ^ 32"
    and "regular_run n [] ops" "sum_list (map adds ops) \<le> m"
    and "ob = foldl book_do (new_book (new_pool n) (new_order_map m)) ops" "V = foldl spec_do [] ops"
  shows "book_get ob r = spec_find V r \<and>
    (ok_price p \<longrightarrow> bid_volume_at ob p = spec_volume V True p \<and> ask_volume_at ob p = spec_volume V False p) \<and>
    spec_best V True (best_bid ob) \<and> spec_best V False (best_ask ob)"
proof -
  obtain L fs k where rep: "book_rep ob L {} fs k V"
    using book_run [OF new_book_rep [OF assms(1-4)], of ops] assms(5-8) by auto
  have "book_get ob r = spec_find V r"
    using rep_find(2) [OF rep, of r] by (simp add: book_get_def split: option.splits)
  moreover have "bid_volume_at ob p = spec_volume V True p \<and> ask_volume_at ob p = spec_volume V False p" if "ok_price p"
    using rep_volume [OF rep that, of True] rep_volume [OF rep that, of False]
    by (simp add: bid_volume_at_def ask_volume_at_def side_table_def)
  moreover have "spec_best V True (best_bid ob) \<and> spec_best V False (best_ask ob)"
    using rep_best [OF rep, of True] rep_best [OF rep, of False]
    by (simp add: best_bid_def best_ask_def side_table_def cong: if_cong)
  ultimately show ?thesis by blast
qed

text \<open>A bid and an ask, a second bid at the same price, the first partly executed, the ask replaced.\<close>

definition demo_book_ops :: "book_op list" where
  "demo_book_ops = [BAdd 1 BUY 100 50 1, BAdd 2 SELL 103 20 2, BAdd 3 BUY 100 30 3, BExecute 1 10, BReplace 2 4 SELL 102 25 0]"

theorem book_tracks_orders_witness:
  "\<exists>ob. ob = foldl book_do (new_book (new_pool 8) (new_order_map 8)) demo_book_ops \<and>
    bid_volume_at ob 100 = 70 \<and> best_bid ob = 100 \<and> best_ask ob = 102 \<and> book_get ob 2 = None"
proof -
  let ?V = "foldl spec_do [] demo_book_ops"
  have "regular_run 8 [] demo_book_ops" "sum_list (map adds demo_book_ops) \<le> 8"
    by (simp_all add: demo_book_ops_def spec_find_def spec_del_def spec_cut_def fresh_view_def ok_price_def level_volume_def on_level_def)
  note t = book_tracks_orders [of 8 8 demo_book_ops _ ?V 2 100, OF _ _ _ _ this refl refl]
  have V: "?V = [fresh_view 4 SELL 102 25 2, fresh_view 3 BUY 100 30 3, (fresh_view 1 BUY 100 50 1)\<lparr>v_remaining := 40\<rparr>]"
    by (simp add: demo_book_ops_def spec_find_def spec_del_def spec_cut_def fresh_view_def)
  show ?thesis
    using t by (simp add: V spec_find_def spec_volume_def spec_best_def on_level_def fresh_view_def ok_price_def)
qed

text \<open>The references met on the way from a level's head along \<open>next_idx\<close>; the fuel is the pool's capacity.\<close>

fun walk_level :: "(u32 \<Rightarrow> order_slot) \<Rightarrow> nat \<Rightarrow> u32 \<Rightarrow> u64 list" where
  "walk_level f 0 i = []"
| "walk_level f (Suc n) i = (if i = UINT32_MAX then [] else s_order_ref (f i) # walk_level f n (next_idx (f i)))"

definition level_refs :: "order_book \<Rightarrow> nat \<Rightarrow> bool \<Rightarrow> i64 \<Rightarrow> u64 list" where
  "level_refs ob n b p = (case tab_find (side_table ob b) p of None \<Rightarrow> []
     | Some l \<Rightarrow> walk_level (slot_of ob) n (head_idx l))"

lemma walk_dchain: "dchain f p xs h t \<Longrightarrow> length xs \<le> n \<Longrightarrow> walk_level f n h = map (\<lambda>i. s_order_ref (f i)) xs"
proof (induction xs arbitrary: p h n)
  case Nil
  then show ?case by (cases n) auto
next
  case (Cons x xs)
  then show ?case by (cases n) auto
qed

text \<open>The chain of a price level is well linked after every such run: walking \<open>next_idx\<close> from the
  level's head meets exactly the live orders of this side and price, the newest first, and the
  level's count is their number.\<close>

theorem level_chain_newest_first:
  assumes "0 < n" "n < 2 ^ 32" "0 < m" "m < 2 ^ 32" "ok_price p"
    and "regular_run n [] ops" "sum_list (map adds ops) \<le> m"
    and "ob = foldl book_do (new_book (new_pool n) (new_order_map m)) ops" "V = foldl spec_do [] ops"
    and "length V \<le> k"
  shows "level_refs ob k b p = map v_ref (filter (on_level b p) V) \<and>
    (case tab_find (side_table ob b) p of None \<Rightarrow> filter (on_level b p) V = []
     | Some l \<Rightarrow> lv_count l = of_nat (length (filter (on_level b p) V)))"
proof -
  obtain L fs j where rep: "book_rep ob L {} fs j V"
    using book_run [OF new_book_rep [OF assms(1-4)], of ops] assms(6-9) by auto
  let ?xs = "filter (at_level (slot_of ob) b p) L"
  note l = level_okD [OF rep_level(2) [OF rep assms(5), of b]] and f = rep_level(1) [OF rep assms(5), of b]
  have "length ?xs \<le> length V" using rep by (simp add: book_rep_def)
  then have w: "walk_level (slot_of ob) k (head_idx (level_or_new (tab_find (side_table ob b) p))) =
      map (\<lambda>i. s_order_ref (slot_of ob i)) ?xs"
    using walk_dchain [OF l(1)] assms(10) by simp
  have r: "map (\<lambda>i. s_order_ref (slot_of ob i)) ?xs = map v_ref (filter (on_level b p) V)"
    by (simp add: f o_def view_of_def)
  show ?thesis
  proof (cases "tab_find (side_table ob b) p")
    case None
    then show ?thesis using l(4) f by (simp add: level_refs_def)
  next
    case (Some lv)
    then show ?thesis using w r l(2) f by (simp add: level_refs_def)
  qed
qed

theorem level_chain_newest_first_witness:
  "level_refs (foldl book_do (new_book (new_pool 8) (new_order_map 8)) demo_book_ops) 8 True 100 = [3, 1]"
proof -
  let ?V = "foldl spec_do [] demo_book_ops"
  have "regular_run 8 [] demo_book_ops" "sum_list (map adds demo_book_ops) \<le> 8"
    by (simp_all add: demo_book_ops_def spec_find_def spec_del_def spec_cut_def fresh_view_def ok_price_def level_volume_def on_level_def)
  note t = level_chain_newest_first [of 8 8 100 demo_book_ops _ ?V 8 True, OF _ _ _ _ _ this refl refl]
  have V: "?V = [fresh_view 4 SELL 102 25 2, fresh_view 3 BUY 100 30 3, (fresh_view 1 BUY 100 50 1)\<lparr>v_remaining := 40\<rparr>]"
    by (simp add: demo_book_ops_def spec_find_def spec_del_def spec_cut_def fresh_view_def)
  show ?thesis using t by (simp add: V on_level_def fresh_view_def ok_price_def)
qed

end
