(* ===== verification/Book_Limits.thy ===== *)
theory Book_Limits
  imports Order_Book
begin

text \<open>
  Where the book of \<^verbatim>\<open>market/book/order_book.h\<close> departs from the orders it reconstructs: \<open>unlink_and_free\<close>
  takes an order's full \<open>shares\<close> off its level, although \<open>cancel\<close> and \<open>execute\<close> have already taken
  what they removed, and its \<open>operator[]\<close> creates the level again that \<open>dec_level_qty\<close> erased.
\<close>

lemma to_u32_of_u64: "to_u32 (to_u64 (x :: u32)) = x"
  by (rule bit_word_eqI) (simp add: bit_simps)

section \<open>Deleting a partly executed order\<close>

lemma move_weight:
  fixes w :: "'a \<Rightarrow> 'b::comm_ring_1"
  assumes "distinct ys" "i \<in> set ys" "j \<in> set ys" "j \<noteq> i"
  shows "sum_list (map (w(i := a, j := w j - (a - w i))) ys) = sum_list (map w ys)"
  using sum_list_update_at [OF assms(1,3), of "w(i := a)"] sum_list_update_at [OF assms(1,2), of w] assms(4) by simp

lemma drop_weight:
  fixes w :: "'a \<Rightarrow> 'b::comm_ring_1"
  assumes "distinct ys" "i \<notin> set ys" "j \<in> set ys"
  shows "sum_list (map (w(i := a, j := w j - d)) ys) = sum_list (map w ys) - d"
proof -
  have "j \<noteq> i" using assms(2,3) by auto
  then show ?thesis
    using sum_list_update_at [OF assms(1,3), of "w(i := a)" "w j - d"] assms(2) by (simp add: map_fun_upd del: fun_upd_apply)
      (simp add: fun_upd_other)
qed

text \<open>Deleting an order of which some shares have been executed or cancelled takes its original
  size off the level: the volume reported for the remaining orders is too small by the executed
  part, modulo \<open>2 ^ 32\<close>.\<close>

theorem delete_after_partial_fill:
  assumes "book_rep ob L {} fs k V" "spec_find V r = Some v" "ok_price (v_price v)"
    and "filter (on_level (v_side v = BUY) (v_price v)) (spec_del V r) \<noteq> []"
    and "ob' = fst (book_remove ob r)"
  shows "(case tab_find (side_table ob' (v_side v = BUY)) (v_price v) of None \<Rightarrow> 0 | Some l \<Rightarrow> total_qty l) =
    to_u32 (spec_volume (spec_del V r) (v_side v = BUY) (v_price v)) - (to_u32 (v_shares v) - to_u32 (v_remaining v))"
proof -
  let ?f = "slot_of ob"
  let ?w = "\<lambda>i. to_u32 (s_remaining (?f i))"
  have inv: "book_inv ob L {} fs k ?w" and V: "V = map (\<lambda>i. view_of (?f i)) L"
    using assms(1) by (simp_all add: book_rep_def)
  obtain i where i: "i \<in> set L" "s_order_ref (?f i) = r" "v = view_of (?f i)"
    using rep_found [OF assms(1) _ assms(2)] by auto
  let ?b = "s_side (?f i) = BUY" and ?p = "s_price (?f i)"
  let ?L = "filter (\<lambda>x. x \<noteq> i) L"
  have vb: "(v_side v = BUY) = ?b" "v_price v = ?p" "v_shares v = s_shares (?f i)" "v_remaining v = s_remaining (?f i)"
    by (simp_all add: i(3) view_of_def)
  have onl: "on_level c p (view_of (?f x)) = at_level ?f c p x" for c p x
    by (simp add: on_level_def at_level_def view_of_def)
  note del = rep_spec_del [OF assms(1) i(1,2)]
  let ?xs = "filter (at_level ?f ?b ?p) ?L"
  have fl: "filter (on_level ?b ?p) (spec_del V r) = map (\<lambda>i. view_of (?f i)) ?xs"
    unfolding del filter_map o_def onl ..
  have "?xs \<noteq> []" using assms(4) unfolding vb fl by blast
  then obtain j where j: "j \<in> set ?xs" using last_in_set by blast
  \<comment> \<open>the excess is booked on another order of the level\<close>
  let ?d = "to_u32 (s_shares (?f i)) - ?w i"
  let ?w' = "(?w(i := to_u32 (s_shares (?f i))))(j := ?w j - ?d)"
  have ji: "j \<noteq> i" "j \<in> set L" "at_level ?f ?b ?p j" using j by auto
  have dist: "distinct L" using inv by (simp add: book_inv_def)
  have same: "sum_list (map ?w' (filter (at_level ?f c p) L)) = sum_list (map ?w (filter (at_level ?f c p) L))" for c p
  proof (cases "c = ?b \<and> p = ?p")
    case True
    then show ?thesis using dist i(1) ji by (intro move_weight) (auto simp: at_level_def)
  next
    case False
    then show ?thesis using ji(3)
      by (intro arg_cong [of _ _ sum_list] map_cong) (auto simp: at_level_def)
  qed
  have inv': "book_inv ob L {} fs k ?w'"
    using inv unfolding book_inv_def level_ok_def same by blast
  have wi: "?w' i = to_u32 (s_shares (?f i))" using ji(1) by simp
  note a = book_remove_inv [OF inv' i(1) wi i(2), folded assms(5)]
  have vw: "view_of (slot_of ob' x) = view_of (?f x)" for x by (rule a(3))
  have at: "at_level (slot_of ob') c p x = at_level ?f c p x" for c p x by (intro at_level_view vw)
  have okp: "ok_price ?p" using assms(3) vb by simp
  have "level_ok (slot_of ob') ?w' (filter (at_level (slot_of ob') ?b ?p) ?L) (tab_find (side_table ob' ?b) ?p)"
    using a(2) okp unfolding book_inv_def by blast
  then have "total_qty (level_or_new (tab_find (side_table ob' ?b) ?p)) = sum_list (map ?w' ?xs)"
    using level_okD(3) unfolding at by blast
  also have "\<dots> = sum_list (map ?w ?xs) - ?d"
    using dist j by (intro drop_weight) auto
  also have "sum_list (map ?w ?xs) = to_u32 (spec_volume (spec_del V r) ?b ?p)"
    by (simp add: spec_volume_def fl o_def view_of_def to_u32_of_u64)
  finally show ?thesis unfolding vb by (simp add: empty_level_def split: option.splits)
qed

text \<open>Orders of 50 and 30 bid at 100; 10 of the first are executed, then it is deleted.\<close>

definition demo_cut_ops :: "book_op list" where
  "demo_cut_ops = [BAdd 1 BUY 100 50 1, BAdd 3 BUY 100 30 3, BExecute 1 10]"

lemma demo_cut:
  obtains L fs k where "book_rep (foldl book_do (new_book (new_pool 8) (new_order_map 8)) demo_cut_ops) L {} fs k
    [fresh_view 3 BUY 100 30 3, (fresh_view 1 BUY 100 50 1)\<lparr>v_remaining := 40\<rparr>]"
proof -
  have "regular_run 8 [] demo_cut_ops" "sum_list (map adds demo_cut_ops) \<le> 8"
    by (simp_all add: demo_cut_ops_def spec_find_def spec_cut_def fresh_view_def ok_price_def level_volume_def on_level_def)
  moreover have "foldl spec_do [] demo_cut_ops = [fresh_view 3 BUY 100 30 3, (fresh_view 1 BUY 100 50 1)\<lparr>v_remaining := 40\<rparr>]"
    by (simp add: demo_cut_ops_def spec_cut_def fresh_view_def)
  ultimately show thesis using that book_run [OF new_book_rep [of 8 8], of demo_cut_ops] by auto
qed

theorem delete_after_partial_fill_witness:
  "let ob = fst (book_remove (foldl book_do (new_book (new_pool 8) (new_order_map 8)) demo_cut_ops) 1)
   in (case tab_find (side_table ob True) 100 of None \<Rightarrow> 0 | Some l \<Rightarrow> total_qty l) = 20"
proof -
  obtain L fs k where rep: "book_rep (foldl book_do (new_book (new_pool 8) (new_order_map 8)) demo_cut_ops) L {} fs k
    [fresh_view 3 BUY 100 30 3, (fresh_view 1 BUY 100 50 1)\<lparr>v_remaining := 40\<rparr>]" by (rule demo_cut)
  show ?thesis
    using delete_after_partial_fill [OF rep, of 1 _ _, OF _ _ _ refl]
    by (simp add: spec_find_def spec_del_def fresh_view_def on_level_def ok_price_def spec_volume_def)
qed

section \<open>Executing an order in full\<close>

text \<open>C38. Executing the only order of a level in full leaves a phantom level: the order is gone from the
  index, but its price is still in the table, with a count of \<open>2 ^ 32 - 1\<close> and a volume of minus the
  order's size, and it goes on being the level the best price may point at.\<close>

theorem full_execution_leaves_phantom_level:
  assumes rep: "book_rep ob L {} fs k V" and v: "spec_find V r = Some v" and px: "ok_price (v_price v)"
    and one: "filter (on_level (v_side v = BUY) (v_price v)) V = [v]" and q: "v_remaining v \<le> q"
    and ob': "ob' = fst (book_execute ob r q)"
  shows "book_get ob' r = None \<and> (\<exists>l. tab_find (side_table ob' (v_side v = BUY)) (v_price v) = Some l \<and>
    lv_count l = UINT32_MAX \<and> total_qty l = - to_u32 (v_shares v))"
proof -
  let ?f = "slot_of ob"
  obtain i where i: "i \<in> set L" "s_order_ref (?f i) = r" "v = view_of (?f i)" "map_find (ob_index ob) r = Some i"
    using rep_found [OF rep _ v] by auto
  let ?b = "s_side (?f i) = BUY" and ?p = "s_price (?f i)"
  have vb: "(v_side v = BUY) = ?b" "v_price v = ?p" "v_shares v = s_shares (?f i)" "v_remaining v = s_remaining (?f i)"
    by (simp_all add: i(3) view_of_def)
  have p: "ok_price ?p" using px vb by simp
  let ?xs = "filter (at_level ?f ?b ?p) L"
  have "length ?xs = 1" using arg_cong [OF one, of length] rep_level(1) [OF rep p, of ?b] vb by simp
  moreover have "i \<in> set ?xs" using i(1) by (simp add: at_level_def)
  ultimately have xs: "?xs = [i]" by (cases ?xs) auto
  have lvl: "level_ok ?f (\<lambda>i. to_u32 (s_remaining (?f i))) [i] (tab_find (side_table ob ?b) ?p)"
    using rep_level(2) [OF rep p, of ?b] unfolding xs .
  note l = level_okD [OF lvl]
  have links: "prev_idx (?f i) = UINT32_MAX" "next_idx (?f i) = UINT32_MAX" "i \<noteq> UINT32_MAX"
    using l(1) by auto
  have tab: "tab_wf (side_table ob ?b)" using rep by (simp add: book_rep_def book_inv_def tables_ok_def)
  let ?n = "s_remaining (?f i)"
  let ?ob1 = "ob\<lparr>ob_pool := pool_set (ob_pool ob) i (\<lambda>s. s\<lparr>s_remaining := s_remaining s - ?n\<rparr>)\<rparr>"
  let ?t1 = "tab_upd (side_table ob ?b) ?p (\<lambda>l. l\<lparr>total_qty := total_qty l - to_u32 ?n\<rparr>)"
  note u1 = tab_upd_wf [OF tab p, of "\<lambda>l. l\<lparr>total_qty := total_qty l - to_u32 ?n\<rparr>"]
  have "total_qty (level_ref ?t1 ?p) = 0" using level_ref_eq [of ?t1 ?p] u1 p l(3) by simp
  then have d: "dec_level_qty ?ob1 (s_side (slot_of ?ob1 i)) (s_price (slot_of ?ob1 i)) ?n = set_side ?ob1 ?b (tab_erase ?t1 ?p)"
    by (simp add: dec_level_qty_def Let_def pool_at_set)
  let ?ob2 = "set_side ?ob1 ?b (tab_erase ?t1 ?p)"
  have u2: "tab_wf (tab_erase ?t1 ?p)" "tab_find (tab_erase ?t1 ?p) ?p = None"
    using tab_erase_wf [of ?t1 ?p] u1 p by simp_all
  have mn: "(if ?n < q then ?n else q) = ?n" using q vb by auto
  have ob3: "ob' = (unlink_and_free ?ob2 i)\<lparr>ob_index := map_erase (ob_index (unlink_and_free ?ob2 i)) r\<rparr>"
    unfolding ob' book_execute_def i(4) option.case Let_def mn d by (simp add: pool_at_set)
  have self: "prev_idx (slot_of ?ob2 i) \<noteq> i" using links by (simp add: pool_at_set)
  note un = unlink_other [OF self]
  let ?upd = "\<lambda>l. \<lparr>head_idx = UINT32_MAX, tail_idx = UINT32_MAX, lv_count = lv_count l - 1,
      total_qty = total_qty l - to_u32 (s_shares (?f i))\<rparr>"
  note u3 = tab_upd_wf [OF u2(1) p, of ?upd]
  let ?l3 = "?upd empty_level"
  have f3: "tab_find (tab_upd (tab_erase ?t1 ?p) ?p ?upd) ?p = Some ?l3" using u3 p u2(2) by simp
  have "lv_count (level_ref (tab_upd (tab_erase ?t1 ?p) ?p ?upd) ?p) \<noteq> 0"
    using level_ref_eq [of "tab_upd (tab_erase ?t1 ?p) ?p ?upd" ?p] u3 p f3 by (simp add: empty_level_def)
  then have "side_table ob' ?b = tab_upd (tab_erase ?t1 ?p) ?p ?upd"
    using un(1) [of ?b] links by (simp add: ob3 pool_at_set)
  then have "tab_find (side_table ob' ?b) ?p = Some ?l3" using f3 by simp
  moreover have "book_get ob' r = None"
  proof -
    have "om_frees (ob_index ob) k" using rep by (simp add: book_rep_def book_inv_def)
    then show ?thesis using map_erase_spec(2) [of _ k r r] un(2) by (simp add: book_get_def ob3)
  qed
  ultimately show ?thesis unfolding vb by (simp add: empty_level_def)
qed

text \<open>The ask of 20 at 103 is executed in full.\<close>

theorem full_execution_leaves_phantom_level_witness:
  "\<exists>ob l. ob = fst (book_execute (fst (book_add (new_book (new_pool 8) (new_order_map 8)) 2 SELL 103 20 1)) 2 20) \<and>
    tab_find (side_table ob False) 103 = Some l \<and> lv_count l = UINT32_MAX"
proof -
  have "regular_run 8 [] [BAdd 2 SELL 103 20 1]" by (simp add: spec_find_def ok_price_def)
  then obtain L fs k where "book_rep (fst (book_add (new_book (new_pool 8) (new_order_map 8)) 2 SELL 103 20 1)) L {} fs k
      [fresh_view 2 SELL 103 20 1]"
    using book_run [OF new_book_rep [of 8 8], of "[BAdd 2 SELL 103 20 1]"] by auto
  from full_execution_leaves_phantom_level [OF this, of 2 "fresh_view 2 SELL 103 20 1" 20] show ?thesis
    by (auto simp: spec_find_def fresh_view_def on_level_def ok_price_def)
qed

end
