(* ===== verification/Book_Consumer.thy ===== *)
theory Book_Consumer
  imports Order_Book
begin

text \<open>
  The consumer of market events, \<^verbatim>\<open>market/book/order_book_consumer.h\<close> and \<^verbatim>\<open>.cpp\<close>: it keeps one book per
  locate, all over the shared pool and index, and the last trade as a tick. A book's own state is
  its pair of level tables.
\<close>

section \<open>State\<close>

record book_consumer =
  bc_pool :: order_pool
  bc_index :: order_map
  bc_books :: "u64 \<rightharpoonup> level_table \<times> level_table"
  bc_last_tick :: tick
  bc_has_tick :: bool
  bc_tick_seq :: u64
  bc_order_seq :: u64

definition new_consumer :: "order_pool \<Rightarrow> order_map \<Rightarrow> book_consumer" where
  "new_consumer p m = \<lparr>bc_pool = p, bc_index = m, bc_books = Map.empty, bc_last_tick = empty_tick,
     bc_has_tick = False, bc_tick_seq = 0, bc_order_seq = 0\<rparr>"

text \<open>\<open>book_for\<close>: the book of a locate over the shared pool and index, new when there is none.\<close>

definition book_for :: "book_consumer \<Rightarrow> u64 \<Rightarrow> order_book" where
  "book_for c loc = (case bc_books c loc of
     None \<Rightarrow> new_book (bc_pool c) (bc_index c)
   | Some (b, a) \<Rightarrow> \<lparr>ob_pool = bc_pool c, ob_index = bc_index c, ob_bids = b, ob_asks = a\<rparr>)"

text \<open>An operation through the reference \<open>book_for\<close> returns.\<close>

definition put_book :: "book_consumer \<Rightarrow> u64 \<Rightarrow> order_book \<Rightarrow> book_consumer" where
  "put_book c loc ob = c\<lparr>bc_pool := ob_pool ob, bc_index := ob_index ob,
     bc_books := (bc_books c)(loc \<mapsto> (ob_bids ob, ob_asks ob))\<rparr>"

definition consumer_book :: "book_consumer \<Rightarrow> u64 \<Rightarrow> order_book option" where
  "consumer_book c loc = (case bc_books c loc of None \<Rightarrow> None | Some t \<Rightarrow> Some (book_for c loc))"

definition last_tick :: "book_consumer \<Rightarrow> tick option" where
  "last_tick c = (if bc_has_tick c then Some (bc_last_tick c) else None)"

section \<open>Handlers\<close>

definition handle_add :: "book_consumer \<Rightarrow> market_event \<Rightarrow> book_consumer" where
  "handle_add c ev =
     (let c1 = c\<lparr>bc_order_seq := bc_order_seq c + 1\<rparr>; o' = ev_order ev
      in put_book c1 (ev_locate ev) (fst (book_add (book_for c1 (ev_locate ev)) (o_order_ref o') (o_side o')
           (o_price o') (o_shares o') (bc_order_seq c1))))"

definition handle_delete :: "book_consumer \<Rightarrow> market_event \<Rightarrow> book_consumer" where
  "handle_delete c ev = put_book c (ev_locate ev)
     (fst (book_remove (book_for c (ev_locate ev)) (o_order_ref (ev_order ev))))"

definition handle_cancel :: "book_consumer \<Rightarrow> market_event \<Rightarrow> book_consumer" where
  "handle_cancel c ev = put_book c (ev_locate ev)
     (fst (book_cancel (book_for c (ev_locate ev)) (o_order_ref (ev_order ev)) (o_shares (ev_order ev))))"

definition handle_replace :: "book_consumer \<Rightarrow> market_event \<Rightarrow> book_consumer" where
  "handle_replace c ev =
     (let ob = book_for c (ev_locate ev); o' = ev_order ev in
      case book_get ob (o_order_ref o') of
        None \<Rightarrow> put_book c (ev_locate ev) ob
      | Some old \<Rightarrow>
          (let c1 = c\<lparr>bc_order_seq := bc_order_seq c + 1\<rparr>
           in put_book c1 (ev_locate ev) (fst (book_replace ob (o_order_ref o') (o_new_order_ref o')
                (v_side old) (o_price o') (o_shares o') (bc_order_seq c1)))))"

definition handle_trade :: "book_consumer \<Rightarrow> market_event \<Rightarrow> bool \<Rightarrow> book_consumer" where
  "handle_trade c ev has_price =
     (let t = ev_trade ev;
          c1 = put_book c (ev_locate ev) (fst (book_execute (book_for c (ev_locate ev)) (t_order_ref t) (t_volume t)));
          c2 = c1\<lparr>bc_tick_seq := bc_tick_seq c1 + 1\<rparr>;
          tk = (bc_last_tick c2)\<lparr>tick_timestamp := ev_timestamp ev, tick_seq_id := bc_tick_seq c2,
                 tick_symbol_id := ev_locate ev\<rparr>;
          tk1 = (if has_price then tk\<lparr>tick_last_price := t_price t\<rparr> else tk)
      in c2\<lparr>bc_last_tick := tk1\<lparr>tick_volume := t_volume t\<rparr>, bc_has_tick := True\<rparr>)"

definition handle_execute :: "book_consumer \<Rightarrow> market_event \<Rightarrow> book_consumer" where
  "handle_execute c ev =
     (let t = ev_trade ev;
          px = (case book_get (book_for c (ev_locate ev)) (t_order_ref t) of None \<Rightarrow> - 1 | Some v \<Rightarrow> v_price v);
          c1 = put_book c (ev_locate ev) (fst (book_execute (book_for c (ev_locate ev)) (t_order_ref t) (t_volume t)));
          c2 = c1\<lparr>bc_tick_seq := bc_tick_seq c1 + 1\<rparr>;
          tk = (bc_last_tick c2)\<lparr>tick_timestamp := ev_timestamp ev, tick_seq_id := bc_tick_seq c2,
                 tick_symbol_id := ev_locate ev\<rparr>;
          tk1 = (if 0 \<le>s px then tk\<lparr>tick_last_price := px\<rparr> else tk)
      in c2\<lparr>bc_last_tick := tk1\<lparr>tick_volume := t_volume t\<rparr>, bc_has_tick := True\<rparr>)"

definition consumer_on_event :: "book_consumer \<Rightarrow> market_event \<Rightarrow> book_consumer" where
  "consumer_on_event c ev = (case ev_type ev of
     EV_ADD \<Rightarrow> handle_add c ev
   | EV_DELETE \<Rightarrow> handle_delete c ev
   | EV_CANCEL \<Rightarrow> handle_cancel c ev
   | EV_REPLACE \<Rightarrow> handle_replace c ev
   | EV_TRADE \<Rightarrow> handle_trade c ev True
   | EV_EXECUTE \<Rightarrow> handle_execute c ev)"

section \<open>Specification: one list of orders per locate\<close>

definition ev_op :: "u64 \<Rightarrow> order_view list \<Rightarrow> market_event \<Rightarrow> book_op" where
  "ev_op sq V ev = (case ev_type ev of
     EV_ADD \<Rightarrow> BAdd (o_order_ref (ev_order ev)) (o_side (ev_order ev)) (o_price (ev_order ev)) (o_shares (ev_order ev)) (sq + 1)
   | EV_DELETE \<Rightarrow> BRemove (o_order_ref (ev_order ev))
   | EV_CANCEL \<Rightarrow> BCancel (o_order_ref (ev_order ev)) (o_shares (ev_order ev))
   | EV_REPLACE \<Rightarrow> BReplace (o_order_ref (ev_order ev)) (o_new_order_ref (ev_order ev))
       (case spec_find V (o_order_ref (ev_order ev)) of None \<Rightarrow> NONE | Some v \<Rightarrow> v_side v)
       (o_price (ev_order ev)) (o_shares (ev_order ev)) (sq + 1)
   | EV_TRADE \<Rightarrow> BExecute (t_order_ref (ev_trade ev)) (t_volume (ev_trade ev))
   | EV_EXECUTE \<Rightarrow> BExecute (t_order_ref (ev_trade ev)) (t_volume (ev_trade ev)))"

text \<open>The sequence number moves on with every order put into a book.\<close>

definition next_seq :: "u64 \<Rightarrow> order_view list \<Rightarrow> market_event \<Rightarrow> u64" where
  "next_seq sq V ev = (if ev_type ev = EV_ADD \<or> (ev_type ev = EV_REPLACE \<and> spec_find V (o_order_ref (ev_order ev)) \<noteq> None)
     then sq + 1 else sq)"

definition feed_by :: "(order_view list \<Rightarrow> book_op \<Rightarrow> order_view list) \<Rightarrow>
    (u64 \<Rightarrow> order_view list) \<times> u64 \<Rightarrow> market_event \<Rightarrow> (u64 \<Rightarrow> order_view list) \<times> u64" where
  "feed_by act S ev = (case S of (Vs, sq) \<Rightarrow> (let loc = ev_locate ev in
     (Vs(loc := act (Vs loc) (ev_op sq (Vs loc) ev)), next_seq sq (Vs loc) ev)))"

text \<open>
  A feed on the locates \<open>ls\<close>: every event is admissible (\<open>ok\<close>) for the book of its own locate and names no
  order of another one.
\<close>

fun feed_ok :: "(order_view list \<Rightarrow> book_op \<Rightarrow> bool) \<Rightarrow> (order_view list \<Rightarrow> book_op \<Rightarrow> order_view list) \<Rightarrow>
    u64 list \<Rightarrow> (u64 \<Rightarrow> order_view list) \<times> u64 \<Rightarrow> market_event list \<Rightarrow> bool" where
  "feed_ok ok act ls S [] \<longleftrightarrow> True"
| "feed_ok ok act ls S (ev # evs) \<longleftrightarrow> (let loc = ev_locate ev; op = ev_op (snd S) (fst S loc) ev in
     loc \<in> set ls \<and> ok (fst S loc) op \<and>
     (\<forall>l\<in>set ls. l \<noteq> loc \<longrightarrow> (\<forall>v\<in>set (fst S l). v_ref v \<notin> op_refs op)) \<and> feed_ok ok act ls (feed_by act S ev) evs)"

abbreviation feed_step :: "(u64 \<Rightarrow> order_view list) \<times> u64 \<Rightarrow> market_event \<Rightarrow> (u64 \<Rightarrow> order_view list) \<times> u64" where
  "feed_step \<equiv> feed_by spec_do"

abbreviation regular_feed :: "u64 list \<Rightarrow> (u64 \<Rightarrow> order_view list) \<times> u64 \<Rightarrow> market_event list \<Rightarrow> bool" where
  "regular_feed \<equiv> feed_ok regular spec_do"

definition ev_adds :: "market_event \<Rightarrow> nat" where
  "ev_adds ev = (if ev_type ev = EV_ADD \<or> ev_type ev = EV_REPLACE then 1 else 0)"

lemma adds_ev_op: "adds (ev_op sq V ev) = ev_adds ev"
  by (simp add: ev_op_def ev_adds_def split: event_type.splits)

section \<open>Refinement\<close>

lemma book_for_fields [simp]:
  "ob_pool (book_for c l) = bc_pool c" "ob_index (book_for c l) = bc_index c"
  by (auto simp: book_for_def new_book_def split: option.splits)

lemma book_for_put:
  "book_for (put_book c loc ob) l =
     (if l = loc then ob else (book_for c l)\<lparr>ob_pool := ob_pool ob, ob_index := ob_index ob\<rparr>)"
  by (auto simp: book_for_def put_book_def new_book_def split: option.splits)

lemma book_for_other [simp]:
  "book_for (c\<lparr>bc_order_seq := n\<rparr>) l = book_for c l" "book_for (c\<lparr>bc_tick_seq := n\<rparr>) l = book_for c l"
  "book_for (c\<lparr>bc_last_tick := t, bc_has_tick := h\<rparr>) l = book_for c l"
  by (simp_all add: book_for_def split: option.splits)

text \<open>Every handler is one operation on the book of its locate.\<close>

lemma consumer_event_book:
  assumes get: "book_get (book_for c (ev_locate ev)) (o_order_ref (ev_order ev)) = spec_find V (o_order_ref (ev_order ev))
    \<or> ev_type ev \<noteq> EV_REPLACE"
  defines "ob \<equiv> book_do (book_for c (ev_locate ev)) (ev_op (bc_order_seq c) V ev)"
  shows "book_for (consumer_on_event c ev) l =
      (if l = ev_locate ev then ob else (book_for c l)\<lparr>ob_pool := ob_pool ob, ob_index := ob_index ob\<rparr>)"
    and "bc_order_seq (consumer_on_event c ev) = next_seq (bc_order_seq c) V ev"
proof -
  have none: "fst (book_replace (book_for c (ev_locate ev)) r new sd px q sq) = book_for c (ev_locate ev)"
    if "book_get (book_for c (ev_locate ev)) r = None" for r new sd px q sq
    using that by (auto simp: book_replace_def book_get_def split: option.splits)
  show "book_for (consumer_on_event c ev) l =
      (if l = ev_locate ev then ob else (book_for c l)\<lparr>ob_pool := ob_pool ob, ob_index := ob_index ob\<rparr>)"
    using get none
    by (cases "ev_type ev") (auto simp: consumer_on_event_def ob_def ev_op_def handle_add_def handle_delete_def handle_cancel_def
        handle_replace_def handle_trade_def handle_execute_def book_for_put Let_def split: option.splits)
  show "bc_order_seq (consumer_on_event c ev) = next_seq (bc_order_seq c) V ev"
    using get by (cases "ev_type ev") (auto simp: consumer_on_event_def next_seq_def handle_add_def handle_delete_def
        handle_cancel_def handle_replace_def handle_trade_def handle_execute_def put_book_def Let_def split: option.splits)
qed

definition books_rep :: "(order_book \<Rightarrow> u32 list \<Rightarrow> u32 set \<Rightarrow> u32 list \<Rightarrow> nat \<Rightarrow> order_view list \<Rightarrow> bool) \<Rightarrow>
    book_consumer \<Rightarrow> (u64 \<Rightarrow> u32 list) \<Rightarrow> u32 list \<Rightarrow> nat \<Rightarrow> (u64 \<Rightarrow> order_view list) \<Rightarrow> bool" where
  "books_rep rep c Ls fs k Vs \<longleftrightarrow>
     (\<forall>l. rep (book_for c l) (Ls l) (\<Union>x\<in>- {l}. set (Ls x)) fs k (Vs l))"

context order_tracker
begin

lemma consumer_step:
  assumes rep: "books_rep rep c Ls fs k Vs" and k: "ev_adds ev \<le> k" "ev_adds ev \<le> length fs"
  defines "loc \<equiv> ev_locate ev"
  defines "op \<equiv> ev_op (bc_order_seq c) (Vs loc) ev"
  assumes ok: "ok (Vs loc) op" and others: "\<forall>l. l \<noteq> loc \<longrightarrow> (\<forall>v\<in>set (Vs l). v_ref v \<notin> op_refs op)"
  shows "\<exists>Ls' fs'. books_rep rep (consumer_on_event c ev) Ls' fs' (k - ev_adds ev) (Vs(loc := act (Vs loc) op)) \<and>
    length fs \<le> length fs' + ev_adds ev"
    and "bc_order_seq (consumer_on_event c ev) = next_seq (bc_order_seq c) (Vs loc) ev"
proof -
  let ?ob = "book_for c loc" and ?Os = "\<lambda>Ls l. \<Union>x\<in>- {l}. set (Ls x)"
  have r: "rep (book_for c l) (Ls l) (?Os Ls l) fs k (Vs l)" for l using rep by (simp add: books_rep_def)
  have ad: "adds op = ev_adds ev" by (simp add: op_def adds_ev_op)
  have refs: "\<forall>x\<in>?Os Ls loc. s_order_ref (slot_of ?ob x) \<notin> op_refs op"
  proof
    fix x assume "x \<in> ?Os Ls loc"
    then obtain l where l: "l \<noteq> loc" "x \<in> set (Ls l)" by auto
    then have "view_of (slot_of ?ob x) \<in> set (Vs l)" using views [OF r, of l] by auto
    then have "v_ref (view_of (slot_of ?ob x)) \<notin> op_refs op" using others l(1) by blast
    then show "s_order_ref (slot_of ?ob x) \<notin> op_refs op" by (simp add: view_of_def)
  qed
  have room: "length (Vs loc) < length (Ls loc) + length fs" if "adds op \<noteq> 0"
    using views [OF r, of loc] that k(2) ad by (cases fs) simp_all
  have "adds op \<le> k" using k(1) ad by simp
  from step [OF r ok this room refs] obtain L' fs' where
    n: "rep (book_do ?ob op) L' (?Os Ls loc) fs' (k - adds op) (act (Vs loc) op)"
      "set L' \<union> set fs' = set (Ls loc) \<union> set fs" "length L' + length fs' = length (Ls loc) + length fs"
      "\<forall>x. x \<notin> set (Ls loc) \<union> set fs \<longrightarrow> slot_of (book_do ?ob op) x = slot_of ?ob x" by blast
  have gets: "book_get ?ob (o_order_ref (ev_order ev)) = spec_find (Vs loc) (o_order_ref (ev_order ev)) \<or> ev_type ev \<noteq> EV_REPLACE"
  proof (cases "ev_type ev = EV_REPLACE")
    case True
    then have "\<forall>x\<in>?Os Ls loc. s_order_ref (slot_of ?ob x) \<noteq> o_order_ref (ev_order ev)"
      using refs by (auto simp: op_def ev_op_def)
    from get [OF r this] show ?thesis ..
  qed simp
  note e = consumer_event_book [OF gets [unfolded loc_def], folded loc_def, folded op_def]
  show "bc_order_seq (consumer_on_event c ev) = next_seq (bc_order_seq c) (Vs loc) ev" by (rule e(2))
  let ?Ls = "Ls(loc := L')"
  have "rep (book_for (consumer_on_event c ev) l) (?Ls l) (?Os ?Ls l) fs' (k - ev_adds ev)
      ((Vs(loc := act (Vs loc) op)) l)" for l
  proof (cases "l = loc")
    case True
    have "?Os ?Ls loc = ?Os Ls loc" by auto
    then show ?thesis using n(1) e(1) [of l] True ad by simp
  next
    case False
    have d: "set (Ls l) \<inter> set (Ls loc) = {}" "set (Ls l) \<inter> set fs = {}" "set (Ls l) \<inter> ?Os Ls l = {}"
      using slots [OF r, of l] False by auto
    have all: "set (Ls l) \<union> ?Os ?Ls l = set L' \<union> ?Os Ls loc"
      using False by (auto split: if_splits)
    have sub: "set L' \<subseteq> set (Ls loc) \<union> set fs" "set fs' \<subseteq> set (Ls loc) \<union> set fs" using n(2) by auto
    have "set (Ls l) \<inter> set L' = {}" "set (Ls l) \<inter> set fs' = {}" using d(1,2) sub by blast+
    moreover have "?Os ?Ls l \<subseteq> set L' \<union> ?Os Ls l" by (auto split: if_splits)
    ultimately have dis: "set (Ls l) \<inter> ?Os ?Ls l = {}" "set (Ls l) \<inter> set fs' = {}" using d(3) by blast+
    have "x \<notin> set (Ls loc) \<union> set fs" if "x \<in> set (Ls l)" for x using that d by blast
    then have "\<forall>x\<in>set (Ls l). slot_of (book_do ?ob op) x = slot_of (book_for c l) x"
      using n(4) by simp
    from frame [OF r n(1) this dis(2) all dis(1)] show ?thesis
      using False e(1) [of l] ad by simp
  qed
  moreover have "length fs \<le> length fs' + ev_adds ev"
  proof -
    have "length L' = length (act (Vs loc) op)" "length (Ls loc) = length (Vs loc)"
      using views [OF n(1)] views [OF r, of loc] by simp_all
    then have "length L' \<le> length (Ls loc) + adds op" using act_adds [of "Vs loc" op] by simp
    then show ?thesis using n(3) ad by simp
  qed
  ultimately show "\<exists>Ls' fs'. books_rep rep (consumer_on_event c ev) Ls' fs' (k - ev_adds ev) (Vs(loc := act (Vs loc) op)) \<and>
    length fs \<le> length fs' + ev_adds ev" unfolding books_rep_def by blast
qed

lemma consumer_run:
  assumes "books_rep rep c Ls fs k (fst S)" "feed_ok ok act ls S evs" "sum_list (map ev_adds evs) \<le> k"
    "sum_list (map ev_adds evs) \<le> length fs" "bc_order_seq c = snd S" "\<forall>l. l \<notin> set ls \<longrightarrow> fst S l = []"
  shows "\<exists>Ls' fs' k'. books_rep rep (foldl consumer_on_event c evs) Ls' fs' k' (fst (foldl (feed_by act) S evs))"
  using assms
proof (induction evs arbitrary: c Ls fs k S)
  case Nil
  then show ?case by auto
next
  case (Cons ev evs)
  let ?loc = "ev_locate ev"
  let ?op = "ev_op (bc_order_seq c) (fst S ?loc) ev"
  have reg: "?loc \<in> set ls" "ok (fst S ?loc) ?op" "feed_ok ok act ls (feed_by act S ev) evs"
    "\<forall>l\<in>set ls. l \<noteq> ?loc \<longrightarrow> (\<forall>v\<in>set (fst S l). v_ref v \<notin> op_refs ?op)"
    using Cons.prems(2,5) by (simp_all add: Let_def)
  have oth: "\<forall>l. l \<noteq> ?loc \<longrightarrow> (\<forall>v\<in>set (fst S l). v_ref v \<notin> op_refs ?op)"
    using reg(4) Cons.prems(6) by (metis empty_iff list.set(1))
  have st: "feed_by act S ev = ((fst S)(?loc := act (fst S ?loc) ?op), next_seq (bc_order_seq c) (fst S ?loc) ev)"
    using Cons.prems(5) by (simp add: feed_by_def Let_def split: prod.splits)
  have k: "ev_adds ev \<le> k" "ev_adds ev \<le> length fs" using Cons.prems(3,4) by simp_all
  note step = consumer_step [OF Cons.prems(1) k reg(2) oth]
  obtain Ls' fs' where n: "books_rep rep (consumer_on_event c ev) Ls' fs' (k - ev_adds ev) (fst (feed_by act S ev))"
    "length fs \<le> length fs' + ev_adds ev" using step(1) unfolding st fst_conv by blast
  have "\<forall>l. l \<notin> set ls \<longrightarrow> fst (feed_by act S ev) l = []" using Cons.prems(6) reg(1) by (auto simp: st)
  moreover have "bc_order_seq (consumer_on_event c ev) = snd (feed_by act S ev)" by (simp add: st step(2))
  ultimately show ?case
    using Cons.IH [OF n(1) reg(3)] Cons.prems(3,4) n(2) by simp
qed

lemma consumer_rep:
  assumes "0 < n" "n < 2 ^ 32" "0 < m" "m < 2 ^ 32"
    and "feed_ok ok act ls (\<lambda>_. [], 0) evs" "sum_list (map ev_adds evs) \<le> n" "sum_list (map ev_adds evs) \<le> m"
    and "c = foldl consumer_on_event (new_consumer (new_pool n) (new_order_map m)) evs"
  obtains Ls fs k where "\<And>l. rep (book_for c l) (Ls l) (\<Union>x\<in>- {l}. set (Ls x)) fs k (fst (foldl (feed_by act) (\<lambda>_. [], 0) evs) l)"
proof -
  let ?c0 = "new_consumer (new_pool n) (new_order_map m)"
  have "book_for ?c0 l = new_book (new_pool n) (new_order_map m)" for l by (simp add: book_for_def new_consumer_def)
  then have "books_rep rep ?c0 (\<lambda>_. []) (map of_nat [0..<n]) m (fst (\<lambda>_. [], 0 :: u64))"
    using start [OF assms(1-4)] by (simp add: books_rep_def)
  from consumer_run [OF this assms(5)] obtain Ls fs k where "books_rep rep c Ls fs k (fst (foldl (feed_by act) (\<lambda>_. [], 0) evs))"
    using assms(6-8) by (auto simp: new_consumer_def)
  then show thesis using that unfolding books_rep_def by blast
qed

end

definition feed_run :: "market_event list \<Rightarrow> (u64 \<Rightarrow> order_view list) \<times> u64" where
  "feed_run evs = foldl feed_step (\<lambda>_. [], 0) evs"

lemma consumer_books:
  assumes "0 < n" "n < 2 ^ 32" "0 < m" "m < 2 ^ 32"
    and "regular_feed ls (\<lambda>_. [], 0) evs" "sum_list (map ev_adds evs) \<le> n" "sum_list (map ev_adds evs) \<le> m"
    and "c = foldl consumer_on_event (new_consumer (new_pool n) (new_order_map m)) evs"
    and "V = fst (feed_run evs) loc" "ob = book_for c loc"
  shows "(\<forall>v\<in>set V. book_get ob (v_ref v) = Some v) \<and>
    (ok_price p \<longrightarrow> bid_volume_at ob p = spec_volume V True p \<and> ask_volume_at ob p = spec_volume V False p) \<and>
    spec_best V True (best_bid ob) \<and> spec_best V False (best_ask ob)"
proof -
  obtain Ls fs k where rep: "book_rep ob (Ls loc) (\<Union>x\<in>- {loc}. set (Ls x)) fs k V"
    using books.consumer_rep [OF assms(1-8)] unfolding assms(9,10) feed_run_def by metis
  have "bid_volume_at ob p = spec_volume V True p \<and> ask_volume_at ob p = spec_volume V False p" if "ok_price p"
    using rep_volume [OF rep that, of True] rep_volume [OF rep that, of False]
    by (simp add: bid_volume_at_def ask_volume_at_def side_table_def)
  moreover have "spec_best V True (best_bid ob) \<and> spec_best V False (best_ask ob)"
    using rep_best [OF rep, of True] rep_best [OF rep, of False]
    by (simp add: best_bid_def best_ask_def side_table_def cong: if_cong)
  ultimately show ?thesis using books.get_live [OF rep] by blast
qed

section \<open>Properties\<close>

text \<open>C8. The consumer reconstructs every book of a multi-symbol feed over one shared pool and one
  shared index: after any regular feed, for every locate, each live order is found with its
  remaining shares, the volume at every price is what its orders leave there, and the best prices
  are those of its own orders; no book disturbs another.\<close>

theorem consumer_tracks_books:
  assumes "0 < n" "n < 2 ^ 32" "0 < m" "m < 2 ^ 32"
    and "regular_feed ls (\<lambda>_. [], 0) evs" "sum_list (map ev_adds evs) \<le> n" "sum_list (map ev_adds evs) \<le> m"
    and "c = foldl consumer_on_event (new_consumer (new_pool n) (new_order_map m)) evs"
    and "V = fst (feed_run evs) loc" "ob = book_for c loc"
  shows "(\<forall>v\<in>set V. book_get ob (v_ref v) = Some v) \<and>
    (ok_price p \<longrightarrow> bid_volume_at ob p = spec_volume V True p \<and> ask_volume_at ob p = spec_volume V False p) \<and>
    spec_best V True (best_bid ob) \<and> spec_best V False (best_ask ob)"
  using assms by (rule consumer_books)

definition demo_event :: "event_type \<Rightarrow> u64 \<Rightarrow> u64 \<Rightarrow> order_side \<Rightarrow> i64 \<Rightarrow> u64 \<Rightarrow> market_event" where
  "demo_event ty loc r sd px q = empty_event\<lparr>ev_type := ty, ev_locate := loc,
     ev_trade := \<lparr>t_side = sd, t_price = px, t_volume = q, t_order_ref = r\<rparr>,
     ev_order := \<lparr>o_side = sd, o_price = px, o_shares = q, o_order_ref = r, o_new_order_ref = 0\<rparr>\<rparr>"

definition demo_feed :: "market_event list" where
  "demo_feed = [demo_event EV_ADD 7 1 BUY 100 50, demo_event EV_ADD 9 2 SELL 103 20, demo_event EV_EXECUTE 7 1 BUY 0 10]"

theorem consumer_tracks_books_witness:
  "let c = foldl consumer_on_event (new_consumer (new_pool 8) (new_order_map 8)) demo_feed
   in bid_volume_at (book_for c 7) 100 = 40 \<and> best_bid (book_for c 7) = 100 \<and> best_ask (book_for c 7) = - 1"
proof -
  have r: "regular_feed [7, 9] (\<lambda>_. [], 0) demo_feed"
    by (simp add: demo_feed_def demo_event_def feed_by_def ev_op_def spec_find_def ok_price_def
        level_volume_def on_level_def fresh_view_def next_seq_def empty_event_def)
  have n: "sum_list (map ev_adds demo_feed) \<le> 8" by (simp add: demo_feed_def demo_event_def ev_adds_def)
  have V: "fst (feed_run demo_feed) 7 = [(fresh_view 1 BUY 100 50 1)\<lparr>v_remaining := 40\<rparr>]"
    by (simp add: demo_feed_def demo_event_def feed_run_def feed_by_def ev_op_def spec_cut_def fresh_view_def next_seq_def)
  show ?thesis
    using consumer_tracks_books [OF _ _ _ _ r n n refl refl refl, of 7 100]
    by (simp add: V spec_volume_def spec_best_def on_level_def fresh_view_def ok_price_def)
qed

text \<open>The tick of an execution: its price is the resting order's price (kept from the last trade
  when the order is unknown or its price is negative), its volume the event's, its sequence number
  the next one, and the order of the book is what the price was read from before it was reduced.\<close>

theorem execution_tick:
  assumes "ev_type ev = EV_EXECUTE" "c' = consumer_on_event c ev"
  shows "last_tick c' = Some ((bc_last_tick c)\<lparr>tick_timestamp := ev_timestamp ev, tick_seq_id := bc_tick_seq c + 1,
      tick_symbol_id := ev_locate ev,
      tick_last_price := (case book_get (book_for c (ev_locate ev)) (t_order_ref (ev_trade ev)) of
         Some v \<Rightarrow> if 0 \<le>s v_price v then v_price v else tick_last_price (bc_last_tick c)
       | None \<Rightarrow> tick_last_price (bc_last_tick c)),
      tick_volume := t_volume (ev_trade ev)\<rparr>)"
proof -
  have "\<not> 0 \<le>s (- 1 :: i64)" by (simp add: word_sle_eq)
  then show ?thesis using assms
    by (auto simp: consumer_on_event_def handle_execute_def last_tick_def put_book_def Let_def split: option.splits)
qed

theorem execution_tick_witness:
  "\<exists>t. last_tick (foldl consumer_on_event (new_consumer (new_pool 8) (new_order_map 8)) demo_feed) = Some t \<and>
    tick_volume t = 10 \<and> tick_seq_id t = 1"
  using execution_tick [of "demo_event EV_EXECUTE 7 1 BUY 0 10" _
      "foldl consumer_on_event (new_consumer (new_pool 8) (new_order_map 8)) [demo_event EV_ADD 7 1 BUY 100 50, demo_event EV_ADD 9 2 SELL 103 20]",
      OF _ refl]
  by (simp add: demo_feed_def) (simp add: demo_event_def consumer_on_event_def handle_add_def put_book_def new_consumer_def Let_def)

end
