(* ===== verification/Book_Orders.thy ===== *)
theory Book_Orders
  imports Book_Consumer
begin

text \<open>
  What the order book of \<^verbatim>\<open>market/book/order_book.h\<close> keeps in every feed. Deleting or fully executing a
  partly executed order spoils the totals and counts of its price level (\<open>Book_Limits\<close>), and then levels
  are erased that still have orders. The orders themselves stay exact: this theory shows that index,
  pool and links survive any sequence of operations, for orders that are cut down to nothing as well.
\<close>

section \<open>Links\<close>

text \<open>
  The links of the live slots \<open>L\<close> are mutual, stay on one price level and lead to older orders (\<open>rk\<close>); the
  head of a level is a live slot of it without a predecessor. Nothing is said of how many of a level's
  orders its head reaches.
\<close>

definition links_ok :: "order_book \<Rightarrow> u32 list \<Rightarrow> (u32 \<Rightarrow> nat) \<Rightarrow> bool" where
  "links_ok ob L rk \<longleftrightarrow>
     (\<forall>i\<in>set L. next_idx (slot_of ob i) \<noteq> UINT32_MAX \<longrightarrow>
        next_idx (slot_of ob i) \<in> set L \<and> prev_idx (slot_of ob (next_idx (slot_of ob i))) = i \<and>
        rk (next_idx (slot_of ob i)) < rk i \<and>
        at_level (slot_of ob) (s_side (slot_of ob i) = BUY) (s_price (slot_of ob i)) (next_idx (slot_of ob i))) \<and>
     (\<forall>i\<in>set L. prev_idx (slot_of ob i) \<noteq> UINT32_MAX \<longrightarrow>
        prev_idx (slot_of ob i) \<in> set L \<and> next_idx (slot_of ob (prev_idx (slot_of ob i))) = i) \<and>
     (\<forall>b p l. ok_price p \<longrightarrow> tab_find (side_table ob b) p = Some l \<longrightarrow> head_idx l \<noteq> UINT32_MAX \<longrightarrow>
        head_idx l \<in> set L \<and> at_level (slot_of ob) b p (head_idx l) \<and> prev_idx (slot_of ob (head_idx l)) = UINT32_MAX)"

definition orders_inv :: "order_book \<Rightarrow> u32 list \<Rightarrow> u32 set \<Rightarrow> u32 list \<Rightarrow> nat \<Rightarrow> bool" where
  "orders_inv ob L Os fs k \<longleftrightarrow>
     pool_free_list (ob_pool ob) fs \<and> distinct (L @ fs) \<and> Os \<inter> set (L @ fs) = {} \<and>
     UINT32_MAX \<notin> set (L @ fs) \<union> Os \<and> om_frees (ob_index ob) k \<and>
     (\<forall>r i. map_find (ob_index ob) r = Some i \<longleftrightarrow> i \<in> set L \<union> Os \<and> s_order_ref (slot_of ob i) = r) \<and>
     tables_ok ob \<and> (\<forall>i\<in>set L. ok_price (s_price (slot_of ob i))) \<and> (\<exists>rk. links_ok ob L rk)"

lemma links_next:
  assumes "links_ok ob L rk" "i \<in> set L" "next_idx (slot_of ob i) \<noteq> UINT32_MAX"
  shows "next_idx (slot_of ob i) \<in> set L" "prev_idx (slot_of ob (next_idx (slot_of ob i))) = i"
    "rk (next_idx (slot_of ob i)) < rk i"
    "at_level (slot_of ob) (s_side (slot_of ob i) = BUY) (s_price (slot_of ob i)) (next_idx (slot_of ob i))"
  using assms unfolding links_ok_def by blast+

lemma links_prev:
  assumes "links_ok ob L rk" "i \<in> set L" "prev_idx (slot_of ob i) \<noteq> UINT32_MAX"
  shows "prev_idx (slot_of ob i) \<in> set L" "next_idx (slot_of ob (prev_idx (slot_of ob i))) = i"
  using assms unfolding links_ok_def by blast+

lemma links_head:
  assumes "links_ok ob L rk" "ok_price p" "tab_find (side_table ob b) p = Some l" "head_idx l \<noteq> UINT32_MAX"
  shows "head_idx l \<in> set L" "at_level (slot_of ob) b p (head_idx l)" "prev_idx (slot_of ob (head_idx l)) = UINT32_MAX"
  using assms unfolding links_ok_def by blast+

lemma links_irrefl:
  assumes "links_ok ob L rk" "i \<in> set L" "UINT32_MAX \<notin> set L"
  shows "next_idx (slot_of ob i) \<noteq> i" "prev_idx (slot_of ob i) \<noteq> i"
  using links_next [OF assms(1,2)] links_prev [OF assms(1,2)] assms(2,3) by (metis less_irrefl)+

text \<open>A change of the totals and counts of levels that leaves their heads alone, or drops or clears them.\<close>

lemma orders_inv_tables:
  assumes inv: "orders_inv ob L Os fs k" and tab: "tables_ok ob'"
    and same: "ob_pool ob' = ob_pool ob" "ob_index ob' = ob_index ob"
    and heads: "\<And>b p l'. ok_price p \<Longrightarrow> tab_find (side_table ob' b) p = Some l' \<Longrightarrow> head_idx l' \<noteq> UINT32_MAX \<Longrightarrow>
      \<exists>l. tab_find (side_table ob b) p = Some l \<and> head_idx l' = head_idx l"
  shows "orders_inv ob' L Os fs k"
proof -
  obtain rk where rk: "links_ok ob L rk" using inv by (auto simp: orders_inv_def)
  have "links_ok ob' L rk"
  proof -
    have h: "head_idx l' \<in> set L \<and> at_level (slot_of ob) b p (head_idx l') \<and> prev_idx (slot_of ob (head_idx l')) = UINT32_MAX"
      if "ok_price p" "tab_find (side_table ob' b) p = Some l'" "head_idx l' \<noteq> UINT32_MAX" for b p l'
      using heads [OF that] links_head [OF rk that(1)] that(3) by metis
    show ?thesis using rk h unfolding links_ok_def same by blast
  qed
  then show ?thesis using inv tab unfolding orders_inv_def same by blast
qed

lemma orders_inv_fields:
  assumes inv: "orders_inv ob L Os fs k"
    and f: "\<And>s. prev_idx (f s) = prev_idx s \<and> next_idx (f s) = next_idx s \<and> s_order_ref (f s) = s_order_ref s \<and>
      s_side (f s) = s_side s \<and> s_price (f s) = s_price s"
  shows "orders_inv (ob\<lparr>ob_pool := pool_set (ob_pool ob) i f\<rparr>) L Os fs k"
proof -
  let ?ob = "ob\<lparr>ob_pool := pool_set (ob_pool ob) i f\<rparr>"
  have s: "prev_idx (slot_of ?ob x) = prev_idx (slot_of ob x)" "next_idx (slot_of ?ob x) = next_idx (slot_of ob x)"
    "s_order_ref (slot_of ?ob x) = s_order_ref (slot_of ob x)" "s_side (slot_of ?ob x) = s_side (slot_of ob x)"
    "s_price (slot_of ?ob x) = s_price (slot_of ob x)" for x using f by (simp_all add: pool_at_set)
  have a: "at_level (slot_of ?ob) b p x = at_level (slot_of ob) b p x" for b p x unfolding at_level_def s ..
  have "tables_ok ?ob = tables_ok ob" by (simp add: tables_ok_def)
  moreover have "links_ok ?ob L = links_ok ob L"
    unfolding links_ok_def s a by (simp add: fun_eq_iff)
  ultimately show ?thesis using inv unfolding orders_inv_def s by simp
qed

lemma dec_level_orders:
  assumes inv: "orders_inv ob L Os fs k" and px: "ok_price px"
  shows "orders_inv (dec_level_qty ob sd px q) L Os fs k" and "ob_pool (dec_level_qty ob sd px q) = ob_pool ob"
    and "ob_index (dec_level_qty ob sd px q) = ob_index ob"
proof -
  let ?ob = "dec_level_qty ob sd px q" and ?b = "sd = BUY"
  let ?t = "tab_upd (side_table ob ?b) px (\<lambda>l. l\<lparr>total_qty := total_qty l - to_u32 q\<rparr>)"
  have tab: "tab_wf (side_table ob c)" "tb_bid (side_table ob c) = c" for c
    using inv by (auto simp: orders_inv_def tables_ok_def)
  note up = tab_upd_wf [OF tab(1) [of ?b] px, of "\<lambda>l. l\<lparr>total_qty := total_qty l - to_u32 q\<rparr>"]
  note er = tab_erase_wf [OF conjunct1 [OF up] px]
  have side: "side_table ?ob c = (if c = ?b then if total_qty (level_ref ?t px) = 0 then tab_erase ?t px else ?t
      else side_table ob c)" for c by (simp add: dec_level_qty_def Let_def)
  show p: "ob_pool ?ob = ob_pool ob" "ob_index ?ob = ob_index ob" by (simp_all add: dec_level_qty_def Let_def)
  show "orders_inv ?ob L Os fs k"
  proof (rule orders_inv_tables [OF inv _ p])
    show "tables_ok ?ob" unfolding tables_ok_def side using tab up er by auto
    fix b p l' assume h: "ok_price p" "tab_find (side_table ?ob b) p = Some l'" "head_idx l' \<noteq> UINT32_MAX"
    note upf = conjunct2 [OF conjunct2 [OF up], rule_format, OF h(1)]
    note erf = conjunct2 [OF conjunct2 [OF er], rule_format, OF h(1)]
    show "\<exists>l. tab_find (side_table ob b) p = Some l \<and> head_idx l' = head_idx l"
    proof (cases "b = ?b \<and> p = px")
      case True
      then have "tab_find ?t p = Some l'" using h(2) erf unfolding side by (simp split: if_splits)
      then show ?thesis using upf h(3) True by (cases "tab_find (side_table ob ?b) px") (auto simp: empty_level_def)
    next
      case False
      then have "tab_find (side_table ob b) p = Some l'"
        using h(2) upf erf unfolding side by (cases "b = ?b") (simp_all split: if_splits)
      then show ?thesis by blast
    qed
  qed
qed

section \<open>Removing and adding\<close>

lemma unlink_links:
  assumes rk: "links_ok ob L rk" and max: "UINT32_MAX \<notin> set L" and i: "i \<in> set L"
    and next': "\<And>x. x \<in> set L \<Longrightarrow> next_idx (slot_of ob' x) = (if x = prev_idx (slot_of ob i) then next_idx (slot_of ob i) else next_idx (slot_of ob x))"
    and prev': "\<And>x. x \<in> set L \<Longrightarrow> prev_idx (slot_of ob' x) = (if x = next_idx (slot_of ob i) then prev_idx (slot_of ob i) else prev_idx (slot_of ob x))"
    and vw: "\<And>x. view_of (slot_of ob' x) = view_of (slot_of ob x)"
    and heads: "\<And>b p l'. ok_price p \<Longrightarrow> tab_find (side_table ob' b) p = Some l' \<Longrightarrow> head_idx l' \<noteq> UINT32_MAX \<Longrightarrow>
      (if at_level (slot_of ob) b p i \<and> prev_idx (slot_of ob i) = UINT32_MAX then head_idx l' = next_idx (slot_of ob i)
       else \<exists>l. tab_find (side_table ob b) p = Some l \<and> head_idx l' = head_idx l)"
  shows "links_ok ob' (filter (\<lambda>x. x \<noteq> i) L) rk"
proof -
  let ?f = "slot_of ob" and ?g = "slot_of ob'" and ?L = "filter (\<lambda>x. x \<noteq> i) L"
  have fld: "s_side (?g x) = s_side (?f x)" "s_price (?g x) = s_price (?f x)" for x using view_eq_fields [OF vw] by blast+
  have at: "at_level ?g b p x = at_level ?f b p x" for b p x by (rule at_level_view [OF vw])
  note nx = links_next [OF rk] and pv = links_prev [OF rk] and ir = links_irrefl [OF rk i max]
  have lvl: "at_level ?f (s_side (?f x) = BUY) (s_price (?f x)) z"
    if "at_level ?f (s_side (?f x) = BUY) (s_price (?f x)) y" "at_level ?f (s_side (?f y) = BUY) (s_price (?f y)) z" for x y z
    using that by (auto simp: at_level_def)
  have N: "next_idx (?g x) \<in> set ?L \<and> prev_idx (?g (next_idx (?g x))) = x \<and> rk (next_idx (?g x)) < rk x \<and>
      at_level ?g (s_side (?g x) = BUY) (s_price (?g x)) (next_idx (?g x))"
    if x: "x \<in> set L" "x \<noteq> i" and n: "next_idx (?g x) \<noteq> UINT32_MAX" for x
  proof (cases "x = prev_idx (?f i)")
    case True
    have xm: "prev_idx (?f i) \<noteq> UINT32_MAX" using True x(1) max by auto
    have n': "next_idx (?g x) = next_idx (?f i)" "next_idx (?f i) \<noteq> UINT32_MAX" using next' [OF x(1)] True n by simp_all
    have xi: "next_idx (?f x) = i" using pv(2) [OF i xm] True by simp
    have im: "i \<noteq> UINT32_MAX" using i max by auto
    note a = nx [OF i n'(2)] and b = nx [OF x(1), unfolded xi, OF im]
    have "prev_idx (?g (next_idx (?f i))) = x" using prev' [OF a(1)] True by simp
    then show ?thesis unfolding n'(1) at fld using a ir(1) b(3) lvl [OF b(4) a(4)] by auto
  next
    case False
    then have n': "next_idx (?g x) = next_idx (?f x)" "next_idx (?f x) \<noteq> UINT32_MAX" using next' [OF x(1)] n by simp_all
    note a = nx [OF x(1) n'(2)]
    have ni: "next_idx (?f x) \<noteq> i" using a(2) False by auto
    have "next_idx (?f x) \<noteq> next_idx (?f i)" using a(2) n'(2) nx(2) [OF i] x(2) by auto
    then have "prev_idx (?g (next_idx (?f x))) = x" using prev' [OF a(1)] a(2) by simp
    then show ?thesis unfolding n'(1) at fld using a ni by auto
  qed
  have P: "prev_idx (?g x) \<in> set ?L \<and> next_idx (?g (prev_idx (?g x))) = x"
    if x: "x \<in> set L" "x \<noteq> i" and p: "prev_idx (?g x) \<noteq> UINT32_MAX" for x
  proof (cases "x = next_idx (?f i)")
    case True
    then have p': "prev_idx (?g x) = prev_idx (?f i)" "prev_idx (?f i) \<noteq> UINT32_MAX" using prev' [OF x(1)] p by simp_all
    note a = pv [OF i p'(2)]
    show ?thesis unfolding p'(1) using a ir(2) next' [OF a(1)] True by simp
  next
    case False
    then have p': "prev_idx (?g x) = prev_idx (?f x)" "prev_idx (?f x) \<noteq> UINT32_MAX" using prev' [OF x(1)] p by simp_all
    note a = pv [OF x(1) p'(2)]
    have "prev_idx (?f x) \<noteq> i" using a(2) False by auto
    moreover have "prev_idx (?f x) \<noteq> prev_idx (?f i)" using a(2) pv(2) [OF i] p'(2) x(2) by auto
    ultimately show ?thesis unfolding p'(1) using a next' [OF a(1)] by simp
  qed
  have H: "head_idx l' \<in> set ?L \<and> at_level ?g b p (head_idx l') \<and> prev_idx (?g (head_idx l')) = UINT32_MAX"
    if h: "ok_price p" "tab_find (side_table ob' b) p = Some l'" "head_idx l' \<noteq> UINT32_MAX" for b p l'
  proof (cases "at_level ?f b p i \<and> prev_idx (?f i) = UINT32_MAX")
    case True
    then have n: "head_idx l' = next_idx (?f i)" "next_idx (?f i) \<noteq> UINT32_MAX" using heads [OF h] h(3) by simp_all
    note a = nx [OF i n(2)]
    have "at_level ?f b p (next_idx (?f i))" using True a(4) by (auto simp: at_level_def)
    then show ?thesis unfolding n(1) at using a(1) ir(1) prev' [OF a(1)] True by simp
  next
    case False
    then obtain l where l: "tab_find (side_table ob b) p = Some l" "head_idx l' = head_idx l" using heads [OF h] by auto
    note a = links_head [OF rk h(1) l(1) h(3) [unfolded l(2)]]
    have hi: "head_idx l \<noteq> i" using False a(2,3) by auto
    have "head_idx l \<noteq> next_idx (?f i)" using nx(2) [OF i] a(3) h(3) l(2) max i by auto
    then have "prev_idx (?g (head_idx l)) = UINT32_MAX" using prev' [OF a(1)] a(3) by simp
    then show ?thesis unfolding l(2) at using a(1,2) hi by simp
  qed
  show ?thesis unfolding links_ok_def using N P H by simp
qed

lemma remove_orders:
  assumes inv: "orders_inv ob L Os fs k" and i: "i \<in> set L" and r: "s_order_ref (slot_of ob i) = r"
  defines "ob' \<equiv> (unlink_and_free ob i)\<lparr>ob_index := map_erase (ob_index (unlink_and_free ob i)) r\<rparr>"
  shows "orders_inv ob' (filter (\<lambda>x. x \<noteq> i) L) Os (i # fs) k"
    and "view_of (slot_of ob' x) = view_of (slot_of ob x)" and "x \<notin> set L \<Longrightarrow> slot_of ob' x = slot_of ob x"
proof -
  let ?f = "slot_of ob" and ?g = "slot_of ob'" and ?L = "filter (\<lambda>x. x \<noteq> i) L"
  let ?b = "s_side (?f i) = BUY" and ?px = "s_price (?f i)"
  let ?t = "side_table ob ?b"
  obtain rk where rk: "links_ok ob L rk" using inv by (auto simp: orders_inv_def)
  have d: "distinct L" "i \<notin> set fs" "i \<noteq> UINT32_MAX" "UINT32_MAX \<notin> set L" "i \<notin> Os" "ok_price ?px"
    using inv i by (auto simp: orders_inv_def)
  have tab: "tab_wf (side_table ob c)" "tb_bid (side_table ob c) = c" for c
    using inv by (auto simp: orders_inv_def tables_ok_def)
  note self = links_irrefl(2) [OF rk i d(4)]
  note un = unlink_other [OF self] and sl = unlink_slots [OF self]
  have g: "?g x = slot_of (unlink_and_free ob i) x" for x by (simp add: ob'_def)
  show vw: "view_of (?g x) = view_of (?f x)" for x by (simp add: g sl view_of_def)
  show "x \<notin> set L \<Longrightarrow> ?g x = ?f x" for x
    using links_next(1) [OF rk i] links_prev(1) [OF rk i] by (cases "x = UINT32_MAX") (auto simp: g sl)
  let ?upd = "\<lambda>l. \<lparr>head_idx = (if prev_idx (?f i) \<noteq> UINT32_MAX then head_idx l else next_idx (?f i)),
                 tail_idx = (if next_idx (?f i) \<noteq> UINT32_MAX then tail_idx l else prev_idx (?f i)),
                 lv_count = lv_count l - 1, total_qty = total_qty l - to_u32 (s_shares (?f i))\<rparr>"
  let ?t1 = "tab_upd ?t ?px ?upd"
  note up = tab_upd_wf [OF tab(1) [of ?b] d(6), of ?upd]
  note er = tab_erase_wf [OF conjunct1 [OF up] d(6)]
  have side: "side_table ob' c = (if c = ?b then if lv_count (level_ref ?t1 ?px) = 0 then tab_erase ?t1 ?px else ?t1
      else side_table ob c)" for c
    using un(1) [of c] by (simp add: ob'_def)
  have tabs: "tables_ok ob'" unfolding tables_ok_def side using tab up er by simp
  have heads: "if at_level ?f b p i \<and> prev_idx (?f i) = UINT32_MAX then head_idx l' = next_idx (?f i)
       else \<exists>l. tab_find (side_table ob b) p = Some l \<and> head_idx l' = head_idx l"
    if h: "ok_price p" "tab_find (side_table ob' b) p = Some l'" "head_idx l' \<noteq> UINT32_MAX" for b p l'
  proof -
    note upf = conjunct2 [OF conjunct2 [OF up], rule_format, OF h(1)]
    note erf = conjunct2 [OF conjunct2 [OF er], rule_format, OF h(1)]
    show ?thesis
    proof (cases "at_level ?f b p i")
      case True
      then have bp: "b = ?b" "p = ?px" by (auto simp: at_level_def)
      then have "tab_find ?t1 p = Some l'" using h(2) erf unfolding side by (simp split: if_splits)
      then have "l' = ?upd (level_or_new (tab_find (side_table ob b) p))" using upf bp by simp
      then show ?thesis using h(3) True
        by (cases "prev_idx (?f i) = UINT32_MAX"; cases "tab_find (side_table ob b) p") (simp_all add: empty_level_def)
    next
      case False
      then have "\<not> (b = ?b \<and> p = ?px)" by (auto simp: at_level_def)
      then have "tab_find (side_table ob b) p = Some l'"
        using h(2) upf erf unfolding side by (cases "b = ?b") (simp_all split: if_splits)
      then show ?thesis using False by simp
    qed
  qed
  have links: "links_ok ob' ?L rk"
    by (rule unlink_links [OF rk d(4) i _ _ vw heads]) (use d(4) in \<open>auto simp: g sl\<close>)
  have free: "pool_free_list (ob_pool ob') (i # fs)"
    using un(3) [of fs] inv d by (simp add: ob'_def orders_inv_def)
  have "om_frees (ob_index ob) k" using inv by (simp add: orders_inv_def)
  note me = map_erase_spec [OF this, of r]
  have index: "ob_index ob' = map_erase (ob_index ob) r" using un(2) by (simp add: ob'_def)
  have old: "map_find (ob_index ob) r' = Some x \<longleftrightarrow> x \<in> set L \<union> Os \<and> s_order_ref (?f x) = r'" for r' x
    using inv by (simp add: orders_inv_def)
  have fld: "s_order_ref (?g x) = s_order_ref (?f x)" "s_price (?g x) = s_price (?f x)" for x
    using view_eq_fields [OF vw] by blast+
  have idx: "map_find (ob_index ob') r' = Some x \<longleftrightarrow> x \<in> set ?L \<union> Os \<and> s_order_ref (?g x) = r'" for r' x
  proof -
    have "map_find (ob_index ob) r = Some i" using old i r by simp
    then have "x \<in> set L \<union> Os \<Longrightarrow> s_order_ref (?f x) = r \<Longrightarrow> x = i" using old [of r x] by simp
    then show ?thesis using old [of r' x] r me(2) [of r'] d(5) by (auto simp: index fld)
  qed
  have prices: "\<forall>x\<in>set ?L. ok_price (s_price (?g x))" using inv by (auto simp: orders_inv_def fld)
  have sets: "distinct (?L @ i # fs)" "Os \<inter> set (?L @ i # fs) = {}" "UINT32_MAX \<notin> set (?L @ i # fs) \<union> Os"
    using inv d i by (auto simp: orders_inv_def)
  show "orders_inv ob' ?L Os (i # fs) k"
    unfolding orders_inv_def using free sets me(1) idx tabs prices links by (simp only: index) blast
qed

lemma add_links:
  assumes rk: "links_ok ob L rk" and max: "UINT32_MAX \<notin> set L" and i: "i \<notin> set L" "i \<noteq> UINT32_MAX"
    and h: "h = head_idx (level_or_new (tab_find (side_table ob b) px))" and px: "ok_price px"
    and new: "slot_of ob' i = nd" "prev_idx nd = UINT32_MAX" "next_idx nd = h" "(s_side nd = BUY) = b" "s_price nd = px"
    and old: "\<And>x. x \<noteq> i \<Longrightarrow> slot_of ob' x = (if x = h \<and> h \<noteq> UINT32_MAX then (slot_of ob x)\<lparr>prev_idx := i\<rparr> else slot_of ob x)"
    and tabs: "\<And>c p. ok_price p \<Longrightarrow> tab_find (side_table ob' c) p =
      (if c = b \<and> p = px then Some lv else tab_find (side_table ob c) p)" and lv: "head_idx lv = i"
  shows "links_ok ob' (i # L) (rk(i := Suc (rk h)))"
proof -
  let ?f = "slot_of ob" and ?g = "slot_of ob'" and ?rk = "rk(i := Suc (rk h))"
  have hh: "h \<in> set L \<and> at_level ?f b px h \<and> prev_idx (?f h) = UINT32_MAX" if "h \<noteq> UINT32_MAX"
    using links_head [OF rk px, of b] that unfolding h by (cases "tab_find (side_table ob b) px") (simp_all add: empty_level_def)
  have fld: "next_idx (?g x) = next_idx (?f x)" "s_side (?g x) = s_side (?f x)" "s_price (?g x) = s_price (?f x)"
    "at_level ?g c p x = at_level ?f c p x" if "x \<in> set L" for x c p
  proof -
    have "x \<noteq> i" using that i(1) by auto
    from old [OF this] show "next_idx (?g x) = next_idx (?f x)" "s_side (?g x) = s_side (?f x)" "s_price (?g x) = s_price (?f x)"
      "at_level ?g c p x = at_level ?f c p x" by (simp_all add: at_level_def)
  qed
  have pv: "prev_idx (?g x) = (if x = h then i else prev_idx (?f x))" if "x \<in> set L" for x
  proof -
    have "x \<noteq> i" "x \<noteq> UINT32_MAX" using that i(1) max by auto
    then show ?thesis using old [of x] by auto
  qed
  note nx = links_next [OF rk] and px' = links_prev [OF rk]
  have N: "next_idx (?g x) \<in> set (i # L) \<and> prev_idx (?g (next_idx (?g x))) = x \<and> ?rk (next_idx (?g x)) < ?rk x \<and>
      at_level ?g (s_side (?g x) = BUY) (s_price (?g x)) (next_idx (?g x))"
    if x: "x \<in> set (i # L)" and n: "next_idx (?g x) \<noteq> UINT32_MAX" for x
  proof (cases "x = i")
    case True
    then have "h \<noteq> UINT32_MAX" "h \<noteq> i" using n new(1,3) hh i(1) by auto
    then show ?thesis using True hh new pv [of h] fld(4) [of h] by simp
  next
    case False
    then have xL: "x \<in> set L" using x by simp
    note a = nx [OF xL n [unfolded fld(1) [OF xL]]]
    have "next_idx (?f x) \<noteq> h" using a(2) hh xL max n fld(1) [OF xL] by auto
    moreover have "next_idx (?f x) \<noteq> i" using a(1) i(1) by auto
    ultimately show ?thesis using a False pv [OF a(1)] unfolding fld [OF xL] fld(4) [OF a(1)] by simp
  qed
  have P: "prev_idx (?g x) \<in> set (i # L) \<and> next_idx (?g (prev_idx (?g x))) = x"
    if x: "x \<in> set (i # L)" and p: "prev_idx (?g x) \<noteq> UINT32_MAX" for x
  proof (cases "x = i \<or> x = h")
    case True
    then show ?thesis using x p new pv [of h] by auto
  next
    case False
    then have xL: "x \<in> set L" and q: "prev_idx (?g x) = prev_idx (?f x)" using x pv by auto
    note a = px' [OF xL p [unfolded q]]
    then show ?thesis unfolding q using fld(1) [OF a(1)] by simp
  qed
  have H: "head_idx l' \<in> set (i # L) \<and> at_level ?g c p (head_idx l') \<and> prev_idx (?g (head_idx l')) = UINT32_MAX"
    if k: "ok_price p" "tab_find (side_table ob' c) p = Some l'" "head_idx l' \<noteq> UINT32_MAX" for c p l'
  proof (cases "c = b \<and> p = px")
    case True
    then have "l' = lv" using k(2) tabs [OF k(1), of c] by simp
    then show ?thesis using True lv new by (simp add: at_level_def)
  next
    case False
    then have "tab_find (side_table ob c) p = Some l'" using k(2) tabs [OF k(1), of c] by (simp split: if_splits)
    note a = links_head [OF rk k(1) this k(3)]
    have "head_idx l' \<noteq> h" using a(2) hh k(3) False by (auto simp: at_level_def)
    then show ?thesis using a pv [OF a(1)] fld(4) [OF a(1)] by simp
  qed
  show ?thesis unfolding links_ok_def using N P H by blast
qed

lemma add_orders:
  fixes q sq :: u64 and sd :: order_side
  assumes inv: "orders_inv ob L Os (i # fs) (Suc k)" and new: "map_find (ob_index ob) r = None" and px: "ok_price px"
  defines "ob' \<equiv> fst (book_add ob r sd px q sq)"
  shows "snd (book_add ob r sd px q sq) = i" and "orders_inv ob' (i # L) Os fs k"
    and "view_of (slot_of ob' i) = fresh_view r sd px q sq"
    and "x \<noteq> i \<Longrightarrow> view_of (slot_of ob' x) = view_of (slot_of ob x)"
    and "x \<notin> set (i # L) \<Longrightarrow> slot_of ob' x = slot_of ob x"
proof -
  let ?b = "sd = BUY" and ?f = "slot_of ob" and ?g = "slot_of ob'"
  let ?t = "side_table ob ?b"
  let ?h = "head_idx (level_or_new (tab_find ?t px))"
  obtain rk where rk: "links_ok ob L rk" using inv by (auto simp: orders_inv_def)
  obtain pl where pl: "pool_alloc (ob_pool ob) = (pl, Some i)" "pool_free_list pl fs"
    using pool.alloc_some [of "ob_pool ob" i fs] inv by (auto simp: orders_inv_def)
  have i: "i \<notin> set L" "i \<notin> Os" "i \<notin> set fs" "i \<noteq> UINT32_MAX" "UINT32_MAX \<notin> set L"
    using inv by (auto simp: orders_inv_def)
  have tab: "tab_wf (side_table ob c)" "tb_bid (side_table ob c) = c" for c
    using inv by (auto simp: orders_inv_def tables_ok_def)
  have href: "head_idx (level_ref ?t px) = ?h" using level_ref_eq [OF tab(1) px] by simp
  have hh: "?h \<in> set L" if "?h \<noteq> UINT32_MAX"
    using links_head [OF rk px, of ?b] that by (cases "tab_find ?t px") (simp_all add: empty_level_def)
  then have hi: "?h \<noteq> i" using i by metis
  let ?node = "\<lparr>s_order_ref = r, s_side = sd, s_price = px, s_shares = q, s_remaining = q, s_sequence = sq,
    prev_idx = UINT32_MAX, next_idx = ?h\<rparr>"
  let ?upd = "\<lambda>l. \<lparr>head_idx = i, tail_idx = (if tail_idx l = UINT32_MAX then i else tail_idx l),
      lv_count = lv_count l + 1, total_qty = total_qty l + to_u32 q\<rparr>"
  have res: "snd (book_add ob r sd px q sq) = i" "side_table ob' c = (if c = ?b then tab_upd ?t px ?upd else side_table ob c)"
    "ob_index ob' = map_insert (ob_index ob) r i" "pool_free_list (ob_pool ob') fs" for c
    by (auto simp: ob'_def book_add_def pl Let_def)
  have slot: "?g x = (if x = i then ?node else if x = ?h \<and> ?h \<noteq> UINT32_MAX then (?f x)\<lparr>prev_idx := i\<rparr> else ?f x)" for x
    using hi by (auto simp: ob'_def book_add_def pl Let_def href pool_at_set pool_alloc_at [OF pl(1)])
  show "snd (book_add ob r sd px q sq) = i" by (fact res)
  show "view_of (?g i) = fresh_view r sd px q sq" by (simp add: slot view_of_def fresh_view_def)
  show vw: "x \<noteq> i \<Longrightarrow> view_of (?g x) = view_of (?f x)" for x by (simp add: slot view_of_def)
  show "x \<notin> set (i # L) \<Longrightarrow> ?g x = ?f x" using hh by (auto simp: slot)
  note up = tab_upd_wf [OF tab(1) [of ?b] px, of ?upd]
  have tabs: "tables_ok ob'" unfolding tables_ok_def res using tab up by simp
  have "links_ok ob' (i # L) (rk(i := Suc (rk ?h)))"
  proof (rule add_links [where nd = ?node and lv = "?upd (level_or_new (tab_find ?t px))", OF rk i(5,1,4) refl px])
    show "tab_find (side_table ob' c) p = (if c = ?b \<and> p = px then Some (?upd (level_or_new (tab_find ?t px))) else tab_find (side_table ob c) p)"
      if "ok_price p" for c p
      unfolding res using conjunct2 [OF conjunct2 [OF up], rule_format, OF that] by (cases "c = ?b"; cases "p = px") simp_all
  qed (simp_all add: slot)
  moreover have "om_frees (ob_index ob) (Suc k)" using inv by (simp add: orders_inv_def)
  note mi = map_insert_spec [OF this new, of i]
  have room: "om_room (ob_index ob) r" using inv frees_room by (auto simp: orders_inv_def)
  have find: "map_find (ob_index ob') r' = (if r' = r then Some i else map_find (ob_index ob) r')" for r'
    using mi room by (simp add: res)
  have old: "map_find (ob_index ob) r' = Some x \<longleftrightarrow> x \<in> set L \<union> Os \<and> s_order_ref (?f x) = r'" for r' x
    using inv by (simp add: orders_inv_def)
  have "map_find (ob_index ob') r' = Some x \<longleftrightarrow> x \<in> set (i # L) \<union> Os \<and> s_order_ref (?g x) = r'" for r' x
    using old [of r' x] old [of r x] old [of r' i] new i by (cases "x = i") (auto simp: find slot)
  moreover have "om_frees (ob_index ob') k" using mi by (simp add: res)
  moreover have "\<forall>x\<in>set (i # L). ok_price (s_price (?g x))" using inv px by (auto simp: slot orders_inv_def)
  moreover have "distinct ((i # L) @ fs)" "Os \<inter> set ((i # L) @ fs) = {}" "UINT32_MAX \<notin> set ((i # L) @ fs) \<union> Os"
    using inv by (auto simp: orders_inv_def)
  ultimately show "orders_inv ob' (i # L) Os fs k"
    unfolding orders_inv_def using res(4) tabs by blast
qed

section \<open>The specification: orders that come to an end\<close>

text \<open>A cancel or an execution takes at most what remains; an order of which nothing remains is gone.\<close>

definition spec_take :: "order_view list \<Rightarrow> u64 \<Rightarrow> u64 \<Rightarrow> order_view list" where
  "spec_take V r q = (case spec_find V r of None \<Rightarrow> V
     | Some v \<Rightarrow> if q < v_remaining v then spec_cut V r q else spec_del V r)"

fun orders_do :: "order_view list \<Rightarrow> book_op \<Rightarrow> order_view list" where
  "orders_do V (BCancel r q) = spec_take V r q"
| "orders_do V (BExecute r q) = spec_take V r q"
| "orders_do V op = spec_do V op"

text \<open>All that is asked of a feed: an order that is put into a book has a new reference and a price that is
  not a sentinel of the price table.\<close>

fun fresh_op :: "order_view list \<Rightarrow> book_op \<Rightarrow> bool" where
  "fresh_op V (BAdd r sd px q sq) \<longleftrightarrow> spec_find V r = None \<and> ok_price px"
| "fresh_op V (BReplace old new sd px q sq) \<longleftrightarrow> (case spec_find V old of None \<Rightarrow> True
     | Some v \<Rightarrow> ok_price px \<and> spec_find (spec_del V old) new = None)"
| "fresh_op V op \<longleftrightarrow> True"

definition orders_rep :: "order_book \<Rightarrow> u32 list \<Rightarrow> u32 set \<Rightarrow> u32 list \<Rightarrow> nat \<Rightarrow> order_view list \<Rightarrow> bool" where
  "orders_rep ob L Os fs k V \<longleftrightarrow> orders_inv ob L Os fs k \<and> V = map (\<lambda>i. view_of (slot_of ob i)) L"

interpretation live: order_rep orders_rep
  by unfold_locales (simp_all add: orders_rep_def orders_inv_def)

lemma orders_inv_fewer: "orders_inv ob L Os fs k \<Longrightarrow> j \<le> k \<Longrightarrow> orders_inv ob L Os fs j"
  unfolding orders_inv_def om_frees_def by (meson le_trans)

lemma orders_gone:
  assumes rep: "orders_rep ob L Os fs k V" and i: "i \<in> set L" and r: "s_order_ref (slot_of ob i) = r"
  defines "ob' \<equiv> (unlink_and_free ob i)\<lparr>ob_index := map_erase (ob_index (unlink_and_free ob i)) r\<rparr>"
  shows "orders_rep ob' (filter (\<lambda>x. x \<noteq> i) L) Os (i # fs) k (spec_del V r)"
    and "x \<notin> set L \<Longrightarrow> slot_of ob' x = slot_of ob x"
  using remove_orders [of ob L Os fs k i r] rep i r live.del [OF rep i r]
  by (simp_all add: orders_rep_def ob'_def)

lemma take_rep:
  fixes q :: u64
  assumes rep: "orders_rep ob L Os fs k V" and r: "\<forall>x\<in>Os. s_order_ref (slot_of ob x) \<noteq> r"
  defines "ob' \<equiv> fst (book_cancel ob r q)"
  shows "\<exists>L' fs'. orders_rep ob' L' Os fs' k (spec_take V r q) \<and> set L' \<union> set fs' = set L \<union> set fs \<and>
    length L' + length fs' = length L + length fs \<and> (\<forall>x. x \<notin> set L \<union> set fs \<longrightarrow> slot_of ob' x = slot_of ob x)"
proof (cases "spec_find V r")
  case None
  then have "ob' = ob" using live.find(2) [OF rep r] by (simp add: ob'_def book_cancel_def)
  then show ?thesis using rep None by (auto simp: spec_take_def)
next
  case (Some v)
  obtain i where i: "i \<in> set L" "s_order_ref (slot_of ob i) = r" "v = view_of (slot_of ob i)" "map_find (ob_index ob) r = Some i"
    using live.found [OF rep r Some] by blast
  have inv: "orders_inv ob L Os fs k" and V: "V = map (\<lambda>i. view_of (slot_of ob i)) L" using rep by (simp_all add: orders_rep_def)
  have px: "ok_price (s_price (slot_of ob i))" using inv i(1) by (simp add: orders_inv_def)
  define q' where "q' = (if s_remaining (slot_of ob i) < q then s_remaining (slot_of ob i) else q)"
  define ob1 where "ob1 = ob\<lparr>ob_pool := pool_set (ob_pool ob) i (\<lambda>s. s\<lparr>s_remaining := s_remaining s - q'\<rparr>)\<rparr>"
  define ob2 where "ob2 = dec_level_qty ob1 (s_side (slot_of ob1 i)) (s_price (slot_of ob1 i)) q'"
  have inv1: "orders_inv ob1 L Os fs k" unfolding ob1_def by (rule orders_inv_fields [OF inv]) simp
  have "ok_price (s_price (slot_of ob1 i))" using px by (simp add: ob1_def pool_at_set)
  note d = dec_level_orders [OF inv1 this, of "s_side (slot_of ob1 i)" q', folded ob2_def]
  have sl: "slot_of ob2 x = (if x = i then (slot_of ob i)\<lparr>s_remaining := s_remaining (slot_of ob i) - q'\<rparr> else slot_of ob x)" for x
    unfolding d(2) by (simp add: ob1_def pool_at_set)
  let ?V2 = "map (\<lambda>i. view_of (slot_of ob2 i)) L"
  have rep2: "orders_rep ob2 L Os fs k ?V2" using d(1) by (simp add: orders_rep_def)
  have r2: "s_order_ref (slot_of ob2 i) = r" using i(2) by (simp add: sl)
  have del2: "spec_del ?V2 r = spec_del V r"
    unfolding live.del [OF rep2 i(1) r2] live.del [OF rep i(1,2)] by (simp add: sl)
  have ob': "ob' = (if s_remaining (slot_of ob2 i) = 0
      then (unlink_and_free ob2 i)\<lparr>ob_index := map_erase (ob_index (unlink_and_free ob2 i)) r\<rparr> else ob2)"
    using i(4) by (simp add: ob'_def book_cancel_def Let_def ob2_def ob1_def q'_def)
  have iL: "x \<noteq> i" if "x \<notin> set L" for x using that i(1) by auto
  show ?thesis
  proof (cases "q < v_remaining v")
    case True
    then have q: "q < s_remaining (slot_of ob i)" using i(3) by (simp add: view_of_def)
    then have qq: "q' = q" by (auto simp: q'_def)
    have nz: "s_remaining (slot_of ob2 i) \<noteq> 0" using q by (auto simp: sl qq)
    have "spec_cut V r q = ?V2"
      using live.ref_iff [OF rep i(1,2)] i(2) by (simp add: spec_cut_def V sl view_of_def qq)
    then have "orders_rep ob' L Os fs k (spec_take V r q)"
      using rep2 True Some nz by (simp add: ob' spec_take_def)
    moreover have "slot_of ob' x = slot_of ob x" if "x \<notin> set L \<union> set fs" for x
      using iL that nz by (simp add: ob' sl)
    ultimately show ?thesis by (intro exI [of _ L] exI [of _ fs]) simp
  next
    case False
    then have "\<not> q < s_remaining (slot_of ob i)" using i(3) by (simp add: view_of_def)
    then have z: "s_remaining (slot_of ob2 i) = 0" by (auto simp: sl q'_def not_less_iff_gr_or_eq)
    note g = orders_gone [OF rep2 i(1) r2]
    have "orders_rep ob' (filter (\<lambda>x. x \<noteq> i) L) Os (i # fs) k (spec_take V r q)"
      using g(1) z False Some by (simp add: ob' del2 spec_take_def)
    moreover have "slot_of ob' x = slot_of ob x" if "x \<notin> set L \<union> set fs" for x
      using g(2) [of x] iL [of x] that z by (simp add: ob' sl)
    ultimately show ?thesis using live.drop_live [OF rep i(1)]
      by (intro exI [of _ "filter (\<lambda>x. x \<noteq> i) L"] exI [of _ "i # fs"]) simp
  qed
qed

lemma add_live:
  fixes q sq :: u64 and sd :: order_side
  assumes rep: "orders_rep ob L Os (i # fs) (Suc k) V" and new: "spec_find V r = None" "ok_price px"
    and r: "\<forall>x\<in>Os. s_order_ref (slot_of ob x) \<noteq> r"
  defines "ob' \<equiv> fst (book_add ob r sd px q sq)"
  shows "orders_rep ob' (i # L) Os fs k (fresh_view r sd px q sq # V)"
    and "x \<notin> set (i # L) \<Longrightarrow> slot_of ob' x = slot_of ob x"
proof -
  have inv: "orders_inv ob L Os (i # fs) (Suc k)" and V: "V = map (\<lambda>i. view_of (slot_of ob i)) L"
    using rep by (simp_all add: orders_rep_def)
  have "map_find (ob_index ob) r = None" using live.find(2) [OF rep r] new(1) by simp
  note a = add_orders [OF inv this new(2), where sd = sd and q = q and sq = sq, folded ob'_def]
  show "x \<notin> set (i # L) \<Longrightarrow> slot_of ob' x = slot_of ob x" by (rule a(5))
  have "i \<notin> set L" using inv by (simp add: orders_inv_def)
  then have "map (\<lambda>j. view_of (slot_of ob' j)) L = V" unfolding V by (intro map_cong refl a(4)) auto
  then show "orders_rep ob' (i # L) Os fs k (fresh_view r sd px q sq # V)"
    using a(2,3) by (simp add: orders_rep_def)
qed

lemma remove_live:
  assumes rep: "orders_rep ob L Os fs k V" and r: "\<forall>x\<in>Os. s_order_ref (slot_of ob x) \<noteq> r" and v: "spec_find V r = Some v"
  obtains i where "i \<in> set L" "orders_rep (fst (book_remove ob r)) (filter (\<lambda>x. x \<noteq> i) L) Os (i # fs) k (spec_del V r)"
    "\<And>x. x \<notin> set L \<Longrightarrow> slot_of (fst (book_remove ob r)) x = slot_of ob x"
proof -
  obtain i where i: "i \<in> set L" "s_order_ref (slot_of ob i) = r" "map_find (ob_index ob) r = Some i"
    using live.found [OF rep r v] by blast
  have e: "fst (book_remove ob r) = (unlink_and_free ob i)\<lparr>ob_index := map_erase (ob_index (unlink_and_free ob i)) r\<rparr>"
    using i(3) by (simp add: book_remove_def Let_def)
  show thesis using that [OF i(1)] orders_gone [OF rep i(1,2)] unfolding e by blast
qed

lemma orders_step:
  assumes rep: "orders_rep ob L Os fs k V" and ok: "fresh_op V op" and k: "adds op \<le> k"
    and room: "adds op \<noteq> 0 \<Longrightarrow> length V < length L + length fs"
    and r: "\<forall>x\<in>Os. s_order_ref (slot_of ob x) \<notin> op_refs op"
  shows "\<exists>L' fs'. orders_rep (book_do ob op) L' Os fs' (k - adds op) (orders_do V op) \<and>
    set L' \<union> set fs' = set L \<union> set fs \<and> length L' + length fs' = length L + length fs \<and>
    (\<forall>x. x \<notin> set L \<union> set fs \<longrightarrow> slot_of (book_do ob op) x = slot_of ob x)"
proof -
  have refs: "\<forall>x\<in>Os. s_order_ref (slot_of ob x) \<noteq> q" if "q \<in> op_refs op" for q using r that by auto
  have len: "length V = length L" using live.views [OF rep] by simp
  have miss: "map_find (ob_index ob) q = None" if "spec_find V q = None" "q \<in> op_refs op" for q
    using live.find(2) [OF rep refs [OF that(2)]] that(1) by simp
  have keep: ?thesis if "book_do ob op = ob" "orders_do V op = V"
  proof -
    have "orders_rep ob L Os fs (k - adds op) V" using rep orders_inv_fewer by (auto simp: orders_rep_def)
    then show ?thesis unfolding that by blast
  qed
  show ?thesis
  proof (cases op)
    case (BAdd q sd px n sq)
    then obtain i fs' k' where fs: "fs = i # fs'" "k = Suc k'" using room k len by (cases fs; cases k) auto
    have "spec_find V q = None" "ok_price px" "\<forall>x\<in>Os. s_order_ref (slot_of ob x) \<noteq> q" using ok refs BAdd by auto
    note a = add_live [OF rep [unfolded fs] this]
    show ?thesis by (intro exI [of _ "i # L"] exI [of _ fs']) (use a fs BAdd in auto)
  next
    case (BRemove q)
    show ?thesis
    proof (cases "spec_find V q")
      case None
      then show ?thesis using BRemove miss spec_missing by (intro keep) (simp_all add: book_remove_def)
    next
      case (Some v)
      have rq: "\<forall>x\<in>Os. s_order_ref (slot_of ob x) \<noteq> q" using refs BRemove by simp
      obtain i where i: "i \<in> set L" "orders_rep (fst (book_remove ob q)) (filter (\<lambda>x. x \<noteq> i) L) Os (i # fs) k (spec_del V q)"
          "\<And>x. x \<notin> set L \<Longrightarrow> slot_of (fst (book_remove ob q)) x = slot_of ob x"
        using remove_live [OF rep rq Some] by blast
      show ?thesis unfolding BRemove
        by (intro exI [of _ "filter (\<lambda>x. x \<noteq> i) L"] exI [of _ "i # fs"]) (use i live.drop_live [OF rep i(1)] in simp)
    qed
  next
    case (BCancel q n)
    then show ?thesis using take_rep [OF rep refs [of q], of n] by simp
  next
    case (BExecute q n)
    then show ?thesis using take_rep [OF rep refs [of q], of n] by (simp add: execute_is_cancel)
  next
    case (BReplace old new sd px n sq)
    show ?thesis
    proof (cases "spec_find V old")
      case None
      then show ?thesis using BReplace miss by (intro keep) (simp_all add: book_replace_def)
    next
      case (Some v)
      have g: "ok_price px" "spec_find (spec_del V old) new = None" using ok BReplace Some by simp_all
      have ro: "\<forall>x\<in>Os. s_order_ref (slot_of ob x) \<noteq> old" using refs BReplace by simp
      obtain j where j: "map_find (ob_index ob) old = Some j" "v = view_of (slot_of ob j)"
        using live.found [OF rep ro Some] by blast
      let ?ob1 = "fst (book_remove ob old)" and ?sq = "if sq \<noteq> 0 then sq else v_sequence v"
      obtain i where i: "i \<in> set L" "orders_rep ?ob1 (filter (\<lambda>x. x \<noteq> i) L) Os (i # fs) k (spec_del V old)"
          "\<And>x. x \<notin> set L \<Longrightarrow> slot_of ?ob1 x = slot_of ob x"
        using remove_live [OF rep ro Some] by blast
      obtain k' where k': "k = Suc k'" using k BReplace by (cases k) auto
      have os: "Os \<inter> set L = {}" using live.slots [OF rep] by auto
      have rn: "\<forall>x\<in>Os. s_order_ref (slot_of ?ob1 x) \<noteq> new"
        using os i(3) refs [of new] BReplace by (metis IntI empty_iff insertCI op_refs.simps(5))
      note a = add_live [OF i(2) [unfolded k'] g(2,1) rn, where sd = sd and q = n and sq = ?sq]
      have bd: "book_do ob op = fst (book_add ?ob1 new sd px n ?sq)"
        using j by (simp add: BReplace book_replace_def view_of_def split: prod.splits)
      have sd: "orders_do V op = fresh_view new sd px n ?sq # spec_del V old" using Some by (simp add: BReplace)
      have ad: "k - adds op = k'" using k' BReplace by simp
      have "slot_of (book_do ob op) x = slot_of ob x" if "x \<notin> set L \<union> set fs" for x
      proof -
        have "x \<notin> set L" "x \<notin> set (i # filter (\<lambda>x. x \<noteq> i) L)" using that i(1) by auto
        then show ?thesis unfolding bd using trans [OF a(2) i(3)] by blast
      qed
      moreover have "set (i # filter (\<lambda>x. x \<noteq> i) L) \<union> set fs = set L \<union> set fs"
        "length (i # filter (\<lambda>x. x \<noteq> i) L) + length fs = length L + length fs"
        using live.drop_live [OF rep i(1)] by auto
      ultimately show ?thesis using a(1) unfolding bd sd ad by metis
    qed
  qed
qed

lemma links_frame:
  assumes rk: "links_ok ox L rk" and sl: "\<forall>x\<in>set L. slot_of ob x = slot_of ox x"
    and side: "\<And>b. side_table ob b = side_table ox b"
  shows "links_ok ob L rk"
proof -
  have at: "x \<in> set L \<Longrightarrow> at_level (slot_of ob) b p x = at_level (slot_of ox) b p x" for x b p
    using sl by (simp add: at_level_def)
  show ?thesis
    unfolding links_ok_def side
    using links_next [OF rk] links_prev [OF rk] links_head [OF rk] sl at by simp
qed

lemma orders_frame:
  assumes old: "orders_rep ox Lx Ox fs k Vx"
    and new: "orders_rep ob L Os fs' k' V" and fr: "\<forall>x\<in>set Lx. slot_of ob x = slot_of ox x"
    and dis: "set Lx \<inter> set fs' = {}" and all: "set Lx \<union> Ox' = set L \<union> Os" "set Lx \<inter> Ox' = {}"
  shows "orders_rep (ox\<lparr>ob_pool := ob_pool ob, ob_index := ob_index ob\<rparr>) Lx Ox' fs' k' Vx"
proof -
  let ?o = "ox\<lparr>ob_pool := ob_pool ob, ob_index := ob_index ob\<rparr>"
  have side: "side_table ?o b = side_table ox b" for b by (simp add: side_table_def)
  have n: "pool_free_list (ob_pool ob) fs'" "distinct fs'" "Os \<inter> set fs' = {}" "set L \<inter> set fs' = {}"
    "UINT32_MAX \<notin> set (L @ fs') \<union> Os" "om_frees (ob_index ob) k'"
    "\<And>r i. map_find (ob_index ob) r = Some i \<longleftrightarrow> i \<in> set L \<union> Os \<and> s_order_ref (slot_of ob i) = r"
    using new by (auto simp: orders_rep_def orders_inv_def)
  obtain rk where x: "distinct Lx" "tables_ok ox" "\<forall>i\<in>set Lx. ok_price (s_price (slot_of ox i))"
    "Vx = map (\<lambda>i. view_of (slot_of ox i)) Lx" "links_ok ox Lx rk" "UINT32_MAX \<notin> set Lx"
    using old by (auto simp: orders_rep_def orders_inv_def)
  have "links_ok ?o Lx rk" by (rule links_frame [OF x(5) _ side]) (use fr in simp)
  moreover have "Ox' \<inter> set fs' = {}" "UINT32_MAX \<notin> set (Lx @ fs') \<union> Ox'" using n(3-5) all(1) by auto
  ultimately show ?thesis
    unfolding orders_rep_def orders_inv_def
    using n(1,2,6) n(7) [folded all(1)] x(1-4) dis all(2) fr by (auto simp: tables_ok_def side)
qed

lemma orders_start:
  assumes "0 < n" "n < 2 ^ 32" "0 < m" "m < 2 ^ 32"
  shows "orders_rep (new_book (new_pool n) (new_order_map m)) [] {} (map of_nat [0..<n]) m []"
proof -
  let ?ob = "new_book (new_pool n) (new_order_map m)"
  have side: "side_table ?ob b = new_table b" for b by (simp add: side_table_def new_book_def)
  have "tab_find (new_table b) p = None" if "ok_price p" for b p using new_table_wf(2) [of b p] that by blast
  then have "links_ok ?ob [] (\<lambda>_. 0)" by (simp add: links_ok_def side)
  then show ?thesis using new_book_rep [OF assms] by (auto simp: orders_rep_def orders_inv_def book_rep_def book_inv_def)
qed

lemma orders_do_adds: "length (orders_do V op) \<le> length V + adds op"
  using spec_do_adds [of V op] by (cases op) (auto simp: spec_take_def spec_del_def spec_cut_def le_SucI split: option.splits)

interpretation live: order_tracker orders_rep fresh_op orders_do
  by unfold_locales (rule orders_step orders_frame orders_start orders_do_adds; (assumption | simp))+

section \<open>Properties\<close>

definition orders_run :: "market_event list \<Rightarrow> (u64 \<Rightarrow> order_view list) \<times> u64" where
  "orders_run evs = foldl (feed_by orders_do) (\<lambda>_. [], 0) evs"

lemma consumer_orders:
  assumes "0 < n" "n < 2 ^ 32" "0 < m" "m < 2 ^ 32"
    and "feed_ok fresh_op orders_do ls (\<lambda>_. [], 0) evs" "sum_list (map ev_adds evs) \<le> n" "sum_list (map ev_adds evs) \<le> m"
    and "c = foldl consumer_on_event (new_consumer (new_pool n) (new_order_map m)) evs" "Vs = fst (orders_run evs)"
  shows "v \<in> set (Vs loc) \<Longrightarrow> book_get (book_for c loc) (v_ref v) = Some v"
    and "(\<And>l. spec_find (Vs l) r = None) \<Longrightarrow> book_get (book_for c loc) r = None"
proof -
  obtain Ls fs k where rep: "\<And>l. orders_rep (book_for c l) (Ls l) (\<Union>x\<in>- {l}. set (Ls x)) fs k (Vs l)"
    using live.consumer_rep [OF assms(1-8)] unfolding assms(9) orders_run_def by metis
  show "v \<in> set (Vs loc) \<Longrightarrow> book_get (book_for c loc) (v_ref v) = Some v" by (rule live.get_live [OF rep])
  assume none: "\<And>l. spec_find (Vs l) r = None"
  have "\<forall>x\<in>\<Union>x\<in>- {loc}. set (Ls x). s_order_ref (slot_of (book_for c loc) x) \<noteq> r"
  proof
    fix x assume "x \<in> (\<Union>x\<in>- {loc}. set (Ls x))"
    then obtain l where "x \<in> set (Ls l)" by auto
    then have "view_of (slot_of (book_for c l) x) \<in> set (Vs l)" using live.views [OF rep, of l] by auto
    then have "v_ref (view_of (slot_of (book_for c l) x)) \<noteq> r"
      using none [of l] by (auto simp: spec_find_def find_None)
    then show "s_order_ref (slot_of (book_for c loc) x) \<noteq> r" by (simp add: view_of_def)
  qed
  from live.get [OF rep this] show "book_get (book_for c loc) r = None" using none by simp
qed


text \<open>Two orders on a level; the first is executed in two parts, of which the second is too large.\<close>

definition finished_feed :: "market_event list" where
  "finished_feed = [demo_event EV_ADD 7 1 BUY 100 50, demo_event EV_ADD 7 2 BUY 100 20, demo_event EV_EXECUTE 7 1 BUY 0 30,
     demo_event EV_EXECUTE 7 1 BUY 0 30, demo_event EV_CANCEL 7 2 BUY 0 5]"


end
