(* ===== verification/Channel.thy ===== *)
theory Channel
  imports NX_Prelude
begin

text \<open>
  The interface of a queue between a producer thread and a consumer thread. The producer has a list of
  items still to be sent, the queue a state, the consumer the list of what it received; the two threads
  take steps in any order. A refused attempt (a full queue, an empty one) changes nothing and is not a
  step: the threads try again.
\<close>

inductive chan_step :: "('s \<Rightarrow> 'a \<Rightarrow> 's \<Rightarrow> bool) \<Rightarrow> ('s \<Rightarrow> 'a list \<Rightarrow> 's \<Rightarrow> bool) \<Rightarrow>
    'a list \<times> 's \<times> 'a list \<Rightarrow> 'a list \<times> 's \<times> 'a list \<Rightarrow> bool"
  for send recv where
  chan_send: "send s x s' \<Longrightarrow> chan_step send recv (x # xs, s, out) (xs, s', out)"
| chan_recv: "recv s ys s' \<Longrightarrow> chan_step send recv (xs, s, out) (xs, s', out @ ys)"

inductive_cases chan_stepE: "chan_step send recv (xs, s, out) c"

abbreviation chan_steps where "chan_steps send recv \<equiv> (chan_step send recv)\<^sup>*\<^sup>*"

text \<open>
  The laws: a send appends, a receive removes from the front (or moves over unused space and removes
  nothing), an item that is there can be received, an empty queue accepts an admissible item, and the
  consumer cannot go on for ever without the producer.
\<close>

locale channel =
  fixes send :: "'s \<Rightarrow> 'a \<Rightarrow> 's \<Rightarrow> bool" and recv :: "'s \<Rightarrow> 'a list \<Rightarrow> 's \<Rightarrow> bool"
    and content :: "'s \<Rightarrow> 'a list \<Rightarrow> bool" and admissible :: "'s \<Rightarrow> 'a \<Rightarrow> bool" and work :: "'s \<Rightarrow> nat"
  assumes send_appends: "content s q \<Longrightarrow> send s x s' \<Longrightarrow> content s' (q @ [x])"
    and recv_takes: "content s q \<Longrightarrow> recv s ys s' \<Longrightarrow> \<exists>q'. q = ys @ q' \<and> content s' q'"
    and recv_enabled: "content s (x # q) \<Longrightarrow> \<exists>ys s'. recv s ys s'"
    and send_enabled: "content s [] \<Longrightarrow> admissible s x \<Longrightarrow> \<exists>s'. send s x s'"
    and admissible_kept: "send s y s' \<or> recv s ys s' \<Longrightarrow> admissible s' x = admissible s x"
    and recv_works: "content s q \<Longrightarrow> recv s ys s' \<Longrightarrow> work s' < work s"
begin

definition valid :: "'a list \<times> 's \<times> 'a list \<Rightarrow> 'a list \<Rightarrow> bool" where
  "valid c all \<longleftrightarrow> (case c of (xs, s, out) \<Rightarrow> \<exists>q. content s q \<and> out @ q @ xs = all)"

lemma valid_step: "chan_step send recv c c' \<Longrightarrow> valid c all \<Longrightarrow> valid c' all"
proof (induction rule: chan_step.induct)
  case (chan_send s x s' xs out)
  then show ?case using send_appends by (fastforce simp: valid_def)
next
  case (chan_recv s ys s' xs out)
  then show ?case using recv_takes by (fastforce simp: valid_def)
qed

text \<open>Nothing is lost, duplicated or reordered, however the threads interleave.\<close>

lemma fifo:
  assumes "chan_steps send recv c c'" "valid c all"
  shows "valid c' all"
  using assms by (induction rule: rtranclp_induct) (auto intro: valid_step)

lemma admissible_steps:
  assumes "chan_steps send recv c c'" "list_all (admissible (fst (snd c))) (fst c)"
  shows "list_all (admissible (fst (snd c'))) (fst c')"
  using assms
proof (induction rule: rtranclp_induct)
  case (step c1 c2)
  then have "list_all (admissible (fst (snd c1))) (fst c1)" by simp
  with step.hyps(2) show ?case
  proof (induction rule: chan_step.induct)
    case (chan_send s x s' xs out)
    then show ?case using admissible_kept [of s x s'] by (simp add: list_all_iff)
  next
    case (chan_recv s ys s' xs out)
    then show ?case using admissible_kept [of s _ s' ys] by (simp add: list_all_iff)
  qed
qed simp

text \<open>When neither thread can take a step, everything has arrived.\<close>

lemma stuck_delivered:
  assumes "valid (xs, s, out) all" "list_all (admissible s) xs" "\<nexists>c'. chan_step send recv (xs, s, out) c'"
  shows "xs = [] \<and> content s [] \<and> out = all"
proof -
  obtain q where q: "content s q" "out @ q @ xs = all" using assms(1) by (auto simp: valid_def)
  have "q = []"
  proof (rule ccontr)
    assume "q \<noteq> []"
    then obtain x q' where "q = x # q'" by (cases q) auto
    then show False using recv_enabled [of s x q'] q(1) assms(3) by (blast intro: chan_recv)
  qed
  moreover have "xs = []"
  proof (rule ccontr)
    assume "xs \<noteq> []"
    then obtain x xs' where x: "xs = x # xs'" by (cases xs) auto
    then have "admissible s x" using assms(2) by simp
    then show False using send_enabled [of s x] q(1) \<open>q = []\<close> assms(3) x by (blast intro: chan_send)
  qed
  ultimately show ?thesis using q by simp
qed

text \<open>No run goes on for ever.\<close>

lemma runs_end: "wf {(c', c). chan_step send recv c c' \<and> (\<exists>all. valid c all)}"
proof (rule wf_subset)
  show "wf (measures [\<lambda>c. length (fst c), \<lambda>c. work (fst (snd c))])" by simp
  show "{(c', c). chan_step send recv c c' \<and> (\<exists>all. valid c all)} \<subseteq> measures [\<lambda>c. length (fst c), \<lambda>c. work (fst (snd c))]"
    by (auto simp: valid_def elim!: chan_step.cases intro: recv_works)
qed

text \<open>From every state a run to the end exists, and the end is the same for all.\<close>

lemma all_delivered:
  assumes "valid c all" "list_all (admissible (fst (snd c))) (fst c)"
  shows "\<exists>s'. chan_steps send recv c ([], s', all) \<and> content s' []"
  using runs_end assms
proof (induction c rule: wf_induct_rule)
  case (less c)
  obtain xs s out where c: "c = (xs, s, out)" by (cases c)
  show ?case
  proof (cases "\<exists>c'. chan_step send recv c c'")
    case True
    then obtain c' where c': "chan_step send recv c c'" by blast
    have "valid c' all" by (rule valid_step [OF c' less.prems(1)])
    moreover have "list_all (admissible (fst (snd c'))) (fst c')"
      using admissible_steps [OF r_into_rtranclp [of "chan_step send recv", OF c'] less.prems(2)] .
    ultimately have "\<exists>s'. chan_steps send recv c' ([], s', all) \<and> content s' []"
      using less.prems(1) c' by (intro less.IH) auto
    then show ?thesis using c' by (meson converse_rtranclp_into_rtranclp)
  next
    case False
    then show ?thesis using stuck_delivered [of xs s out all] less.prems by (auto simp: c)
  qed
qed

end

end
