(* ===== verification/Byte_Ring.thy ===== *)
theory Byte_Ring
  imports NX_Bytes
begin

text \<open>
  The single-producer single-consumer byte ring of \<^verbatim>\<open>core/queue/spsc_byte_ring.h\<close>. The buffer is a
  function on offsets, \<open>head_\<close> and \<open>tail_\<close> are absolute positions. They are natural numbers here:
  the 64-bit counters would wrap after \<open>2 ^ 64\<close> bytes. A message is a ten-byte header and a body;
  the header is never split over the end of the buffer, so the producer may leave a gap of fewer
  than ten bytes there.
\<close>

section \<open>State and operations\<close>

record byte_ring =
  br_buf :: "nat \<Rightarrow> u8"
  br_cap :: nat
  br_head :: nat
  br_tail :: nat

abbreviation kHeaderBytes :: nat where "kHeaderBytes \<equiv> 10"

definition new_ring :: "nat \<Rightarrow> byte_ring" where
  "new_ring n = \<lparr>br_buf = (\<lambda>_. 0), br_cap = n, br_head = 0, br_tail = 0\<rparr>"

text \<open>\<open>memcpy(buf + pos, bs, n)\<close>\<close>

definition copy_in :: "(nat \<Rightarrow> u8) \<Rightarrow> nat \<Rightarrow> bytes \<Rightarrow> (nat \<Rightarrow> u8)" where
  "copy_in buf pos bs = (\<lambda>i. if pos \<le> i \<and> i < pos + length bs then bs ! (i - pos) else buf i)"

text \<open>The bytes behind a pointer into the buffer.\<close>

definition copy_out :: "(nat \<Rightarrow> u8) \<Rightarrow> nat \<Rightarrow> nat \<Rightarrow> bytes" where
  "copy_out buf pos n = map (\<lambda>i. buf (pos + i)) [0..<n]"

definition br_free_space :: "byte_ring \<Rightarrow> nat" where
  "br_free_space r = br_cap r - (br_tail r - br_head r)"

text \<open>
  \<open>push\<close> with the head \<open>h\<close> the producer has loaded; the consumer may have moved on since.
\<close>

definition br_push_seen :: "byte_ring \<Rightarrow> nat \<Rightarrow> bytes \<Rightarrow> byte_ring \<times> nat" where
  "br_push_seen r h bs =
     (let tail = br_tail r; cap = br_cap r; len = length bs; pos = tail AND (cap - 1) in
      if pos + len \<le> cap then
        (let free = cap - (tail - h) in
         if free < len \<or> len = 0 then (r, 0)
         else (r\<lparr>br_buf := copy_in (br_buf r) pos bs, br_tail := tail + len\<rparr>, len))
      else
        (let aligned = (tail div cap + 1) * cap in
         if aligned + len > h + cap then (r, 0)
         else
           (let tail_room = cap - pos in
            if tail_room \<ge> kHeaderBytes then
              (let b1 = copy_in (br_buf r) pos (take kHeaderBytes bs);
                   body_room = tail_room - kHeaderBytes;
                   body = drop kHeaderBytes bs;
                   b2 = (if length body > body_room
                         then copy_in (copy_in b1 (pos + kHeaderBytes) (take body_room body)) 0 (drop body_room body)
                         else copy_in b1 (pos + kHeaderBytes) body)
               in (r\<lparr>br_buf := b2, br_tail := tail + len\<rparr>, len))
            else (r\<lparr>br_buf := copy_in (br_buf r) 0 bs, br_tail := aligned + len\<rparr>, len))))"

definition br_push :: "byte_ring \<Rightarrow> bytes \<Rightarrow> byte_ring \<times> nat" where
  "br_push r bs = br_push_seen r (br_head r) bs"

text \<open>\<open>read_acquire\<close> returns an offset into the buffer and a number of contiguous bytes.\<close>

definition read_acquire :: "byte_ring \<Rightarrow> nat \<Rightarrow> nat \<times> nat" where
  "read_acquire r request =
     (let used = br_tail r - br_head r in
      if used = 0 \<or> request = 0 then (0, 0)
      else
        (let actual = (if request < used then request else used);
             pos = br_head r AND (br_cap r - 1);
             contig = br_cap r - pos
         in (pos, if actual > contig then contig else actual)))"

definition read_release :: "byte_ring \<Rightarrow> nat \<Rightarrow> byte_ring" where
  "read_release r n = r\<lparr>br_head := br_head r + n\<rparr>"

text \<open>\<open>pop\<close> returns the bytes written to the caller's buffer and the number it reports.\<close>

definition br_pop :: "byte_ring \<Rightarrow> nat \<Rightarrow> byte_ring \<times> bytes \<times> nat" where
  "br_pop r len =
     (case read_acquire r len of (p1, n1) \<Rightarrow>
        if n1 = 0 then (r, [], 0)
        else if n1 = len then (read_release r n1, copy_out (br_buf r) p1 n1, n1)
        else
          (case read_acquire r (len - n1) of (p2, n2) \<Rightarrow>
             if n2 < len - n1 then (r, copy_out (br_buf r) p1 n1, 0)
             else (read_release r len, copy_out (br_buf r) p1 n1 @ copy_out (br_buf r) p2 n2, len)))"

definition br_empty :: "byte_ring \<Rightarrow> bool" where
  "br_empty r \<longleftrightarrow> br_head r = br_tail r"

section \<open>The content of a ring\<close>

text \<open>Where the message at position \<open>p\<close> starts: past the gap when fewer than ten bytes are left.\<close>

definition msg_start :: "nat \<Rightarrow> nat \<Rightarrow> nat" where
  "msg_start c p = (if c - p mod c < kHeaderBytes then (p div c + 1) * c else p)"

definition bytes_at :: "(nat \<Rightarrow> u8) \<Rightarrow> nat \<Rightarrow> nat \<Rightarrow> bytes \<Rightarrow> bool" where
  "bytes_at buf c s f \<longleftrightarrow> (\<forall>i<length f. buf ((s + i) mod c) = f ! i)"

fun holds :: "(nat \<Rightarrow> u8) \<Rightarrow> nat \<Rightarrow> nat \<Rightarrow> nat \<Rightarrow> bytes list \<Rightarrow> bool" where
  "holds buf c p t [] \<longleftrightarrow> p = t"
| "holds buf c p t (f # fs) \<longleftrightarrow> kHeaderBytes < length f \<and> bytes_at buf c (msg_start c p) f \<and>
     msg_start c p + length f \<le> t \<and> holds buf c (msg_start c p + length f) t fs"

definition ring_ok :: "byte_ring \<Rightarrow> bytes list \<Rightarrow> bool" where
  "ring_ok r fs \<longleftrightarrow> is_pow2 (br_cap r) \<and> br_head r \<le> br_tail r \<and> br_tail r \<le> br_head r + br_cap r \<and>
     holds (br_buf r) (br_cap r) (br_head r) (br_tail r) fs"

lemma msg_start_ge: "0 < c \<Longrightarrow> p \<le> msg_start c p"
proof -
  assume "0 < c"
  then have "p < p div c * c + c" using mod_less_divisor [of c p] div_mult_mod_eq [of p c] by linarith
  then show ?thesis by (simp add: msg_start_def)
qed

lemma holds_le: "holds buf c p t fs \<Longrightarrow> 0 < c \<Longrightarrow> p \<le> t"
  by (cases fs) (auto dest: msg_start_ge [of c p])

lemma holds_upd:
  assumes "holds buf c p t fs" "0 < c" "t \<le> s" "s + n \<le> p + c" "\<forall>k. (\<nexists>j. s \<le> j \<and> j < s + n \<and> k = j mod c) \<longrightarrow> buf' k = buf k"
  shows "holds buf' c p t fs"
  using assms
proof (induction fs arbitrary: p)
  case Nil
  then show ?case by simp
next
  case (Cons f fs)
  let ?q = "msg_start c p"
  have q: "p \<le> ?q" "?q + length f \<le> t" "holds buf c (?q + length f) t fs" "bytes_at buf c ?q f"
    using Cons.prems msg_start_ge by auto
  have "buf' ((?q + i) mod c) = buf ((?q + i) mod c)" if "i < length f" for i
  proof -
    have "(?q + i) mod c \<noteq> j mod c" if "s \<le> j" "j < s + n" for j
      using q \<open>i < length f\<close> that Cons.prems(3,4) by (intro mod_neq) linarith+
    then show ?thesis using Cons.prems(5) by metis
  qed
  then have "bytes_at buf' c ?q f" using q(4) by (simp add: bytes_at_def)
  moreover have "holds buf' c (?q + length f) t fs"
    using q Cons.prems by (intro Cons.IH) auto
  ultimately show ?case using Cons.prems(1) by simp
qed

lemma holds_snoc:
  assumes "holds buf c p t fs" "kHeaderBytes < length f" "bytes_at buf c (msg_start c t) f" "0 < c"
  shows "holds buf c p (msg_start c t + length f) (fs @ [f])"
  using assms
proof (induction fs arbitrary: p)
  case Nil
  then show ?case by simp
next
  case (Cons g fs)
  have "t \<le> msg_start c t" using msg_start_ge Cons.prems(4) .
  then show ?case using Cons by auto
qed

section \<open>Pushing a message\<close>

text \<open>What a successful push writes: the message, from its start on, around the end of the buffer.\<close>

lemma copy_in_bytes_at:
  assumes "s mod c + length f \<le> c" "0 < c"
  shows "bytes_at (copy_in buf (s mod c) f) c s f"
    and "\<forall>k. (\<nexists>j. s \<le> j \<and> j < s + length f \<and> k = j mod c) \<longrightarrow> copy_in buf (s mod c) f k = buf k"
proof -
  have m: "(s + i) mod c = s mod c + i" if "i < length f" for i
    using that assms by (metis add_less_mono1 less_le_trans mod_add_left_eq mod_less nat_add_left_cancel_less)
  then show "bytes_at (copy_in buf (s mod c) f) c s f" by (simp add: bytes_at_def copy_in_def)
  show "\<forall>k. (\<nexists>j. s \<le> j \<and> j < s + length f \<and> k = j mod c) \<longrightarrow> copy_in buf (s mod c) f k = buf k"
  proof (intro allI impI)
    fix k assume n: "\<nexists>j. s \<le> j \<and> j < s + length f \<and> k = j mod c"
    have "\<not> (s mod c \<le> k \<and> k < s mod c + length f)"
    proof
      assume k: "s mod c \<le> k \<and> k < s mod c + length f"
      then have "k - s mod c < length f" by auto
      from m [OF this] k have "k = (s + (k - s mod c)) mod c" by linarith
      moreover have "s \<le> s + (k - s mod c)" "s + (k - s mod c) < s + length f" using k by auto
      ultimately show False using n by blast
    qed
    then show "copy_in buf (s mod c) f k = buf k" by (auto simp: copy_in_def)
  qed
qed

lemma copy_in_append: "copy_in (copy_in buf p xs) (p + length xs) ys = copy_in buf p (xs @ ys)"
  by (auto simp: copy_in_def nth_append fun_eq_iff)

lemma bytes_at_append:
  "bytes_at buf c s (xs @ ys) \<longleftrightarrow> bytes_at buf c s xs \<and> bytes_at buf c (s + length xs) ys"
proof
  assume h: "bytes_at buf c s (xs @ ys)"
  have "buf ((s + length xs + i) mod c) = ys ! i" if "i < length ys" for i
    using h that unfolding bytes_at_def by (auto dest: spec [of _ "length xs + i"] simp: add.assoc)
  then show "bytes_at buf c s xs \<and> bytes_at buf c (s + length xs) ys"
    using h by (auto simp: bytes_at_def nth_append)
next
  assume h: "bytes_at buf c s xs \<and> bytes_at buf c (s + length xs) ys"
  have "buf ((s + i) mod c) = (xs @ ys) ! i" if "i < length (xs @ ys)" for i
  proof (cases "i < length xs")
    case True
    then show ?thesis using h by (simp add: bytes_at_def nth_append)
  next
    case False
    then have "i - length xs < length ys" using that by simp
    then have "buf ((s + length xs + (i - length xs)) mod c) = ys ! (i - length xs)"
      using h unfolding bytes_at_def by blast
    moreover have "s + length xs + (i - length xs) = s + i" using False by simp
    ultimately show ?thesis using False by (simp add: nth_append)
  qed
  then show "bytes_at buf c s (xs @ ys)" by (simp add: bytes_at_def)
qed

definition writes_at :: "(nat \<Rightarrow> u8) \<Rightarrow> (nat \<Rightarrow> u8) \<Rightarrow> nat \<Rightarrow> nat \<Rightarrow> bytes \<Rightarrow> bool" where
  "writes_at buf buf' c s f \<longleftrightarrow> bytes_at buf' c s f \<and>
     (\<forall>k. (\<nexists>j. s \<le> j \<and> j < s + length f \<and> k = j mod c) \<longrightarrow> buf' k = buf k)"

lemma writes_append:
  assumes "writes_at buf b1 c s xs" "writes_at b1 b2 c (s + length xs) ys" "length (xs @ ys) \<le> c"
  shows "writes_at buf b2 c s (xs @ ys)"
proof -
  have "b2 ((s + i) mod c) = b1 ((s + i) mod c)" if "i < length xs" for i
  proof -
    have "(s + i) mod c \<noteq> j mod c" if "s + length xs \<le> j" "j < s + length xs + length ys" for j
      using that \<open>i < length xs\<close> assms(3) by (intro mod_neq) auto
    then show ?thesis using assms(2) unfolding writes_at_def by metis
  qed
  then have "bytes_at b2 c s (xs @ ys)"
    using assms(1,2) by (simp add: writes_at_def bytes_at_append bytes_at_def [of b2 c s] bytes_at_def [of b1 c s])
  moreover have "b2 k = buf k" if n: "\<nexists>j. s \<le> j \<and> j < s + length (xs @ ys) \<and> k = j mod c" for k
  proof -
    have "\<nexists>j. s \<le> j \<and> j < s + length xs \<and> k = j mod c" "\<nexists>j. s + length xs \<le> j \<and> j < s + length xs + length ys \<and> k = j mod c"
      using n by auto
    then show ?thesis using assms(1,2) unfolding writes_at_def by metis
  qed
  ultimately show ?thesis by (simp add: writes_at_def)
qed

lemma next_lap:
  assumes "0 < c"
  shows "(t div c + 1) * c = t + (c - t mod c)" "((t div c + 1) * c) mod c = (0 :: nat)"
proof -
  have "t mod c < c" "t div c * c + t mod c = t" using assms by simp_all
  moreover have "(t div c + 1) * c = t div c * c + c" by (simp add: algebra_simps)
  ultimately show "(t div c + 1) * c = t + (c - t mod c)" by linarith
qed simp

text \<open>
  A push with a head loaded earlier either refuses the message or appends it; it never touches the
  bytes between the loaded head and the tail.
\<close>

lemma push_seen_writes:
  assumes c: "is_pow2 (br_cap r)" and h: "h \<le> br_tail r" "br_tail r \<le> h + br_cap r" and f: "kHeaderBytes < length f"
  defines "s \<equiv> msg_start (br_cap r) (br_tail r)"
  shows "br_push_seen r h f = (r, 0) \<or>
    (\<exists>buf'. br_push_seen r h f = (r\<lparr>br_buf := buf', br_tail := s + length f\<rparr>, length f) \<and>
       writes_at (br_buf r) buf' (br_cap r) s f \<and> s + length f \<le> h + br_cap r)"
proof -
  let ?c = "br_cap r" and ?t = "br_tail r" and ?b = "br_buf r" and ?n = "length f"
  have c0: "0 < ?c" using c by auto
  have pos: "?t AND (?c - 1) = ?t mod ?c" using c by (rule and_pow2_mod)
  have lt: "?t mod ?c < ?c" using c0 by simp
  have w: "writes_at b (copy_in b (x mod ?c) xs) ?c x xs" if "x mod ?c + length xs \<le> ?c" for b x xs
    using copy_in_bytes_at [OF that c0] by (simp add: writes_at_def)
  consider (fit) "?t mod ?c + ?n \<le> ?c" | (wrap) "\<not> ?t mod ?c + ?n \<le> ?c" "kHeaderBytes \<le> ?c - ?t mod ?c"
    | (skip) "\<not> ?t mod ?c + ?n \<le> ?c" "\<not> kHeaderBytes \<le> ?c - ?t mod ?c" by blast
  then show ?thesis
  proof cases
    case fit
    then have "\<not> ?c - ?t mod ?c < kHeaderBytes" using f by linarith
    then have s: "s = ?t" by (simp add: s_def msg_start_def)
    show ?thesis
    proof (cases "?c - (?t - h) < ?n")
      case True
      then show ?thesis by (simp only: br_push_seen_def Let_def pos fit if_True simp_thms)
    next
      case False
      then have "s + ?n \<le> h + ?c" using h s by linarith
      moreover have "br_push_seen r h f = (r\<lparr>br_buf := copy_in ?b (?t mod ?c) f, br_tail := s + ?n\<rparr>, ?n)"
      proof -
        have "?n \<noteq> 0" using f by linarith
        then show ?thesis using False by (simp only: br_push_seen_def Let_def pos fit s if_True if_False simp_thms)
      qed
      moreover have "writes_at ?b (copy_in ?b (?t mod ?c) f) ?c s f" using w [OF fit, of ?b] s by simp
      ultimately show ?thesis by blast
    qed
  next
    case wrap
    let ?room = "?c - ?t mod ?c"
    have s: "s = ?t" using wrap(2) by (simp add: s_def msg_start_def)
    have al: "(?t div ?c + 1) * ?c = ?t + ?room" by (rule next_lap(1) [OF c0])
    show ?thesis
    proof (cases "?t + ?room + ?n > h + ?c")
      case True
      then show ?thesis by (simp only: br_push_seen_def Let_def pos al wrap(1) if_True if_False simp_thms)
    next
      case False
      let ?xs = "take ?room f" and ?ys = "drop ?room f"
      let ?b' = "copy_in (copy_in ?b (?t mod ?c) ?xs) 0 ?ys"
      have n: "?room < ?n" "?n \<le> ?c" using wrap(1) lt False h by linarith+
      have split: "copy_in (copy_in ?b (?t mod ?c) (take kHeaderBytes f)) (?t mod ?c + kHeaderBytes) (take (?room - kHeaderBytes) (drop kHeaderBytes f)) =
          copy_in ?b (?t mod ?c) ?xs"
      proof -
        have "take kHeaderBytes f @ take (?room - kHeaderBytes) (drop kHeaderBytes f) = ?xs"
          using wrap(2) by (simp flip: take_add)
        then show ?thesis using copy_in_append [of ?b "?t mod ?c" "take kHeaderBytes f"] f by simp
      qed
      have ys: "drop (?room - kHeaderBytes) (drop kHeaderBytes f) = ?ys" using wrap(2) by simp
      have "?room - kHeaderBytes < length (drop kHeaderBytes f)" using n(1) wrap(2) unfolding length_drop by linarith
      then have "br_push_seen r h f = (r\<lparr>br_buf := ?b', br_tail := s + ?n\<rparr>, ?n)"
        using False by (simp only: br_push_seen_def Let_def pos al wrap if_True if_False simp_thms split ys s)
      moreover have "writes_at ?b ?b' ?c s (?xs @ ?ys)"
      proof (rule writes_append)
        show "writes_at ?b (copy_in ?b (?t mod ?c) ?xs) ?c s ?xs"
          using w [of ?t ?xs ?b] s n lt by simp
        have "s + length ?xs = (?t div ?c + 1) * ?c" using al n s by simp
        then have z: "(s + length ?xs) mod ?c = 0" using next_lap(2) [OF c0, of ?t] by metis
        have "(s + length ?xs) mod ?c + length ?ys \<le> ?c" unfolding z using n(2) by simp
        from w [OF this, of "copy_in ?b (?t mod ?c) ?xs"] show "writes_at (copy_in ?b (?t mod ?c) ?xs) ?b' ?c (s + length ?xs) ?ys"
          unfolding z .
        show "length (?xs @ ?ys) \<le> ?c" using n by simp
      qed
      moreover have "s + ?n \<le> h + ?c" using False s by simp
      ultimately show ?thesis by auto
    qed
  next
    case skip
    have s: "s = (?t div ?c + 1) * ?c" using skip(2) by (simp add: s_def msg_start_def)
    show ?thesis
    proof (cases "s + ?n > h + ?c")
      case True
      then show ?thesis by (simp only: br_push_seen_def Let_def pos s skip(1) if_True if_False simp_thms)
    next
      case False
      have "?t \<le> s" unfolding s_def by (rule msg_start_ge [OF c0])
      then have n: "?n \<le> ?c" using False h by linarith
      have "br_push_seen r h f = (r\<lparr>br_buf := copy_in ?b 0 f, br_tail := s + ?n\<rparr>, ?n)"
        using False by (simp only: br_push_seen_def Let_def pos s skip if_True if_False simp_thms)
      moreover have "writes_at ?b (copy_in ?b 0 f) ?c s f"
        using w [of s f ?b] next_lap(2) [OF c0, of ?t] n s by simp
      ultimately show ?thesis using False by auto
    qed
  qed
qed

lemma br_push_ok:
  assumes ok: "ring_ok r fs" and h: "h \<le> br_head r" "br_tail r \<le> h + br_cap r" and f: "kHeaderBytes < length f"
    and push: "br_push_seen r h f = (r', n)"
  shows "(n = 0 \<and> r' = r) \<or>
    (n = length f \<and> ring_ok r' (fs @ [f]) \<and> br_head r' = br_head r \<and> br_cap r' = br_cap r \<and> br_tail r < br_tail r')"
proof -
  let ?c = "br_cap r" and ?s = "msg_start (br_cap r) (br_tail r)"
  have o: "is_pow2 ?c" "br_head r \<le> br_tail r" "br_tail r \<le> br_head r + ?c"
    "holds (br_buf r) ?c (br_head r) (br_tail r) fs" using ok by (simp_all add: ring_ok_def)
  then have c0: "0 < ?c" by auto
  have ge: "br_tail r \<le> ?s" by (rule msg_start_ge [OF c0])
  have ht: "h \<le> br_tail r" using h o by simp
  from push_seen_writes [OF o(1) ht h(2) f] show ?thesis
  proof
    assume "br_push_seen r h f = (r, 0)"
    then show ?thesis using push by simp
  next
    assume "\<exists>buf'. br_push_seen r h f = (r\<lparr>br_buf := buf', br_tail := ?s + length f\<rparr>, length f) \<and>
       writes_at (br_buf r) buf' ?c ?s f \<and> ?s + length f \<le> h + ?c"
    then obtain buf' where b: "r' = r\<lparr>br_buf := buf', br_tail := ?s + length f\<rparr>" "n = length f"
      "writes_at (br_buf r) buf' ?c ?s f" "?s + length f \<le> h + ?c" using push by auto
    have "holds buf' ?c (br_head r) (br_tail r) fs"
      using b(3,4) h(1) ge by (intro holds_upd [OF o(4) c0 ge]) (auto simp: writes_at_def)
    then have "holds buf' ?c (br_head r) (?s + length f) (fs @ [f])"
      using b(3) f c0 by (intro holds_snoc) (auto simp: writes_at_def)
    then show ?thesis using b o ge h f by (simp add: ring_ok_def)
  qed
qed

text \<open>
  An empty ring of at least twice the message and the gap takes it, so a producer that waits for the
  consumer to catch up is never refused for good.
\<close>

lemma br_push_empty:
  assumes ok: "ring_ok r []" and f: "kHeaderBytes < length f" "2 * length f \<le> br_cap r"
  shows "snd (br_push r f) = length f"
proof -
  let ?c = "br_cap r" and ?t = "br_tail r"
  have o: "is_pow2 ?c" "br_head r = ?t" using ok by (simp_all add: ring_ok_def)
  then have c0: "0 < ?c" by auto
  have pos: "?t AND (?c - 1) = ?t mod ?c" using o(1) by (rule and_pow2_mod)
  have al: "(?t div ?c + 1) * ?c = ?t + (?c - ?t mod ?c)" by (rule next_lap(1) [OF c0])
  have n: "length f \<noteq> 0" using f by linarith
  show ?thesis
  proof (cases "?t mod ?c + length f \<le> ?c")
    case True
    have "\<not> ?c - (?t - ?t) < length f" using f by linarith
    then show ?thesis using n by (simp only: br_push_def o(2) br_push_seen_def Let_def pos True if_True if_False simp_thms snd_conv)
  next
    case False
    have "\<not> ?t + (?c - ?t mod ?c) + length f > ?t + ?c" using False f by linarith
    then have "br_push_seen r ?t f \<noteq> (r, 0)"
      using n by (simp only: br_push_seen_def Let_def pos al False if_False) (simp split: if_splits)
    then show ?thesis
      using push_seen_writes [OF o(1) order_refl _ f(1)] c0 by (auto simp: br_push_def o(2))
  qed
qed

section \<open>Reading\<close>

lemma read_acquire_eq:
  assumes "is_pow2 (br_cap r)"
  shows "read_acquire r q = (if br_tail r - br_head r = 0 \<or> q = 0 then (0, 0)
    else (br_head r mod br_cap r, min (min q (br_tail r - br_head r)) (br_cap r - br_head r mod br_cap r)))"
  using and_pow2_mod [OF assms, of "br_head r"] by (auto simp: read_acquire_def Let_def)

section \<open>The copying read\<close>

text \<open>The copying read is not the atomic read its comment promises: when the request goes beyond
  the contiguous bytes, the second \<open>read_acquire\<close> starts at the same head as the first and hands out
  the same bytes again. A request for more than is there, but at most twice as much, succeeds:
  it returns the available bytes followed by a repetition of them and moves the head past the tail.\<close>

theorem ring_pop_repeats:
  assumes "is_pow2 (br_cap r)" "used = br_tail r - br_head r" "0 < used" "used < len" "len \<le> 2 * used"
    "br_head r mod br_cap r + used \<le> br_cap r"
  shows "br_pop r len = (read_release r len,
      copy_out (br_buf r) (br_head r mod br_cap r) used @ copy_out (br_buf r) (br_head r mod br_cap r) (len - used), len) \<and>
    br_tail r < br_head (read_release r len)"
proof -
  let ?p = "br_head r mod br_cap r"
  have u: "br_tail r - br_head r = used" "used \<noteq> 0" using assms(2,3) by simp_all
  have m: "min (min len used) (br_cap r - ?p) = used" "min (min (len - used) used) (br_cap r - ?p) = len - used"
    using assms(4-6) by linarith+
  have "len \<noteq> 0" "len - used \<noteq> 0" using assms(4) by simp_all
  then have a1: "read_acquire r len = (?p, used)" and a2: "read_acquire r (len - used) = (?p, len - used)"
    using u by (simp_all only: read_acquire_eq [OF assms(1)] m if_False simp_thms)
  have "br_pop r len = (read_release r len, copy_out (br_buf r) ?p used @ copy_out (br_buf r) ?p (len - used), len)"
    using assms(4) u(2) by (simp add: br_pop_def a1 a2)
  moreover have "br_tail r < br_head r + len" using assms(2,4) by simp
  ultimately show ?thesis by (simp add: read_release_def)
qed

text \<open>Six bytes are in the ring and eight are asked for.\<close>

theorem ring_pop_repeats_witness:
  "fst (snd (br_pop ((new_ring 16)\<lparr>br_buf := (\<lambda>i. of_nat i), br_tail := 6\<rparr>) 8)) = [0, 1, 2, 3, 4, 5, 0, 1]"
proof -
  have "is_pow2 16" using is_pow2_power [of 4] by simp
  then show ?thesis
    using ring_pop_repeats [of "(new_ring 16)\<lparr>br_buf := (\<lambda>i. of_nat i), br_tail := 6\<rparr>" 6 8]
    by (simp add: new_ring_def copy_out_def upt_rec)
qed

section \<open>Stretches\<close>

text \<open>The bytes of a stretch of the ring, around its end.\<close>

definition stretch :: "byte_ring \<Rightarrow> nat \<Rightarrow> nat \<Rightarrow> bytes" where
  "stretch r p n = map (\<lambda>j. br_buf r ((p + j) mod br_cap r)) [0..<n]"

lemma stretch_append: "stretch r p (m + n) = stretch r p m @ stretch r (p + m) n"
proof -
  have "[0..<m + n] = [0..<m] @ map (\<lambda>j. m + j) [0..<n]" by (induction n) simp_all
  then show ?thesis by (simp add: stretch_def comp_def add.assoc)
qed

lemma copy_out_stretch:
  assumes "p mod br_cap r + n \<le> br_cap r"
  shows "copy_out (br_buf r) (p mod br_cap r) n = stretch r p n"
proof -
  have "(p + j) mod br_cap r = p mod br_cap r + j" if "j < n" for j
  proof -
    have "(p mod br_cap r + j) mod br_cap r = p mod br_cap r + j" using that assms by (intro mod_less) linarith
    then show ?thesis unfolding mod_add_left_eq .
  qed
  then show ?thesis by (simp add: copy_out_def stretch_def)
qed

lemma stretch_bytes_at: "bytes_at (br_buf r) (br_cap r) s bs \<Longrightarrow> stretch r s (length bs) = bs"
  unfolding stretch_def bytes_at_def by (intro nth_equalityI) simp_all

lemma stretch_more: "0 < t \<Longrightarrow> t \<le> n \<Longrightarrow> stretch r p t @ stretch r (p + t) (n - t) = stretch r p n"
  using stretch_append [of r p t "n - t"] by simp

lemma stretch_written: "writes_at b buf (br_cap r) p bs \<Longrightarrow> stretch (r\<lparr>br_buf := buf\<rparr>) p (length bs) = bs"
  by (rule stretch_bytes_at) (simp add: writes_at_def)

end
