(* ===== verification/Mold_Unpacker.thy ===== *)
theory Mold_Unpacker
  imports NX_Bytes
begin

text \<open>
  The MoldUDP64 unpacker, \<^verbatim>\<open>market/pipeline/mold_udp_unpacker.h\<close>, and the extraction of a UDP payload
  from an Ethernet frame, \<^verbatim>\<open>core/net/frame_util.h\<close>. \<open>feed\<close> pushes one frame per message; here it
  returns the frames in the order of the pushes. The busy wait on a full ring is a step of the
  pipeline.
\<close>

section \<open>The unpacker\<close>

abbreviation (input) kHeaderLen :: nat where "kHeaderLen \<equiv> 20"

text \<open>The bytes pushed for a message: its sequence number, the two length bytes as received, the body.\<close>

definition mold_frame :: "bytes \<Rightarrow> nat \<Rightarrow> u64 \<Rightarrow> nat \<Rightarrow> bytes" where
  "mold_frame pkt pos sq n = be64_store sq @ [pkt ! pos, pkt ! (pos + 1)] @ field pkt (pos + 2) n"

text \<open>The loop over the messages of a packet: the frames, the position behind them, their number.\<close>

fun mold_msgs :: "bytes \<Rightarrow> u64 \<Rightarrow> nat \<Rightarrow> nat \<Rightarrow> nat \<Rightarrow> bytes list \<times> nat" where
  "mold_msgs pkt sq i 0 pos = ([], pos)"
| "mold_msgs pkt sq i (Suc left) pos =
     (if pos + 2 > length pkt then ([], pos)
      else
        (let body_len = unat (be16 pkt pos) in
         if body_len < 1 \<or> body_len > 200 then ([], pos)
         else if pos + (2 + body_len) > length pkt then ([], pos)
         else
           (case mold_msgs pkt sq (i + 1) left (pos + (2 + body_len)) of (fs, pos') \<Rightarrow>
              (mold_frame pkt pos (sq + of_nat i) body_len # fs, pos'))))"

lemma mold_msgs_mono: "pos \<le> snd (mold_msgs pkt sq i left pos)"
proof (induction pkt sq i left pos rule: mold_msgs.induct)
  case (2 pkt sq i left pos)
  then show ?case
    by (fastforce simp: Let_def split: prod.splits)
qed simp

function mold_from :: "bytes \<Rightarrow> nat \<Rightarrow> bytes list" where
  "mold_from pkt pos =
     (if pos + kHeaderLen \<le> length pkt then
        (case mold_msgs pkt (be64 pkt (pos + 10)) 0 (unat (be16 pkt (pos + 18))) (pos + kHeaderLen) of
           (fs, pos') \<Rightarrow> fs @ mold_from pkt pos')
      else [])"
  by pat_completeness auto

termination
proof (relation "measure (\<lambda>(pkt, pos). length pkt - pos)")
  fix pkt :: bytes and pos fs pos'
  assume "pos + kHeaderLen \<le> length pkt"
    and "(fs, pos') = mold_msgs pkt (be64 pkt (pos + 10)) 0 (unat (be16 pkt (pos + 18))) (pos + kHeaderLen)"
  moreover from this have "pos + kHeaderLen \<le> pos'"
    using mold_msgs_mono [of "pos + kHeaderLen" pkt "be64 pkt (pos + 10)" 0 "unat (be16 pkt (pos + 18))"]
    by (metis snd_conv)
  ultimately show "((pkt, pos'), (pkt, pos)) \<in> measure (\<lambda>(pkt, pos). length pkt - pos)" by simp
qed simp

declare mold_from.simps [simp del]

text \<open>The frames pushed for a received packet, and the number \<open>feed\<close> returns.\<close>

definition mold_feed :: "bytes \<Rightarrow> bytes list \<times> nat" where
  "mold_feed pkt = (let fs = mold_from pkt 0 in (fs, length fs))"

section \<open>The wire format\<close>

text \<open>A packet: the ten bytes of the session, the number of its first message, the count, the messages.\<close>

definition mold_msg :: "bytes \<Rightarrow> bytes" where
  "mold_msg b = be16_store (of_nat (length b)) @ b"

definition mold_packet :: "bytes \<Rightarrow> u64 \<Rightarrow> bytes list \<Rightarrow> bytes" where
  "mold_packet session sq ms = session @ be64_store sq @ be16_store (of_nat (length ms)) @ concat (map mold_msg ms)"

text \<open>What goes into the ring for a body with its sequence number.\<close>

definition ring_frame :: "u64 \<Rightarrow> bytes \<Rightarrow> bytes" where
  "ring_frame sq b = be64_store sq @ mold_msg b"

fun ring_frames :: "u64 \<Rightarrow> nat \<Rightarrow> bytes list \<Rightarrow> bytes list" where
  "ring_frames sq i [] = []"
| "ring_frames sq i (b # bs) = ring_frame (sq + of_nat i) b # ring_frames sq (i + 1) bs"

definition body_ok :: "bytes \<Rightarrow> bool" where
  "body_ok b \<longleftrightarrow> 1 \<le> length b \<and> length b \<le> 200"

lemma length_mold_msg [simp]: "length (mold_msg b) = 2 + length b"
  by (simp add: mold_msg_def)

lemma body_len16: "body_ok b \<Longrightarrow> unat (of_nat (length b) :: u16) = length b"
  by (simp add: body_ok_def unat_of_nat)

lemma be16_append_right: "i = length xs \<Longrightarrow> be16 (xs @ be16_store v @ ys) i = v"
  using be16_field [of i "xs @ be16_store v @ ys"] by (simp add: field_append_right field_append_left) (simp add: field_def)

lemma mold_msgs_ok:
  assumes "list_all body_ok ms"
  shows "mold_msgs (pre @ concat (map mold_msg ms) @ r) sq i (length ms) (length pre) =
    (ring_frames sq i ms, length pre + length (concat (map mold_msg ms)))"
  using assms
proof (induction ms arbitrary: pre i)
  case Nil
  then show ?case by simp
next
  case (Cons b ms)
  let ?pkt = "pre @ concat (map mold_msg (b # ms)) @ r"
  have b: "body_ok b" and ms: "list_all body_ok ms" using Cons.prems by simp_all
  have len: "be16 ?pkt (length pre) = of_nat (length b)"
    using be16_append_right [of "length pre" pre "of_nat (length b)" "b @ concat (map mold_msg ms) @ r"]
    by (simp add: mold_msg_def)
  have n: "unat (of_nat (length b) :: u16) = length b" using b by (rule body_len16)
  have fr: "mold_frame ?pkt (length pre) (sq + of_nat i) (length b) = ring_frame (sq + of_nat i) b"
    by (simp add: mold_frame_def ring_frame_def mold_msg_def nth_append be16_store_def field_def)
  have "mold_msgs ((pre @ mold_msg b) @ concat (map mold_msg ms) @ r) sq (i + 1) (length ms) (length (pre @ mold_msg b)) =
      (ring_frames sq (i + 1) ms, length (pre @ mold_msg b) + length (concat (map mold_msg ms)))"
    by (rule Cons.IH [OF ms])
  then have rest: "mold_msgs ?pkt sq (i + 1) (length ms) (length pre + (2 + length b)) =
      (ring_frames sq (i + 1) ms, length pre + (2 + length b) + length (concat (map mold_msg ms)))" by simp
  have bl: "\<not> (length b < 1 \<or> length b > 200)" using b unfolding body_ok_def by linarith
  have fits: "\<not> length pre + 2 > length ?pkt" "\<not> length pre + (2 + length b) > length ?pkt" by simp_all
  have sz: "length (concat (map mold_msg (b # ms))) = (2 + length b) + length (concat (map mold_msg ms))" by simp
  show ?case
    unfolding list.size(4) add_0_right One_nat_def add_Suc_right mold_msgs.simps Let_def len n if_not_P [OF fits(1)] if_not_P [OF bl]
      if_not_P [OF fits(2)] rest fr ring_frames.simps sz
    by (simp add: rest [simplified]) (use bl in auto)
qed

text \<open>A stream of packets, each with its session, first number and bodies.\<close>

type_synonym packet = "bytes \<times> u64 \<times> bytes list"

definition packet_ok :: "packet \<Rightarrow> bool" where
  "packet_ok p \<longleftrightarrow> (case p of (session, sq, ms) \<Rightarrow> length session = 10 \<and> length ms < 65536 \<and> list_all body_ok ms)"

definition packet_wire :: "packet \<Rightarrow> bytes" where
  "packet_wire p = (case p of (session, sq, ms) \<Rightarrow> mold_packet session sq ms)"

definition packet_frames :: "packet \<Rightarrow> bytes list" where
  "packet_frames p = (case p of (session, sq, ms) \<Rightarrow> ring_frames sq 0 ms)"

lemma mold_from_packet:
  assumes "packet_ok p"
  shows "mold_from (pre @ packet_wire p @ r) (length pre) =
    packet_frames p @ mold_from ((pre @ packet_wire p) @ r) (length (pre @ packet_wire p))"
proof -
  obtain session sq ms where p: "p = (session, sq, ms)" by (cases p)
  have s: "length session = 10" and c: "length ms < 65536" and ok: "list_all body_ok ms"
    using assms by (simp_all add: p packet_ok_def)
  let ?head = "session @ be64_store sq @ be16_store (of_nat (length ms))"
  let ?pkt = "pre @ packet_wire p @ r"
  have pkt: "?pkt = (pre @ ?head) @ concat (map mold_msg ms) @ r" by (simp add: p packet_wire_def mold_packet_def)
  have sq': "be64 ?pkt (length pre + 10) = sq"
    using be64_field [of "length pre + 10" ?pkt] s
    by (simp add: p packet_wire_def mold_packet_def field_append_right field_append_left) (simp add: field_def be_fold_store)
  have "be16 ((pre @ session @ be64_store sq) @ be16_store (of_nat (length ms)) @ concat (map mold_msg ms) @ r) (length pre + 18) =
      of_nat (length ms)"
    by (rule be16_append_right) (simp add: s)
  then have cnt: "unat (be16 ?pkt (length pre + 18)) = length ms"
    using c by (simp add: p packet_wire_def mold_packet_def unat_of_nat)
  have hl: "length (pre @ ?head) = length pre + kHeaderLen" using s by simp
  have ms: "mold_msgs ?pkt sq 0 (length ms) (length pre + kHeaderLen) =
      (ring_frames sq 0 ms, length (pre @ packet_wire p))"
    using mold_msgs_ok [OF ok, of "pre @ ?head" r sq 0] hl unfolding pkt
    by (simp add: p packet_wire_def mold_packet_def s)
  have "length pre + kHeaderLen \<le> length ?pkt" using s by (simp add: p packet_wire_def mold_packet_def)
  then have "mold_from ?pkt (length pre) =
      (case mold_msgs ?pkt sq 0 (length ms) (length pre + kHeaderLen) of (fs, pos') \<Rightarrow> fs @ mold_from ?pkt pos')"
    by (subst mold_from.simps) (simp only: sq' cnt if_True)
  then show ?thesis unfolding ms by (simp add: p packet_frames_def)
qed

lemma mold_from_stream:
  "list_all packet_ok ps \<Longrightarrow>
   mold_from (pre @ concat (map packet_wire ps)) (length pre) = concat (map packet_frames ps)"
proof (induction ps arbitrary: pre)
  case Nil
  then show ?case by (simp add: mold_from.simps)
next
  case (Cons p ps)
  then show ?case using mold_from_packet [of p pre "concat (map packet_wire ps)"] Cons.IH [of "pre @ packet_wire p"] by simp
qed

section \<open>The UDP payload of a frame\<close>

text \<open>The offset and the length of the payload; no result where the code returns 0.\<close>

definition extract_udp_payload :: "bytes \<Rightarrow> u16 \<Rightarrow> (nat \<times> nat) option" where
  "extract_udp_payload frame dport =
     (if length frame < 14 + 20 + 8 + 20 then None
      else if be16 frame 12 \<noteq> 0x0800 then None
      else
        (let ihl = unat (frame ! 14 AND 0x0F) in
         if ihl < 5 then None
         else if frame ! (14 + 9) \<noteq> 17 then None
         else
           (let udp_off = 14 + ihl * 4 in
            if udp_off + 8 > length frame then None
            else if be16 frame (udp_off + 2) \<noteq> dport then None
            else
              (let udp_len = unat (be16 frame (udp_off + 4)) in
               if udp_len < 8 + 20 then None
               else
                 (let payload_off = udp_off + 8; plen = udp_len - 8 in
                  if payload_off + plen > length frame then None else Some (payload_off, plen))))))"

definition payload_of :: "bytes \<Rightarrow> u16 \<Rightarrow> bytes option" where
  "payload_of frame dport = map_option (\<lambda>(off, n). field frame off n) (extract_udp_payload frame dport)"

text \<open>
  A frame as a sender builds it: an Ethernet header of the IPv4 type, an IPv4 header of \<open>ihl\<close> words
  with protocol 17, a UDP header with the ports, the length and a checksum, the payload, padding.
\<close>

definition udp_frame :: "bytes \<Rightarrow> bytes \<Rightarrow> u16 \<Rightarrow> u16 \<Rightarrow> u16 \<Rightarrow> bytes \<Rightarrow> bytes \<Rightarrow> bytes" where
  "udp_frame macs ip sport dport csum payload pad =
     macs @ be16_store 0x0800 @ ip @ be16_store sport @ be16_store dport @ be16_store (of_nat (8 + length payload)) @
     be16_store csum @ payload @ pad"

definition ip_header_ok :: "bytes \<Rightarrow> bool" where
  "ip_header_ok ip \<longleftrightarrow> ip \<noteq> [] \<and> 5 \<le> unat (ip ! 0 AND 0x0F) \<and> length ip = unat (ip ! 0 AND 0x0F) * 4 \<and> ip ! 9 = 17"

section \<open>Properties\<close>

text \<open>A stream of well-formed MoldUDP64 packets is unpacked into exactly its messages: every body
  is pushed once, in order, behind its own sequence number (the packet's number plus its place, modulo
  \<open>2 ^ 64\<close>) and its length, across any number of consecutive packets; the number of messages is
  returned.\<close>

theorem mold_unpacks_stream:
  assumes "list_all packet_ok ps"
  shows "mold_feed (concat (map packet_wire ps)) = (concat (map packet_frames ps), length (concat (map packet_frames ps)))"
  using mold_from_stream [OF assms, of "[]"] by (simp add: mold_feed_def Let_def)

theorem mold_unpacks_stream_witness:
  "mold_feed (packet_wire (replicate 10 0, 7, [[0x44], [0x58, 1]]) @ packet_wire (replicate 10 0, 9, [[0x45]])) =
    ([ring_frame 7 [0x44], ring_frame 8 [0x58, 1], ring_frame 9 [0x45]], 3)"
  using mold_unpacks_stream [of "[(replicate 10 0, 7, [[0x44], [0x58, 1]]), (replicate 10 0, 9, [[0x45]])]"]
  by (simp add: packet_ok_def body_ok_def packet_frames_def)

lemma mold_msgs_bounds:
  "f \<in> set (fst (mold_msgs pkt sq i left pos)) \<Longrightarrow>
   \<exists>p m. f = be64_store m @ field pkt p (length f - 8) \<and> p + (length f - 8) \<le> length pkt \<and> 11 \<le> length f \<and> length f \<le> 210"
proof (induction pkt sq i left pos rule: mold_msgs.induct)
  case (1 pkt sq i pos)
  then show ?case by simp
next
  case (2 pkt sq i left pos)
  let ?n = "unat (be16 pkt pos)"
  have ok: "\<not> pos + 2 > length pkt" "\<not> (?n < 1 \<or> ?n > 200)" "\<not> pos + (2 + ?n) > length pkt"
    using 2(2) by (auto simp: Let_def split: if_splits)
  then have "mold_msgs pkt sq i (Suc left) pos = (case mold_msgs pkt sq (i + 1) left (pos + (2 + ?n)) of (fs, pos') \<Rightarrow>
      (mold_frame pkt pos (sq + of_nat i) ?n # fs, pos'))"
    by (simp only: mold_msgs.simps Let_def if_False)
  then consider "f = mold_frame pkt pos (sq + of_nat i) ?n" | "f \<in> set (fst (mold_msgs pkt sq (i + 1) left (pos + (2 + ?n))))"
    using 2(2) by (auto split: prod.splits)
  then show ?case
  proof cases
    case 1
    have "[pkt ! pos, pkt ! (pos + 1)] @ field pkt (pos + 2) ?n = field pkt pos (2 + ?n)"
      using ok by (simp add: field_def Cons_nth_drop_Suc [symmetric])
    then have "f = be64_store (sq + of_nat i) @ field pkt pos (2 + ?n)" using 1 by (simp add: mold_frame_def)
    moreover have "length (field pkt pos (2 + ?n)) = 2 + ?n" using ok by (simp add: field_def)
    ultimately show ?thesis using ok by (intro exI [of _ pos] exI [of _ "sq + of_nat i"]) auto
  next
    case 2
    then show ?thesis using "2.IH" [OF ok(1) refl ok(2,3)] by blast
  qed
qed

text \<open>Whatever is received, every frame the unpacker pushes is a sequence number followed by a
  contiguous part of the packet, between 11 and 210 bytes long in all: no read beyond the packet, no write
  beyond \<open>msg_buf\<close>.\<close>

theorem mold_frame_bounds:
  assumes "f \<in> set (fst (mold_feed pkt))"
  shows "\<exists>p m. f = be64_store m @ field pkt p (length f - 8) \<and> p + (length f - 8) \<le> length pkt \<and> 11 \<le> length f \<and> length f \<le> 210"
proof -
  have "f \<in> set (mold_from pkt pos) \<Longrightarrow>
      \<exists>p m. f = be64_store m @ field pkt p (length f - 8) \<and> p + (length f - 8) \<le> length pkt \<and> 11 \<le> length f \<and> length f \<le> 210" for pos
  proof (induction pkt pos rule: mold_from.induct)
    case (1 pkt pos)
    let ?m = "mold_msgs pkt (be64 pkt (pos + 10)) 0 (unat (be16 pkt (pos + 18))) (pos + kHeaderLen)"
    have le: "pos + kHeaderLen \<le> length pkt" using 1(2) mold_from.simps [of pkt pos] by (cases "pos + kHeaderLen \<le> length pkt") simp_all
    then have "mold_from pkt pos = fst ?m @ mold_from pkt (snd ?m)" using mold_from.simps [of pkt pos] by (simp split: prod.splits)
    then consider "f \<in> set (fst ?m)" | "f \<in> set (mold_from pkt (snd ?m))" using 1(2) by auto
    then show ?case
    proof cases
      case 1
      then show ?thesis by (rule mold_msgs_bounds)
    next
      case 2
      show ?thesis by (rule "1.IH" [OF le prod.collapse 2])
    qed
  qed
  then show ?thesis using assms by (simp add: mold_feed_def Let_def)
qed

theorem mold_frame_bounds_witness:
  "\<exists>p m. ring_frame 7 [0x44] = be64_store m @ field (packet_wire (replicate 10 0, 7, [[0x44]])) p 3 \<and> p + 3 \<le> 23"
proof -
  have "mold_feed (concat (map packet_wire [(replicate 10 0, 7, [[0x44]])])) = ([ring_frame 7 [0x44]], 1)"
    using mold_from_stream [of "[(replicate 10 0, 7, [[0x44]])]" "[]"]
    by (simp add: packet_ok_def body_ok_def packet_frames_def mold_feed_def)
  then have "ring_frame 7 [0x44] \<in> set (fst (mold_feed (packet_wire (replicate 10 0, 7, [[0x44]]))))" by simp
  from mold_frame_bounds [OF this] show ?thesis
    by (simp add: ring_frame_def) (auto simp: packet_wire_def mold_packet_def)
qed

lemma udp_payload_roundtrip_parts:
  shows "length macs = 12 \<Longrightarrow> ip_header_ok ip \<Longrightarrow> 20 \<le> length payload \<Longrightarrow> length payload < 65528 \<Longrightarrow>
      payload_of (udp_frame macs ip sport dport csum payload pad) dport = Some payload"
    and "extract_udp_payload frame port = Some (off, n) \<Longrightarrow> 42 \<le> off \<and> 20 \<le> n \<and> off + n \<le> length frame"
proof -
  show "payload_of (udp_frame macs ip sport dport csum payload pad) dport = Some payload"
    if m: "length macs = 12" and ip: "ip_header_ok ip" and p: "20 \<le> length payload" "length payload < 65528"
  proof -
    let ?f = "udp_frame macs ip sport dport csum payload pad" and ?ihl = "unat (ip ! 0 AND 0x0F)"
    have i: "5 \<le> ?ihl" "length ip = ?ihl * 4" "ip ! 9 = 17" "ip \<noteq> []" using ip by (simp_all add: ip_header_ok_def)
    then have l: "20 \<le> length ip" by simp
    have "be16 ?f 12 = 0x0800" "be16 ?f (14 + length ip + 2) = dport" "be16 ?f (14 + length ip + 4) = of_nat (8 + length payload)"
      using be16_field [of 12 ?f] be16_field [of "14 + length ip + 2" ?f] be16_field [of "14 + length ip + 4" ?f] m
      by (simp_all add: udp_frame_def field_simps)
    moreover have "?f ! 14 = ip ! 0" "?f ! 23 = 17" using m l i by (simp_all add: udp_frame_def nth_append)
    moreover have "unat (of_nat (8 + length payload) :: u16) = 8 + length payload" using p by (simp add: unat_of_nat del: of_nat_add)
    moreover have "length ?f = 14 + length ip + 8 + length payload + length pad" using m by (simp add: udp_frame_def)
    ultimately have "extract_udp_payload ?f dport = Some (14 + length ip + 8, length payload)"
      using i p by (simp add: extract_udp_payload_def Let_def del: of_nat_add)
    then show ?thesis using m by (simp add: payload_of_def udp_frame_def field_simps)
  qed
  show "42 \<le> off \<and> 20 \<le> n \<and> off + n \<le> length frame" if "extract_udp_payload frame port = Some (off, n)"
    using that by (auto simp: extract_udp_payload_def Let_def split: if_splits)
qed

text \<open>The payload of a UDP frame is found behind an IPv4 header of any length, options included, and
  whatever padding follows; a frame that is refused or accepted never yields bytes outside it, and an
  accepted payload holds at least a MoldUDP64 header.\<close>

theorem udp_payload_roundtrip:
  "(length macs = 12 \<longrightarrow> ip_header_ok ip \<longrightarrow> 20 \<le> length payload \<longrightarrow> length payload < 65528 \<longrightarrow>
      payload_of (udp_frame macs ip sport dport csum payload pad) dport = Some payload) \<and>
   (extract_udp_payload frame port = Some (off, n) \<longrightarrow> 42 \<le> off \<and> 20 \<le> n \<and> off + n \<le> length frame)"
  using udp_payload_roundtrip_parts by blast

theorem udp_payload_roundtrip_witness:
  "payload_of (udp_frame (replicate 12 1) (0x45 # replicate 8 0 @ [17] @ replicate 10 0) 1 2 3 (replicate 20 9) [0, 0]) 2 = Some (replicate 20 9) \<and>
   extract_udp_payload (replicate 61 0) 2 = None"
  using udp_payload_roundtrip [of "replicate 12 1" "0x45 # replicate 8 0 @ [17] @ replicate 10 0" "replicate 20 9" 1 2 3 "[0, 0]"]
  by (simp add: ip_header_ok_def nth_append extract_udp_payload_def)

end
