(* ===== verification/Ring_Parser.thy ===== *)
theory Ring_Parser
  imports Byte_Ring Mold_Unpacker
begin

text \<open>
  The parser side of the byte ring, \<open>ByteRingParser::parse_available\<close> of
  \<^verbatim>\<open>market/pipeline/byte_ring_parser.h\<close>. One pass through its loop loads the tail of the ring several
  times; the producer may publish messages in between. A pass therefore takes the ring as it is at
  the first \<open>read_acquire\<close>, at the computation of \<open>used\<close>, and after it.
\<close>

section \<open>One pass and the loop\<close>

datatype pass = Break | Release nat | Feed u64 bytes nat

definition parse_pass :: "byte_ring \<Rightarrow> byte_ring \<Rightarrow> byte_ring \<Rightarrow> pass" where
  "parse_pass r1 r2 r3 =
     (let (p, n) = read_acquire r1 kHeaderBytes; used = br_tail r2 - br_head r2 in
      if n = kHeaderBytes then
        (let hd = copy_out (br_buf r1) p kHeaderBytes; sq = be64 hd 0; body_len = unat (be16 hd 8) in
         if body_len < 1 \<or> body_len > 200 then Release n
         else
           (let msg_len = kHeaderBytes + body_len in
            if used < msg_len then Break
            else
              (let (p, n) = read_acquire r3 msg_len in
               if n = msg_len then Feed sq (drop kHeaderBytes (copy_out (br_buf r3) p msg_len)) msg_len
               else if br_tail r3 - br_head r3 < msg_len then Break
               else Feed sq (drop kHeaderBytes (copy_out (br_buf r3) p n @ copy_out (br_buf r3) 0 (msg_len - n))) msg_len)))
      else if used \<ge> kHeaderBytes then
        (let aligned = (br_head r3 div br_cap r3 + 1) * br_cap r3 in
         if aligned > br_tail r3 then Break else Release (aligned - br_head r3))
      else Break)"

text \<open>The loop with no producer running; the messages fed so far are kept, their number is \<open>parsed\<close>.\<close>

partial_function (option) parse_loop :: "byte_ring \<Rightarrow> (u64 \<times> bytes) list \<Rightarrow> (byte_ring \<times> (u64 \<times> bytes) list) option" where
  [code]: "parse_loop r out =
     (case parse_pass r r r of
        Break \<Rightarrow> Some (r, out)
      | Release n \<Rightarrow> parse_loop (read_release r n) out
      | Feed sq b n \<Rightarrow> parse_loop (read_release r n) (out @ [(sq, b)]))"

definition parse_available :: "byte_ring \<Rightarrow> (byte_ring \<times> (u64 \<times> bytes) list) option" where
  "parse_available r = parse_loop r []"

section \<open>Progress of a pass\<close>

lemma read_acquire_used: "read_acquire r q = (p, n) \<Longrightarrow> n \<le> br_tail r - br_head r"
  by (auto simp: read_acquire_def Let_def split: if_splits)

lemma aligned_gt: "0 < c \<Longrightarrow> h < (h div c + 1) * (c :: nat)"
proof -
  assume c: "0 < c"
  then have "h mod c < c" by simp
  then show ?thesis using next_lap(1) [OF c, of h] by linarith
qed

lemma pass_progress:
  assumes "0 < br_cap r" "parse_pass r r r = Release n \<or> parse_pass r r r = Feed sq b n"
  shows "0 < n" "br_head r + n \<le> br_tail r"
proof -
  obtain p m where a: "read_acquire r kHeaderBytes = (p, m)" by (cases "read_acquire r kHeaderBytes")
  have m: "m \<le> br_tail r - br_head r" by (rule read_acquire_used [OF a])
  define aligned where "aligned = (br_head r div br_cap r + 1) * br_cap r"
  have al: "br_head r < aligned" unfolding aligned_def by (rule aligned_gt [OF assms(1)])
  from assms(2) have "0 < n \<and> br_head r + n \<le> br_tail r"
    unfolding parse_pass_def Let_def a aligned_def [symmetric]
    using m al by (auto split: if_splits prod.splits)
  then show "0 < n" "br_head r + n \<le> br_tail r" by simp_all
qed

lemma loop_returns:
  assumes "0 < br_cap r" "br_head r \<le> br_tail r"
  shows "\<exists>n fed. parse_loop r out = Some (read_release r n, out @ fed) \<and> br_head r + n \<le> br_tail r \<and>
    parse_pass (read_release r n) (read_release r n) (read_release r n) = Break"
  using assms
proof (induction "br_tail r - br_head r" arbitrary: r out rule: less_induct)
  case less
  have next_ok: "\<exists>k fed. parse_loop (read_release r n) out' = Some (read_release r (n + k), out' @ fed) \<and> br_head r + (n + k) \<le> br_tail r \<and>
      parse_pass (read_release r (n + k)) (read_release r (n + k)) (read_release r (n + k)) = Break"
    if n: "0 < n" "br_head r + n \<le> br_tail r" for n out'
  proof -
    have "br_tail (read_release r n) - br_head (read_release r n) < br_tail r - br_head r"
      "0 < br_cap (read_release r n)" "br_head (read_release r n) \<le> br_tail (read_release r n)"
      using n less.prems by (simp_all add: read_release_def)
    from less.hyps [OF this, of out'] show ?thesis by (auto simp: read_release_def add.assoc)
  qed
  show ?case
  proof (cases "parse_pass r r r")
    case Break
    then have "parse_loop r out = Some (read_release r 0, out @ [])"
      by (subst parse_loop.simps) (simp add: read_release_def)
    then show ?thesis using Break less.prems(2) by (intro exI [of _ 0] exI [of _ "[]"]) (simp add: read_release_def)
  next
    case (Release n)
    have "parse_loop r out = parse_loop (read_release r n) out" by (subst parse_loop.simps) (simp add: Release)
    moreover have "0 < n" "br_head r + n \<le> br_tail r" using pass_progress [OF less.prems(1)] Release by blast+
    ultimately show ?thesis using next_ok [of n out] by (auto simp del: parse_loop.simps)
  next
    case (Feed sq b n)
    have "parse_loop r out = parse_loop (read_release r n) (out @ [(sq, b)])" by (subst parse_loop.simps) (simp add: Feed)
    moreover have "0 < n" "br_head r + n \<le> br_tail r" using pass_progress [OF less.prems(1)] Feed by blast+
    ultimately show ?thesis using next_ok [of n "out @ [(sq, b)]"] by auto
  qed
qed

section \<open>Reading frames\<close>

definition msg_frame :: "u64 \<times> bytes \<Rightarrow> bytes" where
  "msg_frame m = ring_frame (fst m) (snd m)"

lemma length_ring_frame [simp]: "length (ring_frame sq b) = 10 + length b"
  by (simp add: ring_frame_def)

lemma frame_fields:
  assumes "body_ok b" "take 10 xs = take 10 (ring_frame sq b)"
  shows "be64 xs 0 = sq" "unat (be16 xs 8) = length b"
proof -
  have t: "take 10 (ring_frame sq b) = be64_store sq @ be16_store (of_nat (length b))"
    by (simp add: ring_frame_def mold_msg_def)
  have len: "10 \<le> length xs"
    using arg_cong [OF assms(2), of length] by (simp add: min_def split: if_splits)
  have "field xs 0 8 = take 8 (take 10 xs)" "field xs 8 2 = drop 8 (take 10 xs)" by (simp_all add: field_def drop_take)
  then have "field xs 0 8 = be64_store sq" "field xs 8 2 = be16_store (of_nat (length b))"
    by (simp_all add: assms(2) t)
  then show "be64 xs 0 = sq" "unat (be16 xs 8) = length b"
    using be64_field [of 0 xs] be16_field [of 8 xs] len body_len16 [OF assms(1)] by (simp_all add: be_fold_store)
qed

text \<open>The bytes a pass sees at the head, around the end of the buffer where the frame crosses it.\<close>

lemma copy_out_bytes_at:
  assumes "bytes_at buf c s f" "s mod c + k \<le> c" "k \<le> length f" "0 < c"
  shows "copy_out buf (s mod c) k = take k f"
proof (rule nth_equalityI)
  show "length (copy_out buf (s mod c) k) = length (take k f)" using assms(3) by (simp add: copy_out_def)
  fix i assume "i < length (copy_out buf (s mod c) k)"
  then have i: "i < k" by (simp add: copy_out_def)
  have "(s + i) mod c = s mod c + i" using i assms(2) mod_add_left_eq [of s c i] by (simp add: mod_less)
  moreover have "buf ((s + i) mod c) = f ! i" using assms(1,3) i by (simp add: bytes_at_def)
  ultimately show "copy_out buf (s mod c) k ! i = take k f ! i" using i by (simp add: copy_out_def)
qed

lemma copy_out_wrapped:
  assumes "bytes_at buf c s f" "s mod c + k = c" "k < length f" "length f \<le> c"
  shows "copy_out buf (s mod c) k @ copy_out buf 0 (length f - k) = f"
proof -
  have c: "0 < c" using assms by linarith
  have "bytes_at buf c (s + k) (drop k f)"
    using assms(1,3) bytes_at_append [of buf c s "take k f" "drop k f"] by (simp add: min_def)
  moreover have "(s + k) mod c = 0" using assms(2) mod_add_left_eq [of s c k] by simp
  ultimately have "copy_out buf 0 (length f - k) = drop k f"
    using copy_out_bytes_at [of buf c "s + k" "drop k f" "length f - k"] assms(4) c by simp
  then show ?thesis using copy_out_bytes_at [OF assms(1) _ _ c, of k] assms(2,3) by simp
qed

definition frame_ok :: "bytes \<Rightarrow> bool" where
  "frame_ok f \<longleftrightarrow> (\<exists>sq b. f = ring_frame sq b \<and> body_ok b)"

text \<open>A frame at the head is fed, or first the gap before it is released; an empty ring ends the loop.\<close>

lemma pass_empty: "ring_ok r [] \<Longrightarrow> parse_pass r r r = Break"
  by (simp add: ring_ok_def parse_pass_def read_acquire_def Let_def)

lemma pass_gap:
  assumes "ring_ok r (f # fs)" "msg_start (br_cap r) (br_head r) \<noteq> br_head r"
  shows "parse_pass r r r = Release (msg_start (br_cap r) (br_head r) - br_head r)"
    and "ring_ok (read_release r (msg_start (br_cap r) (br_head r) - br_head r)) (f # fs)"
proof -
  let ?c = "br_cap r" and ?h = "br_head r" and ?t = "br_tail r"
  have o: "is_pow2 ?c" "?h \<le> ?t" "?t \<le> ?h + ?c" "kHeaderBytes < length f" "bytes_at (br_buf r) ?c (msg_start ?c ?h) f"
      "msg_start ?c ?h + length f \<le> ?t" "holds (br_buf r) ?c (msg_start ?c ?h + length f) ?t fs"
    using assms(1) by (simp_all add: ring_ok_def)
  then have c0: "0 < ?c" by auto
  have room: "?c - ?h mod ?c < kHeaderBytes" and s: "msg_start ?c ?h = (?h div ?c + 1) * ?c"
    using assms(2) by (auto simp: msg_start_def split: if_splits)
  have gt: "?h < msg_start ?c ?h" unfolding s by (rule aligned_gt [OF c0])
  have "?t - ?h \<noteq> 0" "kHeaderBytes \<le> ?t - ?h" using o gt by linarith+
  then have a: "read_acquire r kHeaderBytes = (?h mod ?c, ?c - ?h mod ?c)"
    using room by (simp add: read_acquire_eq [OF o(1)])
  show "parse_pass r r r = Release (msg_start ?c ?h - ?h)"
    using room o(6) \<open>kHeaderBytes \<le> ?t - ?h\<close> by (simp add: parse_pass_def a s)
  have z: "msg_start ?c ?h mod ?c = 0" unfolding s by (rule next_lap(2) [OF c0])
  have "kHeaderBytes < ?c" using o(3,4,6) gt by linarith
  then have again: "msg_start ?c (msg_start ?c ?h) = msg_start ?c ?h" by (simp add: msg_start_def [of _ "msg_start ?c ?h"] z)
  show "ring_ok (read_release r (msg_start ?c ?h - ?h)) (f # fs)"
    using o gt by (simp add: ring_ok_def read_release_def again)
qed

lemma pass_frame:
  assumes "ring_ok r (ring_frame sq b # fs)" "msg_start (br_cap r) (br_head r) = br_head r" "body_ok b"
  shows "parse_pass r r r = Feed sq b (10 + length b)" and "ring_ok (read_release r (10 + length b)) fs"
proof -
  let ?c = "br_cap r" and ?h = "br_head r" and ?t = "br_tail r" and ?f = "ring_frame sq b"
  have o: "is_pow2 ?c" "?h \<le> ?t" "?t \<le> ?h + ?c" "bytes_at (br_buf r) ?c ?h ?f"
      "?h + length ?f \<le> ?t" "holds (br_buf r) ?c (?h + length ?f) ?t fs"
    using assms(1,2) by (simp_all add: ring_ok_def)
  then have c0: "0 < ?c" by auto
  have lt: "?h mod ?c < ?c" using c0 by simp
  have "\<not> ?c - ?h mod ?c < kHeaderBytes"
  proof
    assume "?c - ?h mod ?c < kHeaderBytes"
    then show False using assms(2) aligned_gt [OF c0, of ?h] by (simp add: msg_start_def)
  qed
  then have room: "kHeaderBytes \<le> ?c - ?h mod ?c" by simp
  have used: "10 + length b \<le> ?t - ?h" "?t - ?h \<noteq> 0" using o(5) by simp_all
  have a: "read_acquire r kHeaderBytes = (?h mod ?c, kHeaderBytes)"
    using used room by (simp add: read_acquire_eq [OF o(1)])
  have head: "copy_out (br_buf r) (?h mod ?c) kHeaderBytes = take kHeaderBytes ?f"
    by (rule copy_out_bytes_at [OF o(4) _ _ c0]) (use room in simp_all)
  have hd: "be64 (take kHeaderBytes ?f) 0 = sq" "unat (be16 (take kHeaderBytes ?f) 8) = length b"
    using frame_fields [OF assms(3), of "take kHeaderBytes ?f" sq] by simp_all
  have b: "\<not> (length b < 1 \<or> length b > 200)" using assms(3) unfolding body_ok_def by linarith
  have body: "drop kHeaderBytes ?f = b" by (simp add: ring_frame_def mold_msg_def)
  have nl: "\<not> ?t - ?h < kHeaderBytes + length b" using used by simp
  show "parse_pass r r r = Feed sq b (10 + length b)"
  proof (cases "10 + length b \<le> ?c - ?h mod ?c")
    case True
    then have a2: "read_acquire r (kHeaderBytes + length b) = (?h mod ?c, kHeaderBytes + length b)"
      using used by (simp add: read_acquire_eq [OF o(1)])
    have "copy_out (br_buf r) (?h mod ?c) (kHeaderBytes + length b) = take (kHeaderBytes + length b) ?f"
      by (rule copy_out_bytes_at [OF o(4) _ _ c0]) (use True lt in simp_all)
    then show ?thesis
      unfolding parse_pass_def Let_def a head split_conv hd if_not_P [OF b] if_not_P [OF nl] a2
      by (simp add: body)
  next
    case False
    let ?k = "?c - ?h mod ?c"
    have a2: "read_acquire r (kHeaderBytes + length b) = (?h mod ?c, ?k)"
      using used False by (simp add: read_acquire_eq [OF o(1)])
    have "copy_out (br_buf r) (?h mod ?c) ?k @ copy_out (br_buf r) 0 (length ?f - ?k) = ?f"
      using False lt o(3,5) by (intro copy_out_wrapped [OF o(4)]) simp_all
    then have w: "copy_out (br_buf r) (?h mod ?c) ?k @ copy_out (br_buf r) 0 (kHeaderBytes + length b - ?k) = ?f" by simp
    have ne: "?k \<noteq> kHeaderBytes + length b" using False by simp
    show ?thesis
      unfolding parse_pass_def Let_def a head split_conv hd if_not_P [OF b] if_not_P [OF nl] a2 if_not_P [OF ne] w body
      by simp
  qed
  show "ring_ok (read_release r (10 + length b)) fs" using o by (simp add: ring_ok_def read_release_def)
qed

lemma loop_feeds:
  assumes "ring_ok r (map msg_frame ms)" "list_all (\<lambda>m. body_ok (snd m)) ms"
  shows "\<exists>r'. parse_loop r out = Some (r', out @ ms) \<and> br_empty r' \<and> ring_ok r' [] \<and> br_tail r' = br_tail r"
  using assms
proof (induction "br_tail r - br_head r" arbitrary: r ms out rule: less_induct)
  case less
  show ?case
  proof (cases ms)
    case Nil
    then have "parse_loop r out = Some (r, out @ ms)"
      using pass_empty [of r] less.prems(1) by (subst parse_loop.simps) simp
    then show ?thesis using less.prems(1) Nil by (simp add: br_empty_def ring_ok_def)
  next
    case (Cons m ms')
    obtain sq b where m: "m = (sq, b)" by (cases m)
    have ok: "ring_ok r (ring_frame sq b # map msg_frame ms')" "body_ok b" "list_all (\<lambda>m. body_ok (snd m)) ms'"
      using less.prems by (simp_all add: Cons m msg_frame_def)
    have c0: "0 < br_cap r" using ok(1) unfolding ring_ok_def by auto
    show ?thesis
    proof (cases "msg_start (br_cap r) (br_head r) = br_head r")
      case False
      let ?n = "msg_start (br_cap r) (br_head r) - br_head r"
      have p: "parse_pass r r r = Release ?n" by (rule pass_gap(1) [OF ok(1) False])
      then have n: "0 < ?n" "br_head r + ?n \<le> br_tail r" using pass_progress [OF c0] by blast+
      have "\<exists>r'. parse_loop (read_release r ?n) out = Some (r', out @ ms) \<and> br_empty r' \<and> ring_ok r' [] \<and>
          br_tail r' = br_tail (read_release r ?n)"
        using pass_gap(2) [OF ok(1) False] n less.prems(2)
        by (intro less.hyps) (simp_all add: read_release_def Cons m msg_frame_def)
      moreover have "parse_loop r out = parse_loop (read_release r ?n) out" by (subst parse_loop.simps) (simp add: p)
      ultimately show ?thesis by (simp add: read_release_def)
    next
      case True
      let ?r = "read_release r (10 + length b)"
      have p: "parse_pass r r r = Feed sq b (10 + length b)" by (rule pass_frame(1) [OF ok(1) True ok(2)])
      then have n: "br_head r + (10 + length b) \<le> br_tail r" using pass_progress(2) [OF c0] by blast
      have "\<exists>r'. parse_loop ?r (out @ [m]) = Some (r', (out @ [m]) @ ms') \<and> br_empty r' \<and> ring_ok r' [] \<and> br_tail r' = br_tail ?r"
        using pass_frame(2) [OF ok(1) True ok(2)] n ok(3) by (intro less.hyps) (simp_all add: read_release_def)
      moreover have "parse_loop r out = parse_loop ?r (out @ [m])" by (subst parse_loop.simps) (simp add: p m)
      ultimately show ?thesis by (simp add: Cons read_release_def)
    qed
  qed
qed

section \<open>Properties\<close>

text \<open>C24. \<open>parse_available\<close> always returns, also on a corrupt ring: whatever bytes are between head and tail,
  the loop reaches its \<open>break\<close>, and it never moves the head past the tail.\<close>

theorem parse_available_returns:
  assumes "0 < br_cap r" "br_head r \<le> br_tail r"
  shows "\<exists>n fed. parse_available r = Some (read_release r n, fed) \<and> br_head r + n \<le> br_tail r"
  using loop_returns [OF assms, of "[]"] by (auto simp: parse_available_def)

theorem parse_available_returns_witness:
  "\<exists>n fed. parse_available ((new_ring 16)\<lparr>br_buf := (\<lambda>_. 0xFF), br_tail := 13\<rparr>) = Some (read_release ((new_ring 16)\<lparr>br_buf := (\<lambda>_. 0xFF), br_tail := 13\<rparr>) n, fed) \<and> n \<le> 13"
  using parse_available_returns [of "(new_ring 16)\<lparr>br_buf := (\<lambda>_. 0xFF), br_tail := 13\<rparr>"] by (simp add: new_ring_def)

text \<open>On a ring that holds a sequence of frames, wherever they lie (across the end of the buffer, behind
  a gap), one call of \<open>parse_available\<close> feeds exactly their sequence numbers and bodies, each once and in
  order, and leaves the ring empty.\<close>

theorem parse_available_drains:
  assumes "ring_ok r (map msg_frame ms)" "list_all (\<lambda>m. body_ok (snd m)) ms"
  shows "\<exists>r'. parse_available r = Some (r', ms) \<and> br_empty r' \<and> ring_ok r' []"
  using loop_feeds [OF assms, of "[]"] by (auto simp: parse_available_def)

text \<open>Two messages in a ring of 32 bytes, the second behind a gap of nine bytes.\<close>

theorem parse_available_drains_witness:
  "\<exists>r r'. br_push (fst (br_push ((new_ring 32)\<lparr>br_head := 12, br_tail := 12\<rparr>) (ring_frame 7 [0x44]))) (ring_frame 8 [0x45]) = (r, 11) \<and>
    parse_available r = Some (r', [(7, [0x44]), (8, [0x45])]) \<and> br_tail r = 43 \<and> br_empty r'"
proof -
  let ?r0 = "(new_ring 32)\<lparr>br_head := 12, br_tail := 12\<rparr>" and ?f = "ring_frame 7 [0x44]" and ?g = "ring_frame 8 [0x45]"
  have p: "is_pow2 32" using is_pow2_power [of 5] by simp
  have ok0: "ring_ok ?r0 []" by (simp add: ring_ok_def new_ring_def p)
  obtain r1 n1 where r1: "br_push ?r0 ?f = (r1, n1)" by (cases "br_push ?r0 ?f")
  have n1: "n1 = 11" using br_push_empty [OF ok0, of ?f] r1 by (simp add: new_ring_def)
  have t1: "br_tail r1 = 23"
    using r1 n1 push_seen_writes [of ?r0 12 ?f] p by (auto simp: br_push_def new_ring_def msg_start_def)
  have "ring_ok r1 [?f] \<and> br_head r1 = 12 \<and> br_cap r1 = 32"
    using br_push_ok [OF ok0, of 12 ?f r1 n1] r1 n1 by (simp add: br_push_def new_ring_def)
  then have ok1: "ring_ok r1 [?f]" "br_head r1 = 12" "br_cap r1 = 32" by simp_all
  obtain r2 n2 where r2: "br_push r1 ?g = (r2, n2)" by (cases "br_push r1 ?g")
  have pos: "(23 :: nat) AND (32 - 1) = 23" using and_pow2_mod [OF p, of 23] by simp
  have "n2 \<noteq> 0" using r2 unfolding br_push_def br_push_seen_def Let_def ok1 t1 pos by (auto split: if_splits)
  then have "n2 = 11 \<and> ring_ok r2 [?f, ?g]" and t2: "br_tail r2 = 43"
    using br_push_ok [OF ok1(1), of 12 ?g r2 n2] push_seen_writes [of r1 12 ?g] r2 ok1 t1 p
    by (auto simp: br_push_def msg_start_def)
  then obtain r' where "parse_available r2 = Some (r', [(7, [0x44]), (8, [0x45])])" "br_empty r'"
    using parse_available_drains [of r2 "[(7, [0x44]), (8, [0x45])]"] by (auto simp: msg_frame_def body_ok_def)
  then show ?thesis using r1 r2 t2 \<open>n2 = 11 \<and> _\<close> by auto
qed

text \<open>The pass is not safe against a producer that publishes between its two looks at the tail. If the
  ring is empty at \<open>read_acquire\<close> and a message that crosses the end of the buffer is published before
  \<open>used\<close> is computed, the parser takes the bytes before the end for a gap: it releases them although they
  are the beginning of the message, delivers nothing, and its next head is inside the message's body.\<close>

theorem parser_race_skips_message:
  assumes "ring_ok r []" "body_ok b" "room = br_cap r - br_head r mod br_cap r" "kHeaderBytes \<le> room" "room < 10 + length b"
    "br_push r (ring_frame sq b) = (r', n)" "n \<noteq> 0"
  shows "parse_pass r r' r' = Release room \<and> br_head r' + room < br_tail r' \<and> parse_pass r' r' r' = Feed sq b (10 + length b)"
proof -
  let ?c = "br_cap r" and ?h = "br_head r"
  have f: "kHeaderBytes < length (ring_frame sq b)" using assms(2) by (auto simp: body_ok_def)
  have o: "is_pow2 ?c" "br_tail r = ?h" using assms(1) by (simp_all add: ring_ok_def)
  then have c0: "0 < ?c" by auto
  have s: "msg_start ?c ?h = ?h" using assms(3,4) by (simp add: msg_start_def)
  have r': "ring_ok r' [ring_frame sq b] \<and> br_head r' = ?h \<and> br_cap r' = ?c"
    using br_push_ok [OF assms(1), of ?h "ring_frame sq b" r' n] f o assms(6,7) by (simp add: br_push_def)
  then have ok': "ring_ok r' [ring_frame sq b]" "br_head r' = ?h" "br_cap r' = ?c" by simp_all
  have t: "br_tail r' = ?h + (10 + length b)" using ok' s by (simp add: ring_ok_def)
  have a: "read_acquire r kHeaderBytes = (0, 0)" using o by (simp add: read_acquire_def Let_def)
  have al: "(?h div ?c + 1) * ?c = ?h + room" using next_lap(1) [OF c0, of ?h] assms(3) by simp
  have "parse_pass r r' r' = Release room"
    using assms(5) unfolding parse_pass_def Let_def a split_conv ok'(2,3) al t by simp
  then show ?thesis using pass_frame(1) [of r' sq b "[]"] ok' s assms(2,5) t by simp
qed

text \<open>Twelve bytes are left before the end of a ring of 32 bytes, a message of 15 is published.\<close>

theorem parser_race_skips_message_witness:
  "\<exists>r'. br_push ((new_ring 32)\<lparr>br_head := 20, br_tail := 20\<rparr>) (ring_frame 7 [1, 2, 3, 4, 5]) = (r', 15) \<and>
    parse_pass ((new_ring 32)\<lparr>br_head := 20, br_tail := 20\<rparr>) r' r' = Release 12"
proof -
  let ?r = "(new_ring 32)\<lparr>br_head := 20, br_tail := 20\<rparr>" and ?f = "ring_frame 7 [1, 2, 3, 4, 5]"
  have p: "is_pow2 32" using is_pow2_power [of 5] by simp
  have ok: "ring_ok ?r []" by (simp add: ring_ok_def new_ring_def p)
  obtain r' n where r': "br_push ?r ?f = (r', n)" by (cases "br_push ?r ?f")
  have n: "n = 15" using br_push_empty [OF ok, of ?f] r' by (simp add: new_ring_def)
  show ?thesis
    using parser_race_skips_message [OF ok, of "[1, 2, 3, 4, 5]" 12 7 r' n] r' n by (simp add: body_ok_def new_ring_def)
qed

end
