(* ===== verification/Itch_Parser.thy ===== *)
theory Itch_Parser
  imports NX_Types NX_Bytes
begin

text \<open>
  The ITCH 5.0 parser, \<^verbatim>\<open>market/parser/itch_parser.cpp\<close> and \<^verbatim>\<open>.h\<close>: one message body in, at most one
  market event out. The sink is the returned event; the probes of \<open>emit\<close> are left out.
\<close>

section \<open>The parser\<close>

record itch_parser =
  ip_count :: u64
  ip_seq :: u64

definition new_itch_parser :: itch_parser where
  "new_itch_parser = \<lparr>ip_count = 0, ip_seq = 0\<rparr>"

definition rd_ts :: "bytes \<Rightarrow> nat \<Rightarrow> u64" where
  "rd_ts p i = be_fold (map (\<lambda>k. p ! (i + k)) [0..<6])"

definition itch_to_cents :: "u32 \<Rightarrow> i64" where
  "itch_to_cents px = to_u64 px div 100"

definition side_byte :: "u8 \<Rightarrow> order_side" where
  "side_byte b = (if b = 0x53 then SELL else BUY)"

text \<open>\<open>emit\<close>: the event gets the sequence number of the current message.\<close>

definition emit :: "itch_parser \<Rightarrow> market_event \<Rightarrow> market_event" where
  "emit ip ev = ev\<lparr>ev_seq_id := ip_seq ip\<rparr>"

definition parse_A :: "itch_parser \<Rightarrow> bytes \<Rightarrow> market_event option" where
  "parse_A ip m =
     (if length m < 36 then None
      else Some (emit ip (empty_event\<lparr>ev_type := EV_ADD, ev_locate := to_u64 (be16 m 1), ev_timestamp := rd_ts m 5,
        ev_order := (ev_order empty_event)\<lparr>o_side := side_byte (m ! 19), o_price := itch_to_cents (be32 m 32),
          o_shares := to_u64 (be32 m 20), o_order_ref := be64 m 11\<rparr>\<rparr>)))"

definition parse_D :: "itch_parser \<Rightarrow> bytes \<Rightarrow> market_event option" where
  "parse_D ip m =
     (if length m < 19 then None
      else Some (emit ip (empty_event\<lparr>ev_type := EV_DELETE, ev_locate := to_u64 (be16 m 1), ev_timestamp := rd_ts m 5,
        ev_order := (ev_order empty_event)\<lparr>o_order_ref := be64 m 11\<rparr>\<rparr>)))"

definition parse_X :: "itch_parser \<Rightarrow> bytes \<Rightarrow> market_event option" where
  "parse_X ip m =
     (if length m < 23 then None
      else Some (emit ip (empty_event\<lparr>ev_type := EV_CANCEL, ev_locate := to_u64 (be16 m 1), ev_timestamp := rd_ts m 5,
        ev_order := (ev_order empty_event)\<lparr>o_shares := to_u64 (be32 m 19), o_order_ref := be64 m 11\<rparr>\<rparr>)))"

definition parse_U :: "itch_parser \<Rightarrow> bytes \<Rightarrow> market_event option" where
  "parse_U ip m =
     (if length m < 35 then None
      else Some (emit ip (empty_event\<lparr>ev_type := EV_REPLACE, ev_locate := to_u64 (be16 m 1), ev_timestamp := rd_ts m 5,
        ev_order := (ev_order empty_event)\<lparr>o_price := itch_to_cents (be32 m 31), o_shares := to_u64 (be32 m 27),
          o_order_ref := be64 m 11, o_new_order_ref := be64 m 19\<rparr>\<rparr>)))"

definition parse_P :: "itch_parser \<Rightarrow> bytes \<Rightarrow> market_event option" where
  "parse_P ip m =
     (if length m < 44 then None
      else Some (emit ip (empty_event\<lparr>ev_type := EV_TRADE, ev_locate := to_u64 (be16 m 1), ev_timestamp := rd_ts m 5,
        ev_trade := \<lparr>t_side = side_byte (m ! 19), t_price = itch_to_cents (be32 m 32), t_volume = to_u64 (be32 m 20),
          t_order_ref = be64 m 11\<rparr>\<rparr>)))"

definition parse_E :: "itch_parser \<Rightarrow> bytes \<Rightarrow> market_event option" where
  "parse_E ip m =
     (if length m < 31 then None
      else Some (emit ip (empty_event\<lparr>ev_type := EV_EXECUTE, ev_locate := to_u64 (be16 m 1), ev_timestamp := rd_ts m 5,
        ev_trade := \<lparr>t_side = NONE, t_price = - 1, t_volume = to_u64 (be32 m 19), t_order_ref = be64 m 11\<rparr>\<rparr>)))"

definition parse_C :: "itch_parser \<Rightarrow> bytes \<Rightarrow> market_event option" where
  "parse_C ip m =
     (if length m < 35 then None
      else Some (emit ip (empty_event\<lparr>ev_type := EV_TRADE, ev_locate := to_u64 (be16 m 1), ev_timestamp := rd_ts m 5,
        ev_trade := \<lparr>t_side = NONE, t_price = itch_to_cents (be32 m 27), t_volume = to_u64 (be32 m 19),
          t_order_ref = be64 m 11\<rparr>\<rparr>)))"

text \<open>The parser, whether \<open>feed\<close> returns true, and the event given to the sink.\<close>

definition itch_feed :: "itch_parser \<Rightarrow> bytes \<Rightarrow> itch_parser \<times> bool \<times> market_event option" where
  "itch_feed ip m =
     (if length m < 3 then (ip, False, None)
      else
        (let ip' = ip\<lparr>ip_count := ip_count ip + 1\<rparr>; mt = m ! 0 in
         if mt = 0x41 \<or> mt = 0x46 then (ip', True, parse_A ip' m)
         else if mt = 0x44 then (ip', True, parse_D ip' m)
         else if mt = 0x58 then (ip', True, parse_X ip' m)
         else if mt = 0x55 then (ip', True, parse_U ip' m)
         else if mt = 0x50 then (ip', True, parse_P ip' m)
         else if mt = 0x45 then (ip', True, parse_E ip' m)
         else if mt = 0x43 then (ip', True, parse_C ip' m)
         else (ip', False, None)))"

definition itch_feed_seq :: "itch_parser \<Rightarrow> bytes \<Rightarrow> u64 \<Rightarrow> itch_parser \<times> bool \<times> market_event option" where
  "itch_feed_seq ip m sq = itch_feed (ip\<lparr>ip_seq := sq\<rparr>) m"

section \<open>The wire format\<close>

text \<open>
  The messages of \<^verbatim>\<open>docs/design/itch5_protocol.md\<close>, field by field. \<open>stock\<close> and \<open>mat\<close> are eight bytes, a
  time stamp has 48 bits.
\<close>

datatype itch_msg =
    MAdd u16 u16 u64 u64 bool u32 bytes u32 bytes
  | MDelete u16 u16 u64 u64
  | MCancel u16 u16 u64 u64 u32
  | MReplace u16 u16 u64 u64 u64 u32 u32
  | MTrade u16 u16 u64 u64 bool u32 bytes u32 bytes
  | MExecute u16 u16 u64 u64 u32 bytes

definition ts_store :: "u64 \<Rightarrow> bytes" where
  "ts_store v = map (\<lambda>i. to_u8 (drop_bit (40 - 8 * i) v)) [0..<6]"

definition wire_head :: "u8 \<Rightarrow> u16 \<Rightarrow> u16 \<Rightarrow> u64 \<Rightarrow> u64 \<Rightarrow> bytes" where
  "wire_head ty loc track ts ref = ty # be16_store loc @ be16_store track @ ts_store ts @ be64_store ref"

definition side_wire :: "bool \<Rightarrow> u8" where
  "side_wire sell = (if sell then 0x53 else 0x42)"

text \<open>An add is \<open>A\<close> without and \<open>F\<close> with an attribution.\<close>

fun itch_wire :: "itch_msg \<Rightarrow> bytes" where
  "itch_wire (MAdd loc track ts ref sell sh stock px mpid) =
     wire_head (if mpid = [] then 0x41 else 0x46) loc track ts ref @ [side_wire sell] @ be32_store sh @ stock @ be32_store px @ mpid"
| "itch_wire (MDelete loc track ts ref) = wire_head 0x44 loc track ts ref"
| "itch_wire (MCancel loc track ts ref sh) = wire_head 0x58 loc track ts ref @ be32_store sh"
| "itch_wire (MReplace loc track ts old new sh px) =
     wire_head 0x55 loc track ts old @ be64_store new @ be32_store sh @ be32_store px"
| "itch_wire (MTrade loc track ts ref sell sh stock px mat) =
     wire_head 0x50 loc track ts ref @ [side_wire sell] @ be32_store sh @ stock @ be32_store px @ mat"
| "itch_wire (MExecute loc track ts ref sh mat) = wire_head 0x45 loc track ts ref @ be32_store sh @ mat"

fun itch_valid :: "itch_msg \<Rightarrow> bool" where
  "itch_valid (MAdd loc track ts ref sell sh stock px mpid) \<longleftrightarrow> length stock = 8 \<and> ts < 2 ^ 48"
| "itch_valid (MDelete loc track ts ref) \<longleftrightarrow> ts < 2 ^ 48"
| "itch_valid (MCancel loc track ts ref sh) \<longleftrightarrow> ts < 2 ^ 48"
| "itch_valid (MReplace loc track ts old new sh px) \<longleftrightarrow> ts < 2 ^ 48"
| "itch_valid (MTrade loc track ts ref sell sh stock px mat) \<longleftrightarrow> length stock = 8 \<and> length mat = 8 \<and> ts < 2 ^ 48"
| "itch_valid (MExecute loc track ts ref sh mat) \<longleftrightarrow> length mat = 8 \<and> ts < 2 ^ 48"

text \<open>The event a message means. A message without a side leaves the \<open>BUY\<close> of the zeroed event.\<close>

definition order_event :: "event_type \<Rightarrow> u64 \<Rightarrow> u16 \<Rightarrow> u64 \<Rightarrow> order_side \<Rightarrow> i64 \<Rightarrow> u32 \<Rightarrow> u64 \<Rightarrow> u64 \<Rightarrow> market_event" where
  "order_event ty sq loc ts sd px sh ref new = empty_event\<lparr>ev_type := ty, ev_seq_id := sq, ev_locate := to_u64 loc,
     ev_timestamp := ts, ev_order := \<lparr>o_side = sd, o_price = px, o_shares = to_u64 sh, o_order_ref = ref, o_new_order_ref = new\<rparr>\<rparr>"

definition trade_event :: "event_type \<Rightarrow> u64 \<Rightarrow> u16 \<Rightarrow> u64 \<Rightarrow> order_side \<Rightarrow> i64 \<Rightarrow> u32 \<Rightarrow> u64 \<Rightarrow> market_event" where
  "trade_event ty sq loc ts sd px sh ref = empty_event\<lparr>ev_type := ty, ev_seq_id := sq, ev_locate := to_u64 loc,
     ev_timestamp := ts, ev_trade := \<lparr>t_side = sd, t_price = px, t_volume = to_u64 sh, t_order_ref = ref\<rparr>\<rparr>"

fun itch_event :: "u64 \<Rightarrow> itch_msg \<Rightarrow> market_event" where
  "itch_event sq (MAdd loc track ts ref sell sh stock px mpid) =
     order_event EV_ADD sq loc ts (if sell then SELL else BUY) (itch_to_cents px) sh ref 0"
| "itch_event sq (MDelete loc track ts ref) = order_event EV_DELETE sq loc ts BUY 0 0 ref 0"
| "itch_event sq (MCancel loc track ts ref sh) = order_event EV_CANCEL sq loc ts BUY 0 sh ref 0"
| "itch_event sq (MReplace loc track ts old new sh px) = order_event EV_REPLACE sq loc ts BUY (itch_to_cents px) sh old new"
| "itch_event sq (MTrade loc track ts ref sell sh stock px mat) =
     trade_event EV_TRADE sq loc ts (if sell then SELL else BUY) (itch_to_cents px) sh ref"
| "itch_event sq (MExecute loc track ts ref sh mat) = trade_event EV_EXECUTE sq loc ts NONE (- 1) sh ref"

section \<open>Reading the fields back\<close>

lemma upt_6: "[0..<6] = [0, 1, 2, 3, 4, 5 :: nat]"
  by (simp add: upt_rec)

lemma length_ts_store [simp]: "length (ts_store v) = 6"
  by (simp add: ts_store_def)

lemma length_wire_head [simp]: "length (wire_head ty loc track ts ref) = 19"
  by (simp add: wire_head_def)

lemma ts_fold:
  assumes "v < 2 ^ 48"
  shows "be_fold (ts_store v) = v"
proof -
  have z: "drop_bit 48 v = 0"
    using assms by (simp add: drop_bit_eq_div word_less_nat_alt word_arith_nat_div)
  have "push_bit 8 (0 :: u64) OR to_u64 (to_u8 (drop_bit 40 v)) = drop_bit 40 v"
    using be_fold_step [of 40 v] z by simp
  then show ?thesis
    using be_fold_step [of 32 v] be_fold_step [of 24 v] be_fold_step [of 16 v] be_fold_step [of 8 v] be_fold_step [of 0 v]
    by (simp add: be_fold_def ts_store_def upt_6)
qed

lemma rd_ts_field: "i + 6 \<le> length p \<Longrightarrow> rd_ts p i = be_fold (field p i 6)"
  unfolding rd_ts_def field_def
  by (rule arg_cong [where f = be_fold], rule nth_equalityI) auto

lemma head_fields:
  "field (wire_head ty loc track ts ref) (Suc 0) 2 = be16_store loc"
  "field (wire_head ty loc track ts ref) 5 6 = ts_store ts"
  "field (wire_head ty loc track ts ref) 11 8 = be64_store ref"
  by (simp_all add: field_def wire_head_def eval_nat_numeral be16_store_def)

lemma head_type: "(wire_head ty loc track ts ref @ r) ! 0 = ty" "wire_head ty loc track ts ref ! 0 = ty"
  by (simp_all add: wire_head_def)

lemma wire_reads:
  assumes "m = wire_head ty loc track ts ref @ r"
  shows "m ! 0 = ty" "be16 m 1 = loc" "be64 m 11 = ref" "length m = 19 + length r"
    and "ts < 2 ^ 48 \<Longrightarrow> rd_ts m 5 = ts"
  using assms be16_field [of 1 m] rd_ts_field [of 5 m] be64_field [of 11 m] ts_fold [of ts]
  by (simp_all add: head_type field_append_left head_fields be_fold_store)

lemma body_reads:
  assumes "m = h @ r" "length h = 19"
  shows "m ! (19 + i) = r ! i" and "i + 4 \<le> length r \<Longrightarrow> be32 m (19 + i) = be32 (field r i 4) 0"
    and "i + 8 \<le> length r \<Longrightarrow> be64 m (19 + i) = be_fold (field r i 8)"
  using assms be32_field [of "19 + i" m] be64_field [of "19 + i" m]
  by (simp_all add: nth_append field_append_right)

lemma feed_wire:
  assumes "itch_valid msg"
  shows "itch_feed_seq ip (itch_wire msg) sq = (\<lparr>ip_count = ip_count ip + 1, ip_seq = sq\<rparr>, True, Some (itch_event sq msg))"
proof -
  have sb: "side_byte (side_wire sell) = (if sell then SELL else BUY)" for sell by (simp add: side_byte_def side_wire_def)
  note defs = itch_feed_seq_def itch_feed_def Let_def parse_A_def parse_D_def parse_X_def parse_U_def parse_P_def parse_E_def
    emit_def order_event_def trade_event_def empty_event_def sb
  define m where "m = itch_wire msg"
  have "itch_feed_seq ip m sq = (\<lparr>ip_count = ip_count ip + 1, ip_seq = sq\<rparr>, True, Some (itch_event sq msg))"
  proof (cases msg)
    case (MAdd loc track ts ref sell sh stock px mpid)
    define r where "r = side_wire sell # be32_store sh @ stock @ be32_store px @ mpid"
    have m: "m = wire_head (if mpid = [] then 0x41 else 0x46) loc track ts ref @ r" and st: "length stock = 8" and ts: "ts < 2 ^ 48"
      using assms MAdd by (simp_all add: m_def r_def)
    have "m ! 19 = side_wire sell" "be32 m 20 = sh" "be32 m 32 = px" "length m \<ge> 36"
      using body_reads [OF m, of 0] body_reads [OF m, of 1] body_reads [OF m, of 13] m st
      by (simp_all add: r_def field_simps)
    then show ?thesis
      using wire_reads [OF m] ts MAdd by (simp add: defs)
  next
    case (MDelete loc track ts ref)
    have m: "m = wire_head 0x44 loc track ts ref @ []" and ts: "ts < 2 ^ 48" using assms MDelete by (simp_all add: m_def)
    show ?thesis using wire_reads [OF m] ts MDelete by (simp add: defs)
  next
    case (MCancel loc track ts ref sh)
    have m: "m = wire_head 0x58 loc track ts ref @ be32_store sh" and ts: "ts < 2 ^ 48" using assms MCancel by (simp_all add: m_def)
    have "be32 m 19 = sh" using body_reads [OF m, of 0] by (simp add: field_simps)
    then show ?thesis using wire_reads [OF m] ts MCancel by (simp add: defs)
  next
    case (MReplace loc track ts old new sh px)
    have m: "m = wire_head 0x55 loc track ts old @ be64_store new @ be32_store sh @ be32_store px" and ts: "ts < 2 ^ 48"
      using assms MReplace by (simp_all add: m_def)
    have "be64 m 19 = new" "be32 m 27 = sh" "be32 m 31 = px"
      using body_reads [OF m, of 0] body_reads [OF m, of 8] body_reads [OF m, of 12] by (simp_all add: field_simps be_fold_store)
    then show ?thesis using wire_reads [OF m] ts MReplace by (simp add: defs)
  next
    case (MTrade loc track ts ref sell sh stock px mat)
    define r where "r = side_wire sell # be32_store sh @ stock @ be32_store px @ mat"
    have m: "m = wire_head 0x50 loc track ts ref @ r" and st: "length stock = 8" "length mat = 8" and ts: "ts < 2 ^ 48"
      using assms MTrade by (simp_all add: m_def r_def)
    have "m ! 19 = side_wire sell" "be32 m 20 = sh" "be32 m 32 = px" "length m \<ge> 44"
      using body_reads [OF m, of 0] body_reads [OF m, of 1] body_reads [OF m, of 13] m st
      by (simp_all add: r_def field_simps)
    then show ?thesis
      using wire_reads [OF m] ts MTrade by (simp add: defs)
  next
    case (MExecute loc track ts ref sh mat)
    have m: "m = wire_head 0x45 loc track ts ref @ be32_store sh @ mat" and ts: "ts < 2 ^ 48" and mat: "length mat = 8"
      using assms MExecute by (simp_all add: m_def)
    have "be32 m 19 = sh" using body_reads [OF m, of 0] by (simp add: field_simps)
    then show ?thesis using wire_reads [OF m] ts mat MExecute by (simp add: defs)
  qed
  then show ?thesis by (simp add: m_def)
qed

section \<open>Properties\<close>

text \<open>C23. The parser reads the documented wire format: for every well-formed message of the types
  \<open>A\<close>, \<open>F\<close>, \<open>D\<close>, \<open>X\<close>, \<open>U\<close>, \<open>P\<close> and \<open>E\<close>, \<open>feed\<close> with a sequence number counts the message,
  accepts it and gives the sink exactly the event the message means, stamped with that number.\<close>

theorem itch_wire_roundtrip:
  assumes "itch_valid msg"
  shows "itch_feed_seq ip (itch_wire msg) sq = (\<lparr>ip_count = ip_count ip + 1, ip_seq = sq\<rparr>, True, Some (itch_event sq msg))"
  using assms by (rule feed_wire)

text \<open>A sell add of two shares at a dollar, without attribution.\<close>

theorem itch_wire_roundtrip_witness:
  "itch_feed_seq new_itch_parser (itch_wire (MAdd 7 0 5 9 True 2 (replicate 8 0x20) 10000 [])) 3 =
    (\<lparr>ip_count = 1, ip_seq = 3\<rparr>, True, Some (order_event EV_ADD 3 7 5 SELL 100 2 9 0))"
  using itch_wire_roundtrip [of "MAdd 7 0 5 9 True 2 (replicate 8 0x20) 10000 []" new_itch_parser 3]
  by (simp add: new_itch_parser_def itch_to_cents_def)

text \<open>The price of a \<open>C\<close> message is read four bytes behind the end of the shares, although the format document
  puts the eight bytes of the stock symbol there: for a message laid out as documented the event's price
  is the second half of the symbol, whatever price was sent.\<close>

theorem itch_c_price_from_symbol:
  assumes "length stock = 8" "length mat = 8" "m = wire_head 0x43 loc track ts ref @ be32_store sh @ stock @ be32_store px @ mat"
  shows "\<exists>ev. snd (snd (itch_feed ip m)) = Some ev \<and> t_price (ev_trade ev) = itch_to_cents (be32 (drop 4 stock) 0) \<and>
    t_volume (ev_trade ev) = to_u64 sh"
proof -
  have "be32 m 19 = sh" "be32 m 27 = be32 (drop 4 stock) 0"
    using body_reads [OF assms(3), of 0] body_reads [OF assms(3), of 8] assms(1,2)
    by (simp_all add: field_simps field_def)
  then show ?thesis
    using wire_reads [OF assms(3)] assms(1,2)
    by (simp add: itch_feed_def Let_def parse_C_def emit_def empty_event_def)
qed

theorem itch_c_price_from_symbol_witness:
  "\<exists>ev. snd (snd (itch_feed new_itch_parser (wire_head 0x43 7 0 5 9 @ be32_store 2 @
      [0x41, 0x41, 0x50, 0x4C, 0x20, 0x20, 0x20, 0x20] @ be32_store 10000 @ replicate 8 0))) = Some ev \<and>
    t_price (ev_trade ev) = 5389762"
  using itch_c_price_from_symbol [of "[0x41, 0x41, 0x50, 0x4C, 0x20, 0x20, 0x20, 0x20]" "replicate 8 0" _ 7 0 5 9 2 10000 new_itch_parser]
  by (auto simp: be32_def itch_to_cents_def)

text \<open>The shortest body of each message type the parser handles.\<close>

definition itch_min :: "u8 \<Rightarrow> nat option" where
  "itch_min t = (if t = 0x41 \<or> t = 0x46 then Some 36 else if t = 0x44 then Some 19 else if t = 0x58 then Some 23
     else if t = 0x55 then Some 35 else if t = 0x50 then Some 44 else if t = 0x45 then Some 31
     else if t = 0x43 then Some 35 else None)"

lemma itch_min_some: "itch_min t = Some n \<Longrightarrow> 19 \<le> n"
  by (auto simp: itch_min_def split: if_splits)

lemma reads_append:
  "i + 2 \<le> length m \<Longrightarrow> be16 (m @ r) i = be16 m i" "i + 4 \<le> length m \<Longrightarrow> be32 (m @ r) i = be32 m i"
  "i + 8 \<le> length m \<Longrightarrow> be64 (m @ r) i = be64 m i" "i + 6 \<le> length m \<Longrightarrow> rd_ts (m @ r) i = rd_ts m i"
  using be16_field [of i m] be16_field [of i "m @ r"] be32_field [of i m] be32_field [of i "m @ r"]
    be64_field [of i m] be64_field [of i "m @ r"] rd_ts_field [of i m] rd_ts_field [of i "m @ r"]
  by (simp_all add: field_append_left)

lemma itch_feed_bounds_parts:
  shows "itch_min (m ! 0) = Some (length m) \<Longrightarrow> itch_feed ip (m @ r) = itch_feed ip m"
    and "itch_min (m ! 0) = Some n \<Longrightarrow> 3 \<le> length m \<Longrightarrow> length m < n \<Longrightarrow>
      itch_feed ip m = (ip\<lparr>ip_count := ip_count ip + 1\<rparr>, True, None)"
    and "itch_min (m ! 0) = None \<Longrightarrow> 3 \<le> length m \<Longrightarrow> itch_feed ip m = (ip\<lparr>ip_count := ip_count ip + 1\<rparr>, False, None)"
    and "length m < 3 \<Longrightarrow> itch_feed ip m = (ip, False, None)"
proof -
  note defs = itch_feed_def Let_def parse_A_def parse_D_def parse_X_def parse_U_def parse_P_def parse_E_def parse_C_def
  show "itch_feed ip (m @ r) = itch_feed ip m" if h: "itch_min (m ! 0) = Some (length m)"
  proof -
    have "(m @ r) ! 0 = m ! 0" "(m @ r) ! 19 = m ! 19 \<or> length m = 19"
      using itch_min_some [OF h] by (auto simp: nth_append)
    then show ?thesis using h by (auto simp: itch_min_def defs reads_append split: if_splits)
  qed
  show "itch_feed ip m = (ip\<lparr>ip_count := ip_count ip + 1\<rparr>, True, None)" if "itch_min (m ! 0) = Some n" "3 \<le> length m" "length m < n"
    using that by (auto simp: itch_min_def defs split: if_splits)
  show "itch_feed ip m = (ip\<lparr>ip_count := ip_count ip + 1\<rparr>, False, None)" if "itch_min (m ! 0) = None" "3 \<le> length m"
    using that by (auto simp: itch_min_def defs split: if_splits)
  show "itch_feed ip m = (ip, False, None)" if "length m < 3" using that by (simp add: defs)
qed

text \<open>\<open>feed\<close> reads no byte beyond the shortest body of the message's type: what follows it has no influence
  on the result. A body that is shorter is dropped without an event, but \<open>feed\<close> still reports success and
  counts it; a type without a handler is counted and refused, and fewer than three bytes are refused
  uncounted.\<close>

theorem itch_feed_bounds:
  "(itch_min (m ! 0) = Some (length m) \<longrightarrow> itch_feed ip (m @ r) = itch_feed ip m) \<and>
   (\<forall>n. itch_min (m ! 0) = Some n \<longrightarrow> 3 \<le> length m \<longrightarrow> length m < n \<longrightarrow>
      itch_feed ip m = (ip\<lparr>ip_count := ip_count ip + 1\<rparr>, True, None)) \<and>
   (itch_min (m ! 0) = None \<longrightarrow> 3 \<le> length m \<longrightarrow> itch_feed ip m = (ip\<lparr>ip_count := ip_count ip + 1\<rparr>, False, None)) \<and>
   (length m < 3 \<longrightarrow> itch_feed ip m = (ip, False, None))"
  using itch_feed_bounds_parts by blast

theorem itch_feed_bounds_witness:
  "itch_feed new_itch_parser (replicate 19 0x44 @ [1, 2]) = itch_feed new_itch_parser (replicate 19 0x44) \<and>
   itch_feed new_itch_parser [0x50, 1, 2, 3] = (\<lparr>ip_count = 1, ip_seq = 0\<rparr>, True, None) \<and>
   itch_feed new_itch_parser [0x52, 1, 2] = (\<lparr>ip_count = 1, ip_seq = 0\<rparr>, False, None) \<and>
   itch_feed new_itch_parser [0x50] = (new_itch_parser, False, None)"
  using itch_feed_bounds [of "replicate 19 0x44" new_itch_parser "[1, 2]"] itch_feed_bounds [of "[0x50, 1, 2, 3]" new_itch_parser "[]"]
    itch_feed_bounds [of "[0x52, 1, 2]" new_itch_parser "[]"] itch_feed_bounds [of "[0x50]" new_itch_parser "[]"]
  by (simp add: itch_min_def new_itch_parser_def)

end
