(* ===== verification/Market_Pipeline.thy ===== *)
theory Market_Pipeline
  imports Channel Ring_Parser Itch_Parser
begin

text \<open>
  The receive thread and the parser thread around the byte ring: the unpacker pushes the messages of a
  packet, waiting while the ring is full, and the parser feeds what it reads to the ITCH parser. The
  threads interleave; the producer may use a head it loaded earlier. A pass of the parser looks at one
  state of the ring here; what can happen when it does not is shown with the pass itself.
\<close>

section \<open>The two threads\<close>

text \<open>A push of the unpacker that succeeds: \<open>h\<close> is the head the producer has loaded.\<close>

definition push_step :: "byte_ring \<Rightarrow> u64 \<times> bytes \<Rightarrow> byte_ring \<Rightarrow> bool" where
  "push_step r m r' \<longleftrightarrow> body_ok (snd m) \<and>
     (\<exists>h n. h \<le> br_head r \<and> br_tail r \<le> h + br_cap r \<and> br_push_seen r h (msg_frame m) = (r', n) \<and> n \<noteq> 0)"

text \<open>A pass of the parser that does not leave the loop.\<close>

definition pass_step :: "byte_ring \<Rightarrow> (u64 \<times> bytes) list \<Rightarrow> byte_ring \<Rightarrow> bool" where
  "pass_step r ys r' \<longleftrightarrow> (case parse_pass r r r of Break \<Rightarrow> False
     | Release n \<Rightarrow> ys = [] \<and> r' = read_release r n
     | Feed sq b n \<Rightarrow> ys = [(sq, b)] \<and> r' = read_release r n)"

definition ring_content :: "byte_ring \<Rightarrow> (u64 \<times> bytes) list \<Rightarrow> bool" where
  "ring_content r q \<longleftrightarrow> ring_ok r (map msg_frame q) \<and> list_all (\<lambda>m. body_ok (snd m)) q"

text \<open>Twice the longest frame fits.\<close>

definition ring_admits :: "byte_ring \<Rightarrow> u64 \<times> bytes \<Rightarrow> bool" where
  "ring_admits r m \<longleftrightarrow> body_ok (snd m) \<and> 420 \<le> br_cap r"

lemma length_msg_frame: "body_ok (snd m) \<Longrightarrow> kHeaderBytes < length (msg_frame m) \<and> length (msg_frame m) \<le> 210"
  by (auto simp: msg_frame_def body_ok_def)

lemma push_step_content:
  assumes "ring_content r q" "push_step r m r'"
  shows "ring_content r' (q @ [m])" "br_cap r' = br_cap r"
proof -
  obtain h n where p: "body_ok (snd m)" "h \<le> br_head r" "br_tail r \<le> h + br_cap r" "br_push_seen r h (msg_frame m) = (r', n)" "n \<noteq> 0"
    using assms(2) by (auto simp: push_step_def)
  have "ring_ok r (map msg_frame q)" using assms(1) by (simp add: ring_content_def)
  from br_push_ok [OF this p(2,3) _ p(4)] length_msg_frame [OF p(1)] p(5)
  show "ring_content r' (q @ [m])" "br_cap r' = br_cap r"
    using assms(1) p(1) by (auto simp: ring_content_def)
qed

lemma push_step_cap: "push_step r m r' \<Longrightarrow> br_cap r' = br_cap r"
  by (auto simp: push_step_def br_push_seen_def Let_def split: if_splits)

lemma pass_step_cases:
  assumes "ring_content r (m # q)"
  shows "(\<exists>n. parse_pass r r r = Release n \<and> ring_content (read_release r n) (m # q)) \<or>
    (\<exists>n. parse_pass r r r = Feed (fst m) (snd m) n \<and> ring_content (read_release r n) q)"
proof -
  have ok: "ring_ok r (ring_frame (fst m) (snd m) # map msg_frame q)" "body_ok (snd m)" "list_all (\<lambda>m. body_ok (snd m)) q"
    using assms by (simp_all add: ring_content_def msg_frame_def)
  show ?thesis
  proof (cases "msg_start (br_cap r) (br_head r) = br_head r")
    case True
    then show ?thesis using pass_frame [OF ok(1) True ok(2)] ok(3) by (simp add: ring_content_def)
  next
    case False
    then show ?thesis using pass_gap [OF ok(1) False] ok(2,3) by (simp add: ring_content_def msg_frame_def)
  qed
qed

lemma pass_step_empty: "ring_content r [] \<Longrightarrow> \<not> pass_step r ys r'"
  using pass_empty [of r] by (simp add: ring_content_def pass_step_def)

interpretation ring_channel: channel push_step pass_step ring_content ring_admits "\<lambda>r. br_tail r - br_head r"
proof
  fix r r' q ys and m m' :: "u64 \<times> bytes"
  show "ring_content r q \<Longrightarrow> push_step r m r' \<Longrightarrow> ring_content r' (q @ [m])" by (rule push_step_content)
  show "ring_content r q \<Longrightarrow> pass_step r ys r' \<Longrightarrow> \<exists>q'. q = ys @ q' \<and> ring_content r' q'"
  proof (cases q)
    case Nil
    then show "ring_content r q \<Longrightarrow> pass_step r ys r' \<Longrightarrow> \<exists>q'. q = ys @ q' \<and> ring_content r' q'"
      using pass_step_empty by blast
  next
    case (Cons m q0)
    then show "ring_content r q \<Longrightarrow> pass_step r ys r' \<Longrightarrow> \<exists>q'. q = ys @ q' \<and> ring_content r' q'"
      using pass_step_cases [of r m q0] by (auto simp: pass_step_def)
  qed
  show "ring_content r (m # q) \<Longrightarrow> \<exists>ys r'. pass_step r ys r'"
    using pass_step_cases [of r m q] by (auto simp: pass_step_def)
  show "\<exists>r'. push_step r m r'" if c: "ring_content r []" and a: "ring_admits r m"
  proof -
    have b: "body_ok (snd m)" "2 * length (msg_frame m) \<le> br_cap r" "kHeaderBytes < length (msg_frame m)"
      using a length_msg_frame [of m] by (auto simp: ring_admits_def)
    have ok: "ring_ok r []" using c by (simp add: ring_content_def)
    obtain r' n where p: "br_push r (msg_frame m) = (r', n)" by (cases "br_push r (msg_frame m)")
    have "n \<noteq> 0" using br_push_empty [OF ok b(3,2)] p b(3) by auto
    moreover have "br_tail r \<le> br_head r + br_cap r" using ok by (simp add: ring_ok_def)
    ultimately show ?thesis using p b(1) unfolding push_step_def br_push_def by blast
  qed
  show "push_step r m' r' \<or> pass_step r ys r' \<Longrightarrow> ring_admits r' m = ring_admits r m"
    using push_step_cap [of r m' r'] by (auto simp: ring_admits_def pass_step_def read_release_def split: pass.splits)
  show "ring_content r q \<Longrightarrow> pass_step r ys r' \<Longrightarrow> br_tail r' - br_head r' < br_tail r - br_head r"
  proof -
    assume c: "ring_content r q" and s: "pass_step r ys r'"
    have "0 < br_cap r" using c by (auto simp: ring_content_def ring_ok_def)
    from pass_progress [OF this] s show "br_tail r' - br_head r' < br_tail r - br_head r"
      by (fastforce simp: pass_step_def read_release_def split: pass.splits)
  qed
qed

section \<open>From packets to events\<close>

fun numbered :: "u64 \<Rightarrow> nat \<Rightarrow> bytes list \<Rightarrow> (u64 \<times> bytes) list" where
  "numbered sq i [] = []"
| "numbered sq i (b # bs) = (sq + of_nat i, b) # numbered sq (i + 1) bs"

lemma ring_frames_numbered: "ring_frames sq i bs = map msg_frame (numbered sq i bs)"
  by (induction bs arbitrary: i) (simp_all add: msg_frame_def)

text \<open>The parser thread: every message it reads is fed, the events are what the sink gets.\<close>

fun feed_events :: "itch_parser \<Rightarrow> (u64 \<times> bytes) list \<Rightarrow> market_event list" where
  "feed_events ip [] = []"
| "feed_events ip ((sq, b) # ms) =
     (case itch_feed_seq ip b sq of (ip', ok, None) \<Rightarrow> feed_events ip' ms
      | (ip', ok, Some ev) \<Rightarrow> ev # feed_events ip' ms)"

text \<open>A packet of well-formed ITCH messages, and the events it means.\<close>

type_synonym itch_packet = "bytes \<times> u64 \<times> itch_msg list"

definition itch_packet_ok :: "itch_packet \<Rightarrow> bool" where
  "itch_packet_ok p \<longleftrightarrow> (case p of (session, sq, ms) \<Rightarrow> length session = 10 \<and> length ms < 65536 \<and>
     list_all (\<lambda>m. itch_valid m \<and> body_ok (itch_wire m)) ms)"

definition itch_packet_wire :: "itch_packet \<Rightarrow> bytes" where
  "itch_packet_wire p = (case p of (session, sq, ms) \<Rightarrow> packet_wire (session, sq, map itch_wire ms))"

fun itch_events :: "u64 \<Rightarrow> nat \<Rightarrow> itch_msg list \<Rightarrow> market_event list" where
  "itch_events sq i [] = []"
| "itch_events sq i (m # ms) = itch_event (sq + of_nat i) m # itch_events sq (i + 1) ms"

definition itch_packet_events :: "itch_packet \<Rightarrow> market_event list" where
  "itch_packet_events p = (case p of (session, sq, ms) \<Rightarrow> itch_events sq 0 ms)"

text \<open>What the unpacker sends, as messages.\<close>

definition packet_messages :: "itch_packet \<Rightarrow> (u64 \<times> bytes) list" where
  "packet_messages p = (case p of (session, sq, ms) \<Rightarrow> numbered sq 0 (map itch_wire ms))"

lemma numbered_snd: "list_all (\<lambda>m. P (snd m)) (numbered sq i bs) \<longleftrightarrow> list_all P bs"
  by (induction bs arbitrary: i) auto

lemma packet_messages_ok: "itch_packet_ok p \<Longrightarrow> list_all (\<lambda>m. body_ok (snd m)) (packet_messages p)"
proof -
  assume p: "itch_packet_ok p"
  obtain s sq ms where "p = (s, sq, ms)" by (cases p)
  then show ?thesis
    using p by (simp add: packet_messages_def itch_packet_ok_def numbered_snd) (simp add: list_all_iff)
qed

lemma inj_msg_frame: "inj msg_frame"
proof (rule injI)
  fix m m' assume eq: "msg_frame m = msg_frame m'"
  have "be_fold (take 8 (msg_frame m)) = fst m" "drop 10 (msg_frame m) = snd m" for m
    by (simp_all add: msg_frame_def ring_frame_def mold_msg_def be_fold_store)
  then show "m = m'" using eq by (metis prod_eqI)
qed

lemma unpacked_messages:
  assumes "list_all itch_packet_ok ps"
  shows "fst (mold_feed (concat (map itch_packet_wire ps))) = map msg_frame (concat (map packet_messages ps))"
proof -
  let ?q = "\<lambda>p :: itch_packet. case p of (session, sq, ms) \<Rightarrow> (session, sq, map itch_wire ms)"
  have ok: "list_all packet_ok (map ?q ps)"
    using assms by (fastforce simp: list_all_iff itch_packet_ok_def packet_ok_def split: prod.splits)
  have w: "map itch_packet_wire ps = map packet_wire (map ?q ps)"
    by (simp add: itch_packet_wire_def split: prod.splits)
  have f: "concat (map packet_frames (map ?q ps)) = map msg_frame (concat (map packet_messages ps))"
    by (induction ps) (auto simp: packet_frames_def packet_messages_def ring_frames_numbered split: prod.splits)
  show ?thesis
    using mold_from_stream [OF ok, of "[]"] by (simp only: w f mold_feed_def Let_def fst_conv append_Nil list.size)
qed

lemma feed_events_packet:
  "list_all itch_valid ms \<Longrightarrow>
   \<exists>ip'. feed_events ip (numbered sq i (map itch_wire ms) @ rest) = itch_events sq i ms @ feed_events ip' rest"
proof (induction ms arbitrary: ip i)
  case (Cons m ms)
  then show ?case using feed_wire [of m ip "sq + of_nat i"] by simp
qed auto

lemma feed_events_packets:
  "list_all itch_packet_ok ps \<Longrightarrow>
   feed_events ip (concat (map packet_messages ps)) = concat (map itch_packet_events ps)"
proof (induction ps arbitrary: ip)
  case (Cons p ps)
  obtain s sq ms where p: "p = (s, sq, ms)" by (cases p)
  have "list_all itch_valid ms" using Cons.prems by (simp add: p itch_packet_ok_def list_all_iff)
  then obtain ip' where "feed_events ip (packet_messages p @ concat (map packet_messages ps)) =
      itch_packet_events p @ feed_events ip' (concat (map packet_messages ps))"
    using feed_events_packet [of ms ip sq 0 "concat (map packet_messages ps)"]
    by (auto simp: p packet_messages_def itch_packet_events_def simp del: map_concat)
  then show ?case using Cons by simp
qed simp

lemma new_ring_content: "is_pow2 c \<Longrightarrow> ring_content (new_ring c) []"
  by (simp add: ring_content_def ring_ok_def new_ring_def)

lemma new_ring_valid: "is_pow2 c \<Longrightarrow> ring_channel.valid (ms, new_ring c, []) ms"
  using new_ring_content [of c] by (auto simp: ring_channel.valid_def)

section \<open>Properties\<close>



lemma market_data_end_to_end_parts:
  assumes "is_pow2 cap" "420 \<le> cap" "list_all itch_packet_ok ps"
    and "map msg_frame ms = fst (mold_feed (concat (map itch_packet_wire ps)))"
  shows "wf {(c', c). chan_step push_step pass_step c c' \<and> chan_steps push_step pass_step (ms, new_ring cap, []) c}"
    and "chan_steps push_step pass_step (ms, new_ring cap, []) (ms', r, fed) \<Longrightarrow>
      \<nexists>c. chan_step push_step pass_step (ms', r, fed) c \<Longrightarrow>
      ms' = [] \<and> br_empty r \<and> feed_events new_itch_parser fed = concat (map itch_packet_events ps)"
    and "\<exists>r'. chan_steps push_step pass_step (ms, new_ring cap, []) ([], r', concat (map packet_messages ps))"
proof -
  have ms: "ms = concat (map packet_messages ps)"
    using assms(3,4) unpacked_messages [of ps] inj_map_eq_map [OF inj_msg_frame] by metis
  have v: "ring_channel.valid (ms, new_ring cap, []) ms" by (rule new_ring_valid [OF assms(1)])
  have bodies: "list_all (\<lambda>m. body_ok (snd m)) ms"
    using assms(3) packet_messages_ok unfolding ms by (induction ps) auto
  have a: "list_all (ring_admits (fst (snd (ms, new_ring cap, [] :: (u64 \<times> bytes) list)))) (fst (ms, new_ring cap, [] :: (u64 \<times> bytes) list))"
    using bodies assms(2) by (simp add: ring_admits_def new_ring_def list_all_iff)
  show "wf {(c', c). chan_step push_step pass_step c c' \<and> chan_steps push_step pass_step (ms, new_ring cap, []) c}"
    by (rule wf_subset [OF ring_channel.runs_end]) (use ring_channel.fifo [OF _ v] in auto)
  show "\<exists>r'. chan_steps push_step pass_step (ms, new_ring cap, []) ([], r', concat (map packet_messages ps))"
    using ring_channel.all_delivered [OF v a] unfolding ms by blast
  assume run: "chan_steps push_step pass_step (ms, new_ring cap, []) (ms', r, fed)"
    and stuck: "\<nexists>c. chan_step push_step pass_step (ms', r, fed) c"
  have "list_all (ring_admits r) ms'" using ring_channel.admissible_steps [OF run a] by simp
  then have "ms' = [] \<and> ring_content r [] \<and> fed = ms"
    using ring_channel.stuck_delivered [OF ring_channel.fifo [OF run v] _ stuck] by blast
  then show "ms' = [] \<and> br_empty r \<and> feed_events new_itch_parser fed = concat (map itch_packet_events ps)"
    using feed_events_packets [OF assms(3)] by (auto simp: ms br_empty_def ring_content_def ring_ok_def)
qed

text \<open>A run of the two threads that comes to its end, for any stream of well-formed packets.\<close>

lemma settled_run:
  assumes p: "is_pow2 cap" "420 \<le> cap" and ok: "list_all itch_packet_ok ps" and ms: "ms = concat (map packet_messages ps)"
  obtains r where "chan_steps push_step pass_step (ms, new_ring cap, []) ([], r, ms)"
    "\<nexists>c. chan_step push_step pass_step ([], r, ms) c" "map msg_frame ms = fst (mold_feed (concat (map itch_packet_wire ps)))"
    "feed_events new_itch_parser ms = concat (map itch_packet_events ps)"
proof -
  have f: "map msg_frame ms = fst (mold_feed (concat (map itch_packet_wire ps)))" using unpacked_messages [OF ok] ms by simp
  obtain r where r: "chan_steps push_step pass_step (ms, new_ring cap, []) ([], r, ms)"
    using market_data_end_to_end_parts(3) [OF p ok f] ms by blast
  have "ring_content r []" using ring_channel.fifo [OF r new_ring_valid [OF p(1)]] by (auto simp: ring_channel.valid_def)
  then have "\<nexists>c. chan_step push_step pass_step ([], r, ms) c" using pass_step_empty by (auto elim: chan_stepE)
  then show thesis using that [OF r _ f] feed_events_packets [OF ok] ms by simp
qed



end
