(* ===== verification/Market_Replay.thy ===== *)
theory Market_Replay
  imports Market_Pipeline
begin

text \<open>
  The replay of \<^verbatim>\<open>benchmark/main.cpp\<close>: an ITCH file, a sequence of messages with a two-byte length in front,
  is cut into MoldUDP64 packets of a random number of messages. The random numbers are an argument
  (\<open>rnd k\<close> is \<open>rand() % pack_max\<close> for the \<open>k\<close>-th turn), pacing and the socket are left out; the result is
  what is given to \<open>sendto\<close>.
\<close>

section \<open>The replay\<close>

text \<open>The inner loop: the messages of one packet with their prefixes, the position behind them, the number
  of bytes skipped. A directory message (\<open>R\<close>) and a skipped byte do not count.\<close>

function pack :: "bytes \<Rightarrow> nat \<Rightarrow> nat \<Rightarrow> bytes list \<times> nat \<times> nat" where
  "pack f w pos =
     (if w = 0 \<or> length f < pos + 2 then ([], pos, 0)
      else
        (let body_len = unat (be16 f pos) in
         if body_len < 1 \<or> body_len > 200 then (case pack f w (pos + 1) of (ms, p, x) \<Rightarrow> (ms, p, x + 1))
         else if pos + (2 + body_len) > length f then ([], pos, 0)
         else if f ! (pos + 2) = 0x52 then pack f w (pos + (2 + body_len))
         else (case pack f (w - 1) (pos + (2 + body_len)) of (ms, p, x) \<Rightarrow> (field f pos (2 + body_len) # ms, p, x))))"
  by pat_completeness auto

termination
  by (relation "measure (\<lambda>(f, w, pos). length f - pos)") auto

declare pack.simps [simp del]

definition pack_packet :: "u64 \<Rightarrow> bytes list \<Rightarrow> bytes" where
  "pack_packet sq ms = replicate 10 0 @ be64_store sq @ be16_store (of_nat (length ms)) @ concat ms"

text \<open>The outer loop: the packets and the number of skipped bytes; \<open>None\<close> when it does not end.\<close>

partial_function (option) replay :: "bytes \<Rightarrow> (nat \<Rightarrow> nat) \<Rightarrow> nat \<Rightarrow> nat \<Rightarrow> u64 \<Rightarrow> (bytes list \<times> nat) option" where
  "replay f rnd k pos sq =
     (if pos + 2 \<le> length f then
        (case pack f (1 + rnd k) pos of (ms, pos', x) \<Rightarrow>
           Option.bind (replay f rnd (k + 1) pos' (sq + of_nat (length ms)))
             (\<lambda>(ps, y). Some (if ms = [] then ps else pack_packet sq ms # ps, x + y)))
      else Some ([], 0))"

section \<open>Files of messages\<close>

definition directory :: "bytes \<Rightarrow> bool" where
  "directory b \<longleftrightarrow> b ! 0 = 0x52"

abbreviation file_of :: "bytes list \<Rightarrow> bytes" where
  "file_of bs \<equiv> concat (map mold_msg bs)"

text \<open>What may stand behind the last message: nothing, one byte, or a message that is cut off.\<close>

definition cut_off :: "bytes \<Rightarrow> bool" where
  "cut_off t \<longleftrightarrow> 2 \<le> length t \<and> 1 \<le> unat (be16 t 0) \<and> unat (be16 t 0) \<le> 200 \<and> length t < 2 + unat (be16 t 0)"

lemma be16_at: "i + 2 \<le> length t \<Longrightarrow> be16 (pre @ t) (length pre + i) = be16 t i"
  by (simp add: be16_def nth_append)

lemma pack_done: "length f < pos + 2 \<Longrightarrow> pack f w pos = ([], pos, 0)"
  by (subst pack.simps) simp

lemma pack_cut: "cut_off t \<Longrightarrow> pack (pre @ t) w (length pre) = ([], length pre, 0)"
  using be16_at [of 0 t pre] by (subst pack.simps) (auto simp: cut_off_def Let_def)

lemma pack_step:
  fixes pre r :: bytes
  assumes b: "body_ok b" and w: "0 < w"
  defines "f \<equiv> pre @ mold_msg b @ r"
  shows "pack f w (length pre) =
    (if directory b then pack f w (length (pre @ mold_msg b))
     else (case pack f (w - 1) (length (pre @ mold_msg b)) of (ms, p, x) \<Rightarrow> (mold_msg b # ms, p, x)))"
proof -
  have len: "unat (be16 f (length pre)) = length b"
    using be16_append_right [of "length pre" pre "of_nat (length b)" "b @ r"] body_len16 [OF b]
    by (simp add: f_def mold_msg_def)
  have n: "\<not> (length b < 1 \<or> length b > 200)" "\<not> (w = 0 \<or> length f < length pre + 2)" "\<not> length pre + (2 + length b) > length f"
    using b w by (auto simp: body_ok_def f_def)
  have "b \<noteq> []" using b by (auto simp: body_ok_def)
  then have ty: "f ! (length pre + 2) = b ! 0" by (simp add: f_def nth_append mold_msg_def be16_store_def)
  have fld: "field f (length pre) (2 + length b) = mold_msg b" by (simp add: f_def field_def)
  show ?thesis
    by (subst pack.simps) (simp only: Let_def len if_not_P [OF n(1)] if_not_P [OF n(2)] if_not_P [OF n(3)] ty fld directory_def
        length_append length_mold_msg)
qed

lemma pack_messages:
  assumes "list_all body_ok bs" "length t < 2 \<or> cut_off t"
  shows "\<exists>us vs. bs = us @ vs \<and> (0 < w \<longrightarrow> bs \<noteq> [] \<longrightarrow> us \<noteq> []) \<and> length (filter (\<lambda>b. \<not> directory b) us) \<le> w \<and>
    pack (pre @ file_of bs @ t) w (length pre) = (map mold_msg (filter (\<lambda>b. \<not> directory b) us), length (pre @ file_of us), 0)"
  using assms(1)
proof (induction bs arbitrary: pre w)
  case Nil
  then show ?case using assms(2) pack_done [of "pre @ t" "length pre" w] pack_cut [of t pre w] by fastforce
next
  case (Cons b bs)
  show ?case
  proof (cases "w = 0")
    case True
    have "pack (pre @ file_of (b # bs) @ t) w (length pre) = ([], length pre, 0)" by (subst pack.simps) (simp add: True)
    then show ?thesis using True by (intro exI [of _ "[]"] exI [of _ "b # bs"]) simp
  next
    case False
    let ?w = "if directory b then w else w - 1"
    have ok: "body_ok b" "list_all body_ok bs" using Cons.prems by simp_all
    obtain us vs where u: "bs = us @ vs" "length (filter (\<lambda>b. \<not> directory b) us) \<le> ?w"
      "pack ((pre @ mold_msg b) @ file_of bs @ t) ?w (length (pre @ mold_msg b)) =
        (map mold_msg (filter (\<lambda>b. \<not> directory b) us), length ((pre @ mold_msg b) @ file_of us), 0)"
      using Cons.IH [OF ok(2), of ?w "pre @ mold_msg b"] by blast
    have "pack (pre @ file_of (b # bs) @ t) w (length pre) =
        (map mold_msg (filter (\<lambda>b. \<not> directory b) (b # us)), length (pre @ file_of (b # us)), 0)"
      using pack_step [OF ok(1), of w pre "file_of bs @ t"] u(3) False by (simp split: if_splits)
    then show ?thesis using u(1,2) False by (intro exI [of _ "b # us"] exI [of _ vs]) (auto split: if_splits)
  qed
qed

lemma pack_chunk:
  assumes "list_all body_ok bs" "length t < 2 \<or> cut_off t" "f = pre @ file_of bs @ t"
  obtains us vs where "bs = us @ vs" "0 < w \<Longrightarrow> bs \<noteq> [] \<Longrightarrow> us \<noteq> []" "length (filter (\<lambda>b. \<not> directory b) us) \<le> w"
    "pack f w (length pre) = (map mold_msg (filter (\<lambda>b. \<not> directory b) us), length (pre @ file_of us), 0)"
  using pack_messages [OF assms(1,2), of w pre] unfolding assms(3) [symmetric]
  by (elim exE conjE) (rule that, assumption+, simp_all)

section \<open>What the replay sends\<close>

text \<open>The packets of a division into chunks, numbered one after the other.\<close>

fun packets_from :: "u64 \<Rightarrow> 'a list list \<Rightarrow> (bytes \<times> u64 \<times> 'a list) list" where
  "packets_from sq [] = []"
| "packets_from sq (c # cs) = (replicate 10 0, sq, c) # packets_from (sq + of_nat (length c)) cs"

lemma pack_packet_wire: "pack_packet sq (map mold_msg c) = packet_wire (replicate 10 0, sq, c)"
  by (simp add: pack_packet_def packet_wire_def mold_packet_def)

lemma replay_file:
  assumes "list_all body_ok bs" "length t < 2" "f = pre @ file_of bs @ t"
  shows "\<exists>cs. replay f rnd k (length pre) sq = Some (map packet_wire (packets_from sq cs), 0) \<and>
    concat cs = filter (\<lambda>b. \<not> directory b) bs \<and> (\<forall>c\<in>set cs. \<exists>j. length c \<le> 1 + rnd j)"
  using assms(1,3)
proof (induction "length bs" arbitrary: bs pre k sq rule: less_induct)
  case less
  show ?case
  proof (cases "bs = []")
    case True
    then have "replay f rnd k (length pre) sq = Some ([], 0)"
      using less.prems assms(2) by (subst replay.simps) simp
    then show ?thesis using True by (intro exI [of _ "[]"]) simp
  next
    case False
    let ?keep = "filter (\<lambda>b. \<not> directory b)"
    obtain us vs where u: "bs = us @ vs" "us \<noteq> []" "length (?keep us) \<le> 1 + rnd k"
      "pack f (1 + rnd k) (length pre) = (map mold_msg (?keep us), length (pre @ file_of us), 0)"
      by (rule pack_chunk [OF less.prems(1) disjI1 [OF assms(2)] less.prems(2), of "1 + rnd k"]) (use False in simp)
    have vs: "length vs < length bs" "list_all body_ok vs" "f = (pre @ file_of us) @ file_of vs @ t"
      using u(1,2) less.prems by simp_all
    obtain cs where cs: "replay f rnd (k + 1) (length (pre @ file_of us)) (sq + of_nat (length (?keep us))) =
        Some (map packet_wire (packets_from (sq + of_nat (length (?keep us))) cs), 0)"
      "concat cs = ?keep vs" "\<forall>c\<in>set cs. \<exists>j. length c \<le> 1 + rnd j"
      using less.hyps [OF vs] by blast
    have "body_ok (hd bs)" using less.prems(1) False by (cases bs) simp_all
    then have le: "length pre + 2 \<le> length f" using False unfolding less.prems(2) by (cases bs) auto
    have "replay f rnd k (length pre) sq = Some (if ?keep us = [] then map packet_wire (packets_from (sq + of_nat (length (?keep us))) cs)
        else packet_wire (replicate 10 0, sq, ?keep us) # map packet_wire (packets_from (sq + of_nat (length (?keep us))) cs), 0)"
      by (subst replay.simps) (simp only: if_P [OF le] u(4) prod.case length_map cs(1) bind.bind_lunit map_is_Nil_conv pack_packet_wire add_0)
    then show ?thesis using cs(2,3) u(1,3)
      by (intro exI [of _ "if ?keep us = [] then cs else ?keep us # cs"]) (auto split: if_splits)
  qed
qed

lemma ring_frames_append: "ring_frames sq i (xs @ ys) = ring_frames sq i xs @ ring_frames sq (i + length xs) ys"
  by (induction xs arbitrary: i) simp_all

lemma ring_frames_shift: "ring_frames (sq + of_nat n) i xs = ring_frames sq (n + i) xs"
  by (induction xs arbitrary: i) (simp_all add: add.assoc)

lemma packets_from_frames: "concat (map packet_frames (packets_from sq cs)) = ring_frames sq 0 (concat cs)"
proof (induction cs arbitrary: sq)
  case (Cons c cs)
  then show ?case using ring_frames_shift [of sq "length c" 0] by (simp add: packet_frames_def ring_frames_append)
qed simp

lemma packets_from_ok:
  assumes "list_all P (concat cs)" "\<forall>c\<in>set cs. length c < 65536"
  shows "list_all (\<lambda>(session, sq, ms). length session = 10 \<and> length ms < 65536 \<and> list_all P ms) (packets_from sq cs)"
  using assms by (induction cs arbitrary: sq) auto

lemma packet_fed:
  assumes "packet_ok p"
  shows "fst (mold_feed (packet_wire p)) = packet_frames p"
  using mold_from_stream [of "[p]" "[]"] assms by (simp add: mold_feed_def Let_def)

lemma packets_fed: "list_all packet_ok ps \<Longrightarrow> concat (map (fst \<circ> mold_feed) (map packet_wire ps)) = concat (map packet_frames ps)"
  by (induction ps) (simp_all add: packet_fed)

text \<open>A message that is cut off at the end stops every packet, and the position stays where it is.\<close>

lemma replay_stuck:
  assumes "replay f rnd k pos sq = Some r"
  shows "\<forall>pre bs t. pos = length pre \<longrightarrow> f = pre @ file_of bs @ t \<longrightarrow> list_all body_ok bs \<longrightarrow> \<not> cut_off t"
proof (rule replay.raw_induct [where P = "\<lambda>f rnd k pos sq r. \<forall>pre bs t. pos = length pre \<longrightarrow> f = pre @ file_of bs @ t \<longrightarrow>
    list_all body_ok bs \<longrightarrow> \<not> cut_off t", OF _ assms], intro allI impI notI)
  fix rep :: "bytes \<Rightarrow> (nat \<Rightarrow> nat) \<Rightarrow> nat \<Rightarrow> nat \<Rightarrow> u64 \<Rightarrow> (bytes list \<times> nat) option"
    and f pos sq r pre bs t and rnd :: "nat \<Rightarrow> nat" and k
  assume IH: "\<And>f rnd k pos sq r. rep f rnd k pos sq = Some r \<Longrightarrow> \<forall>pre bs t. pos = length pre \<longrightarrow> f = pre @ file_of bs @ t \<longrightarrow>
      list_all body_ok bs \<longrightarrow> \<not> cut_off t"
    and body: "(if pos + 2 \<le> length f then (case pack f (1 + rnd k) pos of (ms, pos', x) \<Rightarrow>
           Option.bind (rep f rnd (k + 1) pos' (sq + of_nat (length ms)))
             (\<lambda>(ps, y). Some (if ms = [] then ps else pack_packet sq ms # ps, x + y)))
      else Some ([], 0)) = Some r"
    and h: "pos = length pre" "f = pre @ file_of bs @ t" "list_all body_ok bs" "cut_off t"
  have le: "pos + 2 \<le> length f" using h(1,2,4) by (simp add: cut_off_def)
  obtain us vs where u: "bs = us @ vs"
    "pack f (1 + rnd k) pos = (map mold_msg (filter (\<lambda>b. \<not> directory b) us), length (pre @ file_of us), 0)"
    unfolding h(1) by (rule pack_chunk [OF h(3) disjI2 [OF h(4)] h(2), of "1 + rnd k"])
  obtain r' where r': "rep f rnd (k + 1) (length (pre @ file_of us)) (sq + of_nat (length (map mold_msg (filter (\<lambda>b. \<not> directory b) us)))) = Some r'"
    using body unfolding u(2) if_P [OF le] prod.case bind_eq_Some_conv by blast
  have "f = (pre @ file_of us) @ file_of vs @ t" "list_all body_ok vs" using h(2,3) u(1) by simp_all
  then show False using IH [OF r'] h(4) by blast
qed

section \<open>From the file to the events\<close>

lemma concat_map_split:
  "concat cs = map f xs \<Longrightarrow> \<exists>ds. cs = map (map f) ds \<and> concat ds = xs"
proof (induction cs arbitrary: xs)
  case (Cons c cs)
  have c: "c = map f (take (length c) xs)" and r: "concat cs = map f (drop (length c) xs)"
    using Cons.prems by (simp_all add: take_map [symmetric] drop_map [symmetric] flip: Cons.prems)
  obtain ds where "cs = map (map f) ds" "concat ds = drop (length c) xs" using Cons.IH [OF r] by blast
  then show ?case using c by (intro exI [of _ "take (length c) xs # ds"]) simp
qed simp

lemma itch_wire_kept: "\<not> directory (itch_wire m)"
  by (cases m) (simp_all add: directory_def wire_head_def)

lemma itch_events_append: "itch_events sq i (xs @ ys) = itch_events sq i xs @ itch_events sq (i + length xs) ys"
  by (induction xs arbitrary: i) simp_all

lemma itch_events_shift: "itch_events (sq + of_nat n) i xs = itch_events sq (n + i) xs"
  by (induction xs arbitrary: i) (simp_all add: add.assoc)

lemma packets_from_events: "concat (map itch_packet_events (packets_from sq cs)) = itch_events sq 0 (concat cs)"
proof (induction cs arbitrary: sq)
  case (Cons c cs)
  then show ?case using itch_events_shift [of sq "length c" 0] by (simp add: itch_packet_events_def itch_events_append)
qed simp

lemma packets_from_map: "map itch_packet_wire (packets_from sq ds) = map packet_wire (packets_from sq (map (map itch_wire) ds))"
  by (induction ds arbitrary: sq) (simp_all add: itch_packet_wire_def)

text \<open>The packets of a file of messages are well-formed packets of them, cut somehow.\<close>

lemma replay_itch:
  assumes ok: "list_all (\<lambda>m. itch_valid m \<and> body_ok (itch_wire m)) msgs" and rnd: "\<And>k. rnd k < 65535"
  obtains ds where "replay (file_of (map itch_wire msgs)) rnd 0 0 0 = Some (map itch_packet_wire (packets_from 0 ds), 0)"
    "list_all itch_packet_ok (packets_from 0 ds)" "concat ds = msgs"
proof -
  have bs: "list_all body_ok (map itch_wire msgs)" using ok by (simp add: list_all_iff)
  obtain cs where cs: "replay (file_of (map itch_wire msgs)) rnd 0 0 0 = Some (map packet_wire (packets_from 0 cs), 0)"
    "concat cs = map itch_wire msgs" "\<forall>c\<in>set cs. \<exists>j. length c \<le> 1 + rnd j"
    using replay_file [OF bs, of "[]" "file_of (map itch_wire msgs)" "[]" rnd 0 0] by (auto simp: itch_wire_kept)
  obtain ds where ds: "cs = map (map itch_wire) ds" "concat ds = msgs" using concat_map_split [OF cs(2)] by blast
  have "length c < 65536" if c: "c \<in> set ds" for c
  proof -
    have "map itch_wire c \<in> set cs" using c by (simp add: ds(1))
    from bspec [OF cs(3) this] obtain j where "length c \<le> 1 + rnd j" unfolding length_map by (elim exE)
    then show ?thesis using rnd [of j] by simp
  qed
  then have n: "\<forall>c\<in>set ds. length c < 65536" by blast
  have "itch_packet_ok = (\<lambda>(session, sq, ms). length session = 10 \<and> length ms < 65536 \<and>
      list_all (\<lambda>m. itch_valid m \<and> body_ok (itch_wire m)) ms)"
    by (rule ext) (simp only: itch_packet_ok_def)
  then have "list_all itch_packet_ok (packets_from 0 ds)"
    using packets_from_ok [OF ok [folded ds(2)] n, of 0] by (simp only:)
  moreover have "replay (file_of (map itch_wire msgs)) rnd 0 0 0 = Some (map itch_packet_wire (packets_from 0 ds), 0)"
    unfolding packets_from_map ds(1) [symmetric] by (rule cs(1))
  ultimately show thesis by (intro that [OF _ _ ds(2)])
qed

lemma itch_packets_fed:
  assumes "list_all itch_packet_ok ps"
  shows "concat (map (fst \<circ> mold_feed) (map itch_packet_wire ps)) = fst (mold_feed (concat (map itch_packet_wire ps)))"
  using assms
proof (induction ps)
  case Nil
  then show ?case using unpacked_messages [of "[]"] by simp
next
  case (Cons p ps)
  then have "list_all itch_packet_ok [p]" "list_all itch_packet_ok ps" by simp_all
  then show ?case using Cons unpacked_messages [of "[p]"] unpacked_messages [of ps] unpacked_messages [of "p # ps"] by simp
qed

section \<open>Properties\<close>

text \<open>Replaying a file of messages ends, skips nothing but directory messages, and whatever the random
  numbers of messages per packet are, unpacking the packets one by one yields every other message once,
  in the order of the file, numbered from 0 without gaps.\<close>

theorem replay_delivers:
  assumes "list_all body_ok bs" "\<forall>k. rnd k < 65535"
  shows "\<exists>ps. replay (file_of bs) rnd 0 0 0 = Some (ps, 0) \<and>
    concat (map (fst \<circ> mold_feed) ps) = ring_frames 0 0 (filter (\<lambda>b. \<not> directory b) bs)"
proof -
  obtain cs where cs: "replay (file_of bs) rnd 0 0 0 = Some (map packet_wire (packets_from 0 cs), 0)"
    "concat cs = filter (\<lambda>b. \<not> directory b) bs" "\<forall>c\<in>set cs. \<exists>j. length c \<le> 1 + rnd j"
    using replay_file [OF assms(1), of "[]" "file_of bs" "[]" rnd 0 0] by auto
  have "length c < 65536" if c: "c \<in> set cs" for c
  proof -
    from bspec [OF cs(3) c] obtain j where "length c \<le> 1 + rnd j" by (elim exE)
    then show ?thesis using spec [OF assms(2), of j] by simp
  qed
  then have n: "\<forall>c\<in>set cs. length c < 65536" by blast
  have "list_all body_ok (concat cs)" unfolding cs(2) using assms(1) by (simp add: list_all_iff)
  moreover have "packet_ok = (\<lambda>(session, sq, ms). length session = 10 \<and> length ms < 65536 \<and> list_all body_ok ms)"
    by (rule ext) (simp only: packet_ok_def)
  ultimately have "list_all packet_ok (packets_from 0 cs)" using packets_from_ok [OF _ n, of body_ok 0] by (simp only:)
  from packets_fed [OF this] show ?thesis unfolding packets_from_frames cs(2) using cs(1) by blast
qed

theorem replay_delivers_witness:
  "\<exists>ps. replay (file_of [[0x44, 1], [0x52, 2], [0x58]]) (\<lambda>k. 0) 0 0 0 = Some (ps, 0) \<and>
    concat (map (fst \<circ> mold_feed) ps) = [ring_frame 0 [0x44, 1], ring_frame 1 [0x58]]"
  using replay_delivers [of "[[0x44, 1], [0x52, 2], [0x58]]" "\<lambda>k. 0"] by (simp add: body_ok_def directory_def)



text \<open>A file whose last message is cut off is replayed for ever: after the whole messages every turn
  builds an empty packet and stays at the same position.\<close>

theorem replay_never_ends:
  assumes "list_all body_ok bs" "cut_off t"
  shows "replay (file_of bs @ t) rnd 0 0 0 = None"
  using replay_stuck [of "file_of bs @ t" rnd 0 0 0] assms
  by (cases "replay (file_of bs @ t) rnd 0 0 0") (auto dest: spec [of _ "[]"])

theorem replay_never_ends_witness:
  "replay (file_of [[0x44, 1]] @ [0, 3, 0x58]) (\<lambda>k. 7) 0 0 0 = None"
  using replay_never_ends [of "[[0x44, 1]]" "[0, 3, 0x58]" "\<lambda>k. 7"] by (simp add: body_ok_def cut_off_def be16_def)

end
