(* ===== verification/Event_Ring.thy ===== *)
theory Event_Ring
  imports Channel NX_Types
begin

text \<open>
  The single-producer single-consumer event ring of \<^verbatim>\<open>core/queue/spsc_event_ring.h\<close>, and the counter of
  the event descriptor its consumers sleep on. The positions are natural numbers; the 64-bit counters
  would wrap after \<open>2 ^ 64\<close> events.
\<close>

section \<open>State and operations\<close>

record event_ring =
  er_slots :: "nat \<Rightarrow> market_event"
  er_cap :: nat
  er_head :: nat
  er_tail :: nat

definition new_event_ring :: "nat \<Rightarrow> event_ring" where
  "new_event_ring n = \<lparr>er_slots = (\<lambda>_. empty_event), er_cap = n, er_head = 0, er_tail = 0\<rparr>"

definition er_valid :: "event_ring \<Rightarrow> bool" where
  "er_valid r \<longleftrightarrow> er_cap r AND (er_cap r - 1) = 0"

definition er_pending :: "event_ring \<Rightarrow> nat" where
  "er_pending r = er_tail r - er_head r"

definition er_push :: "event_ring \<Rightarrow> market_event \<Rightarrow> event_ring \<times> bool" where
  "er_push r ev =
     (let tail = er_tail r in
      if tail - er_head r \<ge> er_cap r then (r, False)
      else (r\<lparr>er_slots := (er_slots r)(tail AND (er_cap r - 1) := ev), er_tail := tail + 1\<rparr>, True))"

definition er_peek :: "event_ring \<Rightarrow> market_event option" where
  "er_peek r = (if er_head r = er_tail r then None else Some (er_slots r (er_head r AND (er_cap r - 1))))"

definition er_pop :: "event_ring \<Rightarrow> (market_event \<times> event_ring) option" where
  "er_pop r =
     (if er_head r = er_tail r then None
      else Some (er_slots r (er_head r AND (er_cap r - 1)), r\<lparr>er_head := er_head r + 1\<rparr>))"

section \<open>The content\<close>

definition er_list :: "event_ring \<Rightarrow> market_event list" where
  "er_list r = map (\<lambda>i. er_slots r (i mod er_cap r)) [er_head r..<er_tail r]"

definition er_inv :: "event_ring \<Rightarrow> bool" where
  "er_inv r \<longleftrightarrow> is_pow2 (er_cap r) \<and> er_head r \<le> er_tail r \<and> er_tail r \<le> er_head r + er_cap r"

lemma length_er_list: "er_inv r \<Longrightarrow> length (er_list r) = er_pending r"
  by (simp add: er_list_def er_pending_def)

lemma new_event_ring_inv: "is_pow2 n \<Longrightarrow> er_inv (new_event_ring n) \<and> er_list (new_event_ring n) = []"
  by (simp add: er_inv_def er_list_def new_event_ring_def)

lemma er_push_cases:
  assumes "er_inv r"
  shows "(er_push r ev = (r, False) \<and> length (er_list r) = er_cap r) \<or>
    (\<exists>r'. er_push r ev = (r', True) \<and> er_inv r' \<and> er_list r' = er_list r @ [ev] \<and> er_cap r' = er_cap r \<and>
       length (er_list r) < er_cap r)"
proof (cases "er_tail r - er_head r \<ge> er_cap r")
  case True
  moreover have "er_pending r = er_cap r" using True assms unfolding er_pending_def er_inv_def by linarith
  ultimately show ?thesis using length_er_list [OF assms] by (simp add: er_push_def)
next
  case False
  let ?c = "er_cap r" and ?t = "er_tail r"
  let ?r' = "r\<lparr>er_slots := (er_slots r)(?t AND (?c - 1) := ev), er_tail := ?t + 1\<rparr>"
  have o: "is_pow2 ?c" "er_head r \<le> ?t" using assms by (simp_all add: er_inv_def)
  have pos: "?t AND (?c - 1) = ?t mod ?c" using o(1) by (rule and_pow2_mod)
  have "i mod ?c \<noteq> ?t mod ?c" if "er_head r \<le> i" "i < ?t" for i
    using that False by (intro mod_neq) linarith+
  then have "er_list ?r' = er_list r @ [ev]"
    unfolding er_list_def pos using o(2) by auto
  moreover have "er_inv ?r'" using assms False by (simp add: er_inv_def)
  moreover have "er_push r ev = (?r', True)" using False by (simp add: er_push_def Let_def)
  ultimately show ?thesis using assms False by (simp add: length_er_list er_pending_def)
qed

lemma er_pop_cases:
  assumes "er_inv r"
  shows "(er_pop r = None \<and> er_peek r = None \<and> er_list r = []) \<or>
    (\<exists>r' ev. er_pop r = Some (ev, r') \<and> er_peek r = Some ev \<and> er_inv r' \<and> er_list r = ev # er_list r' \<and> er_cap r' = er_cap r)"
proof (cases "er_head r = er_tail r")
  case True
  then show ?thesis by (simp add: er_pop_def er_peek_def er_list_def)
next
  case False
  have o: "is_pow2 (er_cap r)" "er_head r < er_tail r" using assms False by (simp_all add: er_inv_def)
  have "er_head r AND (er_cap r - 1) = er_head r mod er_cap r" using o(1) by (rule and_pow2_mod)
  then show ?thesis using False assms o(2)
    by (simp add: er_pop_def er_peek_def er_list_def er_inv_def upt_conv_Cons)
qed

section \<open>The ring as a channel\<close>

definition er_send :: "event_ring \<Rightarrow> market_event \<Rightarrow> event_ring \<Rightarrow> bool" where
  "er_send r ev r' \<longleftrightarrow> er_push r ev = (r', True)"

definition er_recv :: "event_ring \<Rightarrow> market_event list \<Rightarrow> event_ring \<Rightarrow> bool" where
  "er_recv r evs r' \<longleftrightarrow> (\<exists>ev. er_pop r = Some (ev, r') \<and> evs = [ev])"

definition er_content :: "event_ring \<Rightarrow> market_event list \<Rightarrow> bool" where
  "er_content r q \<longleftrightarrow> er_inv r \<and> er_list r = q"

interpretation event_channel: channel er_send er_recv er_content "\<lambda>r ev. True" er_pending
proof
  fix r r' q ys and ev :: market_event
  show "er_content r q \<Longrightarrow> er_send r ev r' \<Longrightarrow> er_content r' (q @ [ev])"
    using er_push_cases [of r ev] by (auto simp: er_content_def er_send_def)
  show "er_content r q \<Longrightarrow> er_recv r ys r' \<Longrightarrow> \<exists>q'. q = ys @ q' \<and> er_content r' q'"
    using er_pop_cases [of r] by (auto simp: er_content_def er_recv_def)
  show "er_content r (ev # q) \<Longrightarrow> \<exists>ys r'. er_recv r ys r'"
    using er_pop_cases [of r] by (auto simp: er_content_def er_recv_def)
  show "er_content r [] \<Longrightarrow> \<exists>r'. er_send r ev r'"
    using er_push_cases [of r ev] by (auto simp: er_content_def er_send_def er_inv_def is_pow2_def)
  show "er_content r q \<Longrightarrow> er_recv r ys r' \<Longrightarrow> er_pending r' < er_pending r"
    by (auto simp: er_content_def er_recv_def er_pop_def er_pending_def er_inv_def split: if_splits)
qed simp_all

section \<open>Sleeping and waking\<close>

text \<open>
  All rings share one event descriptor, a counter: a write adds one, a read sets it to zero, \<open>poll\<close>
  returns at once when it is not zero. A push that succeeds writes it; \<open>wait_for_data\<close> first reads it
  until it is zero, then polls, then reads it again.
\<close>

definition er_push_wake :: "event_ring \<Rightarrow> nat \<Rightarrow> market_event \<Rightarrow> event_ring \<times> nat \<times> bool" where
  "er_push_wake r fd ev = (case er_push r ev of (r', ok) \<Rightarrow> (r', if ok then fd + 1 else fd, ok))"

definition set_blocked :: "nat \<Rightarrow> nat" where
  "set_blocked fd = fd + 1"

definition wait_drain :: "nat \<Rightarrow> nat" where
  "wait_drain fd = 0"

text \<open>The poll, with the counter at the time it ends: woken or timed out.\<close>

definition wait_poll :: "nat \<Rightarrow> nat \<times> bool" where
  "wait_poll fd = (if fd > 0 then (0, True) else (fd, False))"

text \<open>The slots of a worker's ring.\<close>

definition per_chan :: "nat \<Rightarrow> nat \<Rightarrow> nat" where
  "per_chan chan_slots workers = chan_slots div max 1 workers"

section \<open>Properties\<close>

text \<open>C25. With a capacity that is a power of two the event ring is a first-in first-out queue: for every
  interleaving of the producer's pushes and the consumer's pops, the events popped, the events in the
  ring and the events still to be pushed are together the events of the producer in order, and the ring
  never holds more than its capacity.\<close>

theorem event_ring_fifo:
  assumes "is_pow2 cap" "chan_steps er_send er_recv (evs, new_event_ring cap, []) (evs', r, popped)"
  shows "popped @ er_list r @ evs' = evs \<and> er_pending r \<le> er_cap r"
proof -
  have "event_channel.valid (evs, new_event_ring cap, []) evs"
    using new_event_ring_inv [OF assms(1)] by (simp add: event_channel.valid_def er_content_def)
  from event_channel.fifo [OF assms(2) this] show ?thesis
    by (auto simp: event_channel.valid_def er_content_def er_inv_def er_pending_def)
qed

theorem event_ring_fifo_witness:
  "\<exists>r. chan_steps er_send er_recv ([empty_event, empty_event], new_event_ring 2, []) ([], r, [empty_event, empty_event]) \<and> er_list r = []"
proof -
  have p: "is_pow2 2" using is_pow2_power [of 1] by simp
  have "event_channel.valid ([empty_event, empty_event], new_event_ring 2, []) [empty_event, empty_event]"
    using new_event_ring_inv [OF p] by (simp add: event_channel.valid_def er_content_def)
  then obtain r where r: "chan_steps er_send er_recv ([empty_event, empty_event], new_event_ring 2, []) ([], r, [empty_event, empty_event])"
    using event_channel.all_delivered by fastforce
  then show ?thesis using event_ring_fifo [OF p r] by auto
qed

text \<open>The consumer's sleep can miss a wakeup: if it finds the ring empty, registers, and an event is
  pushed before \<open>wait_for_data\<close> drains the descriptor, the drain takes the wakeup with it and the poll
  runs into its timeout although the ring holds the event.\<close>

theorem drain_loses_wakeup:
  assumes "er_inv r" "er_pop r = None" "er_push_wake r (set_blocked fd) ev = (r', fd', True)"
  shows "er_list r' = [ev] \<and> 0 < fd' \<and> wait_poll (wait_drain fd') = (0, False)"
  using assms er_push_cases [OF assms(1), of ev] er_pop_cases [OF assms(1)]
  by (auto simp: er_push_wake_def set_blocked_def wait_drain_def wait_poll_def split: prod.splits)

theorem drain_loses_wakeup_witness:
  "\<exists>r'. er_push_wake (new_event_ring 2) (set_blocked 0) empty_event = (r', 2, True) \<and> er_list r' = [empty_event] \<and>
     wait_poll (wait_drain 2) = (0, False)"
proof -
  have p: "is_pow2 2" using is_pow2_power [of 1] by simp
  obtain r' where r': "er_push_wake (new_event_ring 2) (set_blocked 0) empty_event = (r', 2, True)"
    by (simp add: er_push_wake_def er_push_def new_event_ring_def set_blocked_def)
  then show ?thesis
    using drain_loses_wakeup [OF conjunct1 [OF new_event_ring_inv [OF p]] _ r'] by (simp add: er_pop_def new_event_ring_def)
qed

text \<open>The capacity of a worker's ring is the configured number of slots divided by the number of
  workers, and nothing checks that it is a power of two. With an odd capacity, for instance with three
  workers and the default number of slots, the first two events share a slot: the second overwrites the
  first and is popped in its place.\<close>

theorem odd_capacity_overwrites:
  assumes "odd n" "2 \<le> n"
  shows "\<exists>r1 r2 r3. er_push (new_event_ring n) ev1 = (r1, True) \<and> er_push r1 ev2 = (r2, True) \<and> er_pop r2 = Some (ev2, r3)"
    and "\<not> er_valid (new_event_ring (per_chan 1048576 3))"
proof -
  have "even (n - 1)" using assms by simp
  then have "1 AND (n - 1) = 0" by (simp add: and_one_eq one_and_eq)
  then show "\<exists>r1 r2 r3. er_push (new_event_ring n) ev1 = (r1, True) \<and> er_push r1 ev2 = (r2, True) \<and> er_pop r2 = Some (ev2, r3)"
    using assms by (simp add: er_push_def new_event_ring_def er_pop_def)
  show "\<not> er_valid (new_event_ring (per_chan 1048576 3))"
    by (simp add: er_valid_def new_event_ring_def per_chan_def)
qed

theorem odd_capacity_overwrites_witness:
  "\<exists>r1 r2 r3. er_push (new_event_ring (per_chan 1048576 3)) empty_event = (r1, True) \<and>
     er_push r1 (empty_event\<lparr>ev_seq_id := 1\<rparr>) = (r2, True) \<and> er_pop r2 = Some (empty_event\<lparr>ev_seq_id := 1\<rparr>, r3)"
  using odd_capacity_overwrites(1) [of "per_chan 1048576 3"] by (simp add: per_chan_def)

end
