(* ===== verification/Dispatcher.thy ===== *)
theory Dispatcher
  imports Event_Ring
begin

text \<open>
  The dispatcher of \<^verbatim>\<open>core/dispatch/dispatcher.h\<close>, the retry thread and the workers' loops of
  \<^verbatim>\<open>main.cpp\<close>. First the registry of owners, then one lane: the event ring of a worker, its retry
  bucket and flag, and the three threads that work on them, step by step.
\<close>

section \<open>The registry of owners\<close>

record registry =
  rg_owner :: "nat \<rightharpoonup> nat"
  rg_counts :: "nat list"

definition new_registry :: "nat \<Rightarrow> registry" where
  "new_registry n = \<lparr>rg_owner = Map.empty, rg_counts = replicate n 0\<rparr>"

text \<open>The loop over the counts: the first worker with the fewest symbols.\<close>

fun pick_from :: "nat list \<Rightarrow> nat \<Rightarrow> nat \<Rightarrow> nat \<Rightarrow> nat" where
  "pick_from [] i target tr = target"
| "pick_from (c # cs) i target tr = (if c < tr then pick_from cs (i + 1) i c else pick_from cs (i + 1) target tr)"

definition pick_worker :: "nat list \<Rightarrow> nat" where
  "pick_worker cs = pick_from (tl cs) 1 0 (hd cs)"

definition lookup_or_register :: "registry \<Rightarrow> nat \<Rightarrow> registry \<times> nat" where
  "lookup_or_register rg locate =
     (case rg_owner rg locate of
        Some w \<Rightarrow> (rg, w)
      | None \<Rightarrow>
          (let target = pick_worker (rg_counts rg) in
           (rg\<lparr>rg_owner := (rg_owner rg)(locate \<mapsto> target),
               rg_counts := (rg_counts rg)[target := rg_counts rg ! target + 1]\<rparr>, target)))"

text \<open>The owners of a sequence of events.\<close>

fun route :: "registry \<Rightarrow> nat list \<Rightarrow> registry \<times> nat list" where
  "route rg [] = (rg, [])"
| "route rg (l # ls) = (case lookup_or_register rg l of (rg', w) \<Rightarrow> case route rg' ls of (rg'', ws) \<Rightarrow> (rg'', w # ws))"

lemma pick_from_spec:
  assumes "target < length pre" "pre ! target = tr" "\<forall>c\<in>set pre. tr \<le> c"
  shows "pick_from cs (length pre) target tr < length (pre @ cs) \<and>
    (\<forall>c\<in>set (pre @ cs). (pre @ cs) ! pick_from cs (length pre) target tr \<le> c)"
  using assms
proof (induction cs arbitrary: pre target tr)
  case Nil
  then show ?case by simp
next
  case (Cons c cs)
  have l: "length pre + 1 = length (pre @ [c])" by simp
  show ?case
  proof (cases "c < tr")
    case True
    have "\<forall>d\<in>set (pre @ [c]). c \<le> d" using Cons.prems(3) True by auto
    from Cons.IH [of "length pre" "pre @ [c]" c, OF _ _ this] True show ?thesis by (simp add: l)
  next
    case False
    have "\<forall>d\<in>set (pre @ [c]). tr \<le> d" using Cons.prems(3) False by auto
    from Cons.IH [of target "pre @ [c]" tr, OF _ _ this] False Cons.prems show ?thesis by (simp add: l nth_append)
  qed
qed

lemma pick_worker_spec:
  assumes "cs \<noteq> []"
  shows "pick_worker cs < length cs" "i < length cs \<Longrightarrow> cs ! pick_worker cs \<le> cs ! i"
proof -
  obtain c cs' where "cs = c # cs'" using assms by (cases cs) auto
  with pick_from_spec [of 0 "[c]" c cs'] have "pick_worker cs < length cs \<and> (\<forall>c\<in>set cs. cs ! pick_worker cs \<le> c)"
    by (simp add: pick_worker_def)
  then show "pick_worker cs < length cs" "i < length cs \<Longrightarrow> cs ! pick_worker cs \<le> cs ! i" by (simp_all add: nth_mem)
qed

text \<open>Every symbol has at most one owner, a worker's count is the number of its symbols, no two differ by more than one.\<close>

definition registry_ok :: "registry \<Rightarrow> bool" where
  "registry_ok rg \<longleftrightarrow> rg_counts rg \<noteq> [] \<and> finite (dom (rg_owner rg)) \<and> ran (rg_owner rg) \<subseteq> {..<length (rg_counts rg)} \<and>
     (\<forall>w<length (rg_counts rg). rg_counts rg ! w = card {l. rg_owner rg l = Some w}) \<and>
     (\<forall>v<length (rg_counts rg). \<forall>w<length (rg_counts rg). rg_counts rg ! v \<le> rg_counts rg ! w + 1)"

lemma new_registry_ok: "0 < n \<Longrightarrow> registry_ok (new_registry n)"
  by (simp add: registry_ok_def new_registry_def)

lemma register_ok:
  assumes "registry_ok rg" "lookup_or_register rg l = (rg', w)"
  shows "registry_ok rg'" "rg_owner rg' l = Some w" "w < length (rg_counts rg')" "rg_owner rg \<subseteq>\<^sub>m rg_owner rg'"
    "length (rg_counts rg') = length (rg_counts rg)"
proof -
  let ?cs = "rg_counts rg" and ?o = "rg_owner rg"
  have o: "?cs \<noteq> []" "finite (dom ?o)" "ran ?o \<subseteq> {..<length ?cs}"
    "\<And>w. w < length ?cs \<Longrightarrow> ?cs ! w = card {l. ?o l = Some w}"
    "\<And>v w. v < length ?cs \<Longrightarrow> w < length ?cs \<Longrightarrow> ?cs ! v \<le> ?cs ! w + 1"
    using assms(1) unfolding registry_ok_def by blast+
  have "registry_ok rg' \<and> rg_owner rg' l = Some w \<and> w < length (rg_counts rg') \<and> ?o \<subseteq>\<^sub>m rg_owner rg' \<and>
    length (rg_counts rg') = length ?cs"
  proof (cases "?o l")
    case (Some v)
    moreover have "v < length ?cs" using o(3) Some by (auto intro: ranI)
    ultimately show ?thesis using assms by (simp add: lookup_or_register_def)
  next
    case None
    let ?t = "pick_worker ?cs"
    have t: "?t < length ?cs" "\<And>i. i < length ?cs \<Longrightarrow> ?cs ! ?t \<le> ?cs ! i" using pick_worker_spec [OF o(1)] by blast+
    have rg': "rg' = rg\<lparr>rg_owner := ?o(l \<mapsto> ?t), rg_counts := ?cs[?t := ?cs ! ?t + 1]\<rparr>" "w = ?t"
      using assms(2) None by (auto simp: lookup_or_register_def Let_def)
    have "{k. (?o(l \<mapsto> ?t)) k = Some v} = (if v = ?t then insert l {k. ?o k = Some v} else {k. ?o k = Some v})" for v
      using None by auto
    moreover have "finite {k. ?o k = Some v}" for v
      by (rule finite_subset [OF _ o(2)]) auto
    ultimately have card: "card {k. (?o(l \<mapsto> ?t)) k = Some v} = card {k. ?o k = Some v} + (if v = ?t then 1 else 0)" for v
      using None by simp
    have "registry_ok rg'"
      unfolding registry_ok_def rg' using o t None card
      by (auto simp: nth_list_update ran_def simp del: fun_upd_apply) (auto simp: fun_upd_def split: if_splits intro: le_SucI)
    then show ?thesis using t None by (auto simp: rg' map_le_def)
  qed
  then show "registry_ok rg'" "rg_owner rg' l = Some w" "w < length (rg_counts rg')" "?o \<subseteq>\<^sub>m rg_owner rg'"
    "length (rg_counts rg') = length ?cs" by simp_all
qed

lemma route_ok:
  assumes "registry_ok rg" "route rg ls = (rg', ws)"
  shows "registry_ok rg'" "rg_owner rg \<subseteq>\<^sub>m rg_owner rg'" "length ws = length ls"
    "\<And>i. i < length ls \<Longrightarrow> rg_owner rg' (ls ! i) = Some (ws ! i)" "length (rg_counts rg') = length (rg_counts rg)"
proof -
  have "registry_ok rg' \<and> rg_owner rg \<subseteq>\<^sub>m rg_owner rg' \<and> length ws = length ls \<and>
      (\<forall>i<length ls. rg_owner rg' (ls ! i) = Some (ws ! i)) \<and> length (rg_counts rg') = length (rg_counts rg)"
    using assms
  proof (induction ls arbitrary: rg ws)
    case Nil
    then show ?case by simp
  next
    case (Cons l ls)
    obtain rg1 w where r1: "lookup_or_register rg l = (rg1, w)" by (cases "lookup_or_register rg l")
    obtain ws' where r2: "route rg1 ls = (rg', ws')" "ws = w # ws'" using Cons.prems(2) r1 by (auto split: prod.splits)
    note a = register_ok [OF Cons.prems(1) r1]
    note b = Cons.IH [OF a(1) r2(1)]
    have "rg_owner rg' l = Some w" using a(2) b by (metis domI map_le_def)
    then show ?case using a b r2(2) by (auto simp: nth_Cons split: nat.split intro: map_le_trans)
  qed
  then show "registry_ok rg'" "rg_owner rg \<subseteq>\<^sub>m rg_owner rg'" "length ws = length ls"
    "\<And>i. i < length ls \<Longrightarrow> rg_owner rg' (ls ! i) = Some (ws ! i)" "length (rg_counts rg') = length (rg_counts rg)" by simp_all
qed

section \<open>One lane\<close>

text \<open>
  What the parser thread, the retry thread and the worker do with the ring and the bucket of one
  worker. Every access to the flag, the ring or the bucket is a step. The parser has loaded the flag as
  false (\<open>PDirect\<close>) or true (\<open>PBucket\<close>), has found the ring full (\<open>PSpill\<close>), or has filled the bucket and
  is about to set the flag (\<open>PActivate\<close>). The retry thread has peeked (\<open>RPush\<close>), pushed (\<open>RPop\<close>), left
  its inner loop (\<open>RCheck\<close>), or seen an empty bucket and is about to clear the flag (\<open>RClear\<close>).
\<close>

datatype parser_pc = PIdle | PDirect market_event | PSpill market_event | PActivate | PBucket market_event
datatype retry_pc = RPeek | RPush market_event | RPop | RCheck | RClear

record lane =
  ln_todo :: "market_event list"
  ln_spsc :: event_ring
  ln_bucket :: event_ring
  ln_active :: bool
  ln_parser :: parser_pc
  ln_retry :: retry_pc
  ln_done :: "market_event list"

definition new_lane :: "nat \<Rightarrow> nat \<Rightarrow> market_event list \<Rightarrow> lane" where
  "new_lane m n evs = \<lparr>ln_todo = evs, ln_spsc = new_event_ring m, ln_bucket = new_event_ring n, ln_active = False,
     ln_parser = PIdle, ln_retry = RPeek, ln_done = []\<rparr>"

text \<open>\<open>Dispatcher::dispatch\<close>; a push into a full bucket is tried again.\<close>

definition parser_next :: "lane \<Rightarrow> lane option" where
  "parser_next l =
     (case ln_parser l of
        PIdle \<Rightarrow> (case ln_todo l of [] \<Rightarrow> None
          | ev # evs \<Rightarrow> Some (l\<lparr>ln_todo := evs, ln_parser := (if ln_active l then PBucket ev else PDirect ev)\<rparr>))
      | PDirect ev \<Rightarrow> (case er_push (ln_spsc l) ev of (r, ok) \<Rightarrow>
          Some (if ok then l\<lparr>ln_spsc := r, ln_parser := PIdle\<rparr> else l\<lparr>ln_parser := PSpill ev\<rparr>))
      | PSpill ev \<Rightarrow> (case er_push (ln_bucket l) ev of (b, ok) \<Rightarrow>
          (if ok then Some (l\<lparr>ln_bucket := b, ln_parser := PActivate\<rparr>) else None))
      | PActivate \<Rightarrow> Some (l\<lparr>ln_active := True, ln_parser := PIdle\<rparr>)
      | PBucket ev \<Rightarrow> (case er_push (ln_bucket l) ev of (b, ok) \<Rightarrow>
          (if ok then Some (l\<lparr>ln_bucket := b, ln_parser := PIdle\<rparr>) else None)))"

text \<open>The body of the retry thread's loop over the buckets.\<close>

definition retry_next :: "lane \<Rightarrow> lane option" where
  "retry_next l =
     (case ln_retry l of
        RPeek \<Rightarrow> (case er_peek (ln_bucket l) of None \<Rightarrow> Some (l\<lparr>ln_retry := RCheck\<rparr>) | Some ev \<Rightarrow> Some (l\<lparr>ln_retry := RPush ev\<rparr>))
      | RPush ev \<Rightarrow> (case er_push (ln_spsc l) ev of (r, ok) \<Rightarrow>
          Some (if ok then l\<lparr>ln_spsc := r, ln_retry := RPop\<rparr> else l\<lparr>ln_retry := RCheck\<rparr>))
      | RPop \<Rightarrow> (case er_pop (ln_bucket l) of None \<Rightarrow> Some (l\<lparr>ln_retry := RPeek\<rparr>) | Some (ev, b) \<Rightarrow> Some (l\<lparr>ln_bucket := b, ln_retry := RPeek\<rparr>))
      | RCheck \<Rightarrow> Some (if er_pending (ln_bucket l) = 0 then l\<lparr>ln_retry := RClear\<rparr> else l\<lparr>ln_retry := RPeek\<rparr>)
      | RClear \<Rightarrow> Some (l\<lparr>ln_active := False, ln_retry := RPeek\<rparr>))"

text \<open>The worker pops; it leaves its loop when the parser has finished and its ring is empty.\<close>

definition worker_next :: "lane \<Rightarrow> lane option" where
  "worker_next l = (case er_pop (ln_spsc l) of None \<Rightarrow> None
     | Some (ev, r) \<Rightarrow> Some (l\<lparr>ln_spsc := r, ln_done := ln_done l @ [ev]\<rparr>))"

definition worker_leaves :: "bool \<Rightarrow> lane \<Rightarrow> bool" where
  "worker_leaves parse_done l \<longleftrightarrow> parse_done \<and> er_pending (ln_spsc l) = 0"

datatype thread = Parser | Retry | Worker

fun lane_next :: "thread \<Rightarrow> lane \<Rightarrow> lane option" where
  "lane_next Parser l = parser_next l"
| "lane_next Retry l = retry_next l"
| "lane_next Worker l = worker_next l"

text \<open>A schedule names the threads in the order of their steps; a blocked thread stays where it is.\<close>

fun lane_run :: "thread list \<Rightarrow> lane \<Rightarrow> lane" where
  "lane_run [] l = l"
| "lane_run (t # ts) l = lane_run ts (case lane_next t l of None \<Rightarrow> l | Some l' \<Rightarrow> l')"

section \<open>Order\<close>

text \<open>The events on their way, in the order the worker would get them.\<close>

definition in_bucket :: "lane \<Rightarrow> market_event list" where
  "in_bucket l = (if ln_retry l = RPop then tl (er_list (ln_bucket l)) else er_list (ln_bucket l))"

definition in_parser :: "lane \<Rightarrow> market_event list" where
  "in_parser l = (case ln_parser l of PDirect ev \<Rightarrow> [ev] | PSpill ev \<Rightarrow> [ev] | PBucket ev \<Rightarrow> [ev] | _ \<Rightarrow> [])"

definition on_the_way :: "lane \<Rightarrow> market_event list" where
  "on_the_way l = ln_done l @ er_list (ln_spsc l) @ in_bucket l @ in_parser l @ ln_todo l"

text \<open>
  The invariant: with the flag off the bucket is empty, unless the parser has just filled it; the parser
  goes to the ring directly only with the flag off.
\<close>

definition lane_ok :: "lane \<Rightarrow> bool" where
  "lane_ok l \<longleftrightarrow> er_inv (ln_spsc l) \<and> er_inv (ln_bucket l) \<and>
     (\<not> ln_active l \<longrightarrow> ln_parser l \<noteq> PActivate \<longrightarrow> in_bucket l = []) \<and>
     (\<forall>ev. ln_parser l = PDirect ev \<or> ln_parser l = PSpill ev \<longrightarrow> \<not> ln_active l) \<and>
     (\<forall>ev. ln_parser l = PBucket ev \<longrightarrow> ln_active l) \<and>
     (\<forall>ev. ln_retry l = RPush ev \<longrightarrow> (\<exists>evs. er_list (ln_bucket l) = ev # evs)) \<and>
     (ln_retry l = RPop \<longrightarrow> er_list (ln_bucket l) \<noteq> [])"

text \<open>
  A harmless clear: when the retry thread clears the flag the bucket is still empty and the parser is not
  on its way to it. The check of \<open>pending\<close> and the store are two steps, so this can fail.
\<close>

definition quiet :: "thread \<Rightarrow> lane \<Rightarrow> bool" where
  "quiet t l \<longleftrightarrow> (t = Retry \<and> ln_retry l = RClear \<longrightarrow> er_list (ln_bucket l) = [] \<and> (\<forall>ev. ln_parser l \<noteq> PBucket ev))"

fun quiet_run :: "thread list \<Rightarrow> lane \<Rightarrow> bool" where
  "quiet_run [] l \<longleftrightarrow> True"
| "quiet_run (t # ts) l \<longleftrightarrow> quiet t l \<and> quiet_run ts (case lane_next t l of None \<Rightarrow> l | Some l' \<Rightarrow> l')"

lemma er_pushE:
  assumes "er_inv r" "er_push r ev = (r', ok)"
  obtains "ok" "er_inv r'" "er_list r' = er_list r @ [ev]" | "\<not> ok" "r' = r"
  using er_push_cases [OF assms(1), of ev] assms(2) by auto

lemma er_popE:
  assumes "er_inv r" "er_pop r = Some (ev, r')"
  obtains "er_inv r'" "er_list r = ev # er_list r'" "er_peek r = Some ev"
  using er_pop_cases [OF assms(1)] assms(2) by auto

lemmas lane_simps = lane_ok_def on_the_way_def in_bucket_def in_parser_def

lemma parser_ok:
  assumes ok: "lane_ok l" and step: "parser_next l = Some l'"
  shows "lane_ok l' \<and> on_the_way l' = on_the_way l"
proof -
  have inv: "er_inv (ln_spsc l)" "er_inv (ln_bucket l)" using ok by (simp_all add: lane_ok_def)
  show ?thesis
  proof (cases "ln_parser l")
    case PIdle
    then show ?thesis using ok step by (auto simp: parser_next_def lane_simps split: list.splits if_splits)
  next
    case (PDirect ev)
    obtain r b where p: "er_push (ln_spsc l) ev = (r, b)" by (cases "er_push (ln_spsc l) ev")
    from inv(1) p show ?thesis
      by (rule er_pushE) (use PDirect ok step in \<open>auto simp: parser_next_def lane_simps p\<close>)
  next
    case (PSpill ev)
    obtain r b where p: "er_push (ln_bucket l) ev = (r, b)" by (cases "er_push (ln_bucket l) ev")
    from inv(2) p show ?thesis
      by (rule er_pushE) (use PSpill ok step in \<open>auto simp: parser_next_def lane_simps p\<close>)
  next
    case PActivate
    then show ?thesis using ok step by (auto simp: parser_next_def lane_simps)
  next
    case (PBucket ev)
    obtain r b where p: "er_push (ln_bucket l) ev = (r, b)" by (cases "er_push (ln_bucket l) ev")
    from inv(2) p show ?thesis
      by (rule er_pushE) (use PBucket ok step in \<open>auto simp: parser_next_def lane_simps p\<close>)
  qed
qed

lemma retry_ok:
  assumes ok: "lane_ok l" and step: "retry_next l = Some l'" and q: "quiet Retry l"
  shows "lane_ok l' \<and> on_the_way l' = on_the_way l"
proof -
  have inv: "er_inv (ln_spsc l)" "er_inv (ln_bucket l)" using ok by (simp_all add: lane_ok_def)
  show ?thesis
  proof (cases "ln_retry l")
    case RPeek
    then show ?thesis using ok step er_pop_cases [OF inv(2)] by (auto simp: retry_next_def lane_simps split: option.splits)
  next
    case (RPush ev)
    have "\<forall>ev. ln_retry l = RPush ev \<longrightarrow> (\<exists>evs. er_list (ln_bucket l) = ev # evs)"
      and flag: "\<not> ln_active l \<Longrightarrow> ln_parser l \<noteq> PActivate \<Longrightarrow> in_bucket l = []"
      and direct: "\<And>ev. ln_parser l = PDirect ev \<or> ln_parser l = PSpill ev \<Longrightarrow> \<not> ln_active l"
      and bucket: "\<And>ev. ln_parser l = PBucket ev \<Longrightarrow> ln_active l"
      using ok unfolding lane_ok_def by blast+
    then obtain evs where evs: "er_list (ln_bucket l) = ev # evs" using RPush by blast
    then have act: "ln_active l \<or> ln_parser l = PActivate" using flag RPush by (cases "ln_active l"; cases "ln_parser l = PActivate") (simp_all add: in_bucket_def)
    obtain r b where p: "er_push (ln_spsc l) ev = (r, b)" by (cases "er_push (ln_spsc l) ev")
    from inv(1) p show ?thesis
    proof (rule er_pushE)
      assume b: "b" "er_inv r" "er_list r = er_list (ln_spsc l) @ [ev]"
      then have l': "l' = l\<lparr>ln_spsc := r, ln_retry := RPop\<rparr>" using step RPush p by (simp add: retry_next_def)
      have "lane_ok l'" unfolding lane_ok_def l' using act direct bucket inv(2) b(2) evs by (cases "ln_active l") (simp_all, blast+)
      moreover have "on_the_way l' = on_the_way l"
        using RPush by (simp add: on_the_way_def l' b(3) in_bucket_def in_parser_def evs)
      ultimately show ?thesis by simp
    next
      assume "\<not> b" "r = ln_spsc l"
      then have l': "l' = l\<lparr>ln_retry := RCheck\<rparr>" using step RPush p by (simp add: retry_next_def)
      have "lane_ok l'" unfolding lane_ok_def l' using act direct bucket inv by (cases "ln_active l") (simp_all, blast+)
      moreover have "on_the_way l' = on_the_way l" using RPush by (simp add: on_the_way_def l' in_bucket_def in_parser_def)
      ultimately show ?thesis by simp
    qed
  next
    case RPop
    then obtain ev b where p: "er_pop (ln_bucket l) = Some (ev, b)"
      using ok er_pop_cases [OF inv(2)] by (auto simp: lane_ok_def)
    from inv(2) p show ?thesis
      by (rule er_popE) (use RPop ok step in \<open>auto simp: retry_next_def lane_simps p\<close>)
  next
    case RCheck
    then show ?thesis using ok step by (auto simp: retry_next_def lane_simps split: if_splits)
  next
    case RClear
    then show ?thesis using ok step q by (auto simp: retry_next_def lane_simps quiet_def)
  qed
qed

lemma worker_ok:
  assumes ok: "lane_ok l" and step: "worker_next l = Some l'"
  shows "lane_ok l' \<and> on_the_way l' = on_the_way l"
proof -
  obtain ev r where p: "er_pop (ln_spsc l) = Some (ev, r)" using step by (auto simp: worker_next_def split: option.splits)
  have "er_inv (ln_spsc l)" using ok by (simp add: lane_ok_def)
  then show ?thesis using p
    by (rule er_popE) (use ok step in \<open>auto simp: worker_next_def lane_simps p\<close>)
qed

lemma lane_run_ok:
  "lane_ok l \<Longrightarrow> quiet_run ts l \<Longrightarrow> lane_ok (lane_run ts l) \<and> on_the_way (lane_run ts l) = on_the_way l"
proof (induction ts arbitrary: l)
  case (Cons t ts)
  have "lane_ok l' \<and> on_the_way l' = on_the_way l" if "lane_next t l = Some l'" for l'
    using that Cons.prems parser_ok [of l l'] retry_ok [of l l'] worker_ok [of l l'] by (cases t) auto
  then show ?case using Cons by (cases "lane_next t l") auto
qed simp

lemma new_lane_ok:
  assumes "is_pow2 m" "is_pow2 n"
  shows "lane_ok (new_lane m n evs)" "on_the_way (new_lane m n evs) = evs"
  using new_event_ring_inv [OF assms(1)] new_event_ring_inv [OF assms(2)]
  by (simp_all add: new_lane_def lane_simps)

section \<open>Properties\<close>

lemma routing_is_stable_and_even_parts:
  assumes "0 < n" "route (new_registry n) ls = (rg, ws)"
  shows "length ws = length ls" "\<And>i j. i < length ls \<Longrightarrow> j < length ls \<Longrightarrow> ls ! i = ls ! j \<Longrightarrow> ws ! i = ws ! j"
    "\<And>i. i < length ls \<Longrightarrow> ws ! i < n"
    "\<And>v w. v < n \<Longrightarrow> w < n \<Longrightarrow> card {l. rg_owner rg l = Some v} \<le> card {l. rg_owner rg l = Some w} + 1"
proof -
  note r = route_ok [OF new_registry_ok [OF assms(1)] assms(2)]
  have n: "length (rg_counts rg) = n" using r(5) by (simp add: new_registry_def)
  show "length ws = length ls" by (rule r(3))
  show "ws ! i = ws ! j" if "i < length ls" "j < length ls" "ls ! i = ls ! j" for i j
    using r(4) [OF that(1)] r(4) [OF that(2)] that(3) by simp
  show "ws ! i < n" if "i < length ls" for i
    using r(1) r(4) [OF that] n by (auto simp: registry_ok_def intro: ranI)
  show "card {l. rg_owner rg l = Some v} \<le> card {l. rg_owner rg l = Some w} + 1" if "v < n" "w < n" for v w
    using r(1) n that unfolding registry_ok_def by metis
qed

text \<open>C34. Symbols are spread evenly and for good: after any sequence of events, two events of the same symbol
  have gone to the same worker, every worker is one of the \<open>n\<close> there are, its count is the number of
  symbols it owns, and the counts of any two workers differ by at most one.\<close>

theorem routing_is_stable_and_even:
  assumes "0 < n" "route (new_registry n) ls = (rg, ws)"
  shows "length ws = length ls \<and> (\<forall>i<length ls. ws ! i < n \<and> (\<forall>j<length ls. ls ! i = ls ! j \<longrightarrow> ws ! i = ws ! j)) \<and>
    (\<forall>v<n. \<forall>w<n. card {l. rg_owner rg l = Some v} \<le> card {l. rg_owner rg l = Some w} + 1)"
  using routing_is_stable_and_even_parts [OF assms] by blast

theorem routing_is_stable_and_even_witness:
  "snd (route (new_registry 2) [7, 9, 7, 5]) = [0, 1, 0, 0] \<and> snd (route (new_registry 2) [7, 9, 7, 5]) ! 0 = snd (route (new_registry 2) [7, 9, 7, 5]) ! 2"
proof -
  have r: "route (new_registry 2) [7, 9, 7, 5] = (fst (route (new_registry 2) [7, 9, 7, 5]), [0, 1, 0, 0])"
    by (simp add: new_registry_def lookup_or_register_def pick_worker_def eval_nat_numeral Let_def)
  have "\<forall>i<4. [0, 1, 0, 0 :: nat] ! i < 2 \<and> (\<forall>j<4. [7, 9, 7, 5 :: nat] ! i = [7, 9, 7, 5] ! j \<longrightarrow> [0, 1, 0, 0 :: nat] ! i = [0, 1, 0, 0] ! j)"
    using routing_is_stable_and_even [OF _ r] by simp
  then show ?thesis using arg_cong [OF r, of snd] by simp
qed

lemma lane_keeps_order_parts:
  assumes "is_pow2 m" "is_pow2 n" "quiet_run ts (new_lane m n evs)" "l = lane_run ts (new_lane m n evs)"
  shows "ln_done l @ er_list (ln_spsc l) @ in_bucket l @ in_parser l @ ln_todo l = evs"
    and "ln_parser l = PDirect ev \<Longrightarrow> ln_retry l \<noteq> RPush ev'"
proof -
  have "lane_ok l \<and> on_the_way l = evs"
    using lane_run_ok [OF new_lane_ok(1) [OF assms(1,2)] assms(3)] new_lane_ok(2) [OF assms(1,2)] assms(4) by simp
  then show "ln_done l @ er_list (ln_spsc l) @ in_bucket l @ in_parser l @ ln_todo l = evs"
    "ln_parser l = PDirect ev \<Longrightarrow> ln_retry l \<noteq> RPush ev'"
    by (auto simp: on_the_way_def lane_ok_def in_bucket_def)
qed

text \<open>C11. In every schedule of the parser, the retry thread and the worker in which the flag is only ever
  cleared harmlessly, a worker's events keep their order through ring and bucket: what the worker has
  processed is a prefix of its events, nothing is lost or doubled, and the parser and the retry thread
  never push into the ring at the same time.\<close>

theorem lane_keeps_order:
  assumes "is_pow2 m" "is_pow2 n" "quiet_run ts (new_lane m n evs)" "l = lane_run ts (new_lane m n evs)"
  shows "ln_done l @ er_list (ln_spsc l) @ in_bucket l @ in_parser l @ ln_todo l = evs \<and>
    (\<forall>ev ev'. ln_parser l = PDirect ev \<longrightarrow> ln_retry l \<noteq> RPush ev')"
  using lane_keeps_order_parts [OF assms] by blast

lemmas lane_eval = new_lane_def parser_next_def retry_next_def worker_next_def new_event_ring_def er_push_def er_pop_def er_peek_def
  er_pending_def er_list_def

lemma is_pow2_1: "is_pow2 1"
  using is_pow2_power [of 0] by simp

text \<open>The second event is spilled and comes back through the retry thread.\<close>

definition spill_schedule :: "thread list" where
  "spill_schedule = [Parser, Parser, Parser, Parser, Parser, Parser, Worker, Retry, Retry, Retry, Worker]"

definition spilled :: lane where
  "spilled = lane_run spill_schedule (new_lane 1 1 [empty_event, empty_event\<lparr>ev_seq_id := 1\<rparr>, empty_event\<lparr>ev_seq_id := 2\<rparr>])"

theorem lane_keeps_order_witness:
  "ln_done spilled = [empty_event, empty_event\<lparr>ev_seq_id := 1\<rparr>] \<and> ln_todo spilled = [empty_event\<lparr>ev_seq_id := 2\<rparr>]"
proof -
  have q: "quiet_run spill_schedule (new_lane 1 1 [empty_event, empty_event\<lparr>ev_seq_id := 1\<rparr>, empty_event\<lparr>ev_seq_id := 2\<rparr>])"
    by (simp add: spill_schedule_def quiet_def lane_eval)
  have d: "ln_todo spilled = [empty_event\<lparr>ev_seq_id := 2\<rparr>]" "er_list (ln_spsc spilled) = []" "in_bucket spilled = []" "in_parser spilled = []"
    by (simp_all add: spilled_def spill_schedule_def lane_eval in_bucket_def in_parser_def)
  show ?thesis using conjunct1 [OF lane_keeps_order [OF is_pow2_1 is_pow2_1 q spilled_def]] unfolding d by simp
qed

text \<open>The flag does not keep the order. The parser loads the flag as set; before it fills the bucket, the retry
  thread, which has just emptied it, clears the flag; the event lands in the bucket, and the next event
  of the same symbol finds the flag off, goes directly into the ring and overtakes it.\<close>

theorem flag_race_reorders:
  "\<exists>ts. ln_done (lane_run ts (new_lane 1 1 [ev1, ev2, ev3, ev4])) = [ev1, ev2, ev4] \<and>
     er_list (ln_bucket (lane_run ts (new_lane 1 1 [ev1, ev2, ev3, ev4]))) = [ev3] \<and>
     ln_parser (lane_run ts (new_lane 1 1 [ev1, ev2, ev3, ev4])) = PIdle"
  by (rule exI [of _ "[Parser, Parser, Parser, Parser, Parser, Parser, Worker, Retry, Retry, Retry, Retry, Parser, Retry, Retry,
      Parser, Worker, Parser, Parser, Worker]"]) (simp add: lane_eval)

text \<open>A worker can leave while its bucket is not empty: the parser has finished, the worker's ring is empty, so
  its loop ends; then the retry thread pushes the remaining event into a ring that nobody reads.\<close>

theorem worker_leaves_events_behind:
  "\<exists>ts. worker_leaves True (lane_run ts (new_lane 1 1 [ev1, ev2])) \<and> ln_todo (lane_run ts (new_lane 1 1 [ev1, ev2])) = [] \<and>
     ln_parser (lane_run ts (new_lane 1 1 [ev1, ev2])) = PIdle \<and>
     er_list (ln_spsc (lane_run (ts @ [Retry, Retry]) (new_lane 1 1 [ev1, ev2]))) = [ev2] \<and>
     ln_done (lane_run (ts @ [Retry, Retry]) (new_lane 1 1 [ev1, ev2])) = [ev1]"
  by (rule exI [of _ "[Parser, Parser, Parser, Parser, Parser, Parser, Worker]"]) (simp add: lane_eval worker_leaves_def)

end
