(* ===== verification/Strategies.thy ===== *)
theory Strategies
  imports Order_Book
begin

text \<open>
  The strategies on single events: order flow imbalance, order book imbalance, volume breakout, price
  breakout and momentum (\<^verbatim>\<open>strategy/tick/\<close>), with the context the framework computes for them
  (\<^verbatim>\<open>strategy/base/strategy.h\<close>). The thresholds given as floating-point numbers enter as the integers
  the code casts them to.
\<close>

section \<open>The context of an event\<close>

record book_context =
  cx_book :: "order_book option"
  cx_side :: order_side
  cx_mid :: i64
  cx_bid :: i64
  cx_bid_vol :: u64
  cx_ask :: i64
  cx_ask_vol :: u64
  cx_seq :: u64

definition empty_context :: book_context where
  "empty_context = \<lparr>cx_book = None, cx_side = NONE, cx_mid = - 1, cx_bid = - 1, cx_bid_vol = 0, cx_ask = - 1,
     cx_ask_vol = 0, cx_seq = 0\<rparr>"

section \<open>Order flow imbalance\<close>

abbreviation (input) kWindow :: nat where "kWindow \<equiv> 1024"
abbreviation (input) kSaturate :: i64 where "kSaturate \<equiv> 2"

record ofi =
  of_threshold :: i64
  of_ofi :: i64
  of_win :: "i64 list"
  of_widx :: nat
  of_current :: order_side
  of_locate :: u64
  of_last_price :: i64
  of_last_ts :: u64
  of_strength :: i64

definition new_ofi :: "i64 \<Rightarrow> ofi" where
  "new_ofi threshold = \<lparr>of_threshold = threshold, of_ofi = 0, of_win = replicate kWindow 0, of_widx = 0, of_current = NONE,
     of_locate = 0, of_last_price = 0, of_last_ts = 0, of_strength = 0\<rparr>"

text \<open>The signed flow of an event; the \<open>switch\<close> lists every type.\<close>

definition ofi_delta :: "market_event \<Rightarrow> order_side \<Rightarrow> i64" where
  "ofi_delta ev sd =
     (let sh = o_shares (ev_order ev); vol = t_volume (ev_trade ev) in
      case ev_type ev of
        EV_ADD \<Rightarrow> (if sd = BUY then sh else - sh)
      | EV_DELETE \<Rightarrow> (if sd = BUY then - sh else sh)
      | EV_CANCEL \<Rightarrow> (if sd = BUY then - sh else sh)
      | EV_REPLACE \<Rightarrow> (if sd = BUY then sh else - sh)
      | EV_EXECUTE \<Rightarrow> (if sd = BUY then - vol else vol)
      | EV_TRADE \<Rightarrow> (if sd = BUY then - vol else vol))"

text \<open>The direction and the strength for a window sum.\<close>

definition ofi_direction :: "i64 \<Rightarrow> i64 \<Rightarrow> order_side" where
  "ofi_direction threshold x = (if threshold <s x then BUY else if x <s - threshold then SELL else NONE)"

definition ofi_strength :: "i64 \<Rightarrow> i64 \<Rightarrow> i64" where
  "ofi_strength threshold x =
     (if ofi_direction threshold x = NONE then 0
      else
        (let mag = (if 0 <s x then x else - x); over = mag - threshold; span = threshold * (kSaturate - 1) in
         if span <=s over then kStrengthScale else sdivw (over * kStrengthScale) span))"

definition ofi_on_event :: "ofi \<Rightarrow> market_event \<Rightarrow> order_side \<Rightarrow> ofi" where
  "ofi_on_event s ev sd =
     (let s = s\<lparr>of_locate := ev_locate ev, of_last_ts := ev_timestamp ev\<rparr> in
      let delta = ofi_delta ev sd;
          x = (if of_widx s < kWindow then of_ofi s else of_ofi s - of_win s ! (of_widx s mod kWindow)) + delta
      in s\<lparr>of_win := (of_win s)[of_widx s mod kWindow := delta], of_ofi := x, of_widx := of_widx s + 1,
           of_current := ofi_direction (of_threshold s) x, of_strength := ofi_strength (of_threshold s) x\<rparr>)"

definition ofi_on_market :: "ofi \<Rightarrow> market_event \<Rightarrow> book_context \<Rightarrow> ofi" where
  "ofi_on_market s ev cx =
     (let s = (if cx_side cx \<noteq> NONE then ofi_on_event s ev (cx_side cx) else s)
      in if 0 <=s cx_bid cx \<and> 0 <=s cx_ask cx then s\<lparr>of_last_price := cx_mid cx\<rparr> else s)"

definition ofi_signal :: "ofi \<Rightarrow> signal" where
  "ofi_signal s = \<lparr>sig_side = of_current s, sig_locate = of_locate s, sig_price = of_last_price s,
     sig_timestamp = of_last_ts s, sig_strength = of_strength s\<rparr>"

definition ofi_reset :: "ofi \<Rightarrow> ofi" where
  "ofi_reset s = s\<lparr>of_ofi := 0, of_current := NONE, of_strength := 0, of_win := replicate kWindow 0, of_widx := 0\<rparr>"

section \<open>Order book imbalance\<close>

record obi =
  ob_th :: i64
  ob_current :: order_side
  ob_locate :: u64
  ob_bid_price :: i64
  ob_ask_price :: i64
  ob_timestamp :: u64
  ob_strength :: i64

definition new_obi :: "i64 \<Rightarrow> obi" where
  "new_obi th = \<lparr>ob_th = th, ob_current = NONE, ob_locate = 0, ob_bid_price = 0, ob_ask_price = 0, ob_timestamp = 0, ob_strength = 0\<rparr>"

definition obi_on_book :: "obi \<Rightarrow> u64 \<Rightarrow> i64 \<Rightarrow> u64 \<Rightarrow> i64 \<Rightarrow> u64 \<Rightarrow> u64 \<Rightarrow> obi" where
  "obi_on_book s loc bid bid_vol ask ask_vol ts =
     (let s = s\<lparr>ob_locate := loc, ob_bid_price := bid, ob_ask_price := ask, ob_timestamp := ts\<rparr>;
          sum = bid_vol + ask_vol
      in if sum = 0 then s\<lparr>ob_current := NONE, ob_strength := 0\<rparr>
         else
           (let x = sdivw ((bid_vol - ask_vol) * kStrengthScale) sum; th = ob_th s;
                mag = (if 0 <s x then x else - x)
            in s\<lparr>ob_current := (if th <s x then BUY else if x <s - th then SELL else NONE),
                 ob_strength := (if th <=s mag then kStrengthScale else sdivw (mag * kStrengthScale) (th + 1))\<rparr>))"

definition obi_on_market :: "obi \<Rightarrow> market_event \<Rightarrow> book_context \<Rightarrow> obi" where
  "obi_on_market s ev cx =
     (case cx_book cx of None \<Rightarrow> s
      | Some _ \<Rightarrow> obi_on_book s (ev_locate ev) (cx_bid cx) (cx_bid_vol cx) (cx_ask cx) (cx_ask_vol cx) (ev_timestamp ev))"

definition obi_signal :: "obi \<Rightarrow> signal" where
  "obi_signal s = \<lparr>sig_side = ob_current s, sig_locate = ob_locate s,
     sig_price = (if ob_current s = BUY then ob_bid_price s else ob_ask_price s),
     sig_timestamp = ob_timestamp s, sig_strength = ob_strength s\<rparr>"

section \<open>Volume breakout\<close>

definition is_trade :: "market_event \<Rightarrow> bool" where
  "is_trade ev \<longleftrightarrow> ev_type ev = EV_TRADE \<or> ev_type ev = EV_EXECUTE"

text \<open>A deque kept at a number of entries.\<close>

definition push_window :: "nat \<Rightarrow> 'a list \<Rightarrow> 'a \<Rightarrow> 'a list" where
  "push_window n xs x = (let ys = xs @ [x] in if length ys > n then tl ys else ys)"

record volume_breakout =
  vb_window :: nat
  vb_threshold :: u64
  vb_vols :: "u64 list"
  vb_current :: order_side
  vb_locate :: u64
  vb_last_price :: i64
  vb_last_ts :: u64
  vb_strength :: i64

definition new_vb :: "nat \<Rightarrow> u64 \<Rightarrow> volume_breakout" where
  "new_vb n t = \<lparr>vb_window = n, vb_threshold = t, vb_vols = [], vb_current = NONE, vb_locate = 0, vb_last_price = 0, vb_last_ts = 0, vb_strength = 0\<rparr>"

definition vb_on_event :: "volume_breakout \<Rightarrow> market_event \<Rightarrow> volume_breakout" where
  "vb_on_event s ev =
     (if \<not> is_trade ev then s
      else
        (let vols = push_window (vb_window s) (vb_vols s) (t_volume (ev_trade ev));
             sum = foldl (+) 0 vols;
             t = vb_threshold s;
             cur = (if t < sum then BUY else NONE);
             str = (if cur = BUY then
                      (if t = 0 then kStrengthScale
                       else (let x = (sum - t) * kStrengthScale div t in if kStrengthScale <s x then kStrengthScale else x))
                    else 0)
         in s\<lparr>vb_locate := ev_locate ev, vb_last_ts := ev_timestamp ev,
              vb_last_price := (if 0 <=s t_price (ev_trade ev) then t_price (ev_trade ev) else vb_last_price s),
              vb_vols := vols, vb_current := cur, vb_strength := str\<rparr>))"

definition vb_signal :: "volume_breakout \<Rightarrow> signal" where
  "vb_signal s = \<lparr>sig_side = vb_current s, sig_locate = vb_locate s, sig_price = vb_last_price s,
     sig_timestamp = vb_last_ts s, sig_strength = vb_strength s\<rparr>"

section \<open>Price breakout\<close>

record price_breakout =
  pb_window :: nat
  pb_prices :: "i64 list"
  pb_current :: order_side
  pb_locate :: u64
  pb_last_price :: i64
  pb_last_ts :: u64
  pb_strength :: i64

definition new_pb :: "nat \<Rightarrow> price_breakout" where
  "new_pb n = \<lparr>pb_window = n, pb_prices = [], pb_current = NONE, pb_locate = 0, pb_last_price = 0, pb_last_ts = 0, pb_strength = 0\<rparr>"

text \<open>\<open>max_element\<close> and \<open>min_element\<close> of a deque that is not empty.\<close>

definition max_element :: "i64 list \<Rightarrow> i64" where
  "max_element xs = foldl (\<lambda>m x. if m <s x then x else m) (hd xs) (tl xs)"

definition min_element :: "i64 list \<Rightarrow> i64" where
  "min_element xs = foldl (\<lambda>m x. if x <s m then x else m) (hd xs) (tl xs)"

definition capped :: "i64 \<Rightarrow> i64" where
  "capped x = (if kStrengthScale <s x then kStrengthScale else x)"

definition pb_on_event :: "price_breakout \<Rightarrow> market_event \<Rightarrow> price_breakout" where
  "pb_on_event s ev =
     (let price = t_price (ev_trade ev) in
      if \<not> is_trade ev then s
      else if price <s 0 then s
      else
        (let s = s\<lparr>pb_locate := ev_locate ev, pb_last_ts := ev_timestamp ev, pb_last_price := price\<rparr>;
             s = (if length (pb_prices s) \<ge> pb_window s then
                    (let hi = max_element (pb_prices s); lo = min_element (pb_prices s);
                         cur = (if hi <s price then BUY else if price <s lo then SELL else NONE);
                         range = hi - lo;
                         str = (if cur = NONE then 0 else if range <=s 0 then kStrengthScale
                                else capped (sdivw ((if cur = BUY then price - hi else lo - price) * kStrengthScale) range))
                     in s\<lparr>pb_current := cur, pb_strength := str\<rparr>)
                  else s)
         in s\<lparr>pb_prices := push_window (pb_window s) (pb_prices s) price\<rparr>))"

definition pb_signal :: "price_breakout \<Rightarrow> signal" where
  "pb_signal s = \<lparr>sig_side = pb_current s, sig_locate = pb_locate s, sig_price = pb_last_price s,
     sig_timestamp = pb_last_ts s, sig_strength = pb_strength s\<rparr>"

section \<open>Momentum of trades\<close>

record tick_momentum =
  tm_window :: nat
  tm_threshold :: i64
  tm_prices :: "i64 list"
  tm_vols :: "u64 list"
  tm_current :: order_side
  tm_locate :: u64
  tm_last_price :: i64
  tm_last_ts :: u64
  tm_strength :: i64

definition new_tm :: "nat \<Rightarrow> i64 \<Rightarrow> tick_momentum" where
  "new_tm n t = \<lparr>tm_window = n, tm_threshold = t, tm_prices = [], tm_vols = [], tm_current = NONE, tm_locate = 0,
     tm_last_price = 0, tm_last_ts = 0, tm_strength = 0\<rparr>"

definition sum_px :: "(i64 \<times> u64) list \<Rightarrow> i64" where
  "sum_px pvs = foldl (\<lambda>a (p, v). a + p * v) 0 pvs"

definition sum_v :: "(i64 \<times> u64) list \<Rightarrow> u64" where
  "sum_v pvs = foldl (\<lambda>a (p, v). a + v) 0 pvs"

definition tm_strength_of :: "i64 \<Rightarrow> order_side \<Rightarrow> i64 \<Rightarrow> i64" where
  "tm_strength_of threshold cur diff =
     (if cur = NONE then 0 else if threshold <=s 0 then kStrengthScale
      else capped (sdivw ((if cur = BUY then diff else - diff) * kStrengthScale) threshold))"

definition tm_on_event :: "tick_momentum \<Rightarrow> market_event \<Rightarrow> tick_momentum" where
  "tm_on_event s ev =
     (let price = t_price (ev_trade ev) in
      if \<not> is_trade ev then s
      else if price <s 0 then s
      else
        (let prices = tm_prices s @ [price]; vols = tm_vols s @ [t_volume (ev_trade ev)];
             drop_one = length prices > tm_window s;
             prices = (if drop_one then tl prices else prices); vols = (if drop_one then tl vols else vols);
             s = s\<lparr>tm_locate := ev_locate ev, tm_last_ts := ev_timestamp ev, tm_last_price := price, tm_prices := prices, tm_vols := vols\<rparr>
         in if length prices < 2 then s\<lparr>tm_current := NONE\<rparr>
            else
              (let half = length prices div 2; pvs = zip prices vols;
                   early = take half pvs; late = drop half pvs
               in if sum_v early = 0 \<or> sum_v late = 0 then s\<lparr>tm_current := NONE\<rparr>
                  else
                    (let v1 = sdivw (sum_px early) (sum_v early); v2 = sdivw (sum_px late) (sum_v late);
                         cur = (if tm_threshold s <s v2 - v1 then BUY else if tm_threshold s <s v1 - v2 then SELL else NONE)
                     in s\<lparr>tm_current := cur, tm_strength := tm_strength_of (tm_threshold s) cur (v2 - v1)\<rparr>))))"

definition tm_signal :: "tick_momentum \<Rightarrow> signal" where
  "tm_signal s = \<lparr>sig_side = tm_current s, sig_locate = tm_locate s, sig_price = tm_last_price s,
     sig_timestamp = tm_last_ts s, sig_strength = tm_strength s\<rparr>"

section \<open>The window of the order flow\<close>

text \<open>The ring buffer holds the last flows, the running sum is theirs.\<close>

definition last_n :: "nat \<Rightarrow> 'a list \<Rightarrow> 'a list" where
  "last_n n xs = drop (length xs - n) xs"

definition ofi_window :: "ofi \<Rightarrow> i64 list \<Rightarrow> bool" where
  "ofi_window s ds \<longleftrightarrow> of_widx s = length ds \<and> length (of_win s) = kWindow \<and>
     (\<forall>i<length ds. length ds \<le> i + kWindow \<longrightarrow> of_win s ! (i mod kWindow) = ds ! i) \<and> of_ofi s = sum_list (last_n kWindow ds)"

lemma new_ofi_window: "ofi_window (new_ofi t) []"
  by (simp add: ofi_window_def new_ofi_def last_n_def)

lemma last_n_snoc_short: "length ds < n \<Longrightarrow> last_n n (ds @ [d]) = last_n n ds @ [d]"
  by (simp add: last_n_def)

lemma last_n_snoc_full:
  assumes "n \<le> length ds" "0 < n"
  shows "last_n n ds = ds ! (length ds - n) # drop (Suc (length ds - n)) ds"
    and "last_n n (ds @ [d]) = drop (Suc (length ds - n)) ds @ [d]"
  using assms by (simp_all add: last_n_def Cons_nth_drop_Suc Suc_diff_le)

lemma ofi_window_step:
  assumes "ofi_window s ds"
  shows "ofi_window (ofi_on_event s ev sd) (ds @ [ofi_delta ev sd])"
proof -
  let ?n = "length ds" and ?d = "ofi_delta ev sd"
  let ?s = "ofi_on_event s ev sd"
  have w: "of_widx s = ?n" "length (of_win s) = kWindow" "of_ofi s = sum_list (last_n kWindow ds)"
    and c: "\<And>i. i < ?n \<Longrightarrow> ?n \<le> i + kWindow \<Longrightarrow> of_win s ! (i mod kWindow) = ds ! i"
    using assms by (simp_all add: ofi_window_def)
  have win: "of_win ?s = (of_win s)[?n mod kWindow := ?d]" by (simp add: ofi_on_event_def Let_def w)
  have "of_ofi ?s = sum_list (last_n kWindow (ds @ [?d]))"
  proof (cases "?n < kWindow")
    case True
    then show ?thesis using w by (simp add: ofi_on_event_def Let_def last_n_snoc_short)
  next
    case False
    then have full: "kWindow \<le> ?n" by simp
    have "(?n - kWindow) mod kWindow = ?n mod kWindow" using full by (metis le_mod_geq)
    then have "of_win s ! (?n mod kWindow) = ds ! (?n - kWindow)" using c [of "?n - kWindow"] full by simp
    then show ?thesis
      using last_n_snoc_full(1) [OF full] last_n_snoc_full(2) [OF full, of ?d] w False by (simp add: ofi_on_event_def Let_def)
  qed
  moreover have "of_win ?s ! (i mod kWindow) = (ds @ [?d]) ! i" if "i < ?n + 1" "?n + 1 \<le> i + kWindow" for i
  proof (cases "i = ?n")
    case True
    then show ?thesis using w(2) by (simp add: win)
  next
    case False
    then have "i < ?n" using that(1) by simp
    then have "i mod kWindow \<noteq> ?n mod kWindow" using that(2) by (intro mod_neq) auto
    then show ?thesis using c [of i] \<open>i < ?n\<close> that(2) by (simp add: win nth_append)
  qed
  ultimately show ?thesis using w(1,2) by (simp add: ofi_window_def win) (simp add: ofi_on_event_def Let_def w)
qed

definition ofi_run :: "i64 \<Rightarrow> (market_event \<times> order_side) list \<Rightarrow> ofi" where
  "ofi_run t evs = foldl (\<lambda>s (ev, sd). ofi_on_event s ev sd) (new_ofi t) evs"

lemma ofi_run_window: "ofi_window (ofi_run t evs) (map (\<lambda>(ev, sd). ofi_delta ev sd) evs)"
proof (induction evs rule: rev_induct)
  case (snoc e evs)
  then show ?case using ofi_window_step by (cases e) (simp add: ofi_run_def)
qed (simp add: ofi_run_def new_ofi_window)

lemma ofi_run_signal:
  assumes "evs \<noteq> []"
  shows "of_threshold (ofi_run t evs) = t \<and> of_current (ofi_run t evs) = ofi_direction t (of_ofi (ofi_run t evs)) \<and>
    of_strength (ofi_run t evs) = ofi_strength t (of_ofi (ofi_run t evs))"
proof -
  have th: "of_threshold (ofi_run t es) = t" for es
    by (induction es rule: rev_induct) (auto simp: ofi_run_def new_ofi_def ofi_on_event_def Let_def)
  obtain e es where "evs = es @ [e]" using assms by (cases evs rule: rev_cases) auto
  then show ?thesis using th [of es] by (cases e) (simp add: ofi_run_def ofi_on_event_def Let_def)
qed

lemma ofi_strength_range:
  assumes "0 < sint t" "10000 * sint t < 2 ^ 63" "\<bar>sint x\<bar> < 2 ^ 62"
  shows "0 \<le> sint (ofi_strength t x) \<and> sint (ofi_strength t x) \<le> 10000"
    and "sint (ofi_strength t x) = 10000 \<longleftrightarrow> 2 * sint t \<le> \<bar>sint x\<bar>"
    and "ofi_direction t x = (if sint t < sint x then BUY else if sint x < - sint t then SELL else NONE)"
proof -
  have "sint (- t) = - sint t" "sint (- x) = - sint x"
    using sint64_diff [of 0 t] sint64_diff [of 0 x] assms by simp_all
  then have neg: "sint (- t) = - sint t" and mag: "sint (if 0 <s x then x else - x) = \<bar>sint x\<bar>"
    by (simp_all add: word_sless_alt)
  show dir: "ofi_direction t x = (if sint t < sint x then BUY else if sint x < - sint t then SELL else NONE)"
    by (simp add: ofi_direction_def word_sless_alt neg)
  define over where "over = (if 0 <s x then x else - x) - t"
  have over: "sint over = \<bar>sint x\<bar> - sint t" unfolding over_def using assms by (subst sint64_diff) (simp_all add: mag)
  have str: "ofi_strength t x = (if \<bar>sint x\<bar> \<le> sint t then 0 else if t <=s over then 10000 else sdivw (over * 10000) t)"
    unfolding ofi_strength_def dir using assms(1) by (auto simp: Let_def over_def)
  have "(0 \<le> sint (ofi_strength t x) \<and> sint (ofi_strength t x) \<le> 10000) \<and>
      (sint (ofi_strength t x) = 10000 \<longleftrightarrow> 2 * sint t \<le> \<bar>sint x\<bar>)"
  proof (cases "\<bar>sint x\<bar> \<le> sint t \<or> t <=s over")
    case True
    then show ?thesis using assms(1) by (auto simp: str word_sle_eq over)
  next
    case False
    then have r: "0 < sint over" "sint over < sint t" by (auto simp: word_sle_eq over)
    have m: "sint (over * 10000) = sint over * 10000" using r assms by (subst sint64_mult) simp_all
    have s: "sint (ofi_strength t x) = sint over * 10000 div sint t"
      using False r assms(1) m by (simp add: str sint_sdivw_nonneg)
    have "sint over * 10000 div sint t * sint t < 10000 * sint t"
      using r assms(1) div_mult_mod_eq [of "sint over * 10000" "sint t"] pos_mod_sign [of "sint t" "sint over * 10000"] by linarith
    then have "sint over * 10000 div sint t < 10000" using assms(1) by (simp only: mult_less_cancel_right_pos)
    moreover have "0 \<le> sint over * 10000 div sint t" using r assms(1) by (simp add: pos_imp_zdiv_nonneg_iff)
    ultimately show ?thesis using s r over by linarith
  qed
  then show "0 \<le> sint (ofi_strength t x) \<and> sint (ofi_strength t x) \<le> 10000"
    "sint (ofi_strength t x) = 10000 \<longleftrightarrow> 2 * sint t \<le> \<bar>sint x\<bar>" by blast+
qed

text \<open>The imbalance of two volumes, in parts of ten thousand.\<close>

definition imbalance :: "u64 \<Rightarrow> u64 \<Rightarrow> int" where
  "imbalance b a = ((uint b - uint a) * 10000) sdiv (uint b + uint a)"

lemma imbalance_exact:
  assumes "uint b + uint a < 2 ^ 49" "0 < uint b + uint a"
  shows "sint (sdivw ((b - a) * kStrengthScale) (b + a)) = imbalance b a" "\<bar>imbalance b a\<bar> \<le> 10000" "b + a \<noteq> 0"
proof -
  have nn: "0 \<le> uint b" "0 \<le> uint a" by simp_all
  have lt: "uint b < 2 ^ 49" "uint a < 2 ^ 49" using assms(1) nn by linarith+
  then have "uint b < 2 ^ 63" "uint a < 2 ^ 63" by simp_all
  then have bs: "sint b = uint b" "sint a = uint a" by (simp_all only: sint64_eq_uint)
  have s: "0 \<le> sint b" "0 \<le> sint a" "sint b < 2 ^ 49" "sint a < 2 ^ 49" using nn lt by (simp_all only: bs)
  have den: "sint (b + a) = uint b + uint a" unfolding bs [symmetric] using s by (subst sint64_add) simp_all
  have diff: "sint (b - a) = uint b - uint a" unfolding bs [symmetric] using s by (subst sint64_diff) simp_all
  have num: "sint ((b - a) * 10000) = (uint b - uint a) * 10000"
    unfolding bs [symmetric] using s diff [folded bs] by (subst sint64_mult) simp_all
  note d = sint_sdivw_pos [of "b + a" "(b - a) * 10000", unfolded den num, OF assms(2)]
  show "sint (sdivw ((b - a) * kStrengthScale) (b + a)) = imbalance b a" using d(1) by (simp add: imbalance_def)
  have aux: "\<bar>(B - A) * 10000\<bar> \<le> 10000 * (B + A)" if "0 \<le> B" "0 \<le> A" for A B :: int
    using that by (simp add: abs_mult abs_le_iff)
  have "\<bar>(uint b - uint a) * 10000\<bar> \<le> 10000 * (uint b + uint a)" using nn by (rule aux)
  then have "\<bar>(uint b - uint a) * 10000\<bar> div (uint b + uint a) \<le> 10000 * (uint b + uint a) div (uint b + uint a)"
    using assms(2) by (intro zdiv_mono1) simp_all
  also have "\<dots> = 10000" using assms(2) by (intro nonzero_mult_div_cancel_right) linarith
  finally show "\<bar>imbalance b a\<bar> \<le> 10000" unfolding imbalance_def d(2) .
  show "b + a \<noteq> 0" using den assms(2) by auto
qed

lemma sdiv_minus: "(- k) sdiv (n :: int) = - (k sdiv n)"
  by (simp add: signed_divide_int_def)

lemma imbalance_swap: "imbalance a b = - imbalance b a"
proof -
  have "(uint a - uint b) * 10000 = - ((uint b - uint a) * 10000)" by simp
  then show ?thesis unfolding imbalance_def add.commute [of "uint a"] by (simp only: sdiv_minus)
qed

lemma max_element_less: "xs \<noteq> [] \<Longrightarrow> sint (max_element xs) < v \<longleftrightarrow> (\<forall>p\<in>set xs. sint p < v)"
proof -
  have "sint (foldl (\<lambda>m x. if m <s x then x else m) y ys) < v \<longleftrightarrow> sint y < v \<and> (\<forall>p\<in>set ys. sint p < v)" for y :: i64 and ys
    by (induction ys arbitrary: y) (auto simp: word_sless_alt)
  then show "xs \<noteq> [] \<Longrightarrow> ?thesis" by (cases xs) (simp_all add: max_element_def)
qed

lemma less_min_element: "xs \<noteq> [] \<Longrightarrow> v < sint (min_element xs) \<longleftrightarrow> (\<forall>p\<in>set xs. v < sint p)"
proof -
  have "v < sint (foldl (\<lambda>m x. if x <s m then x else m) y ys) \<longleftrightarrow> v < sint y \<and> (\<forall>p\<in>set ys. v < sint p)" for y :: i64 and ys
    by (induction ys arbitrary: y) (auto simp: word_sless_alt)
  then show "xs \<noteq> [] \<Longrightarrow> ?thesis" by (cases xs) (simp_all add: min_element_def)
qed

section \<open>Properties\<close>

lemma ofi_is_window_sum_parts:
  assumes "evs \<noteq> []" "0 < sint t" "10000 * sint t < 2 ^ 63"
  defines "s \<equiv> ofi_run t evs" and "net \<equiv> sum_list (last_n kWindow (map (\<lambda>(ev, sd). ofi_delta ev sd) evs))"
  assumes "\<bar>sint net\<bar> < 2 ^ 62"
  shows "of_ofi s = net"
    and "of_current s = (if sint t < sint net then BUY else if sint net < - sint t then SELL else NONE)"
    and "0 \<le> sint (of_strength s) \<and> sint (of_strength s) \<le> 10000 \<and> (sint (of_strength s) = 10000 \<longleftrightarrow> 2 * sint t \<le> \<bar>sint net\<bar>)"
proof -
  show o: "of_ofi s = net" using ofi_run_window [of t evs] by (simp add: ofi_window_def s_def net_def)
  note sg = ofi_run_signal [OF assms(1), of t, folded s_def, unfolded o] and r = ofi_strength_range [OF assms(2,3,6)]
  show "of_current s = (if sint t < sint net then BUY else if sint net < - sint t then SELL else NONE)" using sg r(3) by simp
  show "0 \<le> sint (of_strength s) \<and> sint (of_strength s) \<le> 10000 \<and> (sint (of_strength s) = 10000 \<longleftrightarrow> 2 * sint t \<le> \<bar>sint net\<bar>)"
    using sg r(1,2) by simp
qed



lemma obi_is_imbalance_parts:
  assumes "uint b + uint a < 2 ^ 49" "0 < uint b + uint a" "0 \<le> sint (ob_th s)" "sint (ob_th s) \<le> 10000"
  shows "ob_current (obi_on_book s loc bid b ask a ts) =
      (if sint (ob_th s) < imbalance b a then BUY else if imbalance b a < - sint (ob_th s) then SELL else NONE)"
    and "sint (ob_strength (obi_on_book s loc bid b ask a ts)) =
      (if sint (ob_th s) \<le> \<bar>imbalance b a\<bar> then 10000 else \<bar>imbalance b a\<bar> * 10000 div (sint (ob_th s) + 1))"
    and "sint (ob_strength (obi_on_book s loc bid b ask a ts)) \<in> {0..10000}"
    and "ob_strength (obi_on_book s loc bid a ask b ts) = ob_strength (obi_on_book s loc bid b ask a ts)"
proof -
  have core: "ob_current (obi_on_book s loc bid b ask a ts) =
        (if sint (ob_th s) < imbalance b a then BUY else if imbalance b a < - sint (ob_th s) then SELL else NONE) \<and>
      sint (ob_strength (obi_on_book s loc bid b ask a ts)) =
        (if sint (ob_th s) \<le> \<bar>imbalance b a\<bar> then 10000 else \<bar>imbalance b a\<bar> * 10000 div (sint (ob_th s) + 1))"
    if "uint b + uint a < 2 ^ 49" "0 < uint b + uint a" for a b
  proof -
    define x where "x = sdivw ((b - a) * kStrengthScale) (b + a)"
    note i = imbalance_exact [OF that, folded x_def]
    have neg: "sint (- x) = - sint x" "sint (- ob_th s) = - sint (ob_th s)"
      using sint64_diff [of 0 x] sint64_diff [of 0 "ob_th s"] i(1,2) assms(3,4) by simp_all
    define mag where "mag = (if 0 <s x then x else - x)"
    have mag: "sint mag = \<bar>imbalance b a\<bar>" using neg i(1) by (simp add: mag_def word_sless_alt)
    have th1: "sint (ob_th s + 1) = sint (ob_th s) + 1" using assms(3,4) by (subst sint64_add) simp_all
    have m: "sint (mag * 10000) = \<bar>imbalance b a\<bar> * 10000" using mag i(2) by (subst sint64_mult) simp_all
    have str: "sint (sdivw (mag * kStrengthScale) (ob_th s + 1)) = \<bar>imbalance b a\<bar> * 10000 div (sint (ob_th s) + 1)"
      using m th1 assms(3) by (subst sint_sdivw_nonneg) simp_all
    have e: "ob_current (obi_on_book s loc bid b ask a ts) = (if ob_th s <s x then BUY else if x <s - ob_th s then SELL else NONE)"
      "ob_strength (obi_on_book s loc bid b ask a ts) = (if ob_th s <=s mag then kStrengthScale else sdivw (mag * kStrengthScale) (ob_th s + 1))"
      unfolding obi_on_book_def Let_def x_def [symmetric] mag_def [symmetric] if_not_P [OF i(3)] by simp_all
    have "ob_current (obi_on_book s loc bid b ask a ts) =
        (if sint (ob_th s) < imbalance b a then BUY else if imbalance b a < - sint (ob_th s) then SELL else NONE)"
      unfolding e word_sless_alt i(1) neg ..
    moreover have "sint (ob_strength (obi_on_book s loc bid b ask a ts)) =
        (if sint (ob_th s) \<le> \<bar>imbalance b a\<bar> then 10000 else \<bar>imbalance b a\<bar> * 10000 div (sint (ob_th s) + 1))"
      unfolding e word_sle_eq mag using str by simp
    ultimately show ?thesis by blast
  qed
  show "ob_current (obi_on_book s loc bid b ask a ts) =
      (if sint (ob_th s) < imbalance b a then BUY else if imbalance b a < - sint (ob_th s) then SELL else NONE)"
    using core [OF assms(1,2)] by blast
  show str: "sint (ob_strength (obi_on_book s loc bid b ask a ts)) =
      (if sint (ob_th s) \<le> \<bar>imbalance b a\<bar> then 10000 else \<bar>imbalance b a\<bar> * 10000 div (sint (ob_th s) + 1))"
    using core [OF assms(1,2)] by blast
  have "\<bar>imbalance b a\<bar> * 10000 div (sint (ob_th s) + 1) \<le> 10000 \<and> 0 \<le> \<bar>imbalance b a\<bar> * 10000 div (sint (ob_th s) + 1)"
    if "\<bar>imbalance b a\<bar> < sint (ob_th s)"
  proof -
    have p: "0 < sint (ob_th s) + 1" using that by linarith
    have "\<bar>imbalance b a\<bar> * 10000 div (sint (ob_th s) + 1) \<le> 10000 * (sint (ob_th s) + 1) div (sint (ob_th s) + 1)"
      using that by (intro zdiv_mono1) simp_all
    also have "\<dots> = 10000" using p by (intro nonzero_mult_div_cancel_right) linarith
    finally show ?thesis using p by (simp add: pos_imp_zdiv_nonneg_iff)
  qed
  then show "sint (ob_strength (obi_on_book s loc bid b ask a ts)) \<in> {0..10000}" unfolding str by simp
  have "sint (ob_strength (obi_on_book s loc bid a ask b ts)) = sint (ob_strength (obi_on_book s loc bid b ask a ts))"
    using core [of a b] core [of b a] assms(1,2) imbalance_swap [of a b] by (simp add: add.commute)
  then show "ob_strength (obi_on_book s loc bid a ask b ts) = ob_strength (obi_on_book s loc bid b ask a ts)" by (rule signed_word_eqI)
qed

text \<open>The book imbalance strategy: with volumes that together stay below \<open>2 ^ 49\<close>, direction and strength are
  those of the exact imbalance of the best volumes in parts of ten thousand, the strength stays within the
  scale, and exchanging the two sides exchanges the directions and keeps the strength.\<close>

theorem obi_is_imbalance:
  assumes "uint b + uint a < 2 ^ 49" "0 < uint b + uint a" "0 \<le> sint (ob_th s)" "sint (ob_th s) \<le> 10000"
  shows "ob_current (obi_on_book s loc bid b ask a ts) =
      (if sint (ob_th s) < imbalance b a then BUY else if imbalance b a < - sint (ob_th s) then SELL else NONE) \<and>
    sint (ob_strength (obi_on_book s loc bid b ask a ts)) =
      (if sint (ob_th s) \<le> \<bar>imbalance b a\<bar> then 10000 else \<bar>imbalance b a\<bar> * 10000 div (sint (ob_th s) + 1)) \<and>
    sint (ob_strength (obi_on_book s loc bid b ask a ts)) \<in> {0..10000} \<and>
    ob_strength (obi_on_book s loc bid a ask b ts) = ob_strength (obi_on_book s loc bid b ask a ts)"
  using obi_is_imbalance_parts [OF assms] by blast

theorem obi_is_imbalance_witness:
  "ob_current (obi_on_book (new_obi 3000) 7 100 900 101 100 5) = BUY"
  using obi_is_imbalance [of 900 100 "new_obi 3000" 7 100 101 5]
  by (simp add: new_obi_def imbalance_def signed_divide_int_def)

end
