(* ===== verification/KLine.thy ===== *)
theory KLine
  imports Strategies
begin

text \<open>
  The aggregation of trades into bars, \<^verbatim>\<open>strategy/kline/kline_aggregator.h\<close>, and the consumer that keeps
  the last closes, \<^verbatim>\<open>strategy/kline/kline_consumer.h\<close>. An operation returns the bars it gives the sink.
\<close>

section \<open>The aggregator\<close>

record kline =
  kl_symbol :: u64
  kl_timestamp :: u64
  kl_open :: i64
  kl_high :: i64
  kl_low :: i64
  kl_close :: i64
  kl_volume :: u64

definition empty_kline :: kline where
  "empty_kline = \<lparr>kl_symbol = 0, kl_timestamp = 0, kl_open = 0, kl_high = 0, kl_low = 0, kl_close = 0, kl_volume = 0\<rparr>"

datatype kline_mode = TIME u64 | COUNT u64

record aggregator =
  ka_mode :: kline_mode
  ka_cur :: kline
  ka_win_start :: u64
  ka_tick_cnt :: u64
  ka_emitted :: nat

definition new_aggregator :: "kline_mode \<Rightarrow> aggregator" where
  "new_aggregator m = \<lparr>ka_mode = m, ka_cur = empty_kline, ka_win_start = 0, ka_tick_cnt = 0, ka_emitted = 0\<rparr>"

definition default_aggregator :: aggregator where
  "default_aggregator = new_aggregator (COUNT 20)"

definition kline_push :: "aggregator \<Rightarrow> aggregator \<times> kline list" where
  "kline_push a = (a\<lparr>ka_emitted := ka_emitted a + 1\<rparr>, [ka_cur a])"

definition start_new :: "market_event \<Rightarrow> u64 \<Rightarrow> kline" where
  "start_new ev ts = \<lparr>kl_symbol = ev_locate ev, kl_timestamp = ts, kl_open = t_price (ev_trade ev), kl_high = t_price (ev_trade ev),
     kl_low = t_price (ev_trade ev), kl_close = t_price (ev_trade ev), kl_volume = t_volume (ev_trade ev)\<rparr>"

definition kline_extend :: "kline \<Rightarrow> market_event \<Rightarrow> kline" where
  "kline_extend k ev = (let p = t_price (ev_trade ev) in
     k\<lparr>kl_close := p, kl_high := (if kl_high k <s p then p else kl_high k), kl_low := (if p <s kl_low k then p else kl_low k),
       kl_volume := kl_volume k + t_volume (ev_trade ev)\<rparr>)"

definition on_trade :: "aggregator \<Rightarrow> market_event \<Rightarrow> aggregator \<times> kline list" where
  "on_trade a ev =
     (if t_price (ev_trade ev) <s 0 then (a, [])
      else case ka_mode a of
        TIME w \<Rightarrow>
          (let win_start = (ev_timestamp ev div w) * w in
           if kl_symbol (ka_cur a) = 0 \<or> win_start \<noteq> ka_win_start a then
             (let (a, bars) = (if kl_symbol (ka_cur a) \<noteq> 0 then kline_push a else (a, []))
              in (a\<lparr>ka_cur := start_new ev win_start, ka_win_start := win_start\<rparr>, bars))
           else (a\<lparr>ka_cur := kline_extend (ka_cur a) ev\<rparr>, []))
      | COUNT n \<Rightarrow>
          (if kl_symbol (ka_cur a) = 0 then (a\<lparr>ka_cur := start_new ev (ev_timestamp ev), ka_tick_cnt := 1\<rparr>, [])
           else if n \<le> ka_tick_cnt a then
             (case kline_push a of (a, bars) \<Rightarrow> (a\<lparr>ka_cur := start_new ev (ev_timestamp ev), ka_tick_cnt := 1\<rparr>, bars))
           else (a\<lparr>ka_cur := kline_extend (ka_cur a) ev, ka_tick_cnt := ka_tick_cnt a + 1\<rparr>, [])))"

definition kline_flush :: "aggregator \<Rightarrow> aggregator \<times> kline list" where
  "kline_flush a =
     (case (if kl_symbol (ka_cur a) \<noteq> 0 then kline_push a else (a, [])) of
        (a, bars) \<Rightarrow> (a\<lparr>ka_cur := empty_kline, ka_win_start := 0, ka_tick_cnt := 0\<rparr>, bars))"

fun on_trades :: "aggregator \<Rightarrow> market_event list \<Rightarrow> aggregator \<times> kline list" where
  "on_trades a [] = (a, [])"
| "on_trades a (ev # evs) = (case on_trade a ev of (a1, bars) \<Rightarrow> case on_trades a1 evs of (a2, bars') \<Rightarrow> (a2, bars @ bars'))"

section \<open>The consumer\<close>

record kline_consumer =
  kc_keep :: nat
  kc_closes :: "i64 list"

definition new_kline_consumer :: "nat \<Rightarrow> kline_consumer" where
  "new_kline_consumer n = \<lparr>kc_keep = n, kc_closes = []\<rparr>"

definition on_bar :: "kline_consumer \<Rightarrow> kline \<Rightarrow> kline_consumer" where
  "on_bar c k = c\<lparr>kc_closes := push_window (kc_keep c) (kc_closes c) (kl_close k)\<rparr>"

section \<open>The bars of a sequence of trades\<close>

text \<open>What a bar should be: the first trade opens it, the last closes it, with the extreme prices and the total volume.\<close>

definition bar_of :: "market_event list \<Rightarrow> kline" where
  "bar_of evs = (let ps = map (\<lambda>ev. t_price (ev_trade ev)) evs in
     \<lparr>kl_symbol = ev_locate (hd evs), kl_timestamp = ev_timestamp (hd evs), kl_open = hd ps, kl_high = max_element ps,
      kl_low = min_element ps, kl_close = last ps, kl_volume = sum_list (map (\<lambda>ev. t_volume (ev_trade ev)) evs)\<rparr>)"

function chunks :: "nat \<Rightarrow> 'a list \<Rightarrow> 'a list list" where
  "chunks n xs = (if xs = [] \<or> n = 0 then [] else take n xs # chunks n (drop n xs))"
  by pat_completeness auto

termination by (relation "measure (\<lambda>(n, xs). length xs)") auto

declare chunks.simps [simp del]

lemma bar_of_single: "bar_of [ev] = start_new ev (ev_timestamp ev)"
  by (simp add: bar_of_def start_new_def max_element_def min_element_def)

lemma bar_of_snoc: "evs \<noteq> [] \<Longrightarrow> bar_of (evs @ [ev]) = kline_extend (bar_of evs) ev"
  by (cases evs) (simp_all add: bar_of_def kline_extend_def Let_def max_element_def min_element_def add.assoc)

lemma chunks_concat: "0 < n \<Longrightarrow> concat (chunks n xs) = xs"
  by (induction n xs rule: chunks.induct) (subst chunks.simps, auto)

lemma chunks_Nil [simp]: "chunks n [] = []"
  by (simp add: chunks.simps)

lemma chunks_snoc:
  assumes "0 < n" "chunks n xs = bs @ [c]"
  shows "chunks n (xs @ [x]) = (if length c < n then bs @ [c @ [x]] else bs @ [c, [x]])"
    and "c \<noteq> []" "length c \<le> n"
proof -
  have "(chunks n (xs @ [x]) = (if length c < n then bs @ [c @ [x]] else bs @ [c, [x]])) \<and> c \<noteq> [] \<and> length c \<le> n"
    using assms
  proof (induction n xs arbitrary: bs rule: chunks.induct)
    case (1 n xs)
    have ne: "xs \<noteq> []" using 1(3) by auto
    have c: "chunks n xs = take n xs # chunks n (drop n xs)" using ne 1(2) by (simp add: chunks.simps [of n xs])
    have s: "chunks n (xs @ [x]) = take n (xs @ [x]) # chunks n (drop n (xs @ [x]))" using 1(2) by (simp add: chunks.simps [of n "xs @ [x]"])
    show ?case
    proof (cases "length xs \<le> n")
      case True
      then have b: "bs = []" "c = xs" using c 1(3) by (simp_all add: Cons_eq_append_conv)
      show ?thesis
      proof (cases "length xs < n")
        case True
        then show ?thesis using s b ne by simp
      next
        case False
        then have "length xs = n" using \<open>length xs \<le> n\<close> by simp
        then show ?thesis using s b ne 1(2) chunks.simps [of n "[x]"] by simp
      qed
    next
      case False
      then have "chunks n (drop n xs) \<noteq> []" using 1(2) by (simp add: chunks.simps [of n "drop n xs"])
      then obtain bs' where b: "bs = take n xs # bs'" "chunks n (drop n xs) = bs' @ [c]"
        using c 1(3) by (cases bs) auto
      have "\<not> (xs = [] \<or> n = 0)" using ne 1(2) by simp
      from "1.IH" [OF this 1(2) b(2)] show ?thesis using s b(1) False by (auto simp: not_le)
    qed
  qed
  then show "chunks n (xs @ [x]) = (if length c < n then bs @ [c @ [x]] else bs @ [c, [x]])" "c \<noteq> []" "length c \<le> n" by simp_all
qed

section \<open>Counting mode\<close>

text \<open>After some trades the full chunks have been pushed and the last one is being built.\<close>

definition building :: "nat \<Rightarrow> aggregator \<Rightarrow> kline list \<Rightarrow> market_event list \<Rightarrow> bool" where
  "building n a bars evs \<longleftrightarrow> ka_mode a = COUNT (of_nat n) \<and>
     (if evs = [] then bars = [] \<and> ka_cur a = empty_kline \<and> ka_tick_cnt a = 0
      else \<exists>bs c. chunks n evs = bs @ [c] \<and> bars = map bar_of bs \<and> ka_cur a = bar_of c \<and> ka_tick_cnt a = of_nat (length c))"

definition trade_ok :: "market_event \<Rightarrow> bool" where
  "trade_ok ev \<longleftrightarrow> \<not> t_price (ev_trade ev) <s 0 \<and> ev_locate ev \<noteq> 0"

lemma chunks_parts: "0 < n \<Longrightarrow> c \<in> set (chunks n xs) \<Longrightarrow> set c \<subseteq> set xs"
  using chunks_concat [of n xs] by (metis UN_upper set_concat)

lemma building_step:
  assumes n: "0 < n" "n < 2 ^ 64" and b: "building n a bars evs" and ok: "trade_ok ev" "list_all trade_ok evs"
    and step: "on_trade a ev = (a', extra)"
  shows "building n a' (bars @ extra) (evs @ [ev])"
proof (cases "evs = []")
  case True
  have "chunks n [ev] = [[ev]]" using n(1) by (simp add: chunks.simps)
  then show ?thesis
    using b ok(1) step True
    by (auto simp: building_def on_trade_def trade_ok_def empty_kline_def bar_of_single)
next
  case False
  then obtain bs c where c: "chunks n evs = bs @ [c]" "bars = map bar_of bs" "ka_cur a = bar_of c" "ka_tick_cnt a = of_nat (length c)"
    and m: "ka_mode a = COUNT (of_nat n)" using b by (auto simp: building_def)
  note s = chunks_snoc [OF n(1) c(1)]
  have "hd c \<in> set evs" using chunks_parts [OF n(1), of c evs] c(1) s(2) by auto
  then have sym: "kl_symbol (bar_of c) \<noteq> 0" using ok(2) by (auto simp: bar_of_def Let_def list_all_iff trade_ok_def)
  have cmp: "(of_nat n :: u64) \<le> of_nat (length c) \<longleftrightarrow> n \<le> length c"
    using n(2) s(3) by (simp add: word_le_nat_alt unat_of_nat)
  show ?thesis
  proof (cases "length c < n")
    case True
    then have "a' = a\<lparr>ka_cur := kline_extend (bar_of c) ev, ka_tick_cnt := of_nat (length c) + 1\<rparr>" "extra = []"
      using step ok(1) sym cmp by (auto simp: on_trade_def m c trade_ok_def)
    then show ?thesis using s(1,2) True c m False
      by (auto simp: building_def bar_of_snoc intro!: exI [of _ bs] exI [of _ "c @ [ev]"])
  next
    case no: False
    then have "a' = a\<lparr>ka_emitted := ka_emitted a + 1, ka_cur := start_new ev (ev_timestamp ev), ka_tick_cnt := 1\<rparr>" "extra = [bar_of c]"
      using step ok(1) sym cmp by (auto simp: on_trade_def m c trade_ok_def kline_push_def)
    then show ?thesis using s(1) no c m False
      by (auto simp: building_def bar_of_single intro!: exI [of _ "bs @ [c]"] exI [of _ "[ev]"])
  qed
qed

lemma on_trades_snoc: "on_trades a (evs @ [ev]) = (case on_trades a evs of (a1, bars) \<Rightarrow> case on_trade a1 ev of (a2, extra) \<Rightarrow> (a2, bars @ extra))"
  by (induction evs arbitrary: a) (auto split: prod.splits)

lemma building_run:
  assumes "0 < n" "n < 2 ^ 64" "list_all trade_ok evs" "on_trades (new_aggregator (COUNT (of_nat n))) evs = (a, bars)"
  shows "building n a bars evs"
  using assms(3,4)
proof (induction evs arbitrary: a bars rule: rev_induct)
  case Nil
  then show ?case by (auto simp: building_def new_aggregator_def)
next
  case (snoc ev evs)
  obtain a1 bars1 where r: "on_trades (new_aggregator (COUNT (of_nat n))) evs = (a1, bars1)"
    by (cases "on_trades (new_aggregator (COUNT (of_nat n))) evs")
  obtain extra where m: "on_trade a1 ev = (a, extra)" "bars = bars1 @ extra"
    using snoc.prems(2) r by (auto simp: on_trades_snoc split: prod.splits)
  have "building n a1 bars1 evs" using snoc.IH [OF _ r] snoc.prems(1) by simp
  from building_step [OF assms(1,2) this _ _ m(1)] snoc.prems(1) m(2) show ?case by simp
qed

section \<open>Properties\<close>

lemma kline_bars_are_chunks_parts:
  assumes "0 < n" "n < 2 ^ 64" "list_all trade_ok evs"
    and "on_trades (new_aggregator (COUNT (of_nat n))) evs = (a, bars)" "kline_flush a = (a', rest)"
  shows "bars @ rest = map bar_of (chunks n evs)" and "concat (chunks n evs) = evs"
proof -
  have b: "building n a bars evs" by (rule building_run [OF assms(1-4)])
  show "bars @ rest = map bar_of (chunks n evs)"
  proof (cases "evs = []")
    case True
    then show ?thesis using b assms(5) by (auto simp: building_def kline_flush_def empty_kline_def)
  next
    case False
    then obtain bs c where c: "chunks n evs = bs @ [c]" "bars = map bar_of bs" "ka_cur a = bar_of c" using b by (auto simp: building_def)
    have "hd c \<in> set evs" using chunks_parts [OF assms(1), of c evs] c(1) chunks_snoc(2) [OF assms(1) c(1)] by auto
    then have "kl_symbol (bar_of c) \<noteq> 0" using assms(3) by (auto simp: bar_of_def Let_def list_all_iff trade_ok_def)
    then show ?thesis using c assms(5) by (auto simp: kline_flush_def kline_push_def)
  qed
  show "concat (chunks n evs) = evs" by (rule chunks_concat [OF assms(1)])
qed

text \<open>Counting mode cuts the trades into bars of exactly \<open>n\<close> trades, the last one possibly shorter: for any
  trades with a price and a symbol, the bars pushed while they come in together with the one a final flush
  pushes are the bars of the consecutive chunks, each with its first and last price, its extreme prices and
  its total volume, and every trade is counted once.\<close>

theorem kline_bars_are_chunks:
  assumes "0 < n" "n < 2 ^ 64" "list_all trade_ok evs"
    and "on_trades (new_aggregator (COUNT (of_nat n))) evs = (a, bars)" "kline_flush a = (a', rest)"
  shows "bars @ rest = map bar_of (chunks n evs) \<and> concat (chunks n evs) = evs"
  using kline_bars_are_chunks_parts [OF assms] by blast

definition demo_trade :: "i64 \<Rightarrow> u64 \<Rightarrow> market_event" where
  "demo_trade p v = empty_event\<lparr>ev_type := EV_TRADE, ev_locate := 7, ev_trade := (ev_trade empty_event)\<lparr>t_price := p, t_volume := v\<rparr>\<rparr>"

theorem kline_bars_are_chunks_witness:
  "snd (on_trades (new_aggregator (COUNT 2)) [demo_trade 100 1, demo_trade 90 2, demo_trade 95 3]) =
    [\<lparr>kl_symbol = 7, kl_timestamp = 0, kl_open = 100, kl_high = 100, kl_low = 90, kl_close = 90, kl_volume = 3\<rparr>]"
proof -
  let ?evs = "[demo_trade 100 1, demo_trade 90 2, demo_trade 95 3]"
  obtain a bars where r: "on_trades (new_aggregator (COUNT 2)) ?evs = (a, bars)" by (cases "on_trades (new_aggregator (COUNT 2)) ?evs")
  obtain a' rest where f: "kline_flush a = (a', rest)" by (cases "kline_flush a")
  have ch: "chunks 2 ?evs = [[demo_trade 100 1, demo_trade 90 2], [demo_trade 95 3]]" by (simp add: chunks.simps)
  have "list_all trade_ok ?evs" by (simp add: trade_ok_def demo_trade_def word_sless_alt)
  from kline_bars_are_chunks [of 2, OF _ _ this _ f] r have "bars @ rest = map bar_of (chunks 2 ?evs)" by simp
  moreover have "length rest \<le> 1" using f by (auto simp: kline_flush_def kline_push_def split: if_splits)
  moreover have "length bars \<le> 1"
    using r by (auto simp: on_trade_def new_aggregator_def empty_kline_def demo_trade_def start_new_def kline_push_def
        word_sless_alt word_le_nat_alt empty_event_def kline_extend_def split: if_splits)
  ultimately have "bars = [bar_of [demo_trade 100 1, demo_trade 90 2]]" unfolding ch by (cases bars; cases rest) auto
  then show ?thesis using r by (simp add: bar_of_def demo_trade_def empty_event_def max_element_def min_element_def word_sless_alt)
qed

end
