(* ===== verification/Uring_Sender.thy ===== *)
theory Uring_Sender
  imports Byte_Ring
begin

text \<open>
  The order sender of \<^verbatim>\<open>core/net/io_uring_sender.cpp\<close>. A message is copied into a byte ring whose storage is
  registered with the kernel, and is sent from there by \<open>SEND_ZC\<close> requests. The kernel is an argument: what
  it answers to a request, how many bytes of it it puts on the wire, and which completions it posts. A call
  that waits until \<open>stop()\<close> is called (which makes it return 0) has the value \<open>None\<close>; a wait that is
  interrupted or times out is repeated by the code and is part of one wait here.
\<close>

section \<open>The sender\<close>

datatype submit_answer = Accepted | Sq_full | Submit_error int | Wait_error int

record kernel =
  k_answer :: "nat \<Rightarrow> submit_answer"
  k_takes :: "nat \<Rightarrow> nat \<Rightarrow> nat"
  k_posts :: "nat \<Rightarrow> nat \<Rightarrow> int list"

text \<open>\<open>us_sq\<close> holds requests prepared but not submitted, \<open>us_cq\<close> completions not yet seen; \<open>us_wire\<close> is what
  went out. Requests are numbered by \<open>us_calls\<close> when they are prepared, by \<open>us_reqs\<close> when the kernel takes them.\<close>

record sender =
  us_running :: bool
  us_ring :: byte_ring
  us_sq :: "(nat \<times> nat) list"
  us_cq :: "int list"
  us_wire :: bytes
  us_calls :: nat
  us_reqs :: nat
  us_errno :: int

definition new_sender :: "nat \<Rightarrow> sender" where
  "new_sender n = \<lparr>us_running = True, us_ring = new_ring n, us_sq = [], us_cq = [], us_wire = [], us_calls = 0, us_reqs = 0, us_errno = 0\<rparr>"

definition kernel_take :: "kernel \<Rightarrow> nat \<times> nat \<Rightarrow> sender \<Rightarrow> sender" where
  "kernel_take k req s = s\<lparr>us_wire := us_wire s @ copy_out (br_buf (us_ring s)) (fst req) (k_takes k (us_reqs s) (snd req)),
     us_cq := us_cq s @ k_posts k (us_reqs s) (snd req), us_reqs := us_reqs s + 1\<rparr>"

definition us_submit :: "kernel \<Rightarrow> sender \<Rightarrow> sender" where
  "us_submit k s = (fold (kernel_take k) (us_sq s) s)\<lparr>us_sq := []\<rparr>"


partial_function (option) send_zc_all :: "kernel \<Rightarrow> sender \<Rightarrow> u64 \<Rightarrow> (sender \<times> bool) option" where
  "send_zc_all k s remaining =
     (if remaining = 0 then Some (s, True)
      else
        (case read_acquire (us_ring s) (unat remaining) of (pos, chunk) \<Rightarrow>
          if chunk = 0 then None
          else
            (let s1 = s\<lparr>us_calls := us_calls s + 1\<rparr>; s2 = s1\<lparr>us_sq := us_sq s1 @ [(pos, chunk)]\<rparr> in
             case k_answer k (us_calls s) of
               Sq_full \<Rightarrow> Some (s1\<lparr>us_errno := EAGAIN\<rparr>, False)
             | Submit_error e \<Rightarrow> Some (s2\<lparr>us_errno := e\<rparr>, False)
             | Wait_error e \<Rightarrow> Some ((us_submit k s2)\<lparr>us_errno := e\<rparr>, False)
             | Accepted \<Rightarrow>
                 (let s3 = us_submit k s2 in
                  case us_cq s3 of
                    [] \<Rightarrow> None
                  | sent # cq \<Rightarrow>
                      if 0 < sent
                      then send_zc_all k (s3\<lparr>us_cq := cq, us_ring := read_release (us_ring s3) (nat sent)\<rparr>) (remaining - of_int sent)
                      else Some (s3\<lparr>us_cq := cq, us_ring := read_release (us_ring s3) (unat remaining),
                             us_errno := if sent = 0 then EIO else - sent\<rparr>, False)))))"

text \<open>The first loop of \<open>send\<close>: a push that is refused is repeated until \<open>stop()\<close>.\<close>

function push_all :: "byte_ring \<Rightarrow> bytes \<Rightarrow> byte_ring option" where
  "push_all r bs =
     (if bs = [] then Some r
      else (case br_push r bs of (r', n) \<Rightarrow> if n > 0 then push_all r' (drop n bs) else None))"
  by pat_completeness auto

termination
  by (relation "measure (\<lambda>(r, bs). length bs)") auto

declare push_all.simps [simp del]

definition us_send :: "kernel \<Rightarrow> sender \<Rightarrow> bytes \<Rightarrow> (sender \<times> int) option" where
  "us_send k s bs =
     (if \<not> us_running s \<or> length bs = 0 then Some (s, 0)
      else Option.bind (push_all (us_ring s) bs) (\<lambda>r.
        Option.bind (send_zc_all k (s\<lparr>us_ring := r\<rparr>) (of_nat (length bs))) (\<lambda>(s', ok).
          Some (s', if ok then int (length bs) else - 1))))"

fun us_sends :: "kernel \<Rightarrow> sender \<Rightarrow> bytes list \<Rightarrow> (sender \<times> int list) option" where
  "us_sends k s [] = Some (s, [])"
| "us_sends k s (m # ms) =
     Option.bind (us_send k s m) (\<lambda>(s1, n). Option.bind (us_sends k s1 ms) (\<lambda>(s2, ns). Some (s2, n # ns)))"

section \<open>One message\<close>

text \<open>The state between two messages.\<close>

definition idle :: "sender \<Rightarrow> bool" where
  "idle s \<longleftrightarrow> us_running s \<and> us_sq s = [] \<and> us_cq s = [] \<and> is_pow2 (br_cap (us_ring s)) \<and> br_head (us_ring s) = br_tail (us_ring s)"

text \<open>A kernel that accepts every request, takes at least a byte and posts one completion with the number.\<close>

definition plain_kernel :: "kernel \<Rightarrow> bool" where
  "plain_kernel k \<longleftrightarrow> (\<forall>i. k_answer k i = Accepted) \<and>
     (\<forall>i n. 0 < n \<longrightarrow> 0 < k_takes k i n \<and> k_takes k i n \<le> n \<and> k_posts k i n = [int (k_takes k i n)])"

text \<open>A kernel that takes every request at once and posts a second completion, with result 0, when it no
  longer needs the buffer: the notification of a zero-copy send.\<close>

definition notifying_kernel :: "kernel \<Rightarrow> bool" where
  "notifying_kernel k \<longleftrightarrow> (\<forall>i. k_answer k i = Accepted) \<and> (\<forall>i n. k_takes k i n = n \<and> k_posts k i n = [int n, 0])"

lemma kernel_take_simps [simp]:
  "us_ring (kernel_take k req s) = us_ring s" "us_sq (kernel_take k req s) = us_sq s" "us_running (kernel_take k req s) = us_running s"
  "us_calls (kernel_take k req s) = us_calls s"
  by (simp_all add: kernel_take_def)

text \<open>What one turn of the loop does: the chunk, the request and the completion.\<close>

lemma chunk_at:
  assumes "is_pow2 (br_cap r)" "br_head r + n \<le> br_tail r" "0 < n"
  obtains c where "read_acquire r n = (br_head r mod br_cap r, c)" "0 < c" "c \<le> n" "br_head r mod br_cap r + c \<le> br_cap r"
proof -
  let ?c = "min (min n (br_tail r - br_head r)) (br_cap r - br_head r mod br_cap r)"
  have "0 < br_cap r" using assms(1) by auto
  then have lt: "br_head r mod br_cap r < br_cap r" by simp
  have "read_acquire r n = (br_head r mod br_cap r, ?c)" using read_acquire_eq [OF assms(1), of n] assms(2,3) by simp
  moreover have "0 < ?c" "?c \<le> n" "br_head r mod br_cap r + ?c \<le> br_cap r" using lt assms(2,3) by auto
  ultimately show thesis using that by blast
qed

lemma send_step:
  assumes "read_acquire (us_ring s) n = (pos, c)" "0 < c" "0 < n" "n < 2 ^ 64" "k_answer k (us_calls s) = Accepted" "us_sq s = []"
    and "us_cq s @ k_posts k (us_reqs s) c = sent # cq"
  defines "s3 \<equiv> s\<lparr>us_calls := us_calls s + 1, us_reqs := us_reqs s + 1, us_cq := cq,
    us_wire := us_wire s @ copy_out (br_buf (us_ring s)) pos (k_takes k (us_reqs s) c)\<rparr>"
  shows "send_zc_all k s (of_nat n) =
    (if 0 < sent then send_zc_all k (s3\<lparr>us_ring := read_release (us_ring s) (nat sent)\<rparr>) (of_nat n - of_int sent)
     else Some (s3\<lparr>us_ring := read_release (us_ring s) n, us_errno := if sent = 0 then EIO else - sent\<rparr>, False))"
proof -
  have u: "unat (of_nat n :: u64) = n" using assms(4) by (simp add: unat_of_nat)
  then have "(of_nat n :: u64) \<noteq> 0" using assms(3) by auto
  then show ?thesis using assms(1-7)
    by (subst send_zc_all.simps, cases s) (simp add: u us_submit_def kernel_take_def s3_def Let_def)
qed

text \<open>A plain kernel sends the first \<open>n\<close> bytes of the ring.\<close>

lemma zc_plain:
  assumes "plain_kernel k" "is_pow2 (br_cap (us_ring s))" "us_sq s = []" "us_cq s = []"
    and "br_head (us_ring s) + n \<le> br_tail (us_ring s)" "n < 2 ^ 64"
  shows "\<exists>i j. send_zc_all k s (of_nat n) = Some (s\<lparr>us_calls := i, us_reqs := j, us_cq := [], us_ring := read_release (us_ring s) n,
    us_wire := us_wire s @ stretch (us_ring s) (br_head (us_ring s)) n\<rparr>, True)"
  using assms
proof (induction n arbitrary: s rule: less_induct)
  case (less n)
  let ?r = "us_ring s"
  show ?case
  proof (cases "n = 0")
    case True
    then show ?thesis
      by (subst send_zc_all.simps) (intro exI [of _ "us_calls s"] exI [of _ "us_reqs s"], cases s, use True less.prems(4) in \<open>simp add: stretch_def read_release_def\<close>)
  next
    case False
    obtain c where c: "read_acquire ?r n = (br_head ?r mod br_cap ?r, c)" "0 < c" "c \<le> n" "br_head ?r mod br_cap ?r + c \<le> br_cap ?r"
      using chunk_at [OF less.prems(2,5)] False by blast
    define t where "t = k_takes k (us_reqs s) c"
    have t: "0 < t" "t \<le> c" "k_posts k (us_reqs s) c = [int t]" "k_answer k (us_calls s) = Accepted"
      using less.prems(1) c(2) by (simp_all add: plain_kernel_def t_def)
    define s3 where "s3 = s\<lparr>us_calls := us_calls s + 1, us_reqs := us_reqs s + 1, us_cq := [],
      us_wire := us_wire s @ stretch ?r (br_head ?r) t, us_ring := read_release ?r t\<rparr>"
    have cp: "copy_out (br_buf ?r) (br_head ?r mod br_cap ?r) t = stretch ?r (br_head ?r) t"
      by (rule copy_out_stretch) (use c(4) t(2) in linarith)
    have step: "send_zc_all k s (of_nat n) = send_zc_all k s3 (of_nat (n - t))"
      using send_step [OF c(1,2) _ less.prems(6) t(4) less.prems(3), of "int t" "[]"] False t(1-3) c(3) less.prems(4) cp
      by (simp add: s3_def t_def [symmetric] of_nat_diff)
    have lt: "n - t < n" using t(1) False by simp
    have "\<exists>i j. send_zc_all k s3 (of_nat (n - t)) = Some (s3\<lparr>us_calls := i, us_reqs := j, us_cq := [], us_ring := read_release (us_ring s3) (n - t),
      us_wire := us_wire s3 @ stretch (us_ring s3) (br_head (us_ring s3)) (n - t)\<rparr>, True)"
      using less.prems t(1,2) c(3) by (intro less.IH [OF lt]) (simp_all add: s3_def read_release_def)
    then obtain i j where ij: "send_zc_all k s3 (of_nat (n - t)) = Some (s3\<lparr>us_calls := i, us_reqs := j, us_cq := [], us_ring := read_release (us_ring s3) (n - t),
      us_wire := us_wire s3 @ stretch (us_ring s3) (br_head (us_ring s3)) (n - t)\<rparr>, True)" by (elim exE)
    have st: "stretch (us_ring s3) (br_head (us_ring s3)) (n - t) = stretch ?r (br_head ?r + t) (n - t)"
      by (simp add: s3_def read_release_def stretch_def)
    show ?thesis
      unfolding step ij st using t(1,2) c(3) stretch_more [of t n ?r "br_head ?r"]
      by (intro exI [of _ i] exI [of _ j]) (simp add: s3_def read_release_def)
  qed
qed

section \<open>Sending\<close>

text \<open>A message that is not short and fits twice is always accepted by an empty ring.\<close>

lemma push_all_empty:
  assumes "is_pow2 (br_cap r)" "br_head r = br_tail r" "kHeaderBytes < length bs" "2 * length bs \<le> br_cap r"
  obtains buf where "push_all r bs = Some (r\<lparr>br_buf := buf, br_tail := msg_start (br_cap r) (br_tail r) + length bs\<rparr>)"
    "writes_at (br_buf r) buf (br_cap r) (msg_start (br_cap r) (br_tail r)) bs"
proof -
  have ok: "ring_ok r []" using assms(1,2) by (simp add: ring_ok_def)
  have ne: "bs \<noteq> []" "0 < length bs" using assms(3) by auto
  have n: "snd (br_push r bs) = length bs" by (rule br_push_empty [OF ok assms(3,4)])
  have h: "br_head r \<le> br_tail r" "br_tail r \<le> br_head r + br_cap r" using assms(2) by simp_all
  have "br_push r bs \<noteq> (r, 0)" using n ne(2) by auto
  then obtain buf where buf: "br_push r bs = (r\<lparr>br_buf := buf, br_tail := msg_start (br_cap r) (br_tail r) + length bs\<rparr>, length bs)"
    "writes_at (br_buf r) buf (br_cap r) (msg_start (br_cap r) (br_tail r)) bs"
    using push_seen_writes [OF assms(1) h assms(3)] unfolding br_push_def by blast
  have "push_all r bs = push_all (r\<lparr>br_buf := buf, br_tail := msg_start (br_cap r) (br_tail r) + length bs\<rparr>) []"
    by (subst push_all.simps) (simp add: buf(1) ne)
  then show thesis using that buf(2) by (simp add: push_all.simps [of _ "[]"])
qed

lemma send_plain:
  assumes k: "plain_kernel k" and s: "idle s" and m: "kHeaderBytes < length bs" "2 * length bs \<le> br_cap (us_ring s)" "length bs < 2 ^ 64"
  defines "c \<equiv> br_cap (us_ring s)" and "t \<equiv> br_tail (us_ring s)"
  obtains s' buf where "us_send k s bs = Some (s', int (length bs))"
    "us_wire s' = us_wire s @ stretch ((us_ring s)\<lparr>br_buf := buf\<rparr>) t (length bs)"
    "writes_at (br_buf (us_ring s)) buf c (msg_start c t) bs" "us_running s'" "us_sq s' = []" "us_cq s' = []"
    "us_ring s' = (us_ring s)\<lparr>br_buf := buf, br_head := t + length bs, br_tail := msg_start c t + length bs\<rparr>"
proof -
  let ?r = "us_ring s"
  have i: "us_running s" "us_sq s = []" "us_cq s = []" "is_pow2 (br_cap ?r)" "br_head ?r = br_tail ?r" using s by (simp_all add: idle_def)
  obtain buf where buf: "push_all ?r bs = Some (?r\<lparr>br_buf := buf, br_tail := msg_start c t + length bs\<rparr>)"
    "writes_at (br_buf ?r) buf c (msg_start c t) bs"
    using push_all_empty [OF i(4,5) m(1,2)] unfolding c_def t_def by blast
  define s1 where "s1 = s\<lparr>us_ring := ?r\<lparr>br_buf := buf, br_tail := msg_start c t + length bs\<rparr>\<rparr>"
  have "t \<le> msg_start c t" by (rule msg_start_ge) (use i(4) in \<open>auto simp: c_def\<close>)
  then have "br_head (us_ring s1) + length bs \<le> br_tail (us_ring s1)" using i(5) by (simp add: s1_def t_def)
  then have "\<exists>a b. send_zc_all k s1 (of_nat (length bs)) = Some (s1\<lparr>us_calls := a, us_reqs := b, us_cq := [],
      us_ring := read_release (us_ring s1) (length bs), us_wire := us_wire s1 @ stretch (us_ring s1) (br_head (us_ring s1)) (length bs)\<rparr>, True)"
    using i m(3) by (intro zc_plain [OF k]) (simp_all add: s1_def)
  then obtain a b where z: "send_zc_all k s1 (of_nat (length bs)) = Some (s1\<lparr>us_calls := a, us_reqs := b, us_cq := [],
      us_ring := read_release (us_ring s1) (length bs), us_wire := us_wire s1 @ stretch (us_ring s1) (br_head (us_ring s1)) (length bs)\<rparr>, True)"
    by (elim exE)
  show thesis
  proof (rule that [OF _ _ buf(2)])
    show "us_send k s bs = Some (s1\<lparr>us_calls := a, us_reqs := b, us_cq := [],
      us_ring := read_release (us_ring s1) (length bs), us_wire := us_wire s1 @ stretch (us_ring s1) (br_head (us_ring s1)) (length bs)\<rparr>, int (length bs))"
      using m(1) i(1) z by (auto simp: us_send_def buf(1) s1_def)
  qed (use i in \<open>simp_all add: s1_def t_def read_release_def stretch_def\<close>)
qed

text \<open>Messages that follow each other in the ring without a gap at its end.\<close>

fun gapless :: "nat \<Rightarrow> nat \<Rightarrow> bytes list \<Rightarrow> bool" where
  "gapless c t [] \<longleftrightarrow> True"
| "gapless c t (m # ms) \<longleftrightarrow> msg_start c t = t \<and> gapless c (t + length m) ms"

lemma sends_plain:
  assumes "plain_kernel k" "idle s" "\<forall>m\<in>set ms. kHeaderBytes < length m \<and> 2 * length m \<le> br_cap (us_ring s) \<and> length m < 2 ^ 64"
    and "gapless (br_cap (us_ring s)) (br_tail (us_ring s)) ms"
  shows "\<exists>s'. us_sends k s ms = Some (s', map (\<lambda>m. int (length m)) ms) \<and> us_wire s' = us_wire s @ concat ms \<and> idle s'"
  using assms(2-4)
proof (induction ms arbitrary: s)
  case (Cons m ms)
  have m: "kHeaderBytes < length m" "2 * length m \<le> br_cap (us_ring s)" "length m < 2 ^ 64" using Cons.prems(2) by simp_all
  obtain s1 buf where s1: "us_send k s m = Some (s1, int (length m))"
    "us_wire s1 = us_wire s @ stretch ((us_ring s)\<lparr>br_buf := buf\<rparr>) (br_tail (us_ring s)) (length m)"
    "writes_at (br_buf (us_ring s)) buf (br_cap (us_ring s)) (msg_start (br_cap (us_ring s)) (br_tail (us_ring s))) m"
    "us_running s1" "us_sq s1 = []" "us_cq s1 = []"
    "us_ring s1 = (us_ring s)\<lparr>br_buf := buf, br_head := br_tail (us_ring s) + length m,
       br_tail := msg_start (br_cap (us_ring s)) (br_tail (us_ring s)) + length m\<rparr>"
    by (rule send_plain [OF assms(1) Cons.prems(1) m])
  have g: "msg_start (br_cap (us_ring s)) (br_tail (us_ring s)) = br_tail (us_ring s)" using Cons.prems(3) by simp
  have w: "us_wire s1 = us_wire s @ m" using s1(2) stretch_written [OF s1(3) [unfolded g]] by simp
  have "idle s1" using Cons.prems(1) s1(4-7) g by (simp add: idle_def)
  from Cons.IH [OF this] obtain s' where "us_sends k s1 ms = Some (s', map (\<lambda>m. int (length m)) ms)"
      "us_wire s' = us_wire s1 @ concat ms" "idle s'"
    using Cons.prems(2,3) s1(7) g by auto
  then show ?case using s1(1) w by simp
qed simp

section \<open>The gap at the end of the ring\<close>

lemma gap_stretch:
  assumes w: "writes_at (br_buf r) buf (br_cap r) (p + d) bs" and d: "d \<le> length bs" "length bs + d \<le> br_cap r"
  shows "stretch (r\<lparr>br_buf := buf\<rparr>) p (length bs) = stretch r p d @ take (length bs - d) bs"
proof -
  have "buf ((p + j) mod br_cap r) = br_buf r ((p + j) mod br_cap r)" if "j < d" for j
  proof -
    have "(p + j) mod br_cap r \<noteq> i mod br_cap r" if "p + d \<le> i" "i < p + d + length bs" for i
      using that \<open>j < d\<close> d by (intro mod_neq) linarith+
    then show ?thesis using w unfolding writes_at_def by metis
  qed
  then have a: "stretch (r\<lparr>br_buf := buf\<rparr>) p d = stretch r p d" by (simp add: stretch_def)
  have "bytes_at buf (br_cap r) (p + d) (take (length bs - d) bs)" using w by (simp add: writes_at_def bytes_at_def)
  then have "stretch (r\<lparr>br_buf := buf\<rparr>) (p + d) (length (take (length bs - d) bs)) = take (length bs - d) bs"
    by (intro stretch_bytes_at) simp
  then have "stretch (r\<lparr>br_buf := buf\<rparr>) (p + d) (length bs - d) = take (length bs - d) bs" by simp
  then show ?thesis using stretch_append [of "r\<lparr>br_buf := buf\<rparr>" p d "length bs - d"] a d(1) by simp
qed

lemma gap_start:
  assumes "msg_start c t \<noteq> t" "0 < c"
  shows "msg_start c t = t + (c - t mod c)" "0 < c - t mod c" "c - t mod c < kHeaderBytes"
  using assms next_lap(1) [OF assms(2), of t] mod_less_divisor [OF assms(2), of t] by (auto simp: msg_start_def split: if_splits)

section \<open>Completions of zero-copy sends\<close>

text \<open>A request for the rest of the ring that does not reach its end, when a completion is already waiting.\<close>

lemma zc_stale:
  assumes k: "notifying_kernel k" and i: "us_sq s = []" "is_pow2 (br_cap r)" "us_ring s = r"
    and n: "0 < n" "n < 2 ^ 64" "br_head r + n \<le> br_tail r" "br_head r mod br_cap r + n \<le> br_cap r"
    and q: "us_cq s @ [int n, 0] = sent # cq"
  defines "s3 \<equiv> s\<lparr>us_calls := us_calls s + 1, us_reqs := us_reqs s + 1, us_cq := cq, us_wire := us_wire s @ stretch r (br_head r) n\<rparr>"
  shows "send_zc_all k s (of_nat n) =
    (if 0 < sent then send_zc_all k (s3\<lparr>us_ring := read_release r (nat sent)\<rparr>) (of_nat n - of_int sent)
     else Some (s3\<lparr>us_ring := read_release r n, us_errno := if sent = 0 then EIO else - sent\<rparr>, False))"
proof -
  have a: "read_acquire (us_ring s) n = (br_head r mod br_cap r, n)" using read_acquire_eq [OF i(2), of n] n i(3) by simp
  have t: "k_answer k (us_calls s) = Accepted" "k_takes k (us_reqs s) n = n" "k_posts k (us_reqs s) n = [int n, 0]"
    using k by (simp_all add: notifying_kernel_def)
  have cp: "copy_out (br_buf r) (br_head r mod br_cap r) n = stretch r (br_head r) n" by (rule copy_out_stretch [OF n(4)])
  show ?thesis
    using send_step [OF a n(1,1,2) t(1) i(1), of sent cq] q by (simp add: t i(3) cp s3_def)
qed

lemma zc_done: "send_zc_all k s 0 = Some (s, True)"
  by (subst send_zc_all.simps) simp

text \<open>A sender between two messages, with completions waiting.\<close>

definition settled :: "sender \<Rightarrow> int list \<Rightarrow> bool" where
  "settled s cq \<longleftrightarrow> us_running s \<and> us_sq s = [] \<and> us_cq s = cq \<and> is_pow2 (br_cap (us_ring s)) \<and> br_head (us_ring s) = br_tail (us_ring s)"

lemma push_all_fits:
  assumes r: "is_pow2 (br_cap r)" "br_head r = br_tail r"
    and m: "kHeaderBytes < length bs" "2 * length bs \<le> br_cap r" "br_tail r mod br_cap r + length bs \<le> br_cap r"
  obtains buf where "push_all r bs = Some (r\<lparr>br_buf := buf, br_tail := br_tail r + length bs\<rparr>)"
    "stretch (r\<lparr>br_buf := buf, br_tail := br_tail r + length bs\<rparr>) (br_tail r) (length bs) = bs"
proof -
  have "\<not> br_cap r - br_tail r mod br_cap r < kHeaderBytes" using m(1,3) by linarith
  then have g: "msg_start (br_cap r) (br_tail r) = br_tail r" by (simp add: msg_start_def)
  obtain buf where buf: "push_all r bs = Some (r\<lparr>br_buf := buf, br_tail := br_tail r + length bs\<rparr>)"
    "writes_at (br_buf r) buf (br_cap r) (br_tail r) bs"
    using push_all_empty [OF r m(1,2)] unfolding g by blast
  show thesis by (rule that [OF buf(1)]) (use stretch_written [OF buf(2)] in \<open>simp add: stretch_def\<close>)
qed

lemma send_stale:
  assumes k: "notifying_kernel k" and s: "settled s cq0"
    and m: "kHeaderBytes < length bs" "2 * length bs \<le> br_cap (us_ring s)" "length bs < 2 ^ 64"
      "br_tail (us_ring s) mod br_cap (us_ring s) + length bs \<le> br_cap (us_ring s)"
    and q: "cq0 @ [int (length bs), 0] = sent # cq" and sent: "sent = int (length bs) \<or> sent = 0"
  obtains s' where "us_send k s bs = Some (s', if sent = 0 then - 1 else int (length bs))" "us_wire s' = us_wire s @ bs"
    "settled s' cq" "br_cap (us_ring s') = br_cap (us_ring s)" "br_tail (us_ring s') = br_tail (us_ring s) + length bs"
proof -
  let ?r = "us_ring s" and ?n = "length bs" and ?c = "br_cap (us_ring s)" and ?t = "br_tail (us_ring s)"
  have i: "us_running s" "us_sq s = []" "us_cq s = cq0" "is_pow2 ?c" "br_head ?r = ?t" using s by (simp_all add: settled_def)
  obtain buf where buf: "push_all ?r bs = Some (?r\<lparr>br_buf := buf, br_tail := ?t + ?n\<rparr>)"
    "stretch (?r\<lparr>br_buf := buf, br_tail := ?t + ?n\<rparr>) ?t ?n = bs" by (rule push_all_fits [OF i(4,5) m(1,2,4)])
  define r1 where "r1 = ?r\<lparr>br_buf := buf, br_tail := ?t + ?n\<rparr>"
  have st: "stretch r1 ?t ?n = bs" using buf(2) by (simp only: r1_def)
  have n: "0 < ?n" using m(1) by linarith
  have q1: "us_cq (s\<lparr>us_ring := r1\<rparr>) @ [int ?n, 0] = sent # cq" using q i(3) by simp
  define s3 where "s3 = s\<lparr>us_calls := us_calls s + 1, us_reqs := us_reqs s + 1, us_cq := cq, us_wire := us_wire s @ bs, us_ring := read_release r1 ?n\<rparr>"
  have z: "send_zc_all k (s\<lparr>us_ring := r1\<rparr>) (of_nat ?n) = Some (if sent = 0 then s3\<lparr>us_errno := EIO\<rparr> else s3, sent \<noteq> 0)"
    by (subst zc_stale [OF k, where r = r1, OF _ _ _ n m(3) _ _ q1])
      (use i m(4) n sent st in \<open>auto simp: r1_def s3_def zc_done\<close>)
  show thesis
  proof (rule that)
    show "us_send k s bs = Some (if sent = 0 then s3\<lparr>us_errno := EIO\<rparr> else s3, if sent = 0 then - 1 else int ?n)"
      using i(1) n z by (simp add: us_send_def buf(1) flip: r1_def)
  qed (use i in \<open>simp_all add: s3_def settled_def read_release_def r1_def\<close>)
qed

lemma send_short_stale:
  assumes k: "notifying_kernel k" and s: "settled s [int b, 0]" and b: "0 < b" "b < length bs"
    and m: "kHeaderBytes < length bs" "2 * length bs \<le> br_cap (us_ring s)" "length bs < 2 ^ 64"
      "br_tail (us_ring s) mod br_cap (us_ring s) + length bs \<le> br_cap (us_ring s)"
  obtains s' where "us_send k s bs = Some (s', - 1)" "us_wire s' = us_wire s @ bs @ drop b bs"
proof -
  let ?r = "us_ring s" and ?n = "length bs" and ?c = "br_cap (us_ring s)" and ?t = "br_tail (us_ring s)"
  have i: "us_running s" "us_sq s = []" "us_cq s = [int b, 0]" "is_pow2 ?c" "br_head ?r = ?t" using s by (simp_all add: settled_def)
  obtain buf where buf: "push_all ?r bs = Some (?r\<lparr>br_buf := buf, br_tail := ?t + ?n\<rparr>)"
    "stretch (?r\<lparr>br_buf := buf, br_tail := ?t + ?n\<rparr>) ?t ?n = bs" by (rule push_all_fits [OF i(4,5) m(1,2,4)])
  define r1 where "r1 = ?r\<lparr>br_buf := buf, br_tail := ?t + ?n\<rparr>"
  have st: "stretch r1 ?t ?n = bs" using buf(2) by (simp only: r1_def)
  have ln: "length (stretch r1 ?t b) = b" by (simp add: stretch_def)
  have "stretch r1 ?t b @ stretch r1 (?t + b) (?n - b) = bs" using stretch_more [of b ?n r1 ?t] b st by simp
  then have dr: "stretch r1 (?t + b) (?n - b) = drop b bs" using ln by (metis append_eq_conv_conj)
  have n: "0 < ?n" using m(1) by linarith
  define s3 where "s3 = s\<lparr>us_calls := us_calls s + 1, us_reqs := us_reqs s + 1, us_cq := [0, int ?n, 0], us_wire := us_wire s @ bs, us_ring := read_release r1 b\<rparr>"
  have q1: "us_cq (s\<lparr>us_ring := r1\<rparr>) @ [int ?n, 0] = int b # [0, int ?n, 0]" using i(3) by simp
  have z: "send_zc_all k (s\<lparr>us_ring := r1\<rparr>) (of_nat ?n) = send_zc_all k s3 (of_nat (?n - b))"
    by (subst zc_stale [OF k, where r = r1, OF _ _ _ n m(3) _ _ q1])
      (use i m(4) b st in \<open>simp_all add: r1_def s3_def of_nat_diff\<close>)
  have "(?t + b) mod ?c = ?t mod ?c + b"
  proof -
    have "(?t mod ?c + b) mod ?c = ?t mod ?c + b" using m(4) b by (intro mod_less) linarith
    then show ?thesis unfolding mod_add_left_eq .
  qed
  then have w: "(?t + b) mod ?c + (?n - b) \<le> ?c" using m(4) b by simp
  define r2 where "r2 = read_release r1 b"
  have st2: "stretch r2 (?t + b) (?n - b) = drop b bs" using dr by (simp add: r2_def read_release_def stretch_def)
  have q2: "us_cq s3 @ [int (?n - b), 0] = 0 # [int ?n, 0, int (?n - b), 0]" by (simp add: s3_def)
  have e: "us_sq s3 = []" "is_pow2 (br_cap r2)" "us_ring s3 = r2" "0 < ?n - b" "?n - b < 2 ^ 64" "br_head r2 + (?n - b) \<le> br_tail r2"
    "br_head r2 mod br_cap r2 + (?n - b) \<le> br_cap r2" "br_head r2 = ?t + b"
    using i b m(3) w by (simp_all add: s3_def r2_def r1_def read_release_def)
  obtain s4 where s4: "send_zc_all k s3 (of_nat (?n - b)) = Some (s4, False)" "us_wire s4 = us_wire s3 @ drop b bs"
    using zc_stale [OF k e(1-7) q2] unfolding e(8) st2 by simp
  show thesis
  proof (rule that)
    show "us_send k s bs = Some (s4, - 1)" using i(1) n z s4(1) by (simp add: us_send_def buf(1) flip: r1_def)
    show "us_wire s4 = us_wire s @ bs @ drop b bs" using s4(2) by (simp add: s3_def)
  qed
qed

section \<open>Properties\<close>


definition one_byte_kernel :: kernel where
  "one_byte_kernel = \<lparr>k_answer = (\<lambda>_. Accepted), k_takes = (\<lambda>_ n. min n 1), k_posts = (\<lambda>_ n. [int (min n 1)])\<rparr>"


text \<open>A message that meets the gap is not delivered although its call returns its length: the ring puts
  the message behind the gap of fewer than ten bytes, and the sender sends from the head, that is the
  stale bytes of the gap first, and leaves as many bytes of the message in the ring.\<close>

theorem sender_sends_gap:
  assumes "plain_kernel k" "idle s" "kHeaderBytes < length m" "2 * length m \<le> br_cap (us_ring s)" "length m < 2 ^ 64"
    and gap: "msg_start (br_cap (us_ring s)) (br_tail (us_ring s)) \<noteq> br_tail (us_ring s)"
    and room: "d = br_cap (us_ring s) - br_tail (us_ring s) mod br_cap (us_ring s)"
  shows "\<exists>s'. us_send k s m = Some (s', int (length m)) \<and>
    us_wire s' = us_wire s @ stretch (us_ring s) (br_tail (us_ring s)) d @ take (length m - d) m \<and>
    0 < d \<and> d < kHeaderBytes \<and> br_tail (us_ring s') = br_head (us_ring s') + d"
proof -
  have "0 < br_cap (us_ring s)" using assms(2) by (auto simp: idle_def)
  note d = gap_start [OF gap this, folded room]
  obtain s' buf where s': "us_send k s m = Some (s', int (length m))"
    "us_wire s' = us_wire s @ stretch ((us_ring s)\<lparr>br_buf := buf\<rparr>) (br_tail (us_ring s)) (length m)"
    "writes_at (br_buf (us_ring s)) buf (br_cap (us_ring s)) (msg_start (br_cap (us_ring s)) (br_tail (us_ring s))) m"
    "us_ring s' = (us_ring s)\<lparr>br_buf := buf, br_head := br_tail (us_ring s) + length m,
       br_tail := msg_start (br_cap (us_ring s)) (br_tail (us_ring s)) + length m\<rparr>"
    by (rule send_plain [OF assms(1-5)])
  have "stretch ((us_ring s)\<lparr>br_buf := buf\<rparr>) (br_tail (us_ring s)) (length m) =
      stretch (us_ring s) (br_tail (us_ring s)) d @ take (length m - d) m"
    by (rule gap_stretch) (use s'(3) d assms(3,4) in simp_all)
  then show ?thesis using s'(1,2,4) d by simp
qed

theorem sender_sends_gap_witness:
  "\<exists>s'. us_send one_byte_kernel ((new_sender 64)\<lparr>us_ring := (new_ring 64)\<lparr>br_head := 60, br_tail := 60\<rparr>\<rparr>) (replicate 12 1) = Some (s', 12) \<and>
    us_wire s' = [0, 0, 0, 0] @ replicate 8 1 \<and> br_tail (us_ring s') = br_head (us_ring s') + 4"
proof -
  let ?r = "(new_ring 64)\<lparr>br_head := 60, br_tail := 60\<rparr>" and ?m = "replicate 12 1 :: bytes"
  let ?s = "(new_sender 64)\<lparr>us_ring := ?r\<rparr>"
  have p: "is_pow2 64" using is_pow2_power [of 6] by simp
  have k: "plain_kernel one_byte_kernel" by (simp add: plain_kernel_def one_byte_kernel_def)
  have i: "idle ?s" using p by (simp add: idle_def new_sender_def new_ring_def)
  have m: "kHeaderBytes < length ?m" "2 * length ?m \<le> br_cap (us_ring ?s)" "length ?m < 2 ^ 64"
    "msg_start (br_cap (us_ring ?s)) (br_tail (us_ring ?s)) \<noteq> br_tail (us_ring ?s)"
    "4 = br_cap (us_ring ?s) - br_tail (us_ring ?s) mod br_cap (us_ring ?s)"
    by (simp_all add: new_ring_def msg_start_def)
  have st: "stretch (us_ring ?s) (br_tail (us_ring ?s)) 4 = [0, 0, 0, 0]" by (simp add: stretch_def new_ring_def upt_rec)
  have w: "us_wire ?s = []" "int (length ?m) = 12" "take (length ?m - 4) ?m = replicate 8 1" by (simp_all add: new_sender_def)
  show ?thesis using sender_sends_gap [OF k i m] unfolding st w by (simp only: append_Nil) blast
qed

text \<open>A kernel that also posts the notification of a zero-copy send makes the sender take it for the result
  of the next send: the second message is reported as failed although it is on the wire, and for a
  longer third one the result of the second is taken, so its end is sent twice.\<close>

theorem notifications_taken_for_results:
  assumes "notifying_kernel k" "settled s []"
    and "\<forall>m\<in>{a, b, c}. kHeaderBytes < length m \<and> 2 * length m \<le> br_cap (us_ring s) \<and> length m < 2 ^ 64"
    and "br_tail (us_ring s) mod br_cap (us_ring s) + length a + length b + length c \<le> br_cap (us_ring s)" "length b < length c"
  shows "\<exists>s'. us_sends k s [a, b, c] = Some (s', [int (length a), - 1, - 1]) \<and>
    us_wire s' = us_wire s @ a @ b @ c @ drop (length b) c"
proof -
  let ?c = "br_cap (us_ring s)" and ?t = "br_tail (us_ring s)"
  have fit: "(?t + n) mod ?c + m \<le> ?c" if "0 < m" "?t mod ?c + n + m \<le> ?c" for n m
  proof -
    have "(?t mod ?c + n) mod ?c = ?t mod ?c + n" using that by (intro mod_less) linarith
    then show ?thesis using that(2) unfolding mod_add_left_eq by simp
  qed
  have la: "kHeaderBytes < length a" "2 * length a \<le> ?c" "length a < 2 ^ 64" and lb: "kHeaderBytes < length b" "2 * length b \<le> ?c" "length b < 2 ^ 64"
    and lc: "kHeaderBytes < length c" "2 * length c \<le> ?c" "length c < 2 ^ 64" using assms(3) by simp_all
  have fa: "?t mod ?c + length a \<le> ?c" using assms(4) by linarith
  obtain s1 where s1: "us_send k s a = Some (s1, int (length a))" "us_wire s1 = us_wire s @ a" "settled s1 [0]"
    "br_cap (us_ring s1) = ?c" "br_tail (us_ring s1) = ?t + length a"
    by (rule send_stale [OF assms(1,2) la fa, of "int (length a)" "[0]"]) (use la in \<open>auto split: if_splits\<close>)
  have fb: "br_tail (us_ring s1) mod br_cap (us_ring s1) + length b \<le> br_cap (us_ring s1)"
    unfolding s1(4,5) by (rule fit) (use lb assms(4) in linarith)+
  obtain s2 where s2: "us_send k s1 b = Some (s2, - 1)" "us_wire s2 = us_wire s1 @ b" "settled s2 [int (length b), 0]"
    "br_cap (us_ring s2) = ?c" "br_tail (us_ring s2) = ?t + length a + length b"
    by (rule send_stale [OF assms(1) s1(3) lb(1) _ lb(3) fb, of 0 "[int (length b), 0]"]) (use lb s1(4,5) in auto)
  have fc: "br_tail (us_ring s2) mod br_cap (us_ring s2) + length c \<le> br_cap (us_ring s2)"
    unfolding s2(4,5) add.assoc by (rule fit) (use lc assms(4) in linarith)+
  have lc2: "2 * length c \<le> br_cap (us_ring s2)" and b0: "0 < length b" using lc lb s2(4) by linarith+
  obtain s3 where s3: "us_send k s2 c = Some (s3, - 1)" "us_wire s3 = us_wire s2 @ c @ drop (length b) c"
    by (rule send_short_stale [OF assms(1) s2(3) b0 assms(5) lc(1) lc2 lc(3) fc])
  show ?thesis using s1(1,2) s2(1,2) s3 by simp
qed

definition zero_copy_kernel :: kernel where
  "zero_copy_kernel = \<lparr>k_answer = (\<lambda>_. Accepted), k_takes = (\<lambda>_ n. n), k_posts = (\<lambda>_ n. [int n, 0])\<rparr>"

theorem notifications_taken_for_results_witness:
  "\<exists>s'. us_sends zero_copy_kernel (new_sender 128) [replicate 49 1, replicate 19 2, replicate 49 3] = Some (s', [49, - 1, - 1]) \<and>
    us_wire s' = replicate 49 1 @ replicate 19 2 @ replicate 49 3 @ replicate 30 3"
proof -
  have p: "is_pow2 128" using is_pow2_power [of 7] by simp
  show ?thesis
    using notifications_taken_for_results [of zero_copy_kernel "new_sender 128" "replicate 49 1" "replicate 19 2" "replicate 49 3"] p
    by (simp add: notifying_kernel_def zero_copy_kernel_def settled_def new_sender_def new_ring_def)
qed

end
