(* ===== verification/Uring_Receiver.thy ===== *)
theory Uring_Receiver
  imports Byte_Ring "HOL-Library.Multiset"
begin

text \<open>
  The io_uring receiver: the pool of fixed buffers and the completions of \<^verbatim>\<open>core/net/io_uring_poller.h\<close>, and the
  calls of \<^verbatim>\<open>core/net/io_uring_receiver.cpp\<close>, one packet at a time or with many requests in flight. What the
  kernel completes while a call waits is an argument. The submission ring is abstracted to the buffers
  whose requests have been handed over and not completed; it has 256 entries for 64 buffers, but the code
  handles a full ring, so every preparation of a request takes a flag whether there is room.
\<close>

section \<open>The poller\<close>

abbreviation MAX_BUFFERS :: nat where "MAX_BUFFERS \<equiv> 64"
abbreviation BUF_SIZE :: nat where "BUF_SIZE \<equiv> 8192"

text \<open>A completion carries a buffer and a result, or is that of a timeout.\<close>

datatype completion = Timeout | Done (done_buf: nat) (done_res: int)

record poller =
  up_bufs :: "nat \<Rightarrow> nat \<Rightarrow> u8"
  up_stack :: "nat list"
  up_top :: nat
  up_ready :: "nat list"
  up_res :: "int list"
  up_head :: nat
  up_len :: nat
  up_flight :: "nat list"
  up_cq :: "completion list"

definition new_poller :: poller where
  "new_poller = \<lparr>up_bufs = (\<lambda>_ _. 0), up_stack = replicate MAX_BUFFERS 0, up_top = 0, up_ready = replicate MAX_BUFFERS 0,
     up_res = replicate MAX_BUFFERS 0, up_head = 0, up_len = 0, up_flight = [], up_cq = []\<rparr>"

text \<open>\<open>init\<close> with the results of the two calls to the kernel; it starts on an empty ring.\<close>

definition poller_init :: "poller \<Rightarrow> bool \<Rightarrow> bool \<Rightarrow> poller \<times> bool" where
  "poller_init p queue_ok register_ok =
     (if \<not> queue_ok then (p, False)
      else (p\<lparr>up_stack := map (\<lambda>i. MAX_BUFFERS - 1 - i) [0..<MAX_BUFFERS], up_top := MAX_BUFFERS, up_flight := [], up_cq := []\<rparr>, register_ok))"

definition alloc_buffer :: "poller \<Rightarrow> poller \<times> nat option" where
  "alloc_buffer p = (if up_top p = 0 then (p, None) else (p\<lparr>up_top := up_top p - 1\<rparr>, Some (up_stack p ! (up_top p - 1))))"

definition free_buffer :: "poller \<Rightarrow> nat \<Rightarrow> poller" where
  "free_buffer p b = (if up_top p < MAX_BUFFERS then p\<lparr>up_stack := (up_stack p)[up_top p := b], up_top := up_top p + 1\<rparr> else p)"

definition fill_recv_sqe :: "poller \<Rightarrow> bool \<Rightarrow> nat \<Rightarrow> poller \<times> bool" where
  "fill_recv_sqe p room b = (if room then (p\<lparr>up_flight := up_flight p @ [b]\<rparr>, True) else (p, False))"

text \<open>\<open>submit_inflight\<close>; \<open>room k\<close> is whether the ring has room when \<open>k\<close> turns of the loop remain after this one.\<close>

fun submit_inflight :: "poller \<Rightarrow> (nat \<Rightarrow> bool) \<Rightarrow> nat \<Rightarrow> poller \<times> nat" where
  "submit_inflight p room 0 = (p, 0)"
| "submit_inflight p room (Suc k) =
     (case alloc_buffer p of
        (p1, None) \<Rightarrow> (p1, 0)
      | (p1, Some b) \<Rightarrow>
          (case fill_recv_sqe p1 (room k) b of
             (p2, False) \<Rightarrow> (free_buffer p2 b, 0)
           | (p2, True) \<Rightarrow> (case submit_inflight p2 room k of (p3, n) \<Rightarrow> (p3, n + 1))))"

definition resubmit_recv :: "poller \<Rightarrow> bool \<Rightarrow> nat \<Rightarrow> poller" where
  "resubmit_recv p room b = (case fill_recv_sqe p room b of (p1, ok) \<Rightarrow> if ok then p1 else free_buffer p1 b)"

definition ready_slot :: "poller \<Rightarrow> nat \<Rightarrow> nat" where
  "ready_slot p i = (up_head p + i) AND (MAX_BUFFERS - 1)"

text \<open>One completion in the loop of \<open>reap_more\<close>: with the number added and whether an error was seen.\<close>

definition reap_cqe :: "completion \<Rightarrow> poller \<times> nat \<times> bool \<Rightarrow> poller \<times> nat \<times> bool" where
  "reap_cqe c st =
     (case st of (p, added, err) \<Rightarrow>
       (case c of
          Timeout \<Rightarrow> (p, added, err)
        | Done b res \<Rightarrow>
            if res \<ge> 0 then
              (if up_len p < MAX_BUFFERS
               then (p\<lparr>up_ready := (up_ready p)[ready_slot p (up_len p) := b], up_res := (up_res p)[ready_slot p (up_len p) := res],
                       up_len := up_len p + 1\<rparr>, added + 1, err)
               else (free_buffer p b, added, err))
            else (free_buffer p b, added, True)))"

definition reap_more :: "poller \<Rightarrow> poller \<times> int" where
  "reap_more p =
     (case fold reap_cqe (up_cq p) (p\<lparr>up_cq := []\<rparr>, 0, False) of (p', added, err) \<Rightarrow> (p', if err then - 1 else int added))"

definition take_ready :: "poller \<Rightarrow> poller \<times> (nat \<times> int) option" where
  "take_ready p =
     (if up_len p = 0 then (p, None)
      else (p\<lparr>up_head := up_head p + 1, up_len := up_len p - 1\<rparr>, Some (up_ready p ! ready_slot p 0, up_res p ! ready_slot p 0)))"

definition ready_empty :: "poller \<Rightarrow> bool" where
  "ready_empty p \<longleftrightarrow> up_len p = 0"

text \<open>\<open>process_cqes\<close> calls back with every result that is not a timeout's.\<close>

definition process_cqes :: "poller \<Rightarrow> poller \<times> int list" where
  "process_cqes p = (p\<lparr>up_cq := []\<rparr>, concat (map (\<lambda>c. case c of Timeout \<Rightarrow> [] | Done b res \<Rightarrow> [res]) (up_cq p)))"

definition has_cqe :: "poller \<Rightarrow> bool" where
  "has_cqe p \<longleftrightarrow> up_cq p \<noteq> []"

section \<open>What the kernel does\<close>

text \<open>A request in flight completes with a datagram, which is in the buffer then, cut off at its size, or with
  an error; or a timeout expires.\<close>

datatype arrival = Datagram nat bytes | Failure nat int | Tick

fun kernel_post :: "poller \<Rightarrow> arrival \<Rightarrow> poller" where
  "kernel_post p (Datagram b d) = p\<lparr>up_bufs := (up_bufs p)(b := copy_in (up_bufs p b) 0 (take BUF_SIZE d)),
     up_flight := remove1 b (up_flight p), up_cq := up_cq p @ [Done b (int (length (take BUF_SIZE d)))]\<rparr>"
| "kernel_post p (Failure b e) = p\<lparr>up_flight := remove1 b (up_flight p), up_cq := up_cq p @ [Done b e]\<rparr>"
| "kernel_post p Tick = p\<lparr>up_cq := up_cq p @ [Timeout]\<rparr>"

text \<open>Only requests in flight complete, and an error is negative.\<close>

fun arrival_ok :: "poller \<Rightarrow> arrival \<Rightarrow> bool" where
  "arrival_ok p (Datagram b d) \<longleftrightarrow> b \<in> set (up_flight p)"
| "arrival_ok p (Failure b e) \<longleftrightarrow> b \<in> set (up_flight p) \<and> e < 0"
| "arrival_ok p Tick \<longleftrightarrow> True"

fun arrivals_ok :: "poller \<Rightarrow> arrival list \<Rightarrow> bool" where
  "arrivals_ok p [] \<longleftrightarrow> True"
| "arrivals_ok p (a # as) \<longleftrightarrow> arrival_ok p a \<and> arrivals_ok (kernel_post p a) as"

section \<open>The receiver\<close>

record receiver =
  ur_open :: bool
  ur_running :: bool
  ur_blocking :: bool
  ur_pending :: bool
  ur_batch :: bool
  ur_buf :: "nat option"
  ur_poller :: poller

definition new_receiver :: receiver where
  "new_receiver = \<lparr>ur_open = False, ur_running = False, ur_blocking = True, ur_pending = False, ur_batch = False, ur_buf = None, ur_poller = new_poller\<rparr>"

text \<open>\<open>start\<close> with the results of \<open>socket\<close>, \<open>bind\<close> and the two calls of \<open>init\<close>.\<close>

definition ur_start :: "receiver \<Rightarrow> bool \<Rightarrow> bool \<Rightarrow> bool \<Rightarrow> bool \<Rightarrow> receiver \<times> bool" where
  "ur_start r socket_ok bind_ok queue_ok register_ok =
     (if ur_running r then (r, True)
      else if \<not> socket_ok then (r\<lparr>ur_open := False\<rparr>, False)
      else if \<not> bind_ok then (r\<lparr>ur_open := False\<rparr>, False)
      else
        (case poller_init (ur_poller r) queue_ok register_ok of
           (p, False) \<Rightarrow> (r\<lparr>ur_open := False, ur_poller := p\<rparr>, False)
         | (p, True) \<Rightarrow>
             (case alloc_buffer p of
                (p1, None) \<Rightarrow> (r\<lparr>ur_open := False, ur_poller := p1, ur_buf := None\<rparr>, False)
              | (p1, Some b) \<Rightarrow> (r\<lparr>ur_open := True, ur_poller := p1, ur_buf := Some b, ur_running := True\<rparr>, True))))"

text \<open>The loop of \<open>stop\<close> that returns the ready buffers.\<close>

function drain_ready :: "poller \<Rightarrow> poller" where
  "drain_ready p =
     (if ready_empty p then p
      else (case take_ready p of (p1, Some (b, n)) \<Rightarrow> drain_ready (free_buffer p1 b) | (p1, None) \<Rightarrow> p1))"
  by pat_completeness auto

termination
  by (relation "measure up_len") (auto simp: take_ready_def free_buffer_def ready_empty_def split: if_splits)

declare drain_ready.simps [simp del]

definition ur_stop :: "receiver \<Rightarrow> receiver" where
  "ur_stop r =
     (if \<not> ur_running r then r
      else
        (let p = (case ur_buf r of Some b \<Rightarrow> free_buffer (ur_poller r) b | None \<Rightarrow> ur_poller r)
         in r\<lparr>ur_running := False, ur_open := False, ur_buf := None, ur_poller := drain_ready p\<rparr>))"

definition ur_set_blocking :: "receiver \<Rightarrow> bool \<Rightarrow> receiver" where
  "ur_set_blocking r b = r\<lparr>ur_blocking := b\<rparr>"

text \<open>What a call returns: the bytes and the number, or an error.\<close>

datatype recv_result = Received bytes | Nothing | Failed int

text \<open>What a wait of 50 ms ends with: completions, and whether the receiver is still running afterwards, or an
  error, with the value of \<open>errno\<close> the code looks at.\<close>

datatype wait = Woken "arrival list" bool | Wait_failed int

text \<open>The waiting loop of a blocking \<open>recv\<close>. \<open>None\<close>: it is still waiting.\<close>

fun recv_wait :: "receiver \<Rightarrow> nat \<Rightarrow> nat \<Rightarrow> wait list \<Rightarrow> (receiver \<times> recv_result) option" where
  "recv_wait r b len [] = None"
| "recv_wait r b len (Wait_failed e # ws) = (if e = EINTR then recv_wait r b len ws else Some (r, Failed e))"
| "recv_wait r b len (Woken as run # ws) =
     (let r0 = r\<lparr>ur_running := run, ur_poller := foldl kernel_post (ur_poller r) as\<rparr> in
      case process_cqes (ur_poller r0) of (p, results) \<Rightarrow>
        (let r1 = r0\<lparr>ur_poller := p\<rparr> in
         if results = [] then (if \<not> run then Some (r1, Nothing) else recv_wait r1 b len ws)
         else
           (let result = last results; r2 = r1\<lparr>ur_pending := False\<rparr> in
            if result \<ge> 0 then Some (r2, Received (copy_out (up_bufs p b) 0 (min (nat result) len)))
            else if \<not> run then Some (r2, Nothing)
            else if result = - EAGAIN then recv_wait r2 b len ws
            else Some (r2, Failed (- result)))))"

definition ur_recv :: "receiver \<Rightarrow> bool \<Rightarrow> nat \<Rightarrow> wait list \<Rightarrow> (receiver \<times> recv_result) option" where
  "ur_recv r room len ws =
     (if \<not> ur_running r \<or> len = 0 then Some (r, Nothing)
      else
        (let b = the (ur_buf r);
             (r1, ok) = (if ur_pending r then (r, True)
                         else (case fill_recv_sqe (ur_poller r) room b of (p, ok) \<Rightarrow> (r\<lparr>ur_poller := p, ur_pending := ok\<rparr>, ok)))
         in
         if \<not> ok then Some (r1, Failed 0)
         else if \<not> ur_blocking r then
           (let r2 = (case ws of Woken as run # _ \<Rightarrow> r1\<lparr>ur_poller := foldl kernel_post (ur_poller r1) as\<rparr> | _ \<Rightarrow> r1) in
            if \<not> has_cqe (ur_poller r2) then Some (r2, Nothing)
            else
              (case process_cqes (ur_poller r2) of (p, results) \<Rightarrow>
                 (let result = (if results = [] then 0 else last results); r3 = r2\<lparr>ur_poller := p, ur_pending := False\<rparr> in
                  if result \<ge> 0 then Some (r3, Received (copy_out (up_bufs p b) 0 (min (nat result) len)))
                  else if result = - EAGAIN then Some (r3, Nothing)
                  else Some (r3, Failed (- result)))))
         else recv_wait r1 b len ws))"

text \<open>The order connection reads its reports on the same socket it sends on: \<open>IoUringSender::recv\<close> has a poller, a buffer and
  flags of its own and the body of the receiver's \<open>recv\<close>, without the probe.\<close>

definition us_recv :: "receiver \<Rightarrow> bool \<Rightarrow> nat \<Rightarrow> wait list \<Rightarrow> (receiver \<times> recv_result) option" where
  "us_recv r room len ws = ur_recv r room len ws"

section \<open>Many requests in flight\<close>

definition begin_batch :: "receiver \<Rightarrow> (nat \<Rightarrow> bool) \<Rightarrow> receiver" where
  "begin_batch r room = (if ur_batch r then r
     else r\<lparr>ur_poller := fst (submit_inflight (ur_poller r) room MAX_BUFFERS), ur_batch := True\<rparr>)"

text \<open>The loop of \<open>recv_batch\<close> until a packet is ready, with the waits that are left; \<open>Some\<close> result ends the call.\<close>

fun reap_until :: "poller \<Rightarrow> (arrival list \<times> bool) list \<Rightarrow> (poller \<times> recv_result option \<times> (arrival list \<times> bool) list) option" where
  "reap_until p [] = (if ready_empty p then None else Some (p, None, []))"
| "reap_until p ((as, run) # ws) =
     (if \<not> ready_empty p then Some (p, None, (as, run) # ws)
      else
        (case reap_more (foldl kernel_post p as) of (p1, n) \<Rightarrow>
           if n < 0 then Some (p1, Some (if run then Failed 0 else Nothing), ws)
           else if n = 0 \<and> \<not> run then Some (p1, Some Nothing, ws)
           else reap_until p1 ws))"

definition recv_batch :: "receiver \<Rightarrow> nat \<Rightarrow> bool \<Rightarrow> (arrival list \<times> bool) list \<Rightarrow> (receiver \<times> recv_result \<times> (arrival list \<times> bool) list) option" where
  "recv_batch r len room ws =
     (if \<not> ur_running r \<or> len = 0 then Some (r, Nothing, ws)
      else if \<not> ur_batch r then Some (r, Failed 0, ws)
      else
        (case reap_until (ur_poller r) ws of
           None \<Rightarrow> None
         | Some (p, Some res, ws') \<Rightarrow> Some (r\<lparr>ur_poller := p\<rparr>, res, ws')
         | Some (p, None, ws') \<Rightarrow>
             (case take_ready p of
                (p1, None) \<Rightarrow> None
              | (p1, Some (b, n)) \<Rightarrow>
                  Some (r\<lparr>ur_poller := resubmit_recv p1 room b\<rparr>, Received (copy_out (up_bufs p1 b) 0 (min (nat n) len)), ws'))))"

section \<open>Every buffer has one owner\<close>

definition ready_list :: "poller \<Rightarrow> (nat \<times> int) list" where
  "ready_list p = map (\<lambda>i. (up_ready p ! ((up_head p + i) mod MAX_BUFFERS), up_res p ! ((up_head p + i) mod MAX_BUFFERS))) [0..<up_len p]"

fun done_of :: "completion \<Rightarrow> (nat \<times> int) list" where
  "done_of Timeout = []"
| "done_of (Done b n) = [(b, n)]"

abbreviation cq_list :: "completion list \<Rightarrow> (nat \<times> int) list" where
  "cq_list cq \<equiv> concat (map done_of cq)"

text \<open>The free buffers, those that are ready, in flight and completed, and the rest \<open>X\<close> are all buffers, each once.\<close>

definition pool_ok :: "poller \<Rightarrow> nat multiset \<Rightarrow> bool" where
  "pool_ok p X \<longleftrightarrow> length (up_stack p) = MAX_BUFFERS \<and> length (up_ready p) = MAX_BUFFERS \<and> length (up_res p) = MAX_BUFFERS \<and>
     up_top p \<le> MAX_BUFFERS \<and> up_len p \<le> MAX_BUFFERS \<and>
     mset (take (up_top p) (up_stack p)) + mset (map fst (ready_list p)) + mset (up_flight p) + mset (map fst (cq_list (up_cq p))) + X =
       mset [0..<MAX_BUFFERS]"

lemma ready_slot_mod: "ready_slot p i = (up_head p + i) mod MAX_BUFFERS"
proof -
  have "is_pow2 MAX_BUFFERS" using is_pow2_power [of 6] by simp
  from and_pow2_mod [OF this, of "up_head p + i"] show ?thesis by (simp add: ready_slot_def)
qed

lemma length_ready_list [simp]: "length (ready_list p) = up_len p"
  by (simp add: ready_list_def)

lemma pool_size:
  assumes "pool_ok p X"
  shows "up_top p + up_len p + length (up_flight p) + length (cq_list (up_cq p)) + size X = MAX_BUFFERS"
proof -
  have m: "mset (take (up_top p) (up_stack p)) + mset (map fst (ready_list p)) + mset (up_flight p) + mset (map fst (cq_list (up_cq p))) + X =
       mset [0..<MAX_BUFFERS]" and t: "up_top p \<le> MAX_BUFFERS" "length (up_stack p) = MAX_BUFFERS"
    using assms by (simp_all add: pool_ok_def)
  have "size (mset (take (up_top p) (up_stack p)) + mset (map fst (ready_list p)) + mset (up_flight p) + mset (map fst (cq_list (up_cq p))) + X) = MAX_BUFFERS"
    unfolding m by simp
  then show ?thesis using t by (simp only: size_union size_mset length_map length_take length_ready_list min_absorb2)
qed

lemma alloc_ok:
  assumes "pool_ok p X" "alloc_buffer p = (p', Some b)"
  shows "pool_ok p' (add_mset b X) \<and> up_flight p' = up_flight p \<and> up_cq p' = up_cq p \<and> ready_list p' = ready_list p \<and> up_bufs p' = up_bufs p"
proof -
  have t: "up_top p \<noteq> 0" "p' = p\<lparr>up_top := up_top p - 1\<rparr>" "b = up_stack p ! (up_top p - 1)"
    using assms(2) by (auto simp: alloc_buffer_def split: if_splits)
  have "up_top p \<le> length (up_stack p)" using assms(1) by (simp add: pool_ok_def)
  then have "take (up_top p) (up_stack p) = take (up_top p - 1) (up_stack p) @ [b]"
    using take_Suc_conv_app_nth [of "up_top p - 1" "up_stack p"] t by simp
  then show ?thesis using assms(1) t by (auto simp: pool_ok_def ready_list_def)
qed

lemma free_ok:
  assumes "pool_ok p (add_mset b X)"
  shows "pool_ok (free_buffer p b) X \<and> up_flight (free_buffer p b) = up_flight p \<and> up_cq (free_buffer p b) = up_cq p \<and>
    ready_list (free_buffer p b) = ready_list p \<and> up_bufs (free_buffer p b) = up_bufs p"
proof -
  have t: "up_top p < MAX_BUFFERS" using pool_size [OF assms] by simp
  have "length (up_stack p) = MAX_BUFFERS" using assms by (simp add: pool_ok_def)
  then have "take (up_top p + 1) ((up_stack p)[up_top p := b]) = take (up_top p) (up_stack p) @ [b]"
    using t by (simp add: take_Suc_conv_app_nth)
  then show ?thesis using assms t by (auto simp: pool_ok_def free_buffer_def ready_list_def)
qed

lemma fill_ok:
  assumes "pool_ok p (add_mset b X)" "fill_recv_sqe p room b = (p', ok)"
  shows "(if ok then pool_ok p' X else p' = p) \<and> ready_list p' = ready_list p \<and> up_cq p' = up_cq p \<and> up_bufs p' = up_bufs p"
  using assms by (auto simp: fill_recv_sqe_def pool_ok_def ready_list_def split: if_splits)

lemma resubmit_ok:
  assumes "pool_ok p (add_mset b X)"
  shows "pool_ok (resubmit_recv p room b) X \<and> ready_list (resubmit_recv p room b) = ready_list p \<and> up_cq (resubmit_recv p room b) = up_cq p \<and>
    up_bufs (resubmit_recv p room b) = up_bufs p"
  using fill_ok [OF assms, of room] free_ok [OF assms] by (cases room) (auto simp: resubmit_recv_def fill_recv_sqe_def)

lemma post_ok:
  assumes "pool_ok p X" "arrival_ok p a"
  shows "pool_ok (kernel_post p a) X"
proof -
  have m: "mset (up_flight p) = add_mset b (mset (remove1 b (up_flight p)))" if "b \<in> set (up_flight p)" for b
    using that by simp
  show ?thesis using assms m by (cases a) (auto simp: pool_ok_def ready_list_def)
qed

lemma ready_push:
  assumes "length (up_ready p) = MAX_BUFFERS" "length (up_res p) = MAX_BUFFERS" "up_len p < MAX_BUFFERS"
  shows "ready_list (p\<lparr>up_ready := (up_ready p)[ready_slot p (up_len p) := b], up_res := (up_res p)[ready_slot p (up_len p) := n],
    up_len := up_len p + 1\<rparr>) = ready_list p @ [(b, n)]"
proof -
  have "(up_head p + up_len p) mod MAX_BUFFERS \<noteq> (up_head p + i) mod MAX_BUFFERS" if "i < up_len p" for i
    using that assms(3) by (intro not_sym [OF mod_neq]) linarith+
  then show ?thesis using assms by (simp add: ready_list_def ready_slot_mod)
qed

section \<open>The datagrams come out in order\<close>

definition packet_at :: "poller \<Rightarrow> nat \<times> int \<Rightarrow> bytes" where
  "packet_at p x = copy_out (up_bufs p (fst x)) 0 (nat (snd x))"

definition good :: "nat \<times> int \<Rightarrow> bool" where
  "good x \<longleftrightarrow> 0 \<le> snd x"

text \<open>The datagrams that have arrived and have not been taken.\<close>

definition content :: "poller \<Rightarrow> bytes list" where
  "content p = map (packet_at p) (ready_list p @ filter good (cq_list (up_cq p)))"

fun datagram :: "arrival \<Rightarrow> bytes list" where
  "datagram (Datagram b d) = [take BUF_SIZE d]"
| "datagram _ = []"

abbreviation datagrams :: "arrival list \<Rightarrow> bytes list" where
  "datagrams as \<equiv> concat (map datagram as)"

lemma copy_in_out: "copy_out (copy_in buf 0 d) 0 (length d) = d"
  by (intro nth_equalityI) (simp_all add: copy_out_def copy_in_def)

lemma pool_disjoint:
  assumes "pool_ok p X" "b \<in> set (up_flight p)"
  shows "b \<notin> fst ` set (ready_list p @ filter good (cq_list (up_cq p)))"
proof
  assume b: "b \<in> fst ` set (ready_list p @ filter good (cq_list (up_cq p)))"
  have "b \<in> set (map fst (ready_list p) @ map fst (cq_list (up_cq p)))" using b by auto
  then have "1 \<le> count (mset (map fst (ready_list p)) + mset (map fst (cq_list (up_cq p)))) b"
    by (metis Suc_leI One_nat_def count_greater_zero_iff mset_append set_mset_mset)
  moreover have "1 \<le> count (mset (up_flight p)) b" using assms(2) by (metis Suc_leI One_nat_def count_greater_zero_iff set_mset_mset)
  moreover have "mset (take (up_top p) (up_stack p)) + mset (map fst (ready_list p)) + mset (up_flight p) + mset (map fst (cq_list (up_cq p))) + X =
       mset [0..<MAX_BUFFERS]" using assms(1) unfolding pool_ok_def by (elim conjE)
  from arg_cong [OF this, of "\<lambda>M. count M b"] have "count (mset (map fst (ready_list p)) + mset (map fst (cq_list (up_cq p)))) b + count (mset (up_flight p)) b \<le>
      count (mset [0..<MAX_BUFFERS]) b" by (simp only: count_union)
  moreover have "count (mset [0..<MAX_BUFFERS]) b = (if b \<in> set [0..<MAX_BUFFERS] then 1 else 0)"
    using distinct_upt [of 0 MAX_BUFFERS] unfolding distinct_count_atmost_1 by (rule spec)
  then have "count (mset [0..<MAX_BUFFERS]) b \<le> 1" by (metis le_refl zero_le)
  ultimately show False by linarith
qed

lemma post_content:
  assumes "pool_ok p X" "arrival_ok p a"
  shows "content (kernel_post p a) = content p @ datagram a"
proof (cases a)
  case (Datagram b d)
  let ?p = "kernel_post p a" and ?xs = "ready_list p @ filter good (cq_list (up_cq p))"
  have "b \<notin> fst ` set ?xs" using pool_disjoint [OF assms(1)] assms(2) Datagram by simp
  then have "packet_at ?p x = packet_at p x" if "x \<in> set ?xs" for x
    using that by (auto simp: packet_at_def Datagram)
  then have "map (packet_at ?p) ?xs = map (packet_at p) ?xs" by simp
  moreover have "ready_list ?p = ready_list p" by (simp add: Datagram ready_list_def)
  moreover have "packet_at ?p (b, int (length (take BUF_SIZE d))) = take BUF_SIZE d"
    using copy_in_out [of _ "take BUF_SIZE d"] by (simp add: packet_at_def Datagram)
  ultimately show ?thesis by (simp add: content_def Datagram good_def)
next
  case (Failure b e)
  then show ?thesis using assms(2) by (simp add: content_def packet_at_def ready_list_def good_def)
next
  case Tick
  then show ?thesis by (simp add: content_def packet_at_def ready_list_def)
qed

lemma posts_ok:
  "pool_ok p X \<Longrightarrow> arrivals_ok p as \<Longrightarrow> pool_ok (foldl kernel_post p as) X \<and> content (foldl kernel_post p as) = content p @ datagrams as"
proof (induction as arbitrary: p)
  case (Cons a as)
  then show ?case using post_ok [of p X a] post_content [of p X a] by simp
qed simp

lemma reap_cqe_ok:
  assumes "pool_ok p (mset (map fst (done_of c)) + X)" "reap_cqe c (p, n, e) = (p', n', e')"
  shows "pool_ok p' X \<and> ready_list p' = ready_list p @ filter good (done_of c) \<and> up_bufs p' = up_bufs p \<and>
    up_cq p' = up_cq p \<and> up_flight p' = up_flight p"
proof (cases c)
  case Timeout
  then show ?thesis using assms by (simp add: reap_cqe_def)
next
  case (Done b res)
  then have ok: "pool_ok p (add_mset b X)" using assms(1) by simp
  have l: "up_len p < MAX_BUFFERS" using pool_size [OF ok] by simp
  show ?thesis
  proof (cases "res \<ge> 0")
    case True
    define p1 where "p1 = p\<lparr>up_ready := (up_ready p)[ready_slot p (up_len p) := b], up_res := (up_res p)[ready_slot p (up_len p) := res], up_len := up_len p + 1\<rparr>"
    have r: "ready_list p1 = ready_list p @ [(b, res)]"
      unfolding p1_def by (rule ready_push) (use ok l in \<open>simp_all add: pool_ok_def\<close>)
    have "p' = p1" using assms(2) True l by (simp add: Done reap_cqe_def p1_def)
    moreover have "pool_ok p1 X" using ok l unfolding pool_ok_def r by (simp add: p1_def)
    ultimately show ?thesis using r True by (simp add: Done good_def p1_def)
  next
    case False
    then have "p' = free_buffer p b" using assms(2) by (simp add: Done reap_cqe_def)
    then show ?thesis using free_ok [OF ok] False by (simp add: Done good_def)
  qed
qed

lemma reap_fold_ok:
  assumes "pool_ok p (mset (map fst (cq_list cs)) + X)" "fold reap_cqe cs (p, n, e) = (p', n', e')"
  shows "pool_ok p' X \<and> ready_list p' = ready_list p @ filter good (cq_list cs) \<and> up_bufs p' = up_bufs p \<and> up_cq p' = up_cq p \<and>
    up_flight p' = up_flight p"
  using assms
proof (induction cs arbitrary: p n e)
  case (Cons c cs)
  obtain p1 n1 e1 where c: "reap_cqe c (p, n, e) = (p1, n1, e1)" by (metis prod_cases3)
  have "pool_ok p (mset (map fst (done_of c)) + (mset (map fst (cq_list cs)) + X))" using Cons.prems(1) by (simp add: add.assoc)
  note r = reap_cqe_ok [OF this c]
  then have "pool_ok p1 (mset (map fst (cq_list cs)) + X)" by blast
  from Cons.IH [OF this, of n1 e1] Cons.prems(2) r show ?case by (simp add: c)
qed simp

lemma reap_more_ok:
  assumes "pool_ok p X" "reap_more p = (p', n)"
  shows "pool_ok p' X \<and> content p' = content p \<and> up_cq p' = [] \<and> up_flight p' = up_flight p"
proof -
  let ?q = "p\<lparr>up_cq := []\<rparr>"
  obtain added err where f: "fold reap_cqe (up_cq p) (?q, 0, False) = (p', added, err)"
    using assms(2) by (auto simp: reap_more_def split: prod.splits)
  have r: "ready_list ?q = ready_list p" by (simp add: ready_list_def)
  have "pool_ok ?q (mset (map fst (cq_list (up_cq p))) + X)" using assms(1) by (simp add: pool_ok_def r add.assoc)
  from reap_fold_ok [OF this f] show ?thesis unfolding r by (simp add: content_def packet_at_def)
qed

lemma take_ready_ok:
  assumes "pool_ok p X" "take_ready p = (p', Some (b, n))"
  shows "pool_ok p' (add_mset b X) \<and> ready_list p = (b, n) # ready_list p' \<and> up_cq p' = up_cq p \<and> up_bufs p' = up_bufs p"
proof -
  have t: "up_len p \<noteq> 0" "p' = p\<lparr>up_head := up_head p + 1, up_len := up_len p - 1\<rparr>" "b = up_ready p ! ready_slot p 0" "n = up_res p ! ready_slot p 0"
    using assms(2) by (auto simp: take_ready_def split: if_splits)
  have "[0..<up_len p] = 0 # map Suc [0..<up_len p - 1]" using t(1) by (simp add: map_Suc_upt upt_conv_Cons)
  then have r: "ready_list p = (b, n) # ready_list p'"
    unfolding ready_list_def by (simp add: t ready_slot_mod)
  then show ?thesis using assms(1) t by (auto simp: pool_ok_def)
qed

section \<open>A call of the batch path\<close>

text \<open>The arrivals of the waits of a call are possible ones.\<close>

fun waits_ok :: "poller \<Rightarrow> (arrival list \<times> bool) list \<Rightarrow> bool" where
  "waits_ok p [] \<longleftrightarrow> True"
| "waits_ok p ((as, run) # ws) \<longleftrightarrow> arrivals_ok p as \<and> waits_ok (fst (reap_more (foldl kernel_post p as))) ws"

abbreviation arrived :: "(arrival list \<times> bool) list \<Rightarrow> bytes list" where
  "arrived ws \<equiv> datagrams (concat (map fst ws))"

lemma reap_until_ok:
  assumes "pool_ok p X" "waits_ok p ws" "reap_until p ws = Some (p', res, ws')"
  shows "\<exists>us. ws = us @ ws' \<and> pool_ok p' X \<and> content p' = content p @ arrived us \<and>
    (case res of None \<Rightarrow> \<not> ready_empty p' | Some x \<Rightarrow> \<forall>d. x \<noteq> Received d)"
  using assms
proof (induction ws arbitrary: p)
  case Nil
  then show ?case by (auto split: if_splits)
next
  case (Cons w ws)
  obtain as run where w: "w = (as, run)" by (cases w)
  show ?case
  proof (cases "ready_empty p")
    case False
    then show ?thesis using Cons.prems by (auto simp: w)
  next
    case True
    obtain p1 n where r: "reap_more (foldl kernel_post p as) = (p1, n)" by fastforce
    have ok: "arrivals_ok p as" "waits_ok p1 ws" using Cons.prems(2) by (simp_all add: w r)
    have p1: "pool_ok p1 X" "content p1 = content p @ datagrams as"
      using reap_more_ok [OF _ r, of X] posts_ok [OF Cons.prems(1) ok(1)] by auto
    show ?thesis
    proof (cases "n < 0 \<or> (n = 0 \<and> \<not> run)")
      case True
      then have "p' = p1" "ws' = ws" "res = Some (if n < 0 \<and> run then Failed 0 else Nothing)"
        using Cons.prems(3) \<open>ready_empty p\<close> by (auto simp: w r split: if_splits)
      then show ?thesis using p1 by (intro exI [of _ "[w]"]) (simp add: w)
    next
      case False
      then have "reap_until p1 ws = Some (p', res, ws')" using Cons.prems(3) True by (auto simp: w r split: if_splits)
      from Cons.IH [OF p1(1) ok(2) this] obtain us where "ws = us @ ws'" "pool_ok p' X" "content p' = content p1 @ arrived us"
        "case res of None \<Rightarrow> \<not> ready_empty p' | Some x \<Rightarrow> \<forall>d. x \<noteq> Received d" by blast
      then show ?thesis using p1(2) by (intro exI [of _ "w # us"]) (simp add: w)
    qed
  qed
qed

fun packets_of :: "recv_result \<Rightarrow> bytes list" where
  "packets_of (Received d) = [d]"
| "packets_of _ = []"

lemma copy_out_take: "copy_out buf i (min m n) = take n (copy_out buf i m)"
  by (simp add: copy_out_def take_map min_def)

lemma recv_batch_ok:
  assumes "pool_ok (ur_poller r) X" "waits_ok (ur_poller r) ws" "recv_batch r len room ws = Some (r', res, ws')"
  shows "\<exists>us ds. ws = us @ ws' \<and> pool_ok (ur_poller r') X \<and> content (ur_poller r) @ arrived us = ds @ content (ur_poller r') \<and>
    packets_of res = map (take len) ds"
proof (cases "\<not> ur_running r \<or> len = 0 \<or> \<not> ur_batch r")
  case True
  then have "r' = r" "ws' = ws" "packets_of res = []" using assms(3) by (auto simp: recv_batch_def split: if_splits)
  then show ?thesis using assms(1) by (intro exI [of _ "[]"]) simp
next
  case False
  then obtain p res1 ws1 where u: "reap_until (ur_poller r) ws = Some (p, res1, ws1)"
    using assms(3) by (auto simp: recv_batch_def split: option.splits)
  from reap_until_ok [OF assms(1,2) u] obtain us where us: "ws = us @ ws1" "pool_ok p X" "content p = content (ur_poller r) @ arrived us"
    "case res1 of None \<Rightarrow> \<not> ready_empty p | Some x \<Rightarrow> \<forall>d. x \<noteq> Received d" by blast
  show ?thesis
  proof (cases res1)
    case (Some x)
    then have "r' = r\<lparr>ur_poller := p\<rparr>" "res = x" "ws' = ws1" using assms(3) False u by (simp_all add: recv_batch_def)
    moreover have "packets_of x = []" using us(4) Some by (cases x) simp_all
    ultimately show ?thesis using us by (intro exI [of _ us] exI [of _ "[]"]) simp
  next
    case None
    then have "up_len p \<noteq> 0" using us(4) by (simp add: ready_empty_def)
    then obtain p1 b n where t: "take_ready p = (p1, Some (b, n))" by (auto simp: take_ready_def)
    note k = take_ready_ok [OF us(2) t]
    then have re: "pool_ok (resubmit_recv p1 room b) X \<and> ready_list (resubmit_recv p1 room b) = ready_list p1 \<and>
        up_cq (resubmit_recv p1 room b) = up_cq p1 \<and> up_bufs (resubmit_recv p1 room b) = up_bufs p1" by (intro resubmit_ok) blast
    have e: "r' = r\<lparr>ur_poller := resubmit_recv p1 room b\<rparr>" "res = Received (copy_out (up_bufs p1 b) 0 (min (nat n) len))" "ws' = ws1"
      using assms(3) False u None t by (simp_all add: recv_batch_def)
    have "content p = copy_out (up_bufs p1 b) 0 (nat n) # content (resubmit_recv p1 room b)"
      using k re by (simp add: content_def packet_at_def [abs_def])
    then show ?thesis using us e re copy_out_take [of "up_bufs p1 b" 0 "nat n" len]
      by (intro exI [of _ us] exI [of _ "[copy_out (up_bufs p1 b) 0 (nat n)]"]) simp
  qed
qed

section \<open>Runs of the batch path\<close>

lemma submit_ok:
  assumes "pool_ok p X" "submit_inflight p room k = (p', n)"
  shows "pool_ok p' X \<and> content p' = content p"
  using assms
proof (induction k arbitrary: p n)
  case (Suc k)
  show ?case
  proof (cases "alloc_buffer p")
    case (Pair p1 bo)
    show ?thesis
    proof (cases bo)
      case None
      then have "p1 = p" using Pair by (simp add: alloc_buffer_def split: if_splits)
      then show ?thesis using Suc.prems Pair None by simp
    next
      case (Some b)
      note a = alloc_ok [OF Suc.prems(1) Pair [unfolded Some]]
      obtain p2 ok where f: "fill_recv_sqe p1 (room k) b = (p2, ok)" by fastforce
      from a have a1: "pool_ok p1 (add_mset b X)" by blast
      note fo = fill_ok [OF a1 f] and fr = free_ok [OF a1]
      have c: "content p2 = content p" "content (free_buffer p1 b) = content p"
        using a fo fr by (simp_all add: content_def packet_at_def [abs_def])
      show ?thesis
      proof (cases ok)
        case True
        then obtain m where m: "submit_inflight p2 room k = (p', m)" using Suc.prems(2) Pair Some f by (auto split: prod.splits)
        from Suc.IH [OF _ m] show ?thesis using fo c True by simp
      next
        case False
        then show ?thesis using Suc.prems(2) Pair Some f fo fr c by simp
      qed
    qed
  qed
qed simp

text \<open>A sequence of calls, each with the waits it goes through; and that these are possible and all used.\<close>

fun calls_ok :: "receiver \<Rightarrow> nat \<Rightarrow> (arrival list \<times> bool) list list \<Rightarrow> bool" where
  "calls_ok r len [] \<longleftrightarrow> True"
| "calls_ok r len (ws # wss) \<longleftrightarrow> waits_ok (ur_poller r) ws \<and>
     (case recv_batch r len True ws of Some (r1, res, []) \<Rightarrow> calls_ok r1 len wss | _ \<Rightarrow> False)"

fun recv_batches :: "receiver \<Rightarrow> nat \<Rightarrow> (arrival list \<times> bool) list list \<Rightarrow> receiver \<times> recv_result list" where
  "recv_batches r len [] = (r, [])"
| "recv_batches r len (ws # wss) =
     (case recv_batch r len True ws of
        None \<Rightarrow> (r, [])
      | Some (r1, res, _) \<Rightarrow> (case recv_batches r1 len wss of (r2, outs) \<Rightarrow> (r2, res # outs)))"

lemma recv_batches_ok:
  assumes "pool_ok (ur_poller r) X" "calls_ok r len wss" "recv_batches r len wss = (r', outs)"
  shows "pool_ok (ur_poller r') X \<and>
    map (take len) (content (ur_poller r) @ arrived (concat wss)) = concat (map packets_of outs) @ map (take len) (content (ur_poller r'))"
  using assms
proof (induction wss arbitrary: r outs)
  case (Cons ws wss)
  obtain r1 res where b: "recv_batch r len True ws = Some (r1, res, [])" "calls_ok r1 len wss" "waits_ok (ur_poller r) ws"
    using Cons.prems(2) by (auto split: option.splits prod.splits list.splits)
  obtain outs1 where o: "recv_batches r1 len wss = (r', outs1)" "outs = res # outs1"
    using Cons.prems(3) b(1) by (auto split: prod.splits)
  obtain ds where ds: "pool_ok (ur_poller r1) X" "content (ur_poller r) @ arrived ws = ds @ content (ur_poller r1)"
    "packets_of res = map (take len) ds" using recv_batch_ok [OF Cons.prems(1) b(3,1)] by auto
  note IH = Cons.IH [OF ds(1) b(2) o(1)]
  have e: "content (ur_poller r) @ arrived (concat (ws # wss)) = ds @ content (ur_poller r1) @ arrived (concat wss)" using ds(2) by simp
  have "concat (map packets_of outs) = map (take len) ds @ concat (map packets_of outs1)" using ds(3) o(2) by simp
  then show ?case unfolding e using IH by simp
qed simp

lemma started_ok:
  assumes "ur_start new_receiver True True True True = (r, ok)"
  shows "pool_ok (ur_poller r) {#0#} \<and> content (ur_poller r) = [] \<and> ur_running r \<and> \<not> ur_batch r \<and> ur_blocking r \<and> \<not> ur_pending r \<and> ur_buf r = Some 0"
proof -
  let ?p0 = "fst (poller_init new_poller True True)"
  have tk: "take MAX_BUFFERS (map (\<lambda>i. MAX_BUFFERS - 1 - i) [0..<MAX_BUFFERS]) = map (\<lambda>i. MAX_BUFFERS - 1 - i) [0..<MAX_BUFFERS]" by simp
  have "bij_betw (\<lambda>i. MAX_BUFFERS - 1 - i) {0..<MAX_BUFFERS} {0..<MAX_BUFFERS}"
    by (rule bij_betw_byWitness [where f' = "\<lambda>i. MAX_BUFFERS - 1 - i"]) auto
  then have "mset (map (\<lambda>i. MAX_BUFFERS - 1 - i) [0..<MAX_BUFFERS]) = mset [0..<MAX_BUFFERS]"
    by (metis (no_types, lifting) atLeastLessThan_upt bij_betw_def image_mset_mset_set mset_map mset_upt)
  then have p0: "pool_ok ?p0 {#}"
    by (simp add: pool_ok_def poller_init_def new_poller_def ready_list_def tk del: upt_rec_numeral)
  obtain p1 b where a: "alloc_buffer ?p0 = (p1, Some b)" by (simp add: alloc_buffer_def poller_init_def)
  have b: "b = 0" using a by (simp add: alloc_buffer_def poller_init_def del: upt_rec_numeral split: if_splits)
  have "r = new_receiver\<lparr>ur_open := True, ur_poller := p1, ur_buf := Some b, ur_running := True\<rparr>"
    using assms a by (simp add: ur_start_def poller_init_def new_receiver_def)
  moreover have "content p1 = []" using alloc_ok [OF p0 a]
    by (simp add: content_def poller_init_def new_poller_def ready_list_def)
  ultimately show ?thesis using alloc_ok [OF p0 a] b by (simp add: new_receiver_def)
qed

section \<open>Waiting for a request that is not there\<close>

text \<open>The waits of a single-packet call are possible ones, the receiver keeps running and waiting fails only by
  an interrupt.\<close>

fun undisturbed :: "poller \<Rightarrow> wait list \<Rightarrow> bool" where
  "undisturbed p [] \<longleftrightarrow> True"
| "undisturbed p (Wait_failed e # ws) \<longleftrightarrow> e = EINTR \<and> undisturbed p ws"
| "undisturbed p (Woken as run # ws) \<longleftrightarrow> run \<and> arrivals_ok p as \<and> undisturbed (fst (process_cqes (foldl kernel_post p as))) ws"

lemma ticks_only:
  assumes "up_flight p = []" "arrivals_ok p as"
  shows "up_flight (foldl kernel_post p as) = [] \<and> cq_list (up_cq (foldl kernel_post p as)) = cq_list (up_cq p)"
  using assms
proof (induction as arbitrary: p)
  case (Cons a as)
  then show ?case by (cases a) auto
qed simp

lemma process_results: "snd (process_cqes p) = map snd (cq_list (up_cq p))"
proof -
  have "(case c of Timeout \<Rightarrow> [] | Done b res \<Rightarrow> [res]) = map snd (done_of c)" for c by (cases c) simp_all
  then show ?thesis by (simp add: process_cqes_def map_concat comp_def)
qed

lemma recv_wait_deaf:
  assumes "up_flight (ur_poller r) = []" "cq_list (up_cq (ur_poller r)) = []" "undisturbed (ur_poller r) ws"
  shows "recv_wait r b len ws = None"
  using assms
proof (induction ws arbitrary: r)
  case (Cons w ws)
  show ?case
  proof (cases w)
    case (Woken as run)
    let ?q = "foldl kernel_post (ur_poller r) as"
    have "arrivals_ok (ur_poller r) as" using Cons.prems(3) Woken by simp
    from ticks_only [OF Cons.prems(1) this] have t: "up_flight ?q = []" "cq_list (up_cq ?q) = []"
      unfolding Cons.prems(2) by blast+
    obtain p res where p: "process_cqes ?q = (p, res)" by fastforce
    have "res = []" using process_results [of ?q] t(2) p by simp
    moreover have "up_flight p = []" "up_cq p = []" using p t(1) by (auto simp: process_cqes_def)
    moreover have "run" "undisturbed p ws" using Cons.prems(3) Woken p by simp_all
    ultimately show ?thesis using Woken p Cons.IH by (simp add: Let_def)
  next
    case (Wait_failed e)
    then show ?thesis using Cons by simp
  qed
qed simp

section \<open>Properties\<close>

text \<open>C13. The batch path neither loses, repeats, reorders nor overwrites a datagram: after any sequence of calls,
  whatever the kernel completes meanwhile, failed requests included, what the calls have returned, followed
  by what still lies in buffers, is what has arrived, in the order of the completions, each cut off at the
  caller's length; and each of the 64 buffers is free, in flight, ready or the one set aside, never two of these.\<close>

theorem recv_batch_fifo:
  assumes "ur_start new_receiver True True True True = (r0, ok)" "calls_ok (begin_batch r0 room) len wss"
    and "recv_batches (begin_batch r0 room) len wss = (r, outs)"
  shows "concat (map packets_of outs) @ map (take len) (content (ur_poller r)) = map (take len) (arrived (concat wss)) \<and>
    pool_ok (ur_poller r) {#0#}"
proof -
  have s: "pool_ok (ur_poller r0) {#0#}" "content (ur_poller r0) = []" using started_ok [OF assms(1)] by simp_all
  obtain p n where p: "submit_inflight (ur_poller r0) room MAX_BUFFERS = (p, n)" by fastforce
  have "pool_ok (ur_poller (begin_batch r0 room)) {#0#}" "content (ur_poller (begin_batch r0 room)) = []"
    using s submit_ok [OF s(1) p] by (simp_all add: begin_batch_def p)
  from recv_batches_ok [OF this(1) assms(2,3)] this(2) show ?thesis by simp
qed

text \<open>Two requests in flight, completed the other way round while the first of two calls waits.\<close>

definition demo_batch :: receiver where
  "demo_batch = begin_batch (fst (ur_start new_receiver True True True True)) (\<lambda>k. 62 \<le> k)"

definition demo_calls :: "(arrival list \<times> bool) list list" where
  "demo_calls = [[([Datagram 2 [9], Datagram 1 [7, 8]], True)], []]"

lemma submit_three: "submit_inflight p (\<lambda>k. 62 \<le> k) MAX_BUFFERS =
    (case alloc_buffer p of (p1, None) \<Rightarrow> (p1, 0) | (p1, Some b) \<Rightarrow>
      (case alloc_buffer (p1\<lparr>up_flight := up_flight p1 @ [b]\<rparr>) of (p2, None) \<Rightarrow> (p2, 1) | (p2, Some c) \<Rightarrow>
        (case alloc_buffer (p2\<lparr>up_flight := up_flight p2 @ [c]\<rparr>) of (p3, None) \<Rightarrow> (p3, 2) | (p3, Some d) \<Rightarrow> (free_buffer p3 d, 2))))"
proof -
  have "MAX_BUFFERS = Suc (Suc (Suc 61))" by simp
  then show ?thesis by (simp only: submit_inflight.simps) (auto simp: fill_recv_sqe_def split: prod.splits option.splits)
qed

lemma demo_batch_eval:
  "ur_running demo_batch" "ur_batch demo_batch"
  "ur_poller demo_batch = new_poller\<lparr>up_stack := (map (\<lambda>i. MAX_BUFFERS - 1 - i) [0..<MAX_BUFFERS])[60 := 3], up_top := 61, up_flight := [1, 2]\<rparr>"
  by (simp_all add: demo_batch_def ur_start_def new_receiver_def poller_init_def alloc_buffer_def begin_batch_def fill_recv_sqe_def new_poller_def
      submit_three free_buffer_def del: upt_rec_numeral)

lemma demo_reaped:
  "reap_more (foldl kernel_post (ur_poller demo_batch) [Datagram 2 [9], Datagram 1 [7, 8]]) =
    ((ur_poller demo_batch)\<lparr>up_flight := [], up_ready := (replicate MAX_BUFFERS 0)[0 := 2, 1 := 1], up_res := (replicate MAX_BUFFERS 0)[0 := 1, 1 := 2],
       up_len := 2, up_bufs := (\<lambda>_ _. 0)(2 := copy_in (\<lambda>_. 0) 0 [9], 1 := copy_in (\<lambda>_. 0) 0 [7, 8])\<rparr>, 2)"
  by (simp add: demo_batch_eval reap_more_def reap_cqe_def ready_slot_mod new_poller_def del: upt_rec_numeral)

definition demo_taken :: "nat \<Rightarrow> nat list \<Rightarrow> poller" where
  "demo_taken k flight = (fst (reap_more (foldl kernel_post (ur_poller demo_batch) [Datagram 2 [9], Datagram 1 [7, 8]])))
     \<lparr>up_head := k, up_len := 2 - k, up_flight := flight\<rparr>"

lemma demo_taken_eval:
  "demo_taken k flight = (ur_poller demo_batch)\<lparr>up_flight := flight, up_ready := (replicate MAX_BUFFERS 0)[0 := 2, 1 := 1],
     up_res := (replicate MAX_BUFFERS 0)[0 := 1, 1 := 2], up_head := k, up_len := 2 - k,
     up_bufs := (\<lambda>_ _. 0)(2 := copy_in (\<lambda>_. 0) 0 [9], 1 := copy_in (\<lambda>_. 0) 0 [7, 8])\<rparr>"
  unfolding demo_taken_def demo_reaped by simp

lemma demo_first: "recv_batch demo_batch 100 True [([Datagram 2 [9], Datagram 1 [7, 8]], True)] =
    Some (demo_batch\<lparr>ur_poller := demo_taken 1 [2]\<rparr>, Received [9], [])"
proof -
  have e: "ready_empty (ur_poller demo_batch)" by (simp add: ready_empty_def demo_batch_eval new_poller_def)
  have "demo_taken 0 [] = fst (reap_more (foldl kernel_post (ur_poller demo_batch) [Datagram 2 [9], Datagram 1 [7, 8]]))"
    unfolding demo_taken_eval demo_reaped by (simp add: demo_batch_eval new_poller_def)
  then have "reap_more (foldl kernel_post (ur_poller demo_batch) [Datagram 2 [9], Datagram 1 [7, 8]]) = (demo_taken 0 [], 2)"
    unfolding demo_reaped by simp
  moreover have "\<not> ready_empty (demo_taken 0 [])" by (simp add: ready_empty_def demo_taken_eval)
  ultimately have "reap_until (ur_poller demo_batch) [([Datagram 2 [9], Datagram 1 [7, 8]], True)] = Some (demo_taken 0 [], None, [])"
    using e by (simp del: foldl_Cons foldl.simps)
  moreover have "take_ready (demo_taken 0 []) = (demo_taken 1 [], Some (2, 1))"
    by (simp add: take_ready_def demo_taken_eval ready_slot_mod demo_batch_eval new_poller_def)
  moreover have "resubmit_recv (demo_taken 1 []) True 2 = demo_taken 1 [2]"
    by (simp add: resubmit_recv_def fill_recv_sqe_def demo_taken_eval demo_batch_eval new_poller_def)
  moreover have "copy_out (up_bufs (demo_taken 1 []) 2) 0 1 = [9]" by (simp add: demo_taken_eval copy_out_def copy_in_def)
  ultimately show ?thesis by (simp add: recv_batch_def demo_batch_eval(1,2))
qed

lemma demo_second: "recv_batch (demo_batch\<lparr>ur_poller := demo_taken 1 [2]\<rparr>) 100 True [] =
    Some (demo_batch\<lparr>ur_poller := demo_taken 2 [2, 1]\<rparr>, Received [7, 8], [])"
proof -
  have "reap_until (demo_taken 1 [2]) [] = Some (demo_taken 1 [2], None, [])"
    by (simp add: ready_empty_def demo_taken_eval)
  moreover have "take_ready (demo_taken 1 [2]) = (demo_taken 2 [2], Some (1, 2))"
    by (simp add: take_ready_def demo_taken_eval ready_slot_mod demo_batch_eval new_poller_def)
  moreover have "resubmit_recv (demo_taken 2 [2]) True 1 = demo_taken 2 [2, 1]"
    by (simp add: resubmit_recv_def fill_recv_sqe_def demo_taken_eval demo_batch_eval new_poller_def)
  moreover have "copy_out (up_bufs (demo_taken 2 [2]) 1) 0 2 = [7, 8]"
    by (simp add: demo_taken_eval copy_out_def copy_in_def upt_rec)
  ultimately show ?thesis by (simp add: recv_batch_def demo_batch_eval(1,2))
qed

theorem recv_batch_fifo_witness:
  "\<exists>r. recv_batches demo_batch 100 demo_calls = (r, [Received [9], Received [7, 8]]) \<and> content (ur_poller r) = [] \<and> pool_ok (ur_poller r) {#0#}"
proof -
  obtain r0 ok where s: "ur_start new_receiver True True True True = (r0, ok)" by fastforce
  have b: "begin_batch r0 (\<lambda>k. 62 \<le> k) = demo_batch" by (simp add: demo_batch_def s)
  have o: "recv_batches demo_batch 100 demo_calls = (demo_batch\<lparr>ur_poller := demo_taken 2 [2, 1]\<rparr>, [Received [9], Received [7, 8]])"
    unfolding demo_calls_def recv_batches.simps demo_first by (simp add: demo_second [unfolded One_nat_def])
  have f: "up_flight (ur_poller demo_batch) = [1, 2]" by (simp add: demo_batch_eval)
  have c: "calls_ok demo_batch 100 demo_calls"
    unfolding demo_calls_def calls_ok.simps demo_first using f by (simp add: demo_second [unfolded One_nat_def])
  show ?thesis using recv_batch_fifo [OF s, of "\<lambda>k. 62 \<le> k", unfolded b, OF c o] o by (simp add: demo_calls_def)
qed

text \<open>A blocking \<open>recv\<close> of one packet whose request completes with \<open>EAGAIN\<close> never returns until the receiver is
  stopped: it goes on waiting without handing over a new request.\<close>

theorem recv_deaf_after_eagain:
  assumes "ur_running r" "ur_blocking r" "ur_pending r" "0 < len"
    and "up_flight (ur_poller r) = [b]" "up_cq (ur_poller r) = []" "undisturbed (ur_poller r) (Woken [Failure b (- EAGAIN)] True # ws)"
  shows "ur_recv r room len (Woken [Failure b (- EAGAIN)] True # ws) = None"
proof -
  let ?p = "fst (process_cqes (kernel_post (ur_poller r) (Failure b (- EAGAIN))))"
  let ?r = "r\<lparr>ur_running := True, ur_poller := ?p, ur_pending := False\<rparr>"
  have "up_flight (ur_poller ?r) = []" "cq_list (up_cq (ur_poller ?r)) = []" "undisturbed (ur_poller ?r) ws"
    using assms(5-7) by (simp_all add: process_cqes_def)
  from recv_wait_deaf [OF this] show ?thesis using assms(1-6)
    by (simp add: ur_recv_def process_cqes_def)
qed

theorem recv_deaf_after_eagain_witness:
  "ur_recv (new_receiver\<lparr>ur_running := True, ur_pending := True, ur_buf := Some 0, ur_poller := new_poller\<lparr>up_flight := [0]\<rparr>\<rparr>) True 100
     [Woken [Failure 0 (- EAGAIN)] True, Woken [Tick] True, Woken [Tick] True] = None"
  using recv_deaf_after_eagain [of "new_receiver\<lparr>ur_running := True, ur_pending := True, ur_buf := Some 0, ur_poller := new_poller\<lparr>up_flight := [0]\<rparr>\<rparr>" 100 0
      "[Woken [Tick] True, Woken [Tick] True]" True]
  by (simp add: new_receiver_def new_poller_def process_cqes_def)

text \<open>A receiver that is stopped while a request is in flight and started again is deaf: the flag of the old
  request is still set, so a blocking \<open>recv\<close> hands over no request and waits for ever.\<close>

theorem restarted_receiver_deaf:
  assumes "ur_running r" "ur_pending r" "ur_blocking r" "ur_start (ur_stop r) True True True True = (r2, ok)" "0 < len"
    and "undisturbed (ur_poller r2) ws"
  shows "ok \<and> ur_recv r2 room len ws = None"
proof -
  let ?r1 = "ur_stop r"
  have r1: "\<not> ur_running ?r1" "ur_pending ?r1" "ur_blocking ?r1" using assms(1-3) by (simp_all add: ur_stop_def Let_def)
  obtain p1 b where a: "alloc_buffer (fst (poller_init (ur_poller ?r1) True True)) = (p1, Some b)"
    by (simp add: alloc_buffer_def poller_init_def)
  have r2: "r2 = ?r1\<lparr>ur_open := True, ur_poller := p1, ur_buf := Some b, ur_running := True\<rparr>" "ok"
    using assms(4) r1(1) a by (simp_all add: ur_start_def poller_init_def)
  have "up_flight p1 = []" "up_cq p1 = []" using a by (auto simp: alloc_buffer_def poller_init_def split: if_splits)
  then have "recv_wait r2 b len ws = None" using recv_wait_deaf [of r2] assms(6) by (simp add: r2(1))
  then show ?thesis using r1 assms(5) by (simp add: ur_recv_def r2)
qed

theorem restarted_receiver_deaf_witness:
  "\<exists>r2. ur_start (ur_stop (new_receiver\<lparr>ur_running := True, ur_pending := True, ur_buf := Some 0\<rparr>)) True True True True = (r2, True) \<and>
    ur_recv r2 True 100 [Woken [Tick] True, Woken [] True] = None"
proof -
  let ?r = "new_receiver\<lparr>ur_running := True, ur_pending := True, ur_buf := Some 0\<rparr>"
  obtain r2 ok where r2: "ur_start (ur_stop ?r) True True True True = (r2, ok)" by fastforce
  show ?thesis
    using restarted_receiver_deaf [OF _ _ _ r2, of 100 "[Woken [Tick] True, Woken [] True]" True] r2 by (simp add: new_receiver_def)
qed

end
