(* ===== verification/Shared_Ring.thy ===== *)
theory Shared_Ring
  imports Byte_Ring
begin

text \<open>
  The byte rings with several consumers: the ring of \<^verbatim>\<open>core/queue/spmc_byte_ring.h\<close>, whose consumers claim one
  message each and release them in order, and the ring of \<^verbatim>\<open>core/queue/spmc_ring.h\<close>, whose consumers read every
  byte.
\<close>

section \<open>The ring of claimed messages\<close>

record shared_ring =
  sr_buf :: "nat \<Rightarrow> u8"
  sr_cap :: nat
  sr_tail :: nat
  sr_claim_lock :: u32
  sr_claim :: nat
  sr_commit :: nat

definition new_shared_ring :: "nat \<Rightarrow> shared_ring" where
  "new_shared_ring n = \<lparr>sr_buf = (\<lambda>_. 0), sr_cap = n, sr_tail = 0, sr_claim_lock = 0, sr_claim = 0, sr_commit = 0\<rparr>"

definition sr_push :: "shared_ring \<Rightarrow> bytes \<Rightarrow> shared_ring \<times> nat" where
  "sr_push r bs =
     (let commit = sr_commit r; tail = sr_tail r; cap = sr_cap r; len = length bs; pos = tail AND (cap - 1) in
      if pos + len \<le> cap then
        (let free = cap - (tail - commit) in
         if free < len \<or> len = 0 then (r, 0)
         else (r\<lparr>sr_buf := copy_in (sr_buf r) pos bs, sr_tail := tail + len\<rparr>, len))
      else
        (let aligned = (tail div cap + 1) * cap in
         if aligned + len > commit + cap then (r, 0)
         else
           (let tail_room = cap - pos in
            if tail_room \<ge> kHeaderBytes then
              (let b1 = copy_in (sr_buf r) pos (take kHeaderBytes bs);
                   body_room = tail_room - kHeaderBytes;
                   body = drop kHeaderBytes bs;
                   b2 = (if length body > body_room
                         then copy_in (copy_in b1 (pos + kHeaderBytes) (take body_room body)) 0 (drop body_room body)
                         else copy_in b1 (pos + kHeaderBytes) body)
               in (r\<lparr>sr_buf := b2, sr_tail := tail + len\<rparr>, len))
            else (r\<lparr>sr_buf := copy_in (sr_buf r) 0 bs, sr_tail := aligned + len\<rparr>, len))))"

text \<open>The claim lock, a compare-and-swap.\<close>

definition claim_lock :: "shared_ring \<Rightarrow> shared_ring \<times> bool" where
  "claim_lock r = (if sr_claim_lock r = 0 then (r\<lparr>sr_claim_lock := 1\<rparr>, True) else (r, False))"

definition aligned_of :: "shared_ring \<Rightarrow> nat \<Rightarrow> nat" where
  "aligned_of r cl = (cl div sr_cap r + 1) * sr_cap r"

definition has_gap :: "shared_ring \<Rightarrow> nat \<Rightarrow> bool" where
  "has_gap r cl \<longleftrightarrow> (cl AND (sr_cap r - 1)) + kHeaderBytes > sr_cap r"

definition skip_gap :: "shared_ring \<Rightarrow> nat \<Rightarrow> shared_ring" where
  "skip_gap r cl = r\<lparr>sr_claim := (cl div sr_cap r + 1) * sr_cap r\<rparr>"

definition gap_writable :: "shared_ring \<Rightarrow> nat \<Rightarrow> bool" where
  "gap_writable r cl \<longleftrightarrow> (cl div sr_cap r + 1) * sr_cap r \<le> sr_tail r"

definition phys_of :: "shared_ring \<Rightarrow> nat \<Rightarrow> nat" where
  "phys_of r cl = cl AND (sr_cap r - 1)"

definition peek_header_at :: "shared_ring \<Rightarrow> nat \<Rightarrow> u16" where
  "peek_header_at r phys = push_bit 8 (to_u16 (sr_buf r (phys + 8))) OR to_u16 (sr_buf r (phys + 9))"

definition peek_header :: "shared_ring \<Rightarrow> nat \<Rightarrow> u16" where
  "peek_header r cl = peek_header_at r (cl AND (sr_cap r - 1))"

definition peek_seq_at :: "shared_ring \<Rightarrow> nat \<Rightarrow> u64" where
  "peek_seq_at r phys = be_fold (copy_out (sr_buf r) phys 8)"

definition peek_seq :: "shared_ring \<Rightarrow> nat \<Rightarrow> u64" where
  "peek_seq r cl = peek_seq_at r (cl AND (sr_cap r - 1))"

definition next_pos :: "nat \<Rightarrow> nat \<Rightarrow> nat" where
  "next_pos cl len = cl + len"

definition claim_end :: "shared_ring \<Rightarrow> nat \<Rightarrow> nat \<Rightarrow> shared_ring" where
  "claim_end r cl len = r\<lparr>sr_claim := cl + len, sr_claim_lock := 0\<rparr>"

definition claim_release :: "shared_ring \<Rightarrow> shared_ring" where
  "claim_release r = r\<lparr>sr_claim_lock := 0\<rparr>"

definition read_body_at :: "shared_ring \<Rightarrow> nat \<Rightarrow> nat \<Rightarrow> bytes" where
  "read_body_at r phys len =
     (let body_len = len - kHeaderBytes; body_start = (phys + kHeaderBytes) AND (sr_cap r - 1) in
      if body_start + body_len \<le> sr_cap r then copy_out (sr_buf r) body_start body_len
      else (let n1 = sr_cap r - body_start in copy_out (sr_buf r) body_start n1 @ copy_out (sr_buf r) 0 (body_len - n1)))"

text \<open>\<open>wait_commit\<close> spins until this holds.\<close>

definition commit_reached :: "shared_ring \<Rightarrow> nat \<Rightarrow> bool" where
  "commit_reached r pos \<longleftrightarrow> sr_commit r = pos"

definition release_commit :: "shared_ring \<Rightarrow> nat \<Rightarrow> nat \<Rightarrow> shared_ring" where
  "release_commit r pos len = r\<lparr>sr_commit := next_pos pos len\<rparr>"

definition drained :: "shared_ring \<Rightarrow> bool" where
  "drained r \<longleftrightarrow> sr_commit r = sr_tail r"

section \<open>The layout is that of the single-consumer ring\<close>

definition as_ring :: "shared_ring \<Rightarrow> byte_ring" where
  "as_ring r = \<lparr>br_buf = sr_buf r, br_cap = sr_cap r, br_head = sr_commit r, br_tail = sr_tail r\<rparr>"

lemma as_ring_simps [simp]:
  "br_buf (as_ring r) = sr_buf r" "br_cap (as_ring r) = sr_cap r" "br_head (as_ring r) = sr_commit r" "br_tail (as_ring r) = sr_tail r"
  by (simp_all add: as_ring_def)

lemma sr_push_eq:
  "br_push (as_ring r) bs = (as_ring (fst (sr_push r bs)), snd (sr_push r bs))"
  "sr_cap (fst (sr_push r bs)) = sr_cap r" "sr_commit (fst (sr_push r bs)) = sr_commit r"
  "sr_claim (fst (sr_push r bs)) = sr_claim r" "sr_claim_lock (fst (sr_push r bs)) = sr_claim_lock r"
  by (simp_all add: br_push_def br_push_seen_def sr_push_def Let_def as_ring_def)

lemma msg_start_gap:
  assumes "is_pow2 (sr_cap r)"
  shows "msg_start (sr_cap r) p = (if has_gap r p then aligned_of r p else p)"
proof -
  have "0 < sr_cap r" using assms by auto
  then have "p mod sr_cap r < sr_cap r" by simp
  then have "sr_cap r - p mod sr_cap r < kHeaderBytes \<longleftrightarrow> p mod sr_cap r + kHeaderBytes > sr_cap r" by linarith
  then show ?thesis unfolding msg_start_def has_gap_def aligned_of_def and_pow2_mod [OF assms] by simp
qed

text \<open>A message that lies at a position, its header not split: what the consumer's reads give.\<close>

lemma read_body_stretch:
  assumes "is_pow2 (sr_cap r)" "len - kHeaderBytes \<le> sr_cap r"
  shows "read_body_at r (phys_of r p) len = stretch (as_ring r) (p + kHeaderBytes) (len - kHeaderBytes)"
proof -
  let ?c = "sr_cap r" and ?n = "len - kHeaderBytes" and ?s = "p + kHeaderBytes"
  have "(phys_of r p + kHeaderBytes) AND (?c - 1) = ?s mod ?c"
    unfolding phys_of_def and_pow2_mod [OF assms(1)] by (simp only: mod_add_left_eq)
  moreover have c0: "0 < ?c" using assms(1) by auto
  moreover have "copy_out (sr_buf r) (?s mod ?c) (?c - ?s mod ?c) @ copy_out (sr_buf r) 0 (?n - (?c - ?s mod ?c)) = stretch (as_ring r) ?s ?n"
    if "\<not> ?s mod ?c + ?n \<le> ?c"
  proof -
    let ?k = "?c - ?s mod ?c"
    have lt: "?s mod ?c < ?c" using c0 by simp
    have "copy_out (br_buf (as_ring r)) (?s mod br_cap (as_ring r)) ?k = stretch (as_ring r) ?s ?k"
      by (rule copy_out_stretch) (use lt in simp)
    moreover have "(?s + ?k) mod ?c = 0" using next_lap [OF c0, of ?s] by metis
    then have "copy_out (br_buf (as_ring r)) 0 (?n - ?k) = stretch (as_ring r) (?s + ?k) (?n - ?k)"
      using copy_out_stretch [of "?s + ?k" "as_ring r" "?n - ?k"] assms(2) by simp
    ultimately show ?thesis using stretch_more [of ?k ?n "as_ring r" ?s] that lt by simp
  qed
  ultimately show ?thesis
    using copy_out_stretch [of ?s "as_ring r" ?n] by (simp add: read_body_at_def Let_def)
qed

lemma header_bytes:
  assumes "bytes_at buf c p (hd8 @ h @ b)" "p mod c + kHeaderBytes \<le> c" "length hd8 = 8" "length h = 2"
  shows "copy_out buf (p mod c) 8 = hd8" "buf (p mod c + 8) = h ! 0" "buf (p mod c + 9) = h ! 1"
proof -
  have at: "buf (p mod c + i) = (hd8 @ h @ b) ! i" if "i < 10" for i
  proof -
    have "(p mod c + i) mod c = p mod c + i" using that assms(2) by (intro mod_less) linarith
    then have "(p + i) mod c = p mod c + i" unfolding mod_add_left_eq .
    moreover have "i < length (hd8 @ h @ b)" using that assms(3,4) by simp
    ultimately show ?thesis using assms(1) unfolding bytes_at_def by metis
  qed
  show "copy_out buf (p mod c) 8 = hd8"
    using at assms(3) by (intro nth_equalityI) (simp_all add: copy_out_def nth_append)
  show "buf (p mod c + 8) = h ! 0" "buf (p mod c + 9) = h ! 1" using at [of 8] at [of 9] assms(3,4) by (simp_all add: nth_append)
qed

section \<open>The ring every consumer reads\<close>

record tick_ring =
  tr_buf :: "nat \<Rightarrow> u8"
  tr_cap :: nat
  tr_tail :: nat
  tr_heads :: "nat \<Rightarrow> nat"
  tr_num :: nat

definition new_tick_ring :: "nat \<Rightarrow> tick_ring" where
  "new_tick_ring n = \<lparr>tr_buf = (\<lambda>_. 0), tr_cap = n, tr_tail = 0, tr_heads = (\<lambda>_. 0), tr_num = 1\<rparr>"

definition tr_set_num_consumers :: "tick_ring \<Rightarrow> nat \<Rightarrow> tick_ring" where
  "tr_set_num_consumers r n = r\<lparr>tr_num := n\<rparr>"

definition tr_min_head :: "tick_ring \<Rightarrow> nat" where
  "tr_min_head r = fold (\<lambda>i m. if tr_heads r i < m then tr_heads r i else m) [0..<tr_num r] (2 ^ 64 - 1)"

definition tr_push :: "tick_ring \<Rightarrow> bytes \<Rightarrow> tick_ring \<times> bool" where
  "tr_push r bs =
     (if tr_tail r - tr_min_head r \<ge> tr_cap r then (r, False)
      else
        (let pos = tr_tail r AND (tr_cap r - 1);
             n1 = min (tr_cap r - pos) (length bs)
         in (r\<lparr>tr_buf := copy_in (copy_in (tr_buf r) pos (take n1 bs)) 0 (drop n1 bs), tr_tail := tr_tail r + length bs\<rparr>, True)))"

definition tr_pop :: "tick_ring \<Rightarrow> nat \<Rightarrow> nat \<Rightarrow> tick_ring \<times> bytes" where
  "tr_pop r i len =
     (let head = tr_heads r i; avail = tr_tail r - head in
      if avail = 0 \<or> len = 0 then (r, [])
      else
        (let actual = (if len < avail then len else avail);
             pos = head AND (tr_cap r - 1);
             n1 = min (tr_cap r - pos) actual
         in (r\<lparr>tr_heads := (tr_heads r)(i := head + actual)\<rparr>,
             copy_out (tr_buf r) pos n1 @ copy_out (tr_buf r) 0 (actual - n1))))"

text \<open>The two copies write the bytes around the end of the ring.\<close>

lemma copy_around:
  fixes c t :: nat and bs :: bytes
  assumes "0 < c" "length bs \<le> c"
  defines "n1 \<equiv> min (c - t mod c) (length bs)"
  shows "writes_at buf (copy_in (copy_in buf (t mod c) (take n1 bs)) 0 (drop n1 bs)) c t bs"
proof -
  let ?b = "copy_in buf (t mod c) (take n1 bs)"
  have lt: "t mod c < c" using assms(1) by simp
  have n: "length (take n1 bs) = n1" by (simp add: n1_def)
  have a: "writes_at buf ?b c t (take n1 bs)"
    using copy_in_bytes_at [of t c "take n1 bs" buf] assms(1) lt by (simp add: writes_at_def n1_def)
  have z: "writes_at ?b (copy_in ?b 0 (drop n1 bs)) c (t + n1) (drop n1 bs)"
  proof (cases "n1 = length bs")
    case True
    then show ?thesis by (simp add: writes_at_def bytes_at_def copy_in_def)
  next
    case False
    then have "n1 = c - t mod c" by (simp add: n1_def)
    then have m: "(t + n1) mod c = 0" using next_lap [OF assms(1), of t] by metis
    have "(t + n1) mod c + length (drop n1 bs) \<le> c" using assms(2) by (simp add: m)
    from copy_in_bytes_at [OF this assms(1), of ?b] show ?thesis unfolding writes_at_def m by blast
  qed
  have "length (take n1 bs @ drop n1 bs) \<le> c" using assms(2) by simp
  from writes_append [OF a, unfolded n, OF z this] show ?thesis unfolding append_take_drop_id .
qed

section \<open>Properties\<close>

text \<open>C29. What is pushed into the ring of claimed messages can be read back: a message of a sequence number, a
  length and a body lies at the old tail, or at the next lap where the consumers see a gap, and there the
  consumer reads its sequence number, its length and its body, around the end of the ring, and the next
  message follows it.\<close>

theorem claimed_message_roundtrip:
  assumes r: "is_pow2 (sr_cap r)" "sr_commit r \<le> sr_tail r" "sr_tail r \<le> sr_commit r + sr_cap r"
    and b: "1 \<le> length b" "length b < 65536"
    and m: "m = be64_store sq @ be16_store (of_nat (length b)) @ b" and push: "sr_push r m = (r', n)" "n \<noteq> 0"
    and p: "p = (if has_gap r' (sr_tail r) then aligned_of r' (sr_tail r) else sr_tail r)"
  shows "peek_seq r' p = sq \<and> peek_header r' p = of_nat (length b) \<and> read_body_at r' (phys_of r' p) (length m) = b \<and>
    next_pos p (length m) = sr_tail r' \<and> (has_gap r' (sr_tail r) \<longrightarrow> gap_writable r' (sr_tail r))"
proof -
  let ?c = "sr_cap r" and ?h = "be16_store (of_nat (length b))"
  have c: "sr_cap r' = ?c" using sr_push_eq(2) [of r m] push(1) by simp
  have len: "length m = kHeaderBytes + length b" by (simp add: m)
  then have k: "kHeaderBytes < length m" using b(1) by linarith
  have ps: "p = msg_start ?c (sr_tail r)" using msg_start_gap [of r' "sr_tail r"] r(1) by (simp add: p c)
  have "br_push_seen (as_ring r) (sr_commit r) m = (as_ring r', n)"
    using sr_push_eq(1) [of r m] push(1) by (simp add: br_push_def)
  then obtain buf where w: "as_ring r' = (as_ring r)\<lparr>br_buf := buf, br_tail := p + length m\<rparr>"
    "writes_at (sr_buf r) buf ?c p m" "p + length m \<le> sr_commit r + ?c"
    using push_seen_writes [of "as_ring r" "sr_commit r" m] r k push(2) by (auto simp: ps)
  have buf: "sr_buf r' = buf" "sr_tail r' = p + length m" using arg_cong [OF w(1), of br_buf] arg_cong [OF w(1), of br_tail] by simp_all
  have at: "bytes_at (sr_buf r') ?c p m" using w(2) buf(1) by (simp add: writes_at_def)
  have c0: "0 < ?c" using r(1) by auto
  have fits: "p mod ?c + kHeaderBytes \<le> ?c"
  proof (cases "has_gap r' (sr_tail r)")
    case True
    then have "p mod ?c = 0" using next_lap(2) [OF c0, of "sr_tail r"] by (simp add: p aligned_of_def c)
    moreover have "kHeaderBytes \<le> ?c"
    proof -
      have "sr_tail r \<le> p" unfolding ps by (rule msg_start_ge [OF c0])
      then show ?thesis using w(3) r(2,3) k by linarith
    qed
    ultimately show ?thesis by simp
  next
    case False
    then have "p = sr_tail r" by (simp add: p)
    then show ?thesis using False unfolding has_gap_def c and_pow2_mod [OF r(1)] by simp
  qed
  have ph: "phys_of r' p = p mod ?c" "p AND (sr_cap r' - 1) = p mod ?c" using and_pow2_mod [OF r(1), of p] by (simp_all add: phys_of_def c)
  have l: "length (be64_store sq) = 8" "length ?h = 2" by simp_all
  note hd = header_bytes [OF at [unfolded m] fits l]
  have "peek_seq r' p = sq" unfolding peek_seq_def ph(2) peek_seq_at_def hd(1) by (rule be_fold_store)
  moreover have "peek_header r' p = of_nat (length b)"
    unfolding peek_header_def ph(2) peek_header_at_def hd(2,3) using be16_field_store [of "of_nat (length b)"]
    by (simp add: be16_def)
  moreover have "bytes_at (sr_buf r') ?c (p + kHeaderBytes) b"
  proof -
    have "bytes_at (sr_buf r') ?c p ((be64_store sq @ ?h) @ b)" using at by (simp add: m)
    then have "bytes_at (sr_buf r') ?c (p + length (be64_store sq @ ?h)) b" unfolding bytes_at_append by (rule conjunct2)
    then show ?thesis by simp
  qed
  then have "stretch (as_ring r') (p + kHeaderBytes) (length b) = b" by (intro stretch_bytes_at) (simp add: c)
  then have "read_body_at r' (phys_of r' p) (length m) = b"
    using read_body_stretch [of r' "length m" p] r(1) len w(3) r(2,3) msg_start_ge [OF c0, of "sr_tail r"] by (simp add: c ps)
  moreover have "has_gap r' (sr_tail r) \<longrightarrow> gap_writable r' (sr_tail r)"
    using buf(2) p by (auto simp: gap_writable_def aligned_of_def)
  ultimately show ?thesis using buf(2) by (simp add: next_pos_def)
qed

theorem claimed_message_roundtrip_witness:
  "\<exists>r'. sr_push (new_shared_ring 64) (be64_store 7 @ be16_store 2 @ [0x44, 1]) = (r', 12) \<and> peek_seq r' 0 = 7 \<and>
    peek_header r' 0 = 2 \<and> read_body_at r' 0 12 = [0x44, 1]"
proof -
  let ?m = "be64_store 7 @ be16_store 2 @ [0x44, 1]"
  have p: "is_pow2 64" using is_pow2_power [of 6] by simp
  obtain r' n where r: "sr_push (new_shared_ring 64) ?m = (r', n)" "n = 12"
    by (simp add: sr_push_def new_shared_ring_def Let_def)
  have t: "sr_tail (new_shared_ring 64) = 0" "sr_cap (new_shared_ring 64) = 64" "sr_commit (new_shared_ring 64) = 0"
    by (simp_all add: new_shared_ring_def)
  have c: "sr_cap r' = 64" using sr_push_eq(2) [of "new_shared_ring 64" ?m] r(1) by (simp add: t)
  have g: "\<not> has_gap r' (sr_tail (new_shared_ring 64))" by (simp add: has_gap_def c t)
  show ?thesis
    using claimed_message_roundtrip [of "new_shared_ring 64" "[0x44, 1]" ?m 7 r' n, OF _ _ _ _ _ _ r(1) _ refl] p r
    unfolding if_not_P [OF g] by (simp add: t phys_of_def c)
qed

text \<open>The push of the ring that every consumer reads looks whether a byte is free, not whether the message
  fits: a message longer than the free space is accepted, and the slowest consumer reads a byte of it in
  the place of its next unread one.\<close>

theorem tick_push_overwrites:
  assumes "is_pow2 (tr_cap r)" "i < tr_num r" "tr_heads r i = tr_min_head r" "tr_min_head r \<le> tr_tail r"
    and "tr_tail r < tr_min_head r + tr_cap r" "length bs \<le> tr_cap r" "tr_min_head r + tr_cap r < tr_tail r + length bs"
  shows "\<exists>r'. tr_push r bs = (r', True) \<and> snd (tr_pop r' i 1) = [bs ! (tr_min_head r + tr_cap r - tr_tail r)]"
proof -
  let ?c = "tr_cap r" and ?t = "tr_tail r" and ?h = "tr_min_head r"
  define n1 where "n1 = min (?c - ?t mod ?c) (length bs)"
  define buf where "buf = copy_in (copy_in (tr_buf r) (?t mod ?c) (take n1 bs)) 0 (drop n1 bs)"
  have c0: "0 < ?c" using assms(1) by auto
  have w: "bytes_at buf ?c ?t bs" using copy_around [OF c0 assms(6), of "tr_buf r" ?t] by (simp add: writes_at_def buf_def n1_def)
  have pos: "\<And>x. x AND (?c - 1) = x mod ?c" using assms(1) by (rule and_pow2_mod)
  have n: "\<not> ?t - ?h \<ge> ?c" using assms(5) c0 by linarith
  define r' where "r' = r\<lparr>tr_buf := buf, tr_tail := ?t + length bs\<rparr>"
  have push: "tr_push r bs = (r', True)"
    unfolding tr_push_def if_not_P [OF n] Let_def pos r'_def buf_def n1_def by (rule refl)
  have k: "?h + ?c - ?t < length bs" using assms(4,5,7) by linarith
  have "(?t + (?h + ?c - ?t)) mod ?c = ?h mod ?c" using assms(5) by simp
  then have b: "buf (?h mod ?c) = bs ! (?h + ?c - ?t)" using w k unfolding bytes_at_def by metis
  have "tr_pop r' i 1 = (r'\<lparr>tr_heads := (tr_heads r')(i := ?h + 1)\<rparr>, [buf (?h mod ?c)])"
  proof -
    have av: "?t + length bs - ?h \<noteq> 0" "1 < ?t + length bs - ?h" using assms(4,7) c0 by linarith+
    have m: "min (?c - ?h mod ?c) 1 = 1" using mod_less_divisor [OF c0, of ?h] by linarith
    have e: "tr_heads r' i = ?h" "tr_tail r' = ?t + length bs" "tr_cap r' = ?c" "tr_buf r' = buf" using assms(3) by (simp_all add: r'_def)
    have "\<not> (?t + length bs - ?h = 0 \<or> (1 :: nat) = 0)" using av(1) by simp
    then have "tr_pop r' i 1 = (r'\<lparr>tr_heads := (tr_heads r')(i := ?h + 1)\<rparr>, copy_out buf (?h mod ?c) 1 @ copy_out buf 0 (1 - 1))"
      unfolding tr_pop_def e Let_def pos by (simp only: if_P [OF av(2)] m if_False)
    then show ?thesis by (simp add: copy_out_def)
  qed
  then show ?thesis using push b by simp
qed

theorem tick_push_overwrites_witness:
  "\<exists>r'. tr_push ((new_tick_ring 8)\<lparr>tr_tail := 6\<rparr>) [1, 2, 3, 4] = (r', True) \<and> snd (tr_pop r' 0 1) = [3]"
proof -
  have p: "is_pow2 8" using is_pow2_power [of 3] by simp
  have "tr_min_head ((new_tick_ring 8)\<lparr>tr_tail := 6\<rparr>) = 0" by (simp add: tr_min_head_def new_tick_ring_def)
  then show ?thesis
    using tick_push_overwrites [of "(new_tick_ring 8)\<lparr>tr_tail := 6\<rparr>" 0 "[1, 2, 3, 4]"] p by (simp add: new_tick_ring_def)
qed

end
