(* ===== verification/Broadcast_Queue.thy ===== *)
theory Broadcast_Queue
  imports NX_Types
begin

text \<open>
  The broadcast queue of \<^verbatim>\<open>core/queue/spmc_event_queue.h\<close>: one producer, several consumers, each of which reads
  every event. A consumer publishes its progress lazily; the producer keeps the slowest published progress in
  a cache, which is a static thread-local variable of the class and therefore an argument and a result of
  \<open>push\<close> here. Positions are natural numbers below \<open>2 ^ 64\<close>; their differences are those of the unsigned words.
\<close>

section \<open>State and operations\<close>

record event_queue =
  eq_slots :: "nat \<Rightarrow> market_event"
  eq_cap :: nat
  eq_tail :: nat
  eq_heads :: "nat \<Rightarrow> nat"
  eq_local :: "nat \<Rightarrow> nat"
  eq_unpublished :: "nat \<Rightarrow> nat"
  eq_num :: nat
  eq_fds :: "nat \<Rightarrow> nat option"
  eq_blocked :: u32

abbreviation kLazyBatch :: nat where "kLazyBatch \<equiv> 64"
abbreviation MAX_CONSUMERS :: nat where "MAX_CONSUMERS \<equiv> 16"

text \<open>\<open>fds i\<close> is the result of \<open>eventfd\<close> for consumer \<open>i\<close>: a counter, or none.\<close>

definition new_event_queue :: "nat \<Rightarrow> (nat \<Rightarrow> nat option) \<Rightarrow> event_queue" where
  "new_event_queue n fds = \<lparr>eq_slots = (\<lambda>_. empty_event), eq_cap = n, eq_tail = 0, eq_heads = (\<lambda>_. 0), eq_local = (\<lambda>_. 0),
     eq_unpublished = (\<lambda>_. 0), eq_num = 1, eq_fds = fds, eq_blocked = 0\<rparr>"

definition eq_valid :: "event_queue \<Rightarrow> bool" where
  "eq_valid q \<longleftrightarrow> eq_cap q AND (eq_cap q - 1) = 0"

definition set_num_consumers :: "event_queue \<Rightarrow> nat \<Rightarrow> event_queue" where
  "set_num_consumers q n = q\<lparr>eq_num := n\<rparr>"

text \<open>Unsigned subtraction of 64-bit positions.\<close>

definition ahead :: "nat \<Rightarrow> nat \<Rightarrow> nat" where
  "ahead tail h = (if h \<le> tail then tail - h else 2 ^ 64 - (h - tail))"

text \<open>\<open>min_consumed\<close> over the heads the producer has loaded, and over the present ones.\<close>

definition min_seen :: "event_queue \<Rightarrow> (nat \<Rightarrow> nat) \<Rightarrow> nat" where
  "min_seen q hs = fold (\<lambda>i m. if hs i < m then hs i else m) [0..<eq_num q] (2 ^ 64 - 1)"

definition min_consumed :: "event_queue \<Rightarrow> nat" where
  "min_consumed q = min_seen q (eq_heads q)"

definition eq_pending :: "event_queue \<Rightarrow> nat \<Rightarrow> nat" where
  "eq_pending q i = eq_tail q - eq_heads q i"

text \<open>The descriptors of the consumers that have registered as blocked are written.\<close>

definition notify_all :: "event_queue \<Rightarrow> event_queue" where
  "notify_all q = (if eq_blocked q = 0 then q
     else q\<lparr>eq_fds := (\<lambda>i. if i < eq_num q \<and> bit (eq_blocked q) i then map_option Suc (eq_fds q i) else eq_fds q i)\<rparr>)"

definition eq_store :: "event_queue \<Rightarrow> market_event \<Rightarrow> event_queue" where
  "eq_store q ev = q\<lparr>eq_slots := (eq_slots q)(eq_tail q AND (eq_cap q - 1) := ev), eq_tail := eq_tail q + 1\<rparr>"

text \<open>\<open>push\<close> with the heads \<open>hs\<close> it would load; consumers may have moved on since.\<close>

definition eq_push_seen :: "event_queue \<Rightarrow> (nat \<Rightarrow> nat) \<Rightarrow> nat \<Rightarrow> market_event \<Rightarrow> event_queue \<times> nat \<times> bool" where
  "eq_push_seen q hs cache ev =
     (if ahead (eq_tail q) cache < eq_cap q then (notify_all (eq_store q ev), cache, True)
      else
        (let cache' = min_seen q hs in
         if ahead (eq_tail q) cache' < eq_cap q then (notify_all (eq_store q ev), cache', True)
         else (q, cache', False)))"

definition eq_push :: "event_queue \<Rightarrow> nat \<Rightarrow> market_event \<Rightarrow> event_queue \<times> nat \<times> bool" where
  "eq_push q cache ev = eq_push_seen q (eq_heads q) cache ev"

definition progress_flush :: "event_queue \<Rightarrow> nat \<Rightarrow> event_queue" where
  "progress_flush q i =
     (let h = eq_local q i;
          q1 = (if h \<noteq> eq_heads q i then q\<lparr>eq_heads := (eq_heads q)(i := h)\<rparr> else q)
      in q1\<lparr>eq_unpublished := (eq_unpublished q1)(i := 0)\<rparr>)"

text \<open>\<open>pop\<close> with the tail \<open>t\<close> the consumer has loaded.\<close>

definition eq_pop_seen :: "event_queue \<Rightarrow> nat \<Rightarrow> nat \<Rightarrow> event_queue \<times> market_event option" where
  "eq_pop_seen q t i =
     (let head = eq_local q i in
      if t = head then (progress_flush q i, None)
      else
        (let ev = eq_slots q (head AND (eq_cap q - 1));
             q1 = q\<lparr>eq_local := (eq_local q)(i := head + 1), eq_unpublished := (eq_unpublished q)(i := eq_unpublished q i + 1)\<rparr>
         in (if eq_unpublished q1 i \<ge> kLazyBatch \<or> head + 1 = t then progress_flush q1 i else q1, Some ev)))"

definition eq_pop :: "event_queue \<Rightarrow> nat \<Rightarrow> event_queue \<times> market_event option" where
  "eq_pop q i = eq_pop_seen q (eq_tail q) i"

definition eq_skip :: "event_queue \<Rightarrow> nat \<Rightarrow> event_queue" where
  "eq_skip q i = fst (eq_pop q i)"

section \<open>Sleeping and waking\<close>

text \<open>\<open>wait_for_data\<close> in its steps: registering, looking again, polling the own descriptor (\<open>None\<close>: it sleeps),
  and reading it after deregistering.\<close>

definition wait_possible :: "event_queue \<Rightarrow> nat \<Rightarrow> bool" where
  "wait_possible q i \<longleftrightarrow> i < MAX_CONSUMERS \<and> eq_fds q i \<noteq> None"

definition wait_register :: "event_queue \<Rightarrow> nat \<Rightarrow> event_queue" where
  "wait_register q i = q\<lparr>eq_blocked := eq_blocked q OR push_bit i 1\<rparr>"

definition wait_unregister :: "event_queue \<Rightarrow> nat \<Rightarrow> event_queue" where
  "wait_unregister q i = q\<lparr>eq_blocked := eq_blocked q AND NOT (push_bit i 1)\<rparr>"

definition wait_recheck :: "event_queue \<Rightarrow> nat \<Rightarrow> event_queue option" where
  "wait_recheck q i = (if eq_pending q i > 0 then Some (wait_unregister q i) else None)"

definition queue_poll :: "event_queue \<Rightarrow> nat \<Rightarrow> event_queue option" where
  "queue_poll q i =
     (case eq_fds q i of
        Some (Suc n) \<Rightarrow> Some ((wait_unregister q i)\<lparr>eq_fds := (eq_fds q)(i := Some 0)\<rparr>)
      | _ \<Rightarrow> None)"

section \<open>What the queue holds\<close>

text \<open>The events pushed so far and those each consumer has read, beside the queue and the producer's cache.\<close>

record broadcast =
  bc_queue :: event_queue
  bc_cache :: nat
  bc_sent :: "market_event list"
  bc_got :: "nat \<Rightarrow> market_event list"

definition eq_holds :: "event_queue \<Rightarrow> market_event list \<Rightarrow> bool" where
  "eq_holds q evs \<longleftrightarrow> eq_tail q = length evs \<and> (\<forall>j < length evs. length evs \<le> j + eq_cap q \<longrightarrow> eq_slots q (j mod eq_cap q) = evs ! j)"

definition progress_ok :: "event_queue \<Rightarrow> nat \<Rightarrow> bool" where
  "progress_ok q i \<longleftrightarrow> eq_heads q i \<le> eq_local q i \<and> eq_local q i \<le> eq_tail q \<and> eq_tail q \<le> eq_heads q i + eq_cap q \<and>
     eq_local q i = eq_heads q i + eq_unpublished q i \<and> eq_unpublished q i < kLazyBatch"

definition broadcast_ok :: "broadcast \<Rightarrow> bool" where
  "broadcast_ok b \<longleftrightarrow> is_pow2 (eq_cap (bc_queue b)) \<and> 0 < eq_num (bc_queue b) \<and> eq_holds (bc_queue b) (bc_sent b) \<and>
     (\<forall>i < eq_num (bc_queue b). progress_ok (bc_queue b) i \<and> bc_cache b \<le> eq_heads (bc_queue b) i \<and>
       bc_got b i = take (eq_local (bc_queue b) i) (bc_sent b))"

text \<open>The steps of the producer and of the consumers. What a thread has loaded of another's positions may be
  old: a head is at most the published one, a tail lies between the consumer's position and the present tail.\<close>

inductive bc_step :: "broadcast \<Rightarrow> broadcast \<Rightarrow> bool" where
  push: "\<forall>i < eq_num (bc_queue b). hs i \<le> eq_heads (bc_queue b) i \<Longrightarrow> eq_push_seen (bc_queue b) hs (bc_cache b) ev = (q, c, ok) \<Longrightarrow>
    bc_step b (b\<lparr>bc_queue := q, bc_cache := c, bc_sent := bc_sent b @ (if ok then [ev] else [])\<rparr>)"
| pop: "i < eq_num (bc_queue b) \<Longrightarrow> eq_local (bc_queue b) i \<le> t \<Longrightarrow> t \<le> eq_tail (bc_queue b) \<Longrightarrow>
    eq_pop_seen (bc_queue b) t i = (q, r) \<Longrightarrow>
    bc_step b (b\<lparr>bc_queue := q, bc_got := (bc_got b)(i := bc_got b i @ (case r of None \<Rightarrow> [] | Some ev \<Rightarrow> [ev]))\<rparr>)"
| flush: "i < eq_num (bc_queue b) \<Longrightarrow> bc_step b (b\<lparr>bc_queue := progress_flush (bc_queue b) i\<rparr>)"

inductive_cases bc_stepE: "bc_step b b'"

definition new_broadcast :: "nat \<Rightarrow> (nat \<Rightarrow> nat option) \<Rightarrow> nat \<Rightarrow> broadcast" where
  "new_broadcast n fds k = \<lparr>bc_queue = set_num_consumers (new_event_queue n fds) k, bc_cache = 0, bc_sent = [], bc_got = (\<lambda>_. [])\<rparr>"

section \<open>Operations keep the invariant\<close>

lemma min_seen_fold:
  fixes hs :: "nat \<Rightarrow> nat"
  shows "fold (\<lambda>i m. if hs i < m then hs i else m) xs m0 \<le> m0 \<and> (\<forall>i\<in>set xs. fold (\<lambda>i m. if hs i < m then hs i else m) xs m0 \<le> hs i)"
proof (induction xs arbitrary: m0)
  case (Cons x xs)
  define m1 where "m1 = (if hs x < m0 then hs x else m0)"
  have "m1 \<le> m0" "m1 \<le> hs x" by (auto simp: m1_def)
  then show ?case using Cons.IH [of m1] unfolding fold_simps(2) m1_def [symmetric] by (auto intro: order_trans)
qed simp

lemma min_seen_le: "i < eq_num q \<Longrightarrow> min_seen q hs \<le> hs i"
  using min_seen_fold [of hs "[0..<eq_num q]" "2 ^ 64 - 1"] by (simp add: min_seen_def)

lemma notify_all_simps [simp]:
  "eq_slots (notify_all q) = eq_slots q" "eq_cap (notify_all q) = eq_cap q" "eq_tail (notify_all q) = eq_tail q"
  "eq_heads (notify_all q) = eq_heads q" "eq_local (notify_all q) = eq_local q" "eq_unpublished (notify_all q) = eq_unpublished q"
  "eq_num (notify_all q) = eq_num q" "eq_blocked (notify_all q) = eq_blocked q"
  by (simp_all add: notify_all_def)

lemma progress_flush_simps [simp]:
  "eq_slots (progress_flush q i) = eq_slots q" "eq_cap (progress_flush q i) = eq_cap q" "eq_tail (progress_flush q i) = eq_tail q"
  "eq_local (progress_flush q i) = eq_local q" "eq_num (progress_flush q i) = eq_num q"
  "eq_heads (progress_flush q i) = (eq_heads q)(i := eq_local q i)" "eq_unpublished (progress_flush q i) = (eq_unpublished q)(i := 0)"
  by (auto simp: progress_flush_def Let_def)

lemma eq_store_holds:
  assumes "eq_holds q evs" "is_pow2 (eq_cap q)"
  shows "eq_holds (eq_store q ev) (evs @ [ev])"
proof -
  have t: "eq_tail q = length evs" using assms(1) by (simp add: eq_holds_def)
  have pos: "eq_tail q AND (eq_cap q - 1) = eq_tail q mod eq_cap q" using assms(2) by (rule and_pow2_mod)
  have "eq_slots (eq_store q ev) (j mod eq_cap q) = (evs @ [ev]) ! j" if j: "j < Suc (length evs)" "Suc (length evs) \<le> j + eq_cap q" for j
  proof (cases "j = length evs")
    case True
    then show ?thesis using t pos by (simp add: eq_store_def)
  next
    case False
    then have "j mod eq_cap q \<noteq> length evs mod eq_cap q" using j by (intro mod_neq) linarith+
    then show ?thesis using False j assms(1) t pos by (simp add: eq_store_def eq_holds_def nth_append)
  qed
  then show ?thesis using t by (simp add: eq_holds_def eq_store_def)
qed

lemma eq_push_cases:
  assumes ok: "eq_holds q evs" "is_pow2 (eq_cap q)" "0 < eq_num q"
    and hs: "\<forall>i < eq_num q. hs i \<le> eq_heads q i" "\<forall>i < eq_num q. eq_heads q i \<le> eq_tail q" "\<forall>i < eq_num q. cache \<le> eq_heads q i"
  obtains (pushed) c where "eq_push_seen q hs cache ev = (notify_all (eq_store q ev), c, True)"
      "\<forall>i < eq_num q. c \<le> eq_heads q i" "eq_tail q < c + eq_cap q"
  | (full) c where "eq_push_seen q hs cache ev = (q, c, False)" "\<forall>i < eq_num q. c \<le> eq_heads q i"
      "c + eq_cap q \<le> eq_tail q" "c = min_seen q hs"
proof -
  define c where "c = min_seen q hs"
  have c: "\<forall>i < eq_num q. c \<le> eq_heads q i" using min_seen_le [of _ q hs] hs(1) unfolding c_def by (meson order_trans)
  have a: "ahead (eq_tail q) m = eq_tail q - m" "m \<le> eq_tail q" if "\<forall>i < eq_num q. m \<le> eq_heads q i" for m
  proof -
    show "m \<le> eq_tail q" using that hs(2) ok(3) by (meson order_trans)
    then show "ahead (eq_tail q) m = eq_tail q - m" by (simp add: ahead_def)
  qed
  show thesis
  proof (cases "eq_tail q - cache < eq_cap q")
    case True
    show thesis
    proof (rule pushed [OF _ hs(3)])
      show "eq_push_seen q hs cache ev = (notify_all (eq_store q ev), cache, True)" using True by (simp add: eq_push_seen_def a(1) [OF hs(3)])
      show "eq_tail q < cache + eq_cap q" using True by linarith
    qed
  next
    case False
    then have e: "eq_push_seen q hs cache ev = (if eq_tail q - c < eq_cap q then (notify_all (eq_store q ev), c, True) else (q, c, False))"
      by (simp add: eq_push_seen_def Let_def a(1) [OF hs(3)] a(1) [OF c] flip: c_def)
    show thesis
    proof (cases "eq_tail q - c < eq_cap q")
      case True
      then show thesis using pushed [OF _ c] e by simp
    next
      case False
      then show thesis using full [OF _ c _ c_def] e a(2) [OF c] by simp
    qed
  qed
qed

lemma progress_flush_ok:
  assumes "progress_ok q i" "progress_ok q j" shows "progress_ok (progress_flush q j) i"
  using assms by (auto simp: progress_ok_def)

lemma eq_pop_cases:
  assumes "eq_holds q evs" "is_pow2 (eq_cap q)" "progress_ok q i" "eq_local q i \<le> t" "t \<le> eq_tail q"
  obtains (nothing) "eq_pop_seen q t i = (progress_flush q i, None)" "t = eq_local q i"
  | (event) q' where "eq_pop_seen q t i = (q', Some (evs ! eq_local q i))" "eq_local q i < t"
      "eq_slots q' = eq_slots q" "eq_cap q' = eq_cap q" "eq_tail q' = eq_tail q" "eq_num q' = eq_num q"
      "eq_local q' = (eq_local q)(i := eq_local q i + 1)" "progress_ok q' i"
      "\<forall>j. j \<noteq> i \<longrightarrow> eq_heads q' j = eq_heads q j \<and> eq_unpublished q' j = eq_unpublished q j" "eq_heads q i \<le> eq_heads q' i"
proof (cases "t = eq_local q i")
  case True
  then have "eq_pop_seen q t i = (progress_flush q i, None)" by (simp add: eq_pop_seen_def)
  then show thesis using True by (rule nothing)
next
  case False
  define q1 where "q1 = q\<lparr>eq_local := (eq_local q)(i := eq_local q i + 1), eq_unpublished := (eq_unpublished q)(i := eq_unpublished q i + 1)\<rparr>"
  define q2 where "q2 = (if eq_unpublished q1 i \<ge> kLazyBatch \<or> eq_local q i + 1 = t then progress_flush q1 i else q1)"
  have lt: "eq_local q i < t" using False assms(4) by simp
  have p: "eq_heads q i \<le> eq_local q i" "eq_tail q \<le> eq_heads q i + eq_cap q" "eq_local q i = eq_heads q i + eq_unpublished q i"
    using assms(3) by (simp_all add: progress_ok_def)
  have h: "length evs = eq_tail q" "\<forall>j < length evs. length evs \<le> j + eq_cap q \<longrightarrow> eq_slots q (j mod eq_cap q) = evs ! j"
    using assms(1) by (simp_all add: eq_holds_def)
  have "eq_local q i AND (eq_cap q - 1) = eq_local q i mod eq_cap q" using assms(2) by (rule and_pow2_mod)
  moreover have "eq_slots q (eq_local q i mod eq_cap q) = evs ! eq_local q i"
    using h lt assms(5) p by simp
  ultimately have e: "eq_pop_seen q t i = (q2, Some (evs ! eq_local q i))"
    using False by (simp add: eq_pop_seen_def Let_def q1_def q2_def)
  show thesis
    by (rule event [OF e lt]) (use p lt assms(5) in \<open>auto simp: q2_def q1_def progress_ok_def\<close>)
qed

lemma flush_ok:
  assumes "broadcast_ok b" "i < eq_num (bc_queue b)"
  shows "broadcast_ok (b\<lparr>bc_queue := progress_flush (bc_queue b) i\<rparr>)"
proof -
  let ?q = "bc_queue b"
  have o: "is_pow2 (eq_cap ?q)" "0 < eq_num ?q" "eq_holds ?q (bc_sent b)"
    and each: "\<And>i. i < eq_num ?q \<Longrightarrow> progress_ok ?q i \<and> bc_cache b \<le> eq_heads ?q i \<and> bc_got b i = take (eq_local ?q i) (bc_sent b)"
    using assms(1) by (simp_all add: broadcast_ok_def)
  have "eq_holds (progress_flush ?q i) (bc_sent b)" using o(3) by (simp add: eq_holds_def)
  moreover have "progress_ok (progress_flush ?q i) j \<and> bc_cache b \<le> eq_heads (progress_flush ?q i) j" if "j < eq_num ?q" for j
    using each [OF that] each [OF assms(2)] progress_flush_ok by (auto simp: progress_ok_def)
  ultimately show ?thesis using o(1,2) each by (simp add: broadcast_ok_def)
qed

lemma bc_step_ok:
  assumes step: "bc_step b b'" and ok: "broadcast_ok b"
  shows "broadcast_ok b'"
proof -
  let ?q = "bc_queue b" and ?s = "bc_sent b"
  have o: "is_pow2 (eq_cap ?q)" "0 < eq_num ?q" "eq_holds ?q ?s"
    and each: "\<And>i. i < eq_num ?q \<Longrightarrow> progress_ok ?q i" "\<And>i. i < eq_num ?q \<Longrightarrow> bc_cache b \<le> eq_heads ?q i"
      "\<And>i. i < eq_num ?q \<Longrightarrow> bc_got b i = take (eq_local ?q i) ?s"
    using ok by (simp_all add: broadcast_ok_def)
  have len: "eq_tail ?q = length ?s" using o(3) by (simp add: eq_holds_def)
  have p: "eq_heads ?q i \<le> eq_tail ?q" "eq_local ?q i \<le> length ?s" if "i < eq_num ?q" for i
    using each(1) [OF that] len by (simp_all add: progress_ok_def)
  show ?thesis using step
  proof cases
    case (push hs ev q c ok)
    have h: "\<forall>i < eq_num ?q. eq_heads ?q i \<le> eq_tail ?q" "\<forall>i < eq_num ?q. bc_cache b \<le> eq_heads ?q i" using p each(2) by auto
    show ?thesis
    proof (cases rule: eq_push_cases [OF o(3,1,2) push(2) h, of ev])
      case (1 c')
      then have q: "q = notify_all (eq_store ?q ev)" "c = c'" "ok" using push(3) by simp_all
      have "eq_holds q (?s @ [ev])" using eq_store_holds [OF o(3,1), of ev] by (simp add: q eq_holds_def)
      moreover have "progress_ok q i \<and> c \<le> eq_heads q i \<and> bc_got b i = take (eq_local q i) (?s @ [ev])" if "i < eq_num ?q" for i
      proof -
        have "c' \<le> eq_heads ?q i" using 1(2) that by blast
        then show ?thesis using each(1) [OF that] 1(3) each(3) [OF that] p [OF that]
          by (auto simp: q eq_store_def progress_ok_def)
      qed
      ultimately show ?thesis using o push(1) q by (simp add: broadcast_ok_def eq_store_def)
    next
      case (2 c')
      then show ?thesis using push ok by (simp add: broadcast_ok_def)
    qed
  next
    case (pop i t q r)
    show ?thesis
    proof (cases rule: eq_pop_cases [OF o(3,1) each(1) [OF pop(2)] pop(3,4)])
      case 1
      then have "b' = b\<lparr>bc_queue := progress_flush ?q i\<rparr>" using pop(1,5) by (cases b) simp
      then show ?thesis using flush_ok [OF ok pop(2)] by simp
    next
      case (2 q')
      then have q: "q = q'" "r = Some (?s ! eq_local ?q i)" using pop(5) by simp_all
      have lt: "eq_local ?q i < length ?s" using 2(2) pop(4) len by simp
      have "eq_holds q ?s" using o(3) 2 q by (simp add: eq_holds_def)
      moreover have "progress_ok q j \<and> bc_cache b \<le> eq_heads q j \<and>
          bc_got (b\<lparr>bc_got := (bc_got b)(i := bc_got b i @ [?s ! eq_local ?q i])\<rparr>) j = take (eq_local q j) ?s" if j: "j < eq_num ?q" for j
      proof (cases "j = i")
        case True
        then show ?thesis using 2(7,8,10) each(2,3) [OF pop(2)] q lt by (auto simp: take_Suc_conv_app_nth)
      next
        case False
        then show ?thesis using 2(5,7,9) 2(4) each [OF j] q by (simp add: progress_ok_def)
      qed
      ultimately show ?thesis using pop(1) o 2(4,6) q by (simp add: broadcast_ok_def)
    qed
  next
    case (flush i)
    then show ?thesis using flush_ok [OF ok flush(2)] by simp
  qed
qed

lemma bc_steps_ok: "bc_step\<^sup>*\<^sup>* b b' \<Longrightarrow> broadcast_ok b \<Longrightarrow> broadcast_ok b'"
  by (induction rule: rtranclp_induct) (auto intro: bc_step_ok)

lemma new_broadcast_ok: "is_pow2 n \<Longrightarrow> 0 < k \<Longrightarrow> broadcast_ok (new_broadcast n fds k)"
  by (simp add: broadcast_ok_def new_broadcast_def set_num_consumers_def new_event_queue_def eq_holds_def progress_ok_def)

lemma bc_step_shape:
  assumes "bc_step b b'" shows "eq_num (bc_queue b') = eq_num (bc_queue b) \<and> eq_cap (bc_queue b') = eq_cap (bc_queue b)"
  using assms by cases (auto simp: eq_push_seen_def eq_pop_seen_def eq_store_def Let_def split: if_splits)

lemma bc_steps_shape:
  "bc_step\<^sup>*\<^sup>* b b' \<Longrightarrow> eq_num (bc_queue b') = eq_num (bc_queue b) \<and> eq_cap (bc_queue b') = eq_cap (bc_queue b)"
  by (induction rule: rtranclp_induct) (use bc_step_shape in auto)

lemma min_seen_attained:
  fixes hs :: "nat \<Rightarrow> nat"
  shows "fold (\<lambda>i m. if hs i < m then hs i else m) xs m0 = m0 \<or> (\<exists>i\<in>set xs. fold (\<lambda>i m. if hs i < m then hs i else m) xs m0 = hs i)"
proof (induction xs arbitrary: m0)
  case (Cons x xs)
  show ?case using Cons.IH [of "if hs x < m0 then hs x else m0"] unfolding fold_simps(2) by (auto split: if_splits)
qed simp

section \<open>The sleeping consumer\<close>

datatype sleeper = Awake | Registered | Asleep

text \<open>The producer between the store of an event and the notification, and one consumer \<open>i\<close> on its way to
  sleep. While it is awake it may read and publish; other consumers register and deregister.\<close>

inductive wake_step :: "nat \<Rightarrow> event_queue \<times> bool \<times> sleeper \<Rightarrow> event_queue \<times> bool \<times> sleeper \<Rightarrow> bool" for i where
  store: "wake_step i (q, False, pc) (eq_store q ev, True, pc)"
| notify: "wake_step i (q, True, pc) (notify_all q, False, pc)"
| register: "wake_step i (q, w, Awake) (wait_register q i, w, Registered)"
| stay: "wait_recheck q i = Some q' \<Longrightarrow> wake_step i (q, w, Registered) (q', w, Awake)"
| sleep: "wait_recheck q i = None \<Longrightarrow> wake_step i (q, w, Registered) (q, w, Asleep)"
| wake: "queue_poll q i = Some q' \<Longrightarrow> wake_step i (q, w, Asleep) (q', w, Awake)"
| read: "eq_pop q i = (q', r) \<Longrightarrow> wake_step i (q, w, Awake) (q', w, Awake)"
| other_register: "j \<noteq> i \<Longrightarrow> wake_step i (q, w, pc) (wait_register q j, w, pc)"
| other_unregister: "j \<noteq> i \<Longrightarrow> wake_step i (q, w, pc) (wait_unregister q j, w, pc)"

definition wake_inv :: "nat \<Rightarrow> event_queue \<times> bool \<times> sleeper \<Rightarrow> bool" where
  "wake_inv i st \<longleftrightarrow> (case st of (q, w, pc) \<Rightarrow> i < eq_num q \<and> i < 32 \<and> eq_fds q i \<noteq> None \<and>
     (pc \<noteq> Awake \<longrightarrow> bit (eq_blocked q) i) \<and>
     (pc = Asleep \<longrightarrow> eq_pending q i = 0 \<or> w \<or> (\<exists>n. eq_fds q i = Some (Suc n))))"

lemma bit_register: "i < 32 \<Longrightarrow> bit (eq_blocked (wait_register q j)) i \<longleftrightarrow> bit (eq_blocked q) i \<or> i = j"
  by (auto simp: wait_register_def bit_or_iff bit_push_bit_iff bit_1_iff bit_exp_iff possible_bit_word)

lemma bit_unregister: "i < 32 \<Longrightarrow> bit (eq_blocked (wait_unregister q j)) i \<longleftrightarrow> bit (eq_blocked q) i \<and> i \<noteq> j"
  by (auto simp: wait_unregister_def bit_and_iff bit_not_iff bit_push_bit_iff bit_1_iff bit_exp_iff possible_bit_word)

lemma wait_simps [simp]:
  "eq_num (wait_register q j) = eq_num q" "eq_fds (wait_register q j) = eq_fds q" "eq_pending (wait_register q j) i = eq_pending q i"
  "eq_num (wait_unregister q j) = eq_num q" "eq_fds (wait_unregister q j) = eq_fds q" "eq_pending (wait_unregister q j) i = eq_pending q i"
  "eq_num (eq_store q ev) = eq_num q" "eq_fds (eq_store q ev) = eq_fds q" "eq_blocked (eq_store q ev) = eq_blocked q"
  "eq_pending (notify_all q) i = eq_pending q i"
  by (simp_all add: wait_register_def wait_unregister_def eq_pending_def eq_store_def)

lemma notify_fds: "i < eq_num q \<Longrightarrow> bit (eq_blocked q) i \<Longrightarrow> eq_fds (notify_all q) i = map_option Suc (eq_fds q i)"
  by (auto simp: notify_all_def)

lemma notify_fds_some: "eq_fds q i \<noteq> None \<Longrightarrow> eq_fds (notify_all q) i \<noteq> None"
  by (simp add: notify_all_def)

lemma eq_pop_fds: "eq_fds (fst (eq_pop q i)) = eq_fds q \<and> eq_num (fst (eq_pop q i)) = eq_num q"
  by (simp add: eq_pop_def eq_pop_seen_def progress_flush_def Let_def)

lemma wake_step_inv:
  assumes "wake_step i st st'" "wake_inv i st" shows "wake_inv i st'"
  using assms
proof cases
  case (notify q pc)
  then show ?thesis using assms(2) notify_fds [of i q] notify_fds_some [of q i] by (auto simp: wake_inv_def)
next
  case (wake q q' w)
  then show ?thesis using assms(2) by (auto simp: wake_inv_def queue_poll_def split: option.splits nat.splits)
next
  case (read q q' r w)
  then show ?thesis using assms(2) eq_pop_fds [of q i] by (auto simp: wake_inv_def)
next
  case (stay q q' w)
  then show ?thesis using assms(2) by (auto simp: wake_inv_def wait_recheck_def split: if_splits)
next
  case (sleep q w)
  then show ?thesis using assms(2) by (auto simp: wake_inv_def wait_recheck_def split: if_splits)
qed (use assms(2) in \<open>auto simp: wake_inv_def bit_register bit_unregister\<close>)

lemma wake_steps_inv: "(wake_step i)\<^sup>*\<^sup>* st st' \<Longrightarrow> wake_inv i st \<Longrightarrow> wake_inv i st'"
  by (induction rule: rtranclp_induct) (auto intro: wake_step_inv)

section \<open>Properties\<close>

text \<open>C15. Every consumer of the broadcast queue reads the pushed events in order, each once: however the
  threads interleave and however old the positions are that they have loaded of each other, what a consumer
  has read is a prefix of what was pushed, the rest is still in the queue, and its published progress lags
  by fewer than 64 events.\<close>

theorem broadcast_fifo:
  assumes "is_pow2 n" "bc_step\<^sup>*\<^sup>* (new_broadcast n fds k) b" "i < k"
  shows "bc_got b i = take (length (bc_got b i)) (bc_sent b) \<and> length (bc_sent b) \<le> length (bc_got b i) + n \<and>
    length (bc_got b i) < eq_heads (bc_queue b) i + kLazyBatch \<and> bc_cache b \<le> eq_heads (bc_queue b) i"
proof -
  have "broadcast_ok b" using bc_steps_ok [OF assms(2) new_broadcast_ok [OF assms(1)]] assms(3) by simp
  moreover have "eq_num (bc_queue b) = k" "eq_cap (bc_queue b) = n"
    using bc_steps_shape [OF assms(2)] by (simp_all add: new_broadcast_def set_num_consumers_def new_event_queue_def)
  ultimately show ?thesis using assms(3) by (auto simp: broadcast_ok_def progress_ok_def eq_holds_def)
qed

definition sample_event :: market_event where
  "sample_event = empty_event\<lparr>ev_seq_id := 7\<rparr>"

theorem broadcast_fifo_witness:
  "\<exists>b. bc_step\<^sup>*\<^sup>* (new_broadcast 2 (\<lambda>_. None) 2) b \<and> bc_sent b = [sample_event] \<and> bc_got b 1 = [sample_event] \<and>
    length (bc_got b 1) < eq_heads (bc_queue b) 1 + kLazyBatch"
proof -
  let ?b0 = "new_broadcast 2 (\<lambda>_. None) 2"
  have p: "is_pow2 2" using is_pow2_power [of 1] by simp
  define q1 where "q1 = eq_store (bc_queue ?b0) sample_event"
  have e: "eq_push_seen (bc_queue ?b0) (\<lambda>_. 0) (bc_cache ?b0) sample_event = (q1, 0, True)"
    by (simp add: q1_def new_broadcast_def set_num_consumers_def new_event_queue_def eq_push_seen_def ahead_def notify_all_def eq_store_def)
  define b1 where "b1 = ?b0\<lparr>bc_queue := q1, bc_cache := 0, bc_sent := bc_sent ?b0 @ [sample_event]\<rparr>"
  have s1: "bc_step ?b0 b1" using bc_step.push [of ?b0 "\<lambda>_. 0", OF _ e] by (simp add: b1_def)
  obtain q2 where q2: "eq_pop_seen (bc_queue b1) 1 1 = (q2, Some sample_event)"
    by (simp add: b1_def q1_def eq_pop_seen_def eq_store_def new_broadcast_def set_num_consumers_def new_event_queue_def Let_def)
  define b2 where "b2 = b1\<lparr>bc_queue := q2, bc_got := (bc_got b1)(1 := [sample_event])\<rparr>"
  have "1 < eq_num (bc_queue b1)" "eq_local (bc_queue b1) 1 \<le> 1" "1 \<le> eq_tail (bc_queue b1)" "bc_got b1 1 = []"
    by (simp_all add: b1_def q1_def eq_store_def new_broadcast_def set_num_consumers_def new_event_queue_def)
  then have s2: "bc_step b1 b2" using bc_step.pop [OF _ _ _ q2] by (simp add: b2_def)
  have r: "bc_step\<^sup>*\<^sup>* ?b0 b2" using s1 s2 by (meson rtranclp.rtrancl_refl rtranclp.rtrancl_into_rtrancl)
  show ?thesis using broadcast_fifo [OF p r, of 1] r by (auto simp: b2_def b1_def new_broadcast_def)
qed

text \<open>A push is refused only when it has to be, up to the lazy publication: if it looks at the present
  heads and refuses, some consumer has more than the capacity less 64 events unread.\<close>

theorem refusal_means_behind:
  assumes "broadcast_ok b" "eq_push (bc_queue b) (bc_cache b) ev = (q, c, False)" "length (bc_sent b) < 2 ^ 64"
  shows "\<exists>i. i < eq_num (bc_queue b) \<and> length (bc_got b i) + eq_cap (bc_queue b) < length (bc_sent b) + kLazyBatch \<and> q = bc_queue b"
proof -
  let ?q = "bc_queue b"
  have o: "is_pow2 (eq_cap ?q)" "0 < eq_num ?q" "eq_holds ?q (bc_sent b)"
    and each: "\<And>i. i < eq_num ?q \<Longrightarrow> progress_ok ?q i \<and> bc_cache b \<le> eq_heads ?q i \<and> bc_got b i = take (eq_local ?q i) (bc_sent b)"
    using assms(1) by (simp_all add: broadcast_ok_def)
  have h: "\<forall>i < eq_num ?q. eq_heads ?q i \<le> eq_heads ?q i" "\<forall>i < eq_num ?q. eq_heads ?q i \<le> eq_tail ?q" "\<forall>i < eq_num ?q. bc_cache b \<le> eq_heads ?q i"
    using each by (force simp: progress_ok_def)+
  have len: "eq_tail ?q = length (bc_sent b)" "0 < eq_cap ?q" using o by (auto simp: eq_holds_def)
  show ?thesis
  proof (cases rule: eq_push_cases [OF o(3,1,2) h, of ev])
    case (1 c')
    then show ?thesis using assms(2) by (simp add: eq_push_def)
  next
    case (2 c')
    have "c' \<noteq> 2 ^ 64 - 1" using 2(3) len assms(3) by auto
    then obtain i where i: "i < eq_num ?q" "c' = eq_heads ?q i"
      using min_seen_attained [of "eq_heads ?q" "[0..<eq_num ?q]" "2 ^ 64 - 1"] 2(4) by (auto simp: min_seen_def)
    have "eq_local ?q i < c' + kLazyBatch" "length (bc_got b i) \<le> eq_local ?q i"
      using each [OF i(1)] i(2) by (auto simp: progress_ok_def)
    then have "length (bc_got b i) + eq_cap ?q < length (bc_sent b) + kLazyBatch" using 2(3) len(1) by linarith
    then show ?thesis using i(1) 2(1) assms(2) by (auto simp: eq_push_def)
  qed
qed

text \<open>A queue of two slots, full, with a consumer that has read nothing.\<close>

definition full_queue :: broadcast where
  "full_queue = \<lparr>bc_queue = eq_store (eq_store (new_event_queue 2 (\<lambda>_. None)) empty_event) sample_event, bc_cache = 0,
     bc_sent = [empty_event, sample_event], bc_got = (\<lambda>_. [])\<rparr>"

lemma full_queue_eval:
  "eq_cap (bc_queue full_queue) = 2" "eq_num (bc_queue full_queue) = 1" "eq_tail (bc_queue full_queue) = 2"
  "eq_local (bc_queue full_queue) i = 0" "eq_heads (bc_queue full_queue) i = 0" "eq_unpublished (bc_queue full_queue) i = 0"
  "bc_cache full_queue = 0" "bc_sent full_queue = [empty_event, sample_event]" "bc_got full_queue i = []"
  by (simp_all add: full_queue_def eq_store_def new_event_queue_def)

lemma full_queue_ok: "broadcast_ok full_queue"
proof -
  have p: "is_pow2 2" using is_pow2_power [of 1] by simp
  have "eq_holds (new_event_queue 2 (\<lambda>_. None)) []" by (simp add: eq_holds_def new_event_queue_def)
  moreover have c: "eq_cap (new_event_queue 2 (\<lambda>_. None)) = 2" "eq_cap (eq_store (new_event_queue 2 (\<lambda>_. None)) empty_event) = 2"
    by (simp_all add: new_event_queue_def eq_store_def)
  ultimately have "eq_holds (bc_queue full_queue) [empty_event, sample_event]"
    using eq_store_holds [OF eq_store_holds, of "new_event_queue 2 (\<lambda>_. None)" "[]" empty_event sample_event] p
    by (simp add: full_queue_def)
  then show ?thesis using p by (simp add: broadcast_ok_def progress_ok_def full_queue_eval)
qed

theorem refusal_means_behind_witness:
  "\<exists>i. i < eq_num (bc_queue full_queue) \<and> length (bc_got full_queue i) + 2 < length (bc_sent full_queue) + kLazyBatch"
proof -
  have e: "eq_push (bc_queue full_queue) (bc_cache full_queue) sample_event = (bc_queue full_queue, 0, False)"
    by (simp add: eq_push_def eq_push_seen_def min_seen_def ahead_def full_queue_eval)
  show ?thesis using refusal_means_behind [OF full_queue_ok e] by (auto simp: full_queue_eval)
qed

text \<open>The cache is one per thread and class, not one per queue. When the producer has in between pushed into
  another queue of the class whose consumers are further on, a full queue is taken for one with space: the
  push succeeds and the slowest consumer finds the new event in the place of its next one.\<close>

theorem shared_cache_overwrites:
  assumes "broadcast_ok b" "i < eq_num (bc_queue b)" "eq_local (bc_queue b) i + eq_cap (bc_queue b) = eq_tail (bc_queue b)"
    and "eq_push other (bc_cache b) ev0 = (other', c, ok)" "eq_local (bc_queue b) i < c" "c \<le> eq_tail (bc_queue b)"
  shows "snd (eq_pop (bc_queue b) i) = Some (bc_sent b ! length (bc_got b i)) \<and>
    (\<exists>q. eq_push (bc_queue b) c ev = (q, c, True) \<and> snd (eq_pop q i) = Some ev)"
proof -
  let ?q = "bc_queue b"
  have o: "is_pow2 (eq_cap ?q)" "eq_holds ?q (bc_sent b)" "progress_ok ?q i" "bc_got b i = take (eq_local ?q i) (bc_sent b)"
    using assms(1,2) by (simp_all add: broadcast_ok_def)
  have c0: "0 < eq_cap ?q" using o(1) by auto
  have len: "eq_tail ?q = length (bc_sent b)" using o(2) by (simp add: eq_holds_def)
  have l: "eq_local ?q i < eq_tail ?q" using assms(3) c0 by linarith
  have "snd (eq_pop ?q i) = Some (bc_sent b ! eq_local ?q i)"
    by (cases rule: eq_pop_cases [OF o(2,1,3), of "eq_tail ?q"]) (use l in \<open>auto simp: eq_pop_def\<close>)
  moreover have "length (bc_got b i) = eq_local ?q i" using o(4) l len by simp
  moreover have "eq_push ?q c ev = (notify_all (eq_store ?q ev), c, True)"
    using assms(3,5,6) by (auto simp: eq_push_def eq_push_seen_def ahead_def)
  moreover have "eq_tail ?q AND (eq_cap ?q - 1) = eq_local ?q i AND (eq_cap ?q - 1)"
    unfolding and_pow2_mod [OF o(1)] assms(3) [symmetric] by simp
  then have "snd (eq_pop (notify_all (eq_store ?q ev)) i) = Some ev"
    using l by (simp add: eq_pop_def eq_pop_seen_def eq_store_def Let_def)
  ultimately show ?thesis by auto
qed

text \<open>Another queue of two slots, all of whose events have been read.\<close>

definition drained_queue :: event_queue where
  "drained_queue = (new_event_queue 2 (\<lambda>_. None))\<lparr>eq_tail := 2, eq_heads := (\<lambda>_. 2), eq_local := (\<lambda>_. 2)\<rparr>"

theorem shared_cache_overwrites_witness:
  "eq_push drained_queue 0 empty_event = (eq_store drained_queue empty_event, 2, True) \<and>
    (\<exists>q. eq_push (bc_queue full_queue) 2 sample_event = (q, 2, True) \<and> snd (eq_pop q 0) = Some sample_event)"
proof -
  have e: "eq_push drained_queue 0 empty_event = (eq_store drained_queue empty_event, 2, True)"
    by (simp add: eq_push_def eq_push_seen_def min_seen_def ahead_def drained_queue_def new_event_queue_def notify_all_def eq_store_def)
  then have e': "eq_push drained_queue (bc_cache full_queue) empty_event = (eq_store drained_queue empty_event, 2, True)"
    by (simp add: full_queue_eval)
  show ?thesis using shared_cache_overwrites [OF full_queue_ok _ _ e', of 0 sample_event] e by (simp add: full_queue_eval)
qed



end
