(* ===== verification/Queue_Manager.thy ===== *)
theory Queue_Manager
  imports Shared_Ring Broadcast_Queue
begin

text \<open>
  The table of queues of \<^verbatim>\<open>core/queue/queue_manager.h\<close>: sixteen slots filled in the order of creation, each a
  variant of the three kinds of queue. An access at another kind than the one created throws; an access
  to a slot that was never filled reads the variant's default, a null pointer of its first kind.
\<close>

section \<open>The table\<close>

datatype queue_type = SPSC_BYTE_RING | SPMC_BYTE_RING | SPMC_EVENT_QUEUE

datatype any_queue = Spsc_Bytes byte_ring | Spmc_Bytes shared_ring | Spmc_Events event_queue

datatype queue_error = Bad_variant_access | Null_pointer | Out_of_range

record queue_table =
  qm_queues :: "any_queue option list"
  qm_count :: nat

abbreviation kMaxQueues :: nat where "kMaxQueues \<equiv> 16"

definition new_queue_table :: queue_table where
  "new_queue_table = \<lparr>qm_queues = replicate kMaxQueues None, qm_count = 0\<rparr>"

fun make_queue :: "queue_type \<Rightarrow> nat \<Rightarrow> nat \<Rightarrow> (nat \<Rightarrow> nat option) \<Rightarrow> any_queue" where
  "make_queue SPSC_BYTE_RING n k fds = Spsc_Bytes (new_ring n)"
| "make_queue SPMC_BYTE_RING n k fds = Spmc_Bytes (new_shared_ring n)"
| "make_queue SPMC_EVENT_QUEUE n k fds = Spmc_Events (set_num_consumers (new_event_queue n fds) k)"

definition create_queue :: "queue_table \<Rightarrow> queue_type \<Rightarrow> nat \<Rightarrow> nat \<Rightarrow> (nat \<Rightarrow> nat option) \<Rightarrow> queue_table \<times> nat" where
  "create_queue m ty n k fds =
     (if qm_count m \<ge> kMaxQueues then (m, 2 ^ 64 - 1)
      else (m\<lparr>qm_queues := (qm_queues m)[qm_count m := Some (make_queue ty n k fds)], qm_count := qm_count m + 1\<rparr>, qm_count m))"

fun type_of_queue :: "any_queue \<Rightarrow> queue_type" where
  "type_of_queue (Spsc_Bytes r) = SPSC_BYTE_RING"
| "type_of_queue (Spmc_Bytes r) = SPMC_BYTE_RING"
| "type_of_queue (Spmc_Events q) = SPMC_EVENT_QUEUE"

definition get_queue :: "queue_type \<Rightarrow> queue_table \<Rightarrow> nat \<Rightarrow> queue_error + any_queue" where
  "get_queue ty m i =
     (if i \<ge> kMaxQueues then Inl Out_of_range
      else case qm_queues m ! i of
        None \<Rightarrow> Inl (if ty = SPSC_BYTE_RING then Null_pointer else Bad_variant_access)
      | Some q \<Rightarrow> if type_of_queue q = ty then Inr q else Inl Bad_variant_access)"

text \<open>A program creates its queues one after the other.\<close>

fun create_queues :: "queue_table \<Rightarrow> (queue_type \<times> nat \<times> nat \<times> (nat \<Rightarrow> nat option)) list \<Rightarrow> queue_table \<times> nat list" where
  "create_queues m [] = (m, [])"
| "create_queues m ((ty, n, k, fds) # rs) =
     (case create_queue m ty n k fds of (m1, i) \<Rightarrow> case create_queues m1 rs of (m2, is) \<Rightarrow> (m2, i # is))"

section \<open>Lemmas\<close>

lemma type_of_made [simp]: "type_of_queue (make_queue ty n k fds) = ty"
  by (cases ty) simp_all

definition table_ok :: "queue_table \<Rightarrow> bool" where
  "table_ok m \<longleftrightarrow> length (qm_queues m) = kMaxQueues \<and> qm_count m \<le> kMaxQueues"

lemma create_queue_ok:
  assumes "table_ok m" "create_queue m ty n k fds = (m', i)"
  shows "table_ok m'" "j < qm_count m \<Longrightarrow> j < qm_count m' \<and> qm_queues m' ! j = qm_queues m ! j"
    "qm_count m < kMaxQueues \<Longrightarrow> i = qm_count m \<and> qm_count m' = qm_count m + 1 \<and> qm_queues m' ! i = Some (make_queue ty n k fds)"
  using assms by (auto simp: create_queue_def table_ok_def split: if_splits)

lemma create_queues_ok:
  assumes "table_ok m" "create_queues m rs = (m', is)" "qm_count m + length rs \<le> kMaxQueues"
  shows "table_ok m' \<and> is = [qm_count m..<qm_count m + length rs] \<and> (\<forall>j < qm_count m. qm_queues m' ! j = qm_queues m ! j) \<and>
    (\<forall>j < length rs. qm_queues m' ! (qm_count m + j) = (case rs ! j of (ty, n, k, fds) \<Rightarrow> Some (make_queue ty n k fds)))"
  using assms
proof (induction rs arbitrary: m "is")
  case (Cons r rs)
  obtain ty n k fds where r: "r = (ty, n, k, fds)" by (cases r)
  obtain m1 i where c: "create_queue m ty n k fds = (m1, i)" by fastforce
  obtain is1 where cs: "create_queues m1 rs = (m', is1)" "is = i # is1" using Cons.prems(2) by (auto simp: r c split: prod.splits)
  have "qm_count m < kMaxQueues" using Cons.prems(3) by simp
  note o = create_queue_ok(1) [OF Cons.prems(1) c] create_queue_ok(2) [OF Cons.prems(1) c] create_queue_ok(3) [OF Cons.prems(1) c this]
  have "qm_count m1 + length rs \<le> kMaxQueues" using o(3) Cons.prems(3) by simp
  note IH = Cons.IH [OF o(1) cs(1) this]
  have "qm_queues m' ! (qm_count m + j) = (case (r # rs) ! j of (ty, n, k, fds) \<Rightarrow> Some (make_queue ty n k fds))" if j: "j < Suc (length rs)" for j
  proof (cases j)
    case 0
    then show ?thesis using IH o(3) r by auto
  next
    case (Suc j')
    then have "qm_queues m' ! (qm_count m1 + j') = (case rs ! j' of (ty, n, k, fds) \<Rightarrow> Some (make_queue ty n k fds))" using IH j by simp
    then show ?thesis using o(3) Suc by simp
  qed
  moreover have "is = [qm_count m..<qm_count m + length (r # rs)]"
  proof -
    have "is1 = [qm_count m1..<qm_count m1 + length rs]" using IH by (elim conjE)
    moreover have "i = qm_count m" "qm_count m1 = qm_count m + 1" using o(3) by blast+
    ultimately show ?thesis using cs(2) upt_conv_Cons [of "qm_count m" "qm_count m + length (r # rs)"] by simp
  qed
  moreover have "\<forall>j < qm_count m. qm_queues m' ! j = qm_queues m ! j" using IH o(2) by simp
  ultimately show ?case using IH by (simp only: length_Cons) blast
qed simp

section \<open>Properties\<close>



end
