(* ===== verification/Frame_Receivers.thy ===== *)
theory Frame_Receivers
  imports Mold_Unpacker "HOL-Library.Multiset"
begin

text \<open>
  The receivers of whole frames: AF\_XDP (\<^verbatim>\<open>core/net/af_xdp_receiver.cpp\<close>), whose frames lie in memory shared
  with the kernel, and DPDK (\<^verbatim>\<open>core/net/dpdk_receiver.cpp\<close>), whose frames lie in buffers of a pool. Both give
  a frame back before they copy the payload out of it; what its new owner does to the memory meanwhile is
  an argument.
\<close>

section \<open>AF\_XDP\<close>

abbreviation kFrameSize :: nat where "kFrameSize \<equiv> 4096"
abbreviation kNumFrames :: nat where "kNumFrames \<equiv> 1024"
abbreviation kRingSize :: nat where "kRingSize \<equiv> 256"

text \<open>The fill ring holds the addresses of the frames the kernel may write to, the receive ring descriptors.\<close>

record xdp =
  xd_umem :: "nat \<Rightarrow> u8"
  xd_fill :: "nat list"
  xd_rx :: "(nat \<times> nat) list"
  xd_port :: u16
  xd_running :: bool
  xd_blocking :: bool

text \<open>\<open>reserve\<close>, writing the address and \<open>submit\<close> on a ring of 256 entries.\<close>

definition refill :: "xdp \<Rightarrow> nat \<Rightarrow> xdp" where
  "refill x a = (if length (xd_fill x) < kRingSize then x\<lparr>xd_fill := xd_fill x @ [a]\<rparr> else x)"

fun prefill :: "xdp \<Rightarrow> nat list \<Rightarrow> xdp" where
  "prefill x [] = x"
| "prefill x (i # is) = (if length (xd_fill x) < kRingSize then prefill (x\<lparr>xd_fill := xd_fill x @ [i * kFrameSize]\<rparr>) is else x)"

text \<open>\<open>start\<close> with the results of the allocation and of the two calls that create the memory and the socket.\<close>

definition xdp_start :: "xdp \<Rightarrow> bool \<Rightarrow> bool \<Rightarrow> bool \<Rightarrow> xdp \<times> bool" where
  "xdp_start x alloc_ok umem_ok socket_ok =
     (if xd_running x then (x, True)
      else if \<not> alloc_ok then (x, False)
      else
        (let x1 = x\<lparr>xd_umem := (\<lambda>_. 0)\<rparr> in
         if \<not> umem_ok then (x1, False)
         else
           (let x2 = prefill (x1\<lparr>xd_fill := [], xd_rx := []\<rparr>) [0..<kNumFrames] in
            if \<not> socket_ok then (x2, False) else (x2\<lparr>xd_running := True\<rparr>, True))))"

definition xdp_stop :: "xdp \<Rightarrow> xdp" where
  "xdp_stop x = (if \<not> xd_running x then x else x\<lparr>xd_running := False\<rparr>)"

definition xdp_set_blocking :: "xdp \<Rightarrow> bool \<Rightarrow> xdp" where
  "xdp_set_blocking x b = x\<lparr>xd_blocking := b\<rparr>"

definition frame_at :: "(nat \<Rightarrow> u8) \<Rightarrow> nat \<times> nat \<Rightarrow> bytes" where
  "frame_at mem d = map (\<lambda>i. mem (fst d + i)) [0..<snd d]"

text \<open>What a call ends with: bytes, no frame, or the wait for the next frame, after which the loop goes on.\<close>

datatype frame_result = Payload bytes | No_frame | Waiting

text \<open>The loop of \<open>recv\<close>. \<open>kern mem fill\<close> is the memory after the refill, when the payload is copied.\<close>

function xdp_loop :: "((nat \<Rightarrow> u8) \<Rightarrow> nat list \<Rightarrow> nat \<Rightarrow> u8) \<Rightarrow> nat \<Rightarrow> xdp \<Rightarrow> xdp \<times> frame_result" where
  "xdp_loop kern len x =
     (case xd_rx x of
        [] \<Rightarrow> (x, if xd_blocking x then Waiting else No_frame)
      | d # ds \<Rightarrow>
          (let p = extract_udp_payload (frame_at (xd_umem x) d) (xd_port x);
               x1 = (refill x (fst d div kFrameSize * kFrameSize))\<lparr>xd_rx := ds\<rparr>;
               x2 = x1\<lparr>xd_umem := kern (xd_umem x1) (xd_fill x1)\<rparr>
           in case p of
                Some (off, plen) \<Rightarrow> (x2, Payload (map (\<lambda>i. xd_umem x2 (fst d + off + i)) [0..<min plen len]))
              | None \<Rightarrow> xdp_loop kern len x1))"
  by pat_completeness auto

termination
  by (relation "measure (\<lambda>(kern, len, x). length (xd_rx x))") auto

declare xdp_loop.simps [simp del]

definition xdp_recv :: "((nat \<Rightarrow> u8) \<Rightarrow> nat list \<Rightarrow> nat \<Rightarrow> u8) \<Rightarrow> xdp \<Rightarrow> nat \<Rightarrow> xdp \<times> frame_result" where
  "xdp_recv kern x len = (if \<not> xd_running x \<or> len = 0 then (x, No_frame) else xdp_loop kern len x)"

section \<open>DPDK\<close>

text \<open>The arguments of the environment layer, merged over all receivers before the first start.\<close>

definition add_arg :: "string \<Rightarrow> string list \<Rightarrow> string list" where
  "add_arg a as = (if a \<in> set as then as else as @ [a])"

definition dpdk_new :: "string list \<Rightarrow> string \<Rightarrow> string list \<Rightarrow> string list" where
  "dpdk_new global vdev args = add_arg (''--vdev='' @ vdev) (fold add_arg args global)"

record dpdk =
  dp_frames :: "bytes list"
  dp_port :: u16
  dp_pool :: bool
  dp_started :: bool
  dp_running :: bool
  dp_blocking :: bool

text \<open>\<open>start\<close> with the results of the driver's calls, in their order. \<open>pool_ok\<close> is asked only for a name that is free.\<close>

definition dpdk_start :: "dpdk \<Rightarrow> bool \<Rightarrow> bool \<Rightarrow> bool \<Rightarrow> bool \<Rightarrow> bool \<Rightarrow> bool \<Rightarrow> bool \<Rightarrow> dpdk \<times> bool" where
  "dpdk_start s eal_ok found_ok conf_ok pool_ok rx_ok tx_ok start_ok =
     (if dp_running s then (s, True)
      else if \<not> eal_ok \<or> \<not> found_ok \<or> \<not> conf_ok then (s, False)
      else
        (let s1 = s\<lparr>dp_pool := pool_ok\<rparr> in
         if \<not> pool_ok then (s1, False)
         else if \<not> rx_ok \<or> \<not> tx_ok \<or> \<not> start_ok then (s1, False)
         else (s1\<lparr>dp_started := True, dp_running := True\<rparr>, True)))"

definition dpdk_stop :: "dpdk \<Rightarrow> dpdk" where
  "dpdk_stop s = (if \<not> dp_running s then s else s\<lparr>dp_running := False, dp_started := False, dp_pool := False\<rparr>)"

text \<open>The loop of \<open>recv\<close>; \<open>kern f\<close> is what the freed buffer of the frame \<open>f\<close> holds when the payload is copied.\<close>

fun dpdk_loop :: "(bytes \<Rightarrow> bytes) \<Rightarrow> nat \<Rightarrow> dpdk \<Rightarrow> bytes list \<Rightarrow> dpdk \<times> frame_result" where
  "dpdk_loop kern len s [] = (s\<lparr>dp_frames := []\<rparr>, if dp_blocking s then Waiting else No_frame)"
| "dpdk_loop kern len s (f # fs) =
     (case extract_udp_payload f (dp_port s) of
        Some (off, plen) \<Rightarrow> (s\<lparr>dp_frames := fs\<rparr>, Payload (field (kern f) off (min plen len)))
      | None \<Rightarrow> dpdk_loop kern len s fs)"

definition dpdk_recv :: "(bytes \<Rightarrow> bytes) \<Rightarrow> dpdk \<Rightarrow> nat \<Rightarrow> dpdk \<times> frame_result" where
  "dpdk_recv kern s len = (if \<not> dp_running s \<or> len = 0 then (s, No_frame) else dpdk_loop kern len s (dp_frames s))"

section \<open>The common specification\<close>

text \<open>The payload of the first frame for the port, and the frames behind it.\<close>

fun first_payload :: "u16 \<Rightarrow> bytes list \<Rightarrow> (bytes \<times> bytes list) option" where
  "first_payload port [] = None"
| "first_payload port (f # fs) = (case payload_of f port of Some p \<Rightarrow> Some (p, fs) | None \<Rightarrow> first_payload port fs)"

definition received :: "bool \<Rightarrow> nat \<Rightarrow> (bytes \<times> bytes list) option \<Rightarrow> frame_result" where
  "received blocking len r = (case r of Some (p, fs) \<Rightarrow> Payload (take len p) | None \<Rightarrow> if blocking then Waiting else No_frame)"

definition rest :: "(bytes \<times> bytes list) option \<Rightarrow> bytes list" where
  "rest r = (case r of Some (p, fs) \<Rightarrow> fs | None \<Rightarrow> [])"

lemma payload_slice:
  assumes "extract_udp_payload f port = Some (off, n)"
  shows "payload_of f port = Some (field f off n)" "off + n \<le> length f"
  using assms udp_payload_roundtrip_parts(2) [of f port off n] by (simp_all add: payload_of_def)

lemma frame_slice:
  assumes "off + n \<le> snd d"
  shows "map (\<lambda>i. mem (fst d + off + i)) [0..<min n len] = take len (field (frame_at mem d) off n)"
  using assms by (intro nth_equalityI) (auto simp: frame_at_def field_def add.assoc)

definition untouched :: "(nat \<Rightarrow> u8) \<Rightarrow> nat list \<Rightarrow> nat \<Rightarrow> u8" where
  "untouched mem fill = mem"

lemma xdp_same [simp]: "x\<lparr>xd_umem := xd_umem x\<rparr> = x"
  by (cases x) simp

lemma refill_simps [simp]:
  "xd_umem (refill x a) = xd_umem x" "xd_rx (refill x a) = xd_rx x" "xd_port (refill x a) = xd_port x"
  "xd_blocking (refill x a) = xd_blocking x" "xd_running (refill x a) = xd_running x"
  by (simp_all add: refill_def)

lemma xdp_loop_untouched:
  "snd (xdp_loop untouched len x) = received (xd_blocking x) len (first_payload (xd_port x) (map (frame_at (xd_umem x)) (xd_rx x))) \<and>
   map (frame_at (xd_umem x)) (xd_rx (fst (xdp_loop untouched len x))) = rest (first_payload (xd_port x) (map (frame_at (xd_umem x)) (xd_rx x))) \<and>
   xd_umem (fst (xdp_loop untouched len x)) = xd_umem x"
proof (induction "xd_rx x" arbitrary: x)
  case Nil
  then show ?case by (subst (1 2 3) xdp_loop.simps) (simp add: received_def rest_def flip: Nil)
next
  case (Cons d ds)
  let ?x1 = "(refill x (fst d div kFrameSize * kFrameSize))\<lparr>xd_rx := ds\<rparr>"
  have x1: "xd_umem ?x1 = xd_umem x" "xd_port ?x1 = xd_port x" "xd_blocking ?x1 = xd_blocking x" "xd_rx ?x1 = ds" by simp_all
  show ?case
  proof (cases "extract_udp_payload (frame_at (xd_umem x) d) (xd_port x)")
    case None
    then have "xdp_loop untouched len x = xdp_loop untouched len ?x1" by (subst xdp_loop.simps) (simp add: Let_def flip: Cons(2))
    moreover have "payload_of (frame_at (xd_umem x) d) (xd_port x) = None" using None by (simp add: payload_of_def)
    ultimately show ?thesis using Cons(1) [of ?x1] by (simp add: x1 flip: Cons(2))
  next
    case (Some q)
    obtain off n where q: "q = (off, n)" by (cases q)
    note p = payload_slice [OF Some [unfolded q]]
    have "off + n \<le> snd d" using p(2) by (simp add: frame_at_def)
    note sl = frame_slice [OF this, of "xd_umem x" len]
    have "?x1\<lparr>xd_umem := xd_umem x\<rparr> = ?x1" using xdp_same [of ?x1] unfolding x1(1) .
    then have "xdp_loop untouched len x = (?x1, Payload (take len (field (frame_at (xd_umem x) d) off n)))"
      by (subst xdp_loop.simps) (simp add: Let_def Some q untouched_def sl flip: Cons(2))
    then show ?thesis using p(1) by (simp add: x1 untouched_def received_def rest_def flip: Cons(2))
  qed
qed

lemma dpdk_loop_untouched:
  "dpdk_loop (\<lambda>f. f) len s fs = (s\<lparr>dp_frames := rest (first_payload (dp_port s) fs)\<rparr>, received (dp_blocking s) len (first_payload (dp_port s) fs))"
proof (induction fs)
  case (Cons f fs)
  show ?case
  proof (cases "extract_udp_payload f (dp_port s)")
    case None
    then show ?thesis using Cons by (simp add: payload_of_def)
  next
    case (Some q)
    then show ?thesis using payload_slice [of f "dp_port s" "fst q" "snd q"]
      by (cases q) (simp add: received_def rest_def field_def min.commute)
  qed
qed (simp add: received_def rest_def)

section \<open>Frames are given back\<close>

definition base_of :: "nat \<times> nat \<Rightarrow> nat" where
  "base_of d = fst d div kFrameSize * kFrameSize"

definition frames_of :: "xdp \<Rightarrow> nat multiset" where
  "frames_of x = mset (xd_fill x) + mset (map base_of (xd_rx x))"

lemma xdp_loop_frames:
  assumes "length (xd_fill x) + length (xd_rx x) \<le> kRingSize"
  shows "frames_of (fst (xdp_loop kern len x)) = frames_of x"
  using assms
proof (induction "xd_rx x" arbitrary: x)
  case Nil
  then show ?case by (subst xdp_loop.simps) (simp flip: Nil.hyps)
next
  case (Cons d ds)
  let ?x1 = "(refill x (fst d div kFrameSize * kFrameSize))\<lparr>xd_rx := ds\<rparr>"
  have rx: "xd_rx x = d # ds" using Cons.hyps(2) by (rule sym)
  have room: "length (xd_fill x) < kRingSize" "length (xd_fill ?x1) + length (xd_rx ?x1) \<le> kRingSize"
    using Cons.prems unfolding rx by (simp_all add: refill_def)
  have f: "frames_of ?x1 = frames_of x" using room(1) unfolding frames_of_def rx by (simp add: refill_def base_of_def)
  show ?case
  proof (cases "extract_udp_payload (frame_at (xd_umem x) d) (xd_port x)")
    case None
    then have "xdp_loop kern len x = xdp_loop kern len ?x1" by (subst xdp_loop.simps) (simp add: Let_def flip: Cons.hyps(2))
    then show ?thesis using Cons.hyps(1) [of ?x1] room(2) f by simp
  next
    case (Some q)
    then have "fst (xdp_loop kern len x) = ?x1\<lparr>xd_umem := kern (xd_umem ?x1) (xd_fill ?x1)\<rparr>"
      by (subst xdp_loop.simps) (simp add: Let_def split: prod.splits flip: Cons.hyps(2))
    moreover have "frames_of (?x1\<lparr>xd_umem := m\<rparr>) = frames_of ?x1" for m by (simp add: frames_of_def)
    ultimately show ?thesis using f by simp
  qed
qed

lemma prefill_eq:
  "prefill x is = x\<lparr>xd_fill := xd_fill x @ map (\<lambda>i. i * kFrameSize) (take (kRingSize - length (xd_fill x)) is)\<rparr>"
proof (induction "is" arbitrary: x)
  case Nil
  then show ?case by (cases x) simp
next
  case (Cons i "is")
  show ?case
  proof (cases "length (xd_fill x) < kRingSize")
    case True
    then have "kRingSize - length (xd_fill x) = Suc (kRingSize - Suc (length (xd_fill x)))" by simp
    then show ?thesis using True Cons.IH [of "x\<lparr>xd_fill := xd_fill x @ [i * kFrameSize]\<rparr>"] by simp
  next
    case False
    then show ?thesis by (cases x) simp
  qed
qed

lemma xdp_started:
  assumes "xdp_start x True True True = (x1, ok)" "\<not> xd_running x"
  shows "ok \<and> xd_running x1 \<and> frames_of x1 = mset (map (\<lambda>i. i * kFrameSize) [0..<kRingSize]) \<and>
    length (xd_fill x1) + length (xd_rx x1) = kRingSize"
proof -
  have t: "take kRingSize [0..<kNumFrames] = [0..<kRingSize]" by (simp add: take_upt del: upt_rec_numeral)
  have "x1 = (x\<lparr>xd_umem := (\<lambda>_. 0), xd_fill := map (\<lambda>i. i * kFrameSize) [0..<kRingSize], xd_rx := [], xd_running := True\<rparr>) \<and> ok"
    using assms by (auto simp: xdp_start_def prefill_eq t Let_def simp del: upt_rec_numeral)
  then show ?thesis by (simp add: frames_of_def del: upt_rec_numeral)
qed

text \<open>The kernel takes a frame from the fill ring, writes into it and posts a descriptor.\<close>

inductive xdp_step :: "xdp \<Rightarrow> xdp \<Rightarrow> bool" where
  arrive: "a \<in> set (xd_fill x) \<Longrightarrow> base_of (a + off, n) = a \<Longrightarrow>
    xdp_step x (x\<lparr>xd_fill := remove1 a (xd_fill x), xd_rx := xd_rx x @ [(a + off, n)], xd_umem := mem\<rparr>)"
| recv: "xdp_recv kern x len = (x', r) \<Longrightarrow> xdp_step x x'"

lemma xdp_step_frames:
  assumes "xdp_step x x'" "length (xd_fill x) + length (xd_rx x) \<le> kRingSize"
  shows "frames_of x' = frames_of x \<and> length (xd_fill x') + length (xd_rx x') \<le> kRingSize"
  using assms(1)
proof cases
  case (arrive a off n mem)
  have "mset (xd_fill x) = add_mset a (mset (remove1 a (xd_fill x)))" "length (xd_fill x) = Suc (length (remove1 a (xd_fill x)))"
    using arrive(2) by (auto simp: length_remove1 intro: Suc_pred [symmetric] length_pos_if_in_set)
  then show ?thesis using arrive(1,3) assms(2) by (simp add: frames_of_def)
next
  case (recv kern len r)
  have f: "frames_of x' = frames_of x" using recv xdp_loop_frames [OF assms(2), of kern len]
    by (auto simp: xdp_recv_def split: if_splits)
  have "size (frames_of y) = length (xd_fill y) + length (xd_rx y)" for y by (simp add: frames_of_def)
  then show ?thesis using f assms(2) by metis
qed

lemma xdp_steps_frames:
  "xdp_step\<^sup>*\<^sup>* x x' \<Longrightarrow> length (xd_fill x) + length (xd_rx x) \<le> kRingSize \<Longrightarrow>
    frames_of x' = frames_of x \<and> length (xd_fill x') + length (xd_rx x') \<le> kRingSize"
  by (induction rule: rtranclp_induct) (use xdp_step_frames in auto)

section \<open>Properties\<close>

text \<open>C28. The back ends agree: if nobody touches the memory of a frame that has been given back before its
  payload is copied, AF\_XDP and DPDK return, for the same frames in the same mode, the payload of the first
  frame that is UDP for the port, cut off at the caller's length, having skipped exactly the frames before.\<close>

theorem backends_agree:
  assumes "xd_running x" "dp_running s" "xd_blocking x = dp_blocking s" "xd_port x = dp_port s"
    and "dp_frames s = map (frame_at (xd_umem x)) (xd_rx x)" "xdp_recv untouched x len = (x', r)" "dpdk_recv (\<lambda>f. f) s len = (s', r')"
  shows "r = r' \<and> dp_frames s' = map (frame_at (xd_umem x')) (xd_rx x') \<and>
    (len \<noteq> 0 \<longrightarrow> r = received (xd_blocking x) len (first_payload (xd_port x) (dp_frames s)))"
proof (cases "len = 0")
  case True
  then show ?thesis using assms by (auto simp: xdp_recv_def dpdk_recv_def)
next
  case False
  then have "x' = fst (xdp_loop untouched len x)" "r = snd (xdp_loop untouched len x)" "dpdk_loop (\<lambda>f. f) len s (dp_frames s) = (s', r')"
    using assms(1,2,6,7) by (simp_all add: xdp_recv_def dpdk_recv_def)
  then show ?thesis using xdp_loop_untouched [of len x] dpdk_loop_untouched [of len s "dp_frames s"] assms(3-5) by auto
qed

text \<open>One frame for port 2, with twenty bytes of payload.\<close>

definition demo_frame :: bytes where
  "demo_frame = udp_frame (replicate 12 1) (0x45 # replicate 8 0 @ [17] @ replicate 10 0) 1 2 3 (replicate 20 9) []"

definition demo_xdp :: xdp where
  "demo_xdp = \<lparr>xd_umem = (\<lambda>i. if i < length demo_frame then demo_frame ! i else 0), xd_fill = [], xd_rx = [(0, length demo_frame)],
     xd_port = 2, xd_running = True, xd_blocking = False\<rparr>"

definition demo_dpdk :: dpdk where
  "demo_dpdk = \<lparr>dp_frames = [demo_frame], dp_port = 2, dp_pool = True, dp_started = True, dp_running = True, dp_blocking = False\<rparr>"

lemma demo_frame_eval: "length demo_frame = 62" "extract_udp_payload demo_frame 2 = Some (42, 20)" "payload_of demo_frame 2 = Some (replicate 20 9)"
proof -
  show l: "length demo_frame = 62" by (simp add: demo_frame_def udp_frame_def)
  show p: "payload_of demo_frame 2 = Some (replicate 20 9)"
    unfolding demo_frame_def by (rule udp_payload_roundtrip_parts(1)) (simp_all add: ip_header_ok_def nth_append)
  have "demo_frame ! 14 = 0x45" "be16 demo_frame 38 = 28" by (simp_all add: demo_frame_def udp_frame_def nth_append be16_def be16_store_def)
  then show "extract_udp_payload demo_frame 2 = Some (42, 20)"
    using p by (auto simp: payload_of_def extract_udp_payload_def Let_def split: if_splits)
qed

lemma demo_frame_at: "frame_at (xd_umem demo_xdp) (0, length demo_frame) = demo_frame"
  by (intro nth_equalityI) (simp_all add: frame_at_def demo_xdp_def)

theorem backends_agree_witness:
  "snd (xdp_recv untouched demo_xdp 100) = Payload (replicate 20 9) \<and> snd (dpdk_recv (\<lambda>f. f) demo_dpdk 100) = Payload (replicate 20 9)"
proof -
  obtain x' r where x: "xdp_recv untouched demo_xdp 100 = (x', r)" by fastforce
  obtain s' r' where s: "dpdk_recv (\<lambda>f. f) demo_dpdk 100 = (s', r')" by fastforce
  have f: "dp_frames demo_dpdk = map (frame_at (xd_umem demo_xdp)) (xd_rx demo_xdp)"
    using demo_frame_at by (simp add: demo_dpdk_def demo_xdp_def)
  have c: "xd_running demo_xdp" "dp_running demo_dpdk" "xd_blocking demo_xdp = dp_blocking demo_dpdk" "xd_port demo_xdp = dp_port demo_dpdk"
    by (simp_all add: demo_xdp_def demo_dpdk_def)
  have v: "received (xd_blocking demo_xdp) 100 (first_payload (xd_port demo_xdp) (dp_frames demo_dpdk)) = Payload (replicate 20 9)"
    by (simp add: demo_dpdk_def demo_xdp_def demo_frame_eval received_def)
  have "(100 :: nat) \<noteq> 0" by simp
  then show ?thesis using backends_agree [OF c f x s] unfolding v x s by auto
qed

text \<open>No frame of the shared memory is lost or handed out twice: whatever the kernel receives and however the
  receiver is called, the 256 frames given to the kernel at the start are those in the fill ring and in the
  receive ring.\<close>

theorem xdp_frames_conserved:
  assumes "xdp_start x True True True = (x1, ok)" "\<not> xd_running x" "xdp_step\<^sup>*\<^sup>* x1 x2"
  shows "mset (xd_fill x2) + mset (map base_of (xd_rx x2)) = mset (map (\<lambda>i. i * kFrameSize) [0..<kRingSize])"
proof -
  have "frames_of x1 = mset (map (\<lambda>i. i * kFrameSize) [0..<kRingSize])" "length (xd_fill x1) + length (xd_rx x1) \<le> kRingSize"
    using xdp_started [OF assms(1,2)] by (simp_all del: upt_rec_numeral)
  then show ?thesis using xdp_steps_frames [OF assms(3)] unfolding frames_of_def by metis
qed

theorem xdp_frames_conserved_witness:
  "\<exists>x1. xdp_start (demo_xdp\<lparr>xd_running := False\<rparr>) True True True = (x1, True) \<and>
    mset (xd_fill x1) + mset (map base_of (xd_rx x1)) = mset (map (\<lambda>i. i * kFrameSize) [0..<kRingSize])"
proof -
  obtain x1 ok where x: "xdp_start (demo_xdp\<lparr>xd_running := False\<rparr>) True True True = (x1, ok)" by fastforce
  have r: "\<not> xd_running (demo_xdp\<lparr>xd_running := False\<rparr>)" by simp
  have "ok" using xdp_started [OF x r] by (rule conjunct1)
  then have "xdp_start (demo_xdp\<lparr>xd_running := False\<rparr>) True True True = (x1, True)" using x by (simp only:)
  then show ?thesis using xdp_frames_conserved [OF x r rtranclp.rtrancl_refl] by (intro exI [of _ x1] conjI)
qed

text \<open>The payload is copied after the frame has been given back. A kernel that writes only into frames it
  owns can make \<open>recv\<close> return any bytes at all in the place of the payload it has checked.\<close>

theorem payload_copied_after_release:
  assumes "xd_running x" "xd_rx x = (a, n) # ds" "extract_udp_payload (frame_at (xd_umem x) (a, n)) (xd_port x) = Some (off, plen)"
    and "length (xd_fill x) < kRingSize" "a + n \<le> base_of (a, n) + kFrameSize" "0 < len" "length bs = min plen len"
  shows "\<exists>kern. (\<forall>mem fill i. (\<exists>f\<in>set fill. f \<le> i \<and> i < f + kFrameSize) \<or> kern mem fill i = mem i) \<and>
    snd (xdp_recv kern x len) = Payload bs"
proof -
  define kern :: "(nat \<Rightarrow> u8) \<Rightarrow> nat list \<Rightarrow> nat \<Rightarrow> u8" where
    "kern = (\<lambda>mem fill i. if (\<exists>f\<in>set fill. f \<le> i \<and> i < f + kFrameSize) \<and> a + off \<le> i \<and> i < a + off + length bs
       then bs ! (i - (a + off)) else mem i)"
  let ?x1 = "(refill x (a div kFrameSize * kFrameSize))\<lparr>xd_rx := ds\<rparr>"
  have o: "off + plen \<le> n" using payload_slice(2) [OF assms(3)] by (simp add: frame_at_def)
  have f: "base_of (a, n) \<in> set (xd_fill ?x1)" using assms(4) by (simp add: refill_def base_of_def)
  have "kern (xd_umem x) (xd_fill ?x1) (a + off + i) = bs ! i" if "i < length bs" for i
  proof -
    have "base_of (a, n) \<le> a + off + i" using div_times_less_eq_dividend [of a kFrameSize] unfolding base_of_def fst_conv by linarith
    moreover have "a + off + i < base_of (a, n) + kFrameSize" using that assms(5,7) o by simp
    ultimately show ?thesis using f that by (auto simp: kern_def)
  qed
  then have "map (\<lambda>i. kern (xd_umem x) (xd_fill ?x1) (a + off + i)) [0..<min plen len] = bs"
    unfolding assms(7) [symmetric] by (intro nth_equalityI) simp_all
  then have "snd (xdp_recv kern x len) = Payload bs"
    using assms(1-3,6) by (simp add: xdp_recv_def xdp_loop.simps Let_def)
  then show ?thesis by (intro exI [of _ kern]) (auto simp: kern_def)
qed

theorem payload_copied_after_release_witness:
  "\<exists>kern. snd (xdp_recv kern demo_xdp 100) = Payload (replicate 20 7)"
proof -
  have x: "xd_running demo_xdp" "xd_rx demo_xdp = [(0, 62)]" "length (xd_fill demo_xdp) < kRingSize"
    by (simp_all add: demo_xdp_def demo_frame_eval)
  have e: "extract_udp_payload (frame_at (xd_umem demo_xdp) (0, 62)) (xd_port demo_xdp) = Some (42, 20)"
    using demo_frame_at demo_frame_eval by (simp add: demo_xdp_def)
  show ?thesis using payload_copied_after_release [OF x(1,2) e x(3), of 100 "replicate 20 7"] by (auto simp: base_of_def)
qed

end
