(* ===== verification/Flow_Control.thy ===== *)
theory Flow_Control
  imports NX_Bytes
begin

text \<open>
  The hand-shake of replay and trader over shared memory (\<^verbatim>\<open>core/ipc/flow_control.h\<close>): the replay waits until
  the trader is ready, sends a packet only when all counted ones have been received, counts it after
  \<open>sendto\<close>, and sets \<open>done\<close> at the end; the trader counts every packet it receives and stops when \<open>done\<close> is
  set and as many have been received as sent. The counters are read one at a time, each step of the two
  programs uses the values present then.
\<close>

section \<open>The two programs\<close>

datatype replay_phase = Waiting_ready | Sending | Counting | Replay_done

record flow =
  fl_ready :: bool
  fl_sent :: nat
  fl_received :: nat
  fl_done :: bool
  fl_phase :: replay_phase
  fl_todo :: "bytes list"
  fl_net :: "bytes list"
  fl_fed :: "bytes list"
  fl_stopped :: bool

definition new_flow :: "bytes list \<Rightarrow> flow" where
  "new_flow ps = \<lparr>fl_ready = False, fl_sent = 0, fl_received = 0, fl_done = False, fl_phase = Waiting_ready, fl_todo = ps,
     fl_net = [], fl_fed = [], fl_stopped = False\<rparr>"

definition replay_next :: "flow \<Rightarrow> flow option" where
  "replay_next s =
     (case fl_phase s of
        Waiting_ready \<Rightarrow> if fl_ready s then Some (s\<lparr>fl_phase := Sending\<rparr>) else None
      | Sending \<Rightarrow>
          (case fl_todo s of
             [] \<Rightarrow> Some (s\<lparr>fl_done := True, fl_phase := Replay_done\<rparr>)
           | p # ps \<Rightarrow> if fl_received s < fl_sent s then None
                      else Some (s\<lparr>fl_todo := ps, fl_net := fl_net s @ [p], fl_phase := Counting\<rparr>))
      | Counting \<Rightarrow> Some (s\<lparr>fl_sent := fl_sent s + 1, fl_phase := Sending\<rparr>)
      | Replay_done \<Rightarrow> None)"

definition trader_ready :: "flow \<Rightarrow> flow option" where
  "trader_ready s = (if fl_ready s then None else Some (s\<lparr>fl_ready := True\<rparr>))"

text \<open>The receive thread counts and feeds the unpacker.\<close>

definition trader_recv :: "flow \<Rightarrow> flow option" where
  "trader_recv s =
     (if fl_stopped s then None
      else case fl_net s of [] \<Rightarrow> None
        | p # ps \<Rightarrow> Some (s\<lparr>fl_net := ps, fl_received := fl_received s + 1, fl_fed := fl_fed s @ [p]\<rparr>))"

definition trader_stop :: "flow \<Rightarrow> flow option" where
  "trader_stop s =
     (if fl_stopped s \<or> \<not> fl_ready s \<or> \<not> fl_done s \<or> fl_received s < fl_sent s then None else Some (s\<lparr>fl_stopped := True\<rparr>))"

inductive flow_step :: "flow \<Rightarrow> flow \<Rightarrow> bool" where
  "replay_next s = Some s' \<Longrightarrow> flow_step s s'"
| "trader_ready s = Some s' \<Longrightarrow> flow_step s s'"
| "trader_recv s = Some s' \<Longrightarrow> flow_step s s'"
| "trader_stop s = Some s' \<Longrightarrow> flow_step s s'"

inductive_simps flow_step_simps: "flow_step s s'"

text \<open>A network that may lose a packet.\<close>

inductive lossy_step :: "flow \<Rightarrow> flow \<Rightarrow> bool" where
  flow: "flow_step s s' \<Longrightarrow> lossy_step s s'"
| lose: "fl_net s = p # ps \<Longrightarrow> lossy_step s (s\<lparr>fl_net := ps\<rparr>)"

section \<open>The invariant\<close>

definition flow_inv :: "bytes list \<Rightarrow> flow \<Rightarrow> bool" where
  "flow_inv ps s \<longleftrightarrow> ps = fl_fed s @ fl_net s @ fl_todo s \<and> fl_received s = length (fl_fed s) \<and> length (fl_net s) \<le> 1 \<and>
     fl_received s + length (fl_net s) = fl_sent s + (if fl_phase s = Counting then 1 else 0) \<and>
     (fl_done s \<longleftrightarrow> fl_phase s = Replay_done) \<and> (fl_phase s = Replay_done \<longrightarrow> fl_todo s = []) \<and>
     (fl_phase s = Waiting_ready \<longrightarrow> fl_sent s = 0) \<and> (fl_phase s \<noteq> Waiting_ready \<longrightarrow> fl_ready s) \<and>
     (fl_stopped s \<longrightarrow> fl_net s = [] \<and> fl_phase s = Replay_done)"

lemma new_flow_inv: "flow_inv ps (new_flow ps)"
  by (simp add: flow_inv_def new_flow_def)

lemma net_empty:
  assumes "flow_inv ps s" "fl_phase s \<noteq> Counting" "\<not> fl_received s < fl_sent s"
  shows "fl_net s = []"
  using assms by (cases "fl_net s") (simp_all add: flow_inv_def)

lemma replay_next_inv:
  assumes "replay_next s = Some s'" "flow_inv ps s" shows "flow_inv ps s'"
proof (cases "fl_phase s")
  case Sending
  show ?thesis
  proof (cases "fl_todo s")
    case Nil
    then have "s' = s\<lparr>fl_done := True, fl_phase := Replay_done\<rparr>" using assms(1) Sending by (simp add: replay_next_def)
    then show ?thesis using assms(2) Sending Nil by (simp add: flow_inv_def)
  next
    case (Cons q qs)
    then have n: "\<not> fl_received s < fl_sent s" and s': "s' = s\<lparr>fl_todo := qs, fl_net := fl_net s @ [q], fl_phase := Counting\<rparr>"
      using assms(1) Sending by (simp_all add: replay_next_def split: if_splits)
    have e: "fl_net s = []" using net_empty [OF assms(2) _ n] Sending by simp
    show ?thesis using assms(2) unfolding s' flow_inv_def e Cons Sending by simp
  qed
qed (use assms in \<open>auto simp: replay_next_def flow_inv_def split: if_splits\<close>)

lemma trader_recv_inv: "trader_recv s = Some s' \<Longrightarrow> flow_inv ps s \<Longrightarrow> flow_inv ps s'"
  by (cases "fl_net s") (auto simp: trader_recv_def flow_inv_def split: if_splits)

lemma trader_stop_inv:
  assumes "trader_stop s = Some s'" "flow_inv ps s" shows "flow_inv ps s'"
proof -
  have d: "fl_done s" "\<not> fl_received s < fl_sent s" "s' = s\<lparr>fl_stopped := True\<rparr>"
    using assms(1) by (simp_all add: trader_stop_def split: if_splits)
  then have "fl_phase s = Replay_done" using assms(2) by (simp add: flow_inv_def)
  moreover from this have "fl_net s = []" using net_empty [OF assms(2) _ d(2)] by simp
  ultimately show ?thesis using assms(2) d(3) by (simp add: flow_inv_def)
qed

lemma trader_ready_inv: "trader_ready s = Some s' \<Longrightarrow> flow_inv ps s \<Longrightarrow> flow_inv ps s'"
  by (auto simp: trader_ready_def flow_inv_def split: if_splits)

lemma flow_step_inv: "flow_step s s' \<Longrightarrow> flow_inv ps s \<Longrightarrow> flow_inv ps s'"
  by (induction rule: flow_step.induct) (blast intro: replay_next_inv trader_recv_inv trader_stop_inv trader_ready_inv)+

lemma flow_steps_inv: "flow_step\<^sup>*\<^sup>* s s' \<Longrightarrow> flow_inv ps s \<Longrightarrow> flow_inv ps s'"
  by (induction rule: rtranclp_induct) (auto intro: flow_step_inv)

text \<open>The steps that are left.\<close>

definition flow_left :: "flow \<Rightarrow> nat" where
  "flow_left s = 3 * length (fl_todo s) + length (fl_net s) +
     (case fl_phase s of Waiting_ready \<Rightarrow> 3 | Sending \<Rightarrow> 1 | Counting \<Rightarrow> 2 | Replay_done \<Rightarrow> 0) +
     (if fl_ready s then 0 else 1) + (if fl_stopped s then 0 else 1)"

lemma flow_step_left: "flow_step s s' \<Longrightarrow> flow_left s' < flow_left s"
proof (induction rule: flow_step.induct)
  case (1 s s')
  then show ?case by (cases "fl_phase s"; cases "fl_todo s") (auto simp: replay_next_def flow_left_def split: if_splits)
next
  case (2 s s')
  then show ?case by (auto simp: trader_ready_def flow_left_def split: if_splits)
next
  case (3 s s')
  then show ?case by (cases "fl_net s") (auto simp: trader_recv_def flow_left_def split: if_splits)
next
  case (4 s s')
  then show ?case by (auto simp: trader_stop_def flow_left_def split: if_splits)
qed

lemma flow_stuck_stopped:
  assumes inv: "flow_inv ps s" and stuck: "\<nexists>s'. flow_step s s'"
  shows "fl_stopped s"
proof (rule ccontr)
  assume n: "\<not> fl_stopped s"
  have none: "replay_next s = None" "trader_ready s = None" "trader_recv s = None" "trader_stop s = None"
    using stuck flow_step.intros [of s] by (metis option.exhaust)+
  have r: "fl_ready s" "fl_net s = []" using none(2,3) n by (auto simp: trader_ready_def trader_recv_def split: if_splits list.splits)
  then have "fl_phase s = Replay_done"
    using none(1) inv by (auto simp: replay_next_def flow_inv_def split: replay_phase.splits list.splits if_splits)
  then show False using none(4) r n inv by (auto simp: trader_stop_def flow_inv_def split: if_splits)
qed

section \<open>Properties\<close>


text \<open>One lost packet stops both programs for ever: from then on fewer packets are received than were sent,
  so the replay does not send the next one and the trader does not stop.\<close>

theorem lost_packet_deadlocks:
  assumes "flow_step\<^sup>*\<^sup>* (new_flow ps) s" "fl_net s = [p]" "fl_phase s = Sending" "fl_todo s = q # qs"
    and "flow_step\<^sup>*\<^sup>* (s\<lparr>fl_net := []\<rparr>) s'"
  shows "s' = s\<lparr>fl_net := []\<rparr> \<and> \<not> fl_stopped s' \<and> fl_todo s' \<noteq> []"
proof -
  let ?s = "s\<lparr>fl_net := []\<rparr>"
  have inv: "flow_inv ps s" by (rule flow_steps_inv [OF assms(1) new_flow_inv])
  have f: "fl_received s < fl_sent s" "fl_ready s" "\<not> fl_done s" "\<not> fl_stopped s" using inv assms(2-4) by (simp_all add: flow_inv_def)
  have "replay_next ?s = None" "trader_ready ?s = None" "trader_recv ?s = None" "trader_stop ?s = None"
    using f assms(3,4) by (simp_all add: replay_next_def trader_ready_def trader_recv_def trader_stop_def)
  then have n: "\<not> flow_step ?s x" for x by (simp only: flow_step_simps) simp
  have "s' = ?s" using assms(5) by (cases rule: converse_rtranclpE) (use n in blast)+
  then show ?thesis using f(4) assms(4) by simp
qed

text \<open>Two packets, of which the first is lost.\<close>

definition lost_demo :: flow where
  "lost_demo = (new_flow [[1], [2]])\<lparr>fl_ready := True, fl_todo := [[2]], fl_net := [[1]], fl_sent := 1, fl_phase := Sending\<rparr>"

lemma lost_demo_reached: "flow_step\<^sup>*\<^sup>* (new_flow [[1], [2]]) lost_demo"
proof -
  let ?s1 = "(new_flow [[1], [2]])\<lparr>fl_ready := True\<rparr>"
  let ?s2 = "?s1\<lparr>fl_phase := Sending\<rparr>"
  let ?s3 = "?s2\<lparr>fl_todo := [[2]], fl_net := [[1]], fl_phase := Counting\<rparr>"
  have "flow_step (new_flow [[1], [2]]) ?s1" by (rule flow_step.intros(2)) (simp add: trader_ready_def new_flow_def)
  moreover have "flow_step ?s1 ?s2" by (rule flow_step.intros(1)) (simp add: replay_next_def new_flow_def)
  moreover have "flow_step ?s2 ?s3" by (rule flow_step.intros(1)) (simp add: replay_next_def new_flow_def)
  moreover have "flow_step ?s3 lost_demo" by (rule flow_step.intros(1)) (simp add: replay_next_def new_flow_def lost_demo_def)
  ultimately show ?thesis by (meson rtranclp.rtrancl_refl rtranclp.rtrancl_into_rtrancl)
qed


theorem lost_packet_deadlocks_witness:
  "\<not> fl_stopped (lost_demo\<lparr>fl_net := []\<rparr>) \<and> fl_todo (lost_demo\<lparr>fl_net := []\<rparr>) \<noteq> []"
  using lost_packet_deadlocks [OF lost_demo_reached _ _ _ rtranclp.rtrancl_refl, of "[1]" "[2]" "[]"]
  by (simp add: lost_demo_def new_flow_def)

end
