(* ===== verification/Arbitration.thy ===== *)
theory Arbitration
  imports NX_Types
begin

text \<open>
  Several signals into one decision: the weighted net vote of \<^verbatim>\<open>strategy/base/arbitrate.h\<close> and the
  combination of a primary with its slave signals of \<^verbatim>\<open>strategy/combo/signal_combiner.h\<close>.
\<close>

section \<open>The weighted net vote\<close>

record arb_signal =
  as_side :: order_side
  as_locate :: u64
  as_strength :: i64
  as_seq :: u64

record arb_decision =
  ad_act :: bool
  ad_dir :: order_side
  ad_locate :: u64
  ad_strength :: i64
  ad_seq :: u64

definition no_decision :: arb_decision where
  "no_decision = \<lparr>ad_act = False, ad_dir = NONE, ad_locate = 0, ad_strength = 0, ad_seq = 0\<rparr>"

definition side_sign :: "order_side \<Rightarrow> i64" where
  "side_sign s = (if s = BUY then 1 else if s = SELL then - 1 else 0)"

definition net_bp :: "(arb_signal \<times> i64) list \<Rightarrow> i64" where
  "net_bp sws = foldl (\<lambda>net (s, w). net + side_sign (as_side s) * w) 0 sws"

definition dir_strength :: "order_side \<Rightarrow> (arb_signal \<times> i64) list \<Rightarrow> i64" where
  "dir_strength dir sws =
     (let same = filter (\<lambda>(s, w). as_side s = dir) sws;
          sum_w = foldl (\<lambda>a (s, w). a + w) 0 same;
          sum_sw = foldl (\<lambda>a (s, w). a + as_strength s * w) 0 same
      in if 0 <s sum_w then sdivw sum_sw sum_w else 0)"

definition arbitrate_decide :: "arb_signal list \<Rightarrow> i64 list \<Rightarrow> nat \<Rightarrow> i64 \<Rightarrow> arb_decision" where
  "arbitrate_decide sigs weights primary threshold =
     (let n = length sigs; sws = zip sigs weights in
      if n = 0 then no_decision
      else if primary \<ge> n then no_decision
      else
        (let net = net_bp sws;
             dir = (if threshold <s net then BUY else if net <s - threshold then SELL else NONE)
         in if dir = NONE then no_decision
            else \<lparr>ad_act = True, ad_dir = dir, ad_locate = as_locate (sigs ! primary),
                  ad_strength = dir_strength dir sws, ad_seq = as_seq (sigs ! primary)\<rparr>))"

text \<open>The vote as it is meant, over the integers.\<close>

definition vote :: "order_side \<Rightarrow> int" where
  "vote s = (if s = BUY then 1 else if s = SELL then - 1 else 0)"

definition net_vote :: "(arb_signal \<times> i64) list \<Rightarrow> int" where
  "net_vote sws = (\<Sum>(s, w)\<leftarrow>sws. vote (as_side s) * sint w)"

definition weight_of :: "order_side \<Rightarrow> (arb_signal \<times> i64) list \<Rightarrow> int" where
  "weight_of dir sws = (\<Sum>(s, w)\<leftarrow>filter (\<lambda>(s, w). as_side s = dir) sws. sint w)"

definition strength_of :: "order_side \<Rightarrow> (arb_signal \<times> i64) list \<Rightarrow> int" where
  "strength_of dir sws = (\<Sum>(s, w)\<leftarrow>filter (\<lambda>(s, w). as_side s = dir) sws. sint (as_strength s) * sint w)"

text \<open>Weights that are not negative, strengths within the scale, and a total that fits.\<close>

definition votes_ok :: "(arb_signal \<times> i64) list \<Rightarrow> bool" where
  "votes_ok sws \<longleftrightarrow> (\<forall>(s, w)\<in>set sws. 0 \<le> sint w \<and> 0 \<le> sint (as_strength s) \<and> sint (as_strength s) \<le> 10000) \<and>
     10000 * (\<Sum>(s, w)\<leftarrow>sws. sint w) < 2 ^ 63"

lemma votes_okD:
  assumes "votes_ok sws" "(s, w) \<in> set sws"
  shows "0 \<le> sint w" "0 \<le> sint (as_strength s)" "sint (as_strength s) \<le> 10000" "10000 * sint w < 2 ^ 63"
proof -
  have b: "0 \<le> sint v" if "(t, v) \<in> set sws" for t v using assms(1) that by (auto simp: votes_ok_def)
  show r: "0 \<le> sint w" "0 \<le> sint (as_strength s)" "sint (as_strength s) \<le> 10000" using assms by (auto simp: votes_ok_def)
  have "sint w \<le> (\<Sum>(s, w)\<leftarrow>sws. sint w)"
    using assms(2) b by (induction sws) (fastforce intro: add_increasing add_increasing2 sum_list_nonneg)+
  then show "10000 * sint w < 2 ^ 63" using assms(1) by (simp add: votes_ok_def)
qed

lemma votes_ok_filter: "votes_ok sws \<Longrightarrow> votes_ok (filter P sws)"
proof -
  assume ok: "votes_ok sws"
  have nn: "0 \<le> sint w" if "(s, w) \<in> set sws" for s w using ok that by (auto simp: votes_ok_def)
  then have "(\<Sum>(s, w)\<leftarrow>filter P sws. sint w) \<le> (\<Sum>(s, w)\<leftarrow>sws. sint w)"
  proof (induction sws)
    case (Cons x sws)
    obtain s w where "x = (s, w)" by (cases x)
    moreover have "0 \<le> sint w" using Cons.prems calculation by auto
    ultimately show ?case using Cons by fastforce
  qed simp
  then show ?thesis using ok by (auto simp: votes_ok_def)
qed

lemma product_exact:
  assumes "votes_ok sws" "(s, w) \<in> set sws"
  shows "sint (as_strength s * w) = sint (as_strength s) * sint w" "sint (side_sign t * w) = vote t * sint w"
proof -
  note b = votes_okD [OF assms]
  have "sint (as_strength s) * sint w \<le> 10000 * sint w" "0 \<le> sint (as_strength s) * sint w"
    using b by (auto intro: mult_right_mono)
  then show "sint (as_strength s * w) = sint (as_strength s) * sint w" using b by (intro sint64_mult) linarith+
  have "sint (- w) = - sint w" using sint64_diff [of 0 w] b by simp
  then show "sint (side_sign t * w) = vote t * sint w" by (simp add: side_sign_def vote_def)
qed

lemma foldl_pairs: "foldl (\<lambda>a (s, w). a + g s w) a xs = foldl (\<lambda>a x. a + (case x of (s, w) \<Rightarrow> g s w)) a xs"
  by (induction xs arbitrary: a) auto

lemma abs_total:
  assumes "\<And>x. x \<in> set xs \<Longrightarrow> \<bar>h x\<bar> \<le> k * g x"
  shows "(\<Sum>x\<leftarrow>xs. \<bar>h x\<bar> :: int) \<le> k * (\<Sum>x\<leftarrow>xs. g x)"
  using assms by (induction xs) (fastforce simp: distrib_left)+

lemma sum_exact:
  fixes g :: "arb_signal \<Rightarrow> i64 \<Rightarrow> i64"
  assumes ok: "votes_ok sws" and g: "\<And>s w. (s, w) \<in> set sws \<Longrightarrow> sint (g s w) = h s w \<and> \<bar>h s w\<bar> \<le> 10000 * sint w"
  shows "sint (foldl (\<lambda>a (s, w). a + g s w) 0 sws) = (\<Sum>(s, w)\<leftarrow>sws. h s w)"
    and "\<bar>\<Sum>(s, w)\<leftarrow>sws. h s w\<bar> < 2 ^ 63"
proof -
  let ?g = "\<lambda>x. case x of (s, w) \<Rightarrow> g s w" and ?h = "\<lambda>x. case x of (s, w) \<Rightarrow> h s w"
  have "(\<Sum>x\<leftarrow>sws. \<bar>?h x\<bar>) \<le> 10000 * (\<Sum>x\<leftarrow>sws. case x of (s, w) \<Rightarrow> sint w)"
    using g by (intro abs_total) auto
  then have b: "(\<Sum>x\<leftarrow>sws. \<bar>?h x\<bar>) < 2 ^ 63" using ok by (simp add: votes_ok_def)
  have eq: "sint (?g x) = ?h x" if "x \<in> set sws" for x using g that by (cases x) auto
  then have ms: "map (\<lambda>x. sint (?g x)) sws = map ?h sws" "map (\<lambda>x. \<bar>sint (?g x)\<bar>) sws = map (\<lambda>x. \<bar>?h x\<bar>) sws" by simp_all
  have "\<bar>sint (0 :: i64)\<bar> + (\<Sum>x\<leftarrow>sws. \<bar>sint (?g x)\<bar>) < 2 ^ 63" using b unfolding ms by simp
  from sint_sum_loop [OF this] show "sint (foldl (\<lambda>a (s, w). a + g s w) 0 sws) = (\<Sum>(s, w)\<leftarrow>sws. h s w)"
    unfolding foldl_pairs ms by simp
  have "\<bar>\<Sum>x\<leftarrow>sws. ?h x\<bar> \<le> (\<Sum>x\<leftarrow>sws. \<bar>?h x\<bar>)" using sum_list_abs [of "map ?h sws"] by (simp add: o_def)
  then show "\<bar>\<Sum>(s, w)\<leftarrow>sws. h s w\<bar> < 2 ^ 63" using b by simp
qed

lemma net_exact:
  assumes "votes_ok sws"
  shows "sint (net_bp sws) = net_vote sws" "\<bar>net_vote sws\<bar> < 2 ^ 63"
proof -
  have "sint (side_sign (as_side s) * w) = vote (as_side s) * sint w \<and> \<bar>vote (as_side s) * sint w\<bar> \<le> 10000 * sint w"
    if "(s, w) \<in> set sws" for s w
    using product_exact(2) [OF assms that] votes_okD [OF assms that] by (auto simp: vote_def)
  note t = this
  show "sint (net_bp sws) = net_vote sws" "\<bar>net_vote sws\<bar> < 2 ^ 63"
    unfolding net_bp_def net_vote_def
    using sum_exact [OF assms, of "\<lambda>s w. side_sign (as_side s) * w" "\<lambda>s w. vote (as_side s) * sint w"] t by blast+
qed

lemma strength_exact:
  assumes "votes_ok sws" "0 < weight_of dir sws"
  shows "sint (dir_strength dir sws) = strength_of dir sws div weight_of dir sws"
    and "0 \<le> strength_of dir sws div weight_of dir sws" "strength_of dir sws div weight_of dir sws \<le> 10000"
proof -
  let ?same = "filter (\<lambda>(s, w). as_side s = dir) sws"
  have ok: "votes_ok ?same" by (rule votes_ok_filter [OF assms(1)])
  have w: "sint w = sint w \<and> \<bar>sint w\<bar> \<le> 10000 * sint w" if "(s, w) \<in> set ?same" for s :: arb_signal and w
    using votes_okD [OF ok that] by simp
  have sw: "sint (as_strength s * w) = sint (as_strength s) * sint w \<and> \<bar>sint (as_strength s) * sint w\<bar> \<le> 10000 * sint w"
    if "(s, w) \<in> set ?same" for s w
    using product_exact(1) [OF ok that] votes_okD [OF ok that] by (auto simp: abs_mult intro: mult_right_mono)
  have W: "sint (foldl (\<lambda>a (s, w). a + w) 0 ?same) = weight_of dir sws"
    unfolding weight_of_def using w by (intro sum_exact(1) [OF ok]) blast
  have S: "sint (foldl (\<lambda>a (s, w). a + as_strength s * w) 0 ?same) = strength_of dir sws"
    unfolding strength_of_def using sw by (intro sum_exact(1) [OF ok]) blast
  have "(\<Sum>x\<leftarrow>?same. \<bar>case x of (s, w) \<Rightarrow> sint (as_strength s) * sint w\<bar>) \<le> 10000 * (\<Sum>x\<leftarrow>?same. case x of (s, w) \<Rightarrow> sint w)"
    using sw by (intro abs_total) auto
  moreover have "(\<Sum>x\<leftarrow>?same. case x of (s, w) \<Rightarrow> sint (as_strength s) * sint w) \<le>
      (\<Sum>x\<leftarrow>?same. \<bar>case x of (s, w) \<Rightarrow> sint (as_strength s) * sint w\<bar>)"
    by (rule sum_list_mono) simp
  moreover have "0 \<le> strength_of dir sws"
    unfolding strength_of_def using votes_okD [OF ok] by (intro sum_list_nonneg) auto
  ultimately have range: "0 \<le> strength_of dir sws \<and> strength_of dir sws \<le> 10000 * weight_of dir sws"
    by (simp add: strength_of_def weight_of_def)
  have "0 <s foldl (\<lambda>a (s, w). a + w) 0 ?same" using assms(2) W by (simp add: word_sless_alt)
  then show "sint (dir_strength dir sws) = strength_of dir sws div weight_of dir sws"
    using sint_sdivw_nonneg [of "foldl (\<lambda>a (s, w). a + as_strength s * w) 0 ?same" "foldl (\<lambda>a (s, w). a + w) 0 ?same"] W S range assms(2)
    by (simp add: dir_strength_def Let_def)
  show "0 \<le> strength_of dir sws div weight_of dir sws" using range assms(2) by (simp add: pos_imp_zdiv_nonneg_iff)
  show "strength_of dir sws div weight_of dir sws \<le> 10000"
    using zdiv_mono1 [of "strength_of dir sws" "10000 * weight_of dir sws" "weight_of dir sws"] range assms(2) by simp
qed

lemma net_le_weights:
  assumes "votes_ok sws"
  shows "net_vote sws \<le> weight_of BUY sws" "- net_vote sws \<le> weight_of SELL sws"
proof -
  have nn: "0 \<le> sint w" if "(s, w) \<in> set sws" for s w using votes_okD(1) [OF assms that] .
  have "net_vote sws = weight_of BUY sws - weight_of SELL sws"
    unfolding net_vote_def weight_of_def by (induction sws) (auto simp: vote_def split: order_side.splits)
  moreover have "0 \<le> weight_of dir sws" for dir
    unfolding weight_of_def using nn by (intro sum_list_nonneg) auto
  ultimately show "net_vote sws \<le> weight_of BUY sws" "- net_vote sws \<le> weight_of SELL sws" by (simp_all add: add.commute)
qed

section \<open>The combination of a primary and its slaves\<close>

record combiner =
  cb_primary :: signal
  cb_slaves :: "signal list"

definition new_combiner :: combiner where
  "new_combiner = \<lparr>cb_primary = empty_signal, cb_slaves = []\<rparr>"

definition set_primary :: "combiner \<Rightarrow> signal \<Rightarrow> combiner" where
  "set_primary c s = c\<lparr>cb_primary := s\<rparr>"

definition add_slave :: "combiner \<Rightarrow> signal \<Rightarrow> combiner" where
  "add_slave c s = c\<lparr>cb_slaves := cb_slaves c @ [s]\<rparr>"

definition clear_slaves :: "combiner \<Rightarrow> combiner" where
  "clear_slaves c = c\<lparr>cb_slaves := []\<rparr>"

definition slave_count :: "combiner \<Rightarrow> nat" where
  "slave_count c = length (cb_slaves c)"

fun slave_sums :: "order_side \<Rightarrow> signal list \<Rightarrow> i64 \<Rightarrow> i64 \<Rightarrow> i64 \<times> i64" where
  "slave_sums sd [] same opp = (same, opp)"
| "slave_sums sd (s # ss) same opp =
     (if sig_side s = NONE \<or> sig_strength s <=s 0 then slave_sums sd ss same opp
      else if sig_side s = sd then slave_sums sd ss (same + sig_strength s) opp
      else slave_sums sd ss same (opp + sig_strength s))"

definition combine :: "combiner \<Rightarrow> signal" where
  "combine c =
     (let p = cb_primary c in
      if sig_side p = NONE then p\<lparr>sig_strength := 0\<rparr>
      else
        (case slave_sums (sig_side p) (cb_slaves c) 0 0 of (same, opp) \<Rightarrow>
          (let base = (if 0 <s sig_strength p then sig_strength p else 0);
               s1 = base + same - opp;
               s2 = (if kStrengthScale <s s1 then kStrengthScale else s1);
               s3 = (if s2 <s 0 then 0 else s2)
           in p\<lparr>sig_strength := s3\<rparr>)))"

text \<open>What the slaves add to the strength, over the integers.\<close>

definition slave_effect :: "order_side \<Rightarrow> signal \<Rightarrow> int" where
  "slave_effect sd s = (if sig_side s = NONE \<or> sint (sig_strength s) \<le> 0 then 0
     else if sig_side s = sd then sint (sig_strength s) else - sint (sig_strength s))"

lemma slave_sums_exact:
  assumes "\<And>s. s \<in> set ss \<Longrightarrow> sint (sig_strength s) \<le> 10000" "slave_sums sd ss same opp = (same', opp')"
    "0 \<le> sint same" "0 \<le> sint opp" "sint same + sint opp + 10000 * int (length ss) < 2 ^ 62"
  shows "sint same' - sint opp' = sint same - sint opp + (\<Sum>s\<leftarrow>ss. slave_effect sd s) \<and>
    0 \<le> sint same' \<and> 0 \<le> sint opp' \<and> sint same' + sint opp' < 2 ^ 62"
  using assms
proof (induction ss arbitrary: same opp)
  case Nil
  then show ?case by simp
next
  case (Cons s ss)
  let ?x = "sint (sig_strength s)"
  have x: "?x \<le> 10000" using Cons.prems(1) by simp
  have len: "sint same + sint opp + 10000 + 10000 * int (length ss) < 2 ^ 62" using Cons.prems(5) by simp
  have ih: "\<And>s. s \<in> set ss \<Longrightarrow> sint (sig_strength s) \<le> 10000" using Cons.prems(1) by simp
  consider (skip) "sig_side s = NONE \<or> sig_strength s <=s 0" | (same) "\<not> (sig_side s = NONE \<or> sig_strength s <=s 0)" "sig_side s = sd"
    | (opp) "\<not> (sig_side s = NONE \<or> sig_strength s <=s 0)" "sig_side s \<noteq> sd" by blast
  then show ?case
  proof cases
    case skip
    then have "slave_effect sd s = 0" by (auto simp: slave_effect_def word_sle_eq)
    then show ?thesis using Cons.IH [OF ih, of same opp] Cons.prems skip len by simp
  next
    case same
    have p: "0 < ?x" using same by (auto simp: word_sle_eq)
    have a: "sint (same + sig_strength s) = sint same + ?x" using p x len Cons.prems(3,4) by (intro sint64_add) simp_all
    have pre: "sint (same + sig_strength s) + sint opp + 10000 * int (length ss) < 2 ^ 62" using a x len by linarith
    have e: "slave_effect sd s = ?x" using same p by (simp add: slave_effect_def)
    have "slave_sums sd ss (same + sig_strength s) opp = (same', opp')" "0 \<le> sint (same + sig_strength s)"
      using Cons.prems(2,3) same a p by simp_all
    from Cons.IH [OF ih this Cons.prems(4) pre] show ?thesis by (simp add: e a)
  next
    case opp
    have p: "0 < ?x" using opp by (auto simp: word_sle_eq)
    have a: "sint (opp + sig_strength s) = sint opp + ?x" using p x len Cons.prems(3,4) by (intro sint64_add) simp_all
    have pre: "sint same + sint (opp + sig_strength s) + 10000 * int (length ss) < 2 ^ 62" using a x len by linarith
    have e: "slave_effect sd s = - ?x" using opp p by (simp add: slave_effect_def)
    have "slave_sums sd ss same (opp + sig_strength s) = (same', opp')" "0 \<le> sint (opp + sig_strength s)"
      using Cons.prems(2,4) opp a p by simp_all
    from Cons.IH [OF ih this(1) Cons.prems(3) this(2) pre] show ?thesis by (simp add: e a)
  qed
qed

section \<open>Properties\<close>

lemma arbitrate_is_weighted_vote_parts:
  assumes "votes_ok (zip sigs ws)" "primary < length sigs" "0 \<le> sint thr"
  defines "d \<equiv> arbitrate_decide sigs ws primary thr" and "net \<equiv> net_vote (zip sigs ws)"
  shows "ad_act d \<longleftrightarrow> sint thr < \<bar>net\<bar>"
    and "ad_act d \<Longrightarrow> ad_dir d = (if 0 < net then BUY else SELL) \<and>
      sint (ad_strength d) = strength_of (ad_dir d) (zip sigs ws) div weight_of (ad_dir d) (zip sigs ws) \<and>
      0 \<le> sint (ad_strength d) \<and> sint (ad_strength d) \<le> 10000 \<and>
      ad_locate d = as_locate (sigs ! primary) \<and> ad_seq d = as_seq (sigs ! primary)"
proof -
  let ?sws = "zip sigs ws"
  have n: "sint (net_bp ?sws) = net" unfolding net_def by (rule net_exact(1) [OF assms(1)])
  have "sint (- thr) = - sint thr" using sint64_diff [of 0 thr] assms(3) sint64_bounds(2) [of thr] by simp
  then have cmp: "thr <s net_bp ?sws \<longleftrightarrow> sint thr < net" "net_bp ?sws <s - thr \<longleftrightarrow> net < - sint thr"
    by (simp_all add: word_sless_alt n)
  have ne: "length sigs \<noteq> 0" "\<not> primary \<ge> length sigs" using assms(2) by auto
  have d: "d = (if sint thr < net then \<lparr>ad_act = True, ad_dir = BUY, ad_locate = as_locate (sigs ! primary),
        ad_strength = dir_strength BUY ?sws, ad_seq = as_seq (sigs ! primary)\<rparr>
      else if net < - sint thr then \<lparr>ad_act = True, ad_dir = SELL, ad_locate = as_locate (sigs ! primary),
        ad_strength = dir_strength SELL ?sws, ad_seq = as_seq (sigs ! primary)\<rparr>
      else no_decision)"
    unfolding d_def arbitrate_decide_def Let_def if_not_P [OF ne(1)] if_not_P [OF ne(2)] cmp by simp
  show "ad_act d \<longleftrightarrow> sint thr < \<bar>net\<bar>" using assms(3) by (auto simp: d no_decision_def)
  assume act: "ad_act d"
  consider (buy) "sint thr < net" | (sell) "net < - sint thr" using act by (auto simp: d no_decision_def split: if_splits)
  then show "ad_dir d = (if 0 < net then BUY else SELL) \<and>
      sint (ad_strength d) = strength_of (ad_dir d) ?sws div weight_of (ad_dir d) ?sws \<and>
      0 \<le> sint (ad_strength d) \<and> sint (ad_strength d) \<le> 10000 \<and>
      ad_locate d = as_locate (sigs ! primary) \<and> ad_seq d = as_seq (sigs ! primary)"
  proof cases
    case buy
    then have "0 < weight_of BUY ?sws" using net_le_weights(1) [OF assms(1)] assms(3) by (simp add: net_def)
    from strength_exact [OF assms(1) this] buy assms(3) show ?thesis by (simp add: d)
  next
    case sell
    then have "0 < weight_of SELL ?sws" using net_le_weights(2) [OF assms(1)] assms(3) by (simp add: net_def)
    from strength_exact [OF assms(1) this] sell assms(3) show ?thesis by (simp add: d)
  qed
qed

text \<open>C20. The arbitration is the weighted net vote: with a valid primary and weights and strengths in range, a
  decision is taken exactly when the net vote of the signals exceeds the threshold in one direction, in that
  direction; its strength is the weighted average (truncated) of the signals of that direction and stays within
  the scale, and symbol and sequence number are the primary's.\<close>

theorem arbitrate_is_weighted_vote:
  assumes "votes_ok (zip sigs ws)" "primary < length sigs" "0 \<le> sint thr"
    and "d = arbitrate_decide sigs ws primary thr" "net = net_vote (zip sigs ws)"
  shows "(ad_act d \<longleftrightarrow> sint thr < \<bar>net\<bar>) \<and>
    (ad_act d \<longrightarrow> ad_dir d = (if 0 < net then BUY else SELL) \<and>
      sint (ad_strength d) = strength_of (ad_dir d) (zip sigs ws) div weight_of (ad_dir d) (zip sigs ws) \<and>
      0 \<le> sint (ad_strength d) \<and> sint (ad_strength d) \<le> 10000 \<and>
      ad_locate d = as_locate (sigs ! primary) \<and> ad_seq d = as_seq (sigs ! primary))"
  using arbitrate_is_weighted_vote_parts [OF assms(1-3)] unfolding assms(4,5) by blast

theorem arbitrate_is_weighted_vote_witness:
  "ad_act (arbitrate_decide [\<lparr>as_side = BUY, as_locate = 7, as_strength = 4000, as_seq = 1\<rparr>, \<lparr>as_side = SELL, as_locate = 9, as_strength = 9000, as_seq = 2\<rparr>]
     [10000, 5000] 0 2000)"
  using arbitrate_is_weighted_vote [OF _ _ _ refl refl, of "[\<lparr>as_side = BUY, as_locate = 7, as_strength = 4000, as_seq = 1\<rparr>, \<lparr>as_side = SELL, as_locate = 9, as_strength = 9000, as_seq = 2\<rparr>]"
     "[10000, 5000]" 0 2000]
  by (simp add: votes_ok_def net_vote_def vote_def)

lemma combine_clamps_strength_parts:
  assumes "\<And>s. s \<in> set (cb_slaves c) \<Longrightarrow> sint (sig_strength s) \<le> 10000" "length (cb_slaves c) < 2 ^ 40"
    "sint (sig_strength (cb_primary c)) \<le> 10000"
  defines "p \<equiv> cb_primary c"
  shows "combine c = p\<lparr>sig_strength := sig_strength (combine c)\<rparr>"
    and "sint (sig_strength (combine c)) = (if sig_side p = NONE then 0 else
      max 0 (min 10000 (max 0 (sint (sig_strength p)) + (\<Sum>s\<leftarrow>cb_slaves c. slave_effect (sig_side p) s))))"
proof -
  obtain same opp where s: "slave_sums (sig_side p) (cb_slaves c) 0 0 = (same, opp)"
    by (cases "slave_sums (sig_side p) (cb_slaves c) 0 0")
  have len: "10000 * int (length (cb_slaves c)) < 2 ^ 62" using assms(2) by simp
  have e: "sint same - sint opp = (\<Sum>s\<leftarrow>cb_slaves c. slave_effect (sig_side p) s)"
    and r: "0 \<le> sint same" "0 \<le> sint opp" "sint same + sint opp < 2 ^ 62"
    using slave_sums_exact [OF assms(1) s] len by simp_all
  define base where "base = (if 0 <s sig_strength p then sig_strength p else 0)"
  have b: "sint base = max 0 (sint (sig_strength p))" "0 \<le> sint base" "sint base \<le> 10000"
    using assms(3) by (auto simp: base_def p_def word_sless_alt)
  have 1: "sint (base + same) = sint base + sint same" using b r by (intro sint64_add) simp_all
  have 2: "sint (base + same - opp) = sint base + sint same - sint opp"
    using b r 1 by (subst sint64_diff) simp_all
  show "combine c = p\<lparr>sig_strength := sig_strength (combine c)\<rparr>" by (simp add: combine_def Let_def p_def split: prod.split)
  show "sint (sig_strength (combine c)) = (if sig_side p = NONE then 0 else
      max 0 (min 10000 (max 0 (sint (sig_strength p)) + (\<Sum>s\<leftarrow>cb_slaves c. slave_effect (sig_side p) s))))"
  proof (cases "sig_side p = NONE")
    case True
    then show ?thesis by (simp add: combine_def p_def)
  next
    case False
    have "sig_strength (combine c) = (let s1 = base + same - opp; s2 = (if kStrengthScale <s s1 then kStrengthScale else s1)
        in if s2 <s 0 then 0 else s2)"
      using False s by (simp add: combine_def p_def base_def Let_def)
    moreover have "sint (base + same - opp) = max 0 (sint (sig_strength p)) + (\<Sum>s\<leftarrow>cb_slaves c. slave_effect (sig_side p) s)"
      using 2 b(1) e by linarith
    ultimately show ?thesis using False by (auto simp: Let_def word_sless_alt min_def max_def)
  qed
qed

text \<open>The combination lets the primary decide the direction and the slaves the strength: without a direction of
  the primary the strength is zero, otherwise it is the primary's strength plus the strengths of the agreeing
  and minus those of the opposing slaves, clamped to the scale.\<close>

theorem combine_clamps_strength:
  assumes "\<And>s. s \<in> set (cb_slaves c) \<Longrightarrow> sint (sig_strength s) \<le> 10000" "length (cb_slaves c) < 2 ^ 40"
    "sint (sig_strength (cb_primary c)) \<le> 10000" "p = cb_primary c"
  shows "combine c = p\<lparr>sig_strength := sig_strength (combine c)\<rparr> \<and>
    sint (sig_strength (combine c)) = (if sig_side p = NONE then 0 else
      max 0 (min 10000 (max 0 (sint (sig_strength p)) + (\<Sum>s\<leftarrow>cb_slaves c. slave_effect (sig_side p) s))))"
  using combine_clamps_strength_parts [OF assms(1-3)] unfolding assms(4) by blast

theorem combine_clamps_strength_witness:
  "sint (sig_strength (combine (add_slave (set_primary new_combiner (empty_signal\<lparr>sig_side := BUY, sig_strength := 3000\<rparr>))
     (empty_signal\<lparr>sig_side := SELL, sig_strength := 1000\<rparr>)))) = 2000"
  using combine_clamps_strength [OF _ _ _ refl, of "add_slave (set_primary new_combiner (empty_signal\<lparr>sig_side := BUY, sig_strength := 3000\<rparr>))
     (empty_signal\<lparr>sig_side := SELL, sig_strength := 1000\<rparr>)"]
  by (simp add: add_slave_def set_primary_def new_combiner_def slave_effect_def)

end
