(* ===== verification/Book_Worker.thy ===== *)
theory Book_Worker
  imports Book_Consumer Arbitration Strategies Execution_Engine Itch_Parser
begin

text \<open>
  The worker of \<^verbatim>\<open>main.cpp\<close> (\<open>BookWorker\<close>): its books, its strategies and their signal slots, and the
  arbitration that turns them into orders. The template parameter is the list of strategies. The engine
  and the two counters are shared by the workers; one event is processed at a time here. The probes are
  left out.
\<close>

section \<open>State\<close>

datatype strategy = OFI ofi | OBI obi

fun strategy_on_market :: "strategy \<Rightarrow> market_event \<Rightarrow> book_context \<Rightarrow> strategy" where
  "strategy_on_market (OFI s) ev cx = OFI (ofi_on_market s ev cx)"
| "strategy_on_market (OBI s) ev cx = OBI (obi_on_market s ev cx)"

fun strategy_signal :: "strategy \<Rightarrow> signal" where
  "strategy_signal (OFI s) = ofi_signal s"
| "strategy_signal (OBI s) = obi_signal s"

definition empty_slot_signal :: arb_signal where
  "empty_slot_signal = \<lparr>as_side = NONE, as_locate = 0, as_strength = 0, as_seq = 0\<rparr>"

record book_worker =
  bw_obc :: book_consumer
  bw_strategies :: "strategy list"
  bw_slots :: "arb_signal list"
  bw_weights :: "i64 list"
  bw_primary :: nat
  bw_threshold :: i64
  bw_last_side :: order_side
  bw_last_str :: i64
  bw_max_position :: u64

record shared =
  sh_engine :: engine
  sh_trade_count :: nat
  sh_book_events :: nat

definition new_worker :: "book_consumer \<Rightarrow> strategy list \<Rightarrow> book_worker" where
  "new_worker obc ss = \<lparr>bw_obc = obc, bw_strategies = ss, bw_slots = replicate (length ss) empty_slot_signal,
     bw_weights = replicate (length ss) 0, bw_primary = 0, bw_threshold = 0, bw_last_side = NONE, bw_last_str = - 1, bw_max_position = 0\<rparr>"

text \<open>\<open>init\<close>: weights by the strategies' names, the position of the primary, the threshold.\<close>

definition worker_init :: "book_worker \<Rightarrow> string list \<Rightarrow> (string \<rightharpoonup> i64) \<Rightarrow> string \<Rightarrow> i64 \<Rightarrow> u64 \<Rightarrow> book_worker" where
  "worker_init w names weights primary threshold max_pos =
     (let k = min (length (bw_strategies w)) (length names) in
      w\<lparr>bw_weights := map (\<lambda>i. if i < k then (case weights (names ! i) of Some v \<Rightarrow> v | None \<Rightarrow> 10000) else bw_weights w ! i) [0..<length (bw_weights w)],
        bw_primary := foldl (\<lambda>p i. if names ! i = primary then i else p) (bw_primary w) [0..<k],
        bw_threshold := threshold, bw_max_position := max_pos\<rparr>)"

section \<open>The arbitration\<close>

abbreviation (input) kStrengthStep :: i64 where "kStrengthStep \<equiv> 500"

definition decision_signal :: "arb_decision \<Rightarrow> signal" where
  "decision_signal d = \<lparr>sig_side = ad_dir d, sig_locate = ad_locate d, sig_price = 0, sig_timestamp = 0, sig_strength = ad_strength d\<rparr>"

definition position_blocks :: "u64 \<Rightarrow> order_side \<Rightarrow> u64 \<Rightarrow> bool" where
  "position_blocks pos dir max_pos \<longleftrightarrow> (dir = BUY \<and> max_pos \<le> pos) \<or> (dir = SELL \<and> pos = 0)"

definition arbitrate :: "book_worker \<Rightarrow> engine \<Rightarrow> book_worker \<times> engine" where
  "arbitrate w e =
     (let d = arbitrate_decide (bw_slots w) (bw_weights w) (bw_primary w) (bw_threshold w) in
      if \<not> ad_act d then (w, e)
      else
        (let blocked = position_blocks (position (eng_rm e) (ad_locate d)) (ad_dir d) (bw_max_position w);
             fresh_dir = (ad_dir d \<noteq> bw_last_side w);
             strength_ge = (bw_last_str w + kStrengthStep <=s ad_strength d)
         in if \<not> blocked \<and> (fresh_dir \<or> strength_ge) then
              (case submit_signal e (decision_signal d) 1 MARKET of (e', oid) \<Rightarrow>
                 (if oid \<noteq> 0 then w\<lparr>bw_last_side := ad_dir d, bw_last_str := ad_strength d\<rparr> else w, e'))
            else (w, e)))"

section \<open>Processing an event\<close>

definition event_side :: "order_book option \<Rightarrow> market_event \<Rightarrow> order_side" where
  "event_side book ev =
     (if ev_type ev = EV_ADD \<or> ev_type ev = EV_REPLACE then o_side (ev_order ev)
      else case book of
        None \<Rightarrow> NONE
      | Some ob \<Rightarrow> side_of ob (if is_trade ev then t_order_ref (ev_trade ev) else o_order_ref (ev_order ev)))"

definition make_context :: "order_book option \<Rightarrow> market_event \<Rightarrow> book_context" where
  "make_context book ev =
     (let cx = empty_context\<lparr>cx_book := book, cx_seq := ev_seq_id ev, cx_side := event_side book ev\<rparr> in
      case book of
        None \<Rightarrow> cx
      | Some ob \<Rightarrow>
          (if 0 <=s best_bid ob \<and> 0 <=s best_ask ob then
             cx\<lparr>cx_bid := best_bid ob, cx_bid_vol := best_bid_volume ob, cx_ask := best_ask ob, cx_ask_vol := best_ask_volume ob,
                cx_mid := sdivw (best_bid ob + best_ask ob) 2\<rparr>
           else cx))"

definition feed_one :: "market_event \<Rightarrow> book_context \<Rightarrow> strategy \<Rightarrow> strategy \<times> arb_signal" where
  "feed_one ev cx s =
     (let s' = strategy_on_market s ev cx; sg = strategy_signal s' in
      (s', \<lparr>as_side = sig_side sg, as_locate = sig_locate sg, as_strength = sig_strength sg, as_seq = ev_seq_id ev\<rparr>))"

definition worker_feed :: "book_worker \<Rightarrow> market_event \<Rightarrow> book_context \<Rightarrow> book_worker" where
  "worker_feed w ev cx = (let rs = map (feed_one ev cx) (bw_strategies w) in
     w\<lparr>bw_strategies := map fst rs, bw_slots := map snd rs\<rparr>)"

text \<open>The marking of the risk manager with the middle price of a valid book, and the counters.\<close>

definition mark_context :: "market_event \<Rightarrow> book_context \<Rightarrow> engine \<Rightarrow> engine" where
  "mark_context ev cx e = (if 0 <=s cx_bid cx \<and> 0 <=s cx_ask cx
     then e\<lparr>eng_rm := mark (eng_rm e) (ev_locate ev) (cx_mid cx)\<rparr> else e)"

definition process :: "book_worker \<Rightarrow> shared \<Rightarrow> market_event \<Rightarrow> book_worker \<times> shared" where
  "process w sh ev =
     (let sh = (if is_trade ev then sh\<lparr>sh_trade_count := sh_trade_count sh + 1\<rparr> else sh);
          w = w\<lparr>bw_obc := consumer_on_event (bw_obc w) ev\<rparr>;
          sh = sh\<lparr>sh_book_events := sh_book_events sh + 1\<rparr>;
          book = consumer_book (bw_obc w) (ev_locate ev);
          cx = make_context book ev;
          (w, e) = arbitrate (worker_feed w ev cx) (mark_context ev cx (sh_engine sh))
      in (w, sh\<lparr>sh_engine := e\<rparr>))"

definition slot_signal :: "book_worker \<Rightarrow> nat \<Rightarrow> signal" where
  "slot_signal w i = \<lparr>sig_side = as_side (bw_slots w ! i), sig_locate = as_locate (bw_slots w ! i), sig_price = 0,
     sig_timestamp = 0, sig_strength = as_strength (bw_slots w ! i)\<rparr>"

text \<open>The worker's loop: the events it pops, one after the other.\<close>

fun worker_run :: "book_worker \<Rightarrow> shared \<Rightarrow> market_event list \<Rightarrow> book_worker \<times> shared" where
  "worker_run w sh [] = (w, sh)"
| "worker_run w sh (ev # evs) = (case process w sh ev of (w', sh') \<Rightarrow> worker_run w' sh' evs)"

section \<open>Facts about a step\<close>

lemma arbitrate_obc [simp]: "bw_obc (fst (arbitrate w e)) = bw_obc w" "bw_strategies (fst (arbitrate w e)) = bw_strategies w"
  "bw_slots (fst (arbitrate w e)) = bw_slots w"
  by (simp_all add: arbitrate_def Let_def split: prod.split)

lemma process_eq:
  defines "c \<equiv> \<lambda>w ev. consumer_on_event (bw_obc w) ev"
  defines "cx \<equiv> \<lambda>w ev. make_context (consumer_book (c w ev) (ev_locate ev)) ev"
  defines "r \<equiv> \<lambda>w sh ev. arbitrate (worker_feed (w\<lparr>bw_obc := c w ev\<rparr>) ev (cx w ev)) (mark_context ev (cx w ev) (sh_engine sh))"
  shows "process w sh ev = (fst (r w sh ev), \<lparr>sh_engine = snd (r w sh ev),
    sh_trade_count = sh_trade_count sh + (if is_trade ev then 1 else 0), sh_book_events = sh_book_events sh + 1\<rparr>)"
  by (cases sh) (simp add: process_def Let_def case_prod_beta c_def cx_def r_def)

lemma process_parts:
  assumes "process w sh ev = (w', sh')"
  shows "bw_obc w' = consumer_on_event (bw_obc w) ev" "sh_book_events sh' = sh_book_events sh + 1"
    "sh_trade_count sh' = sh_trade_count sh + (if is_trade ev then 1 else 0)"
    "bw_strategies w' = map (\<lambda>s. strategy_on_market s ev (make_context (consumer_book (bw_obc w') (ev_locate ev)) ev)) (bw_strategies w)"
proof -
  have obc: "bw_obc (worker_feed w ev cx) = bw_obc w" "bw_strategies (worker_feed w ev cx) = map (\<lambda>s. strategy_on_market s ev cx) (bw_strategies w)"
    for w cx by (simp_all add: worker_feed_def feed_one_def Let_def o_def)
  note p = assms [unfolded process_eq, symmetric, unfolded prod.inject]
  show o: "bw_obc w' = consumer_on_event (bw_obc w) ev" using p by (simp add: obc)
  show "bw_strategies w' = map (\<lambda>s. strategy_on_market s ev (make_context (consumer_book (bw_obc w') (ev_locate ev)) ev)) (bw_strategies w)"
    unfolding o using p by (simp add: obc)
  show "sh_book_events sh' = sh_book_events sh + 1" "sh_trade_count sh' = sh_trade_count sh + (if is_trade ev then 1 else 0)"
    using p by simp_all
qed

lemma worker_run_obc: "bw_obc (fst (worker_run w sh evs)) = foldl consumer_on_event (bw_obc w) evs"
proof (induction evs arbitrary: w sh)
  case (Cons ev evs)
  obtain w' sh' where p: "process w sh ev = (w', sh')" by (cases "process w sh ev")
  then show ?case using Cons.IH [of w' sh'] process_parts(1) [OF p] by simp
qed simp

lemma arbitrate_cases:
  fixes w e
  defines "d \<equiv> arbitrate_decide (bw_slots w) (bw_weights w) (bw_primary w) (bw_threshold w)"
  shows "arbitrate w e = (w, e) \<or>
    (ad_act d \<and> \<not> position_blocks (position (eng_rm e) (ad_locate d)) (ad_dir d) (bw_max_position w) \<and>
     (ad_dir d \<noteq> bw_last_side w \<or> bw_last_str w + kStrengthStep <=s ad_strength d) \<and>
     snd (arbitrate w e) = fst (submit_signal e (decision_signal d) 1 MARKET))"
  unfolding arbitrate_def d_def [symmetric] Let_def by (simp split: prod.split)

lemma arbitrate_weights [simp]:
  "bw_weights (fst (arbitrate w e)) = bw_weights w" "bw_primary (fst (arbitrate w e)) = bw_primary w"
  "bw_threshold (fst (arbitrate w e)) = bw_threshold w" "bw_max_position (fst (arbitrate w e)) = bw_max_position w"
  by (simp_all add: arbitrate_def Let_def split: prod.split)

section \<open>Properties\<close>

lemma worker_orders_follow_vote_parts:
  assumes "process w sh ev = (w', sh')"
  defines "d \<equiv> arbitrate_decide (bw_slots w') (bw_weights w') (bw_primary w') (bw_threshold w')"
    and "e \<equiv> mark_context ev (make_context (consumer_book (bw_obc w') (ev_locate ev)) ev) (sh_engine sh)"
  shows "bw_obc w' = consumer_on_event (bw_obc w) ev"
    and "sh_engine sh' = e \<or>
      (ad_act d \<and> (ad_dir d = BUY \<longrightarrow> position (eng_rm e) (ad_locate d) < bw_max_position w') \<and>
       (ad_dir d = SELL \<longrightarrow> position (eng_rm e) (ad_locate d) \<noteq> 0) \<and>
       (ad_dir d \<noteq> bw_last_side w \<or> bw_last_str w + kStrengthStep <=s ad_strength d) \<and>
       sh_engine sh' = fst (submit_signal e (decision_signal d) 1 MARKET))"
proof -
  show obc: "bw_obc w' = consumer_on_event (bw_obc w) ev" by (rule process_parts(1) [OF assms(1)])
  define W where "W = worker_feed (w\<lparr>bw_obc := bw_obc w'\<rparr>) ev (make_context (consumer_book (bw_obc w') (ev_locate ev)) ev)"
  have "w' = fst (arbitrate W e)" and snd: "sh_engine sh' = snd (arbitrate W e)"
    using assms(1) unfolding process_eq e_def W_def obc by auto
  then have keep': "bw_slots w' = bw_slots W" "bw_weights w' = bw_weights W" "bw_primary w' = bw_primary W"
      "bw_threshold w' = bw_threshold W" "bw_max_position w' = bw_max_position W" by simp_all
  have dw: "arbitrate_decide (bw_slots W) (bw_weights W) (bw_primary W) (bw_threshold W) = d" unfolding d_def keep' ..
  have keep: "bw_last_side W = bw_last_side w" "bw_last_str W = bw_last_str w" by (simp_all add: W_def worker_feed_def Let_def)
  show "sh_engine sh' = e \<or>
      (ad_act d \<and> (ad_dir d = BUY \<longrightarrow> position (eng_rm e) (ad_locate d) < bw_max_position w') \<and>
       (ad_dir d = SELL \<longrightarrow> position (eng_rm e) (ad_locate d) \<noteq> 0) \<and>
       (ad_dir d \<noteq> bw_last_side w \<or> bw_last_str w + kStrengthStep <=s ad_strength d) \<and>
       sh_engine sh' = fst (submit_signal e (decision_signal d) 1 MARKET))"
    using arbitrate_cases [of W e, unfolded dw keep] snd unfolding keep'(5)
    by (cases "arbitrate W e = (W, e)") (simp_all add: position_blocks_def not_le)
qed


lemma rejected_order_silences_parts:
  assumes d: "d = arbitrate_decide (bw_slots w) (bw_weights w) (bw_primary w) (bw_threshold w)" "ad_act d" "ad_dir d \<noteq> NONE"
    and pos: "\<not> position_blocks (position (eng_rm e) (ad_locate d)) (ad_dir d) (bw_max_position w)" "ad_dir d \<noteq> bw_last_side w"
    and qty: "q = signal_qty e (decision_signal d)" "q \<noteq> 0" and oid: "next_id (eng_om e) \<noteq> 0"
    and rej: "\<not> check_order (eng_rm e) (snd (new_order (eng_om e) (signal_order (decision_signal d) 1 MARKET q)))"
    and str: "0 \<le> sint (ad_strength d)" "sint (ad_strength d) \<le> 10000" and arb: "arbitrate w e = (w', e')"
  shows "order_status_of (eng_om e') (next_id (eng_om e)) = REJECTED"
    and "bw_last_side w' = ad_dir d" and "arbitrate w' e'' = (w', e'')"
proof -
  have sg: "sig_side (decision_signal d) = ad_dir d" "sig_price (decision_signal d) = 0" by (simp_all add: decision_signal_def)
  let ?n = "new_order (eng_om e) (signal_order (decision_signal d) 1 MARKET q)"
  have id: "order_id (snd ?n) = next_id (eng_om e)" by (simp add: new_order_def Let_def)
  have sub: "submit_signal e (decision_signal d) 1 MARKET = (e\<lparr>eng_om := on_reject (fst ?n) (next_id (eng_om e))\<rparr>, next_id (eng_om e))"
    using d(3) qty(2) rej id by (simp add: submit_signal_def sg qty(1) [symmetric] Let_def case_prod_beta word_sless_alt)
  have w': "w' = w\<lparr>bw_last_side := ad_dir d, bw_last_str := ad_strength d\<rparr>"
    and e': "e' = e\<lparr>eng_om := on_reject (fst ?n) (next_id (eng_om e))\<rparr>"
    using arb d(2) pos oid unfolding arbitrate_def d(1) [symmetric] Let_def sub by simp_all
  show "order_status_of (eng_om e') (next_id (eng_om e)) = REJECTED"
    by (simp add: e' order_status_of_def on_reject_def new_order_def Let_def unindex_def put_entry_def tick_clock_def)
  show "bw_last_side w' = ad_dir d" by (simp add: w')
  have "sint (ad_strength d + 500) = sint (ad_strength d) + 500" using str by (subst sint64_add) simp_all
  then have "\<not> ad_strength d + kStrengthStep <=s ad_strength d" by (simp add: word_sle_eq)
  moreover have "arbitrate_decide (bw_slots w') (bw_weights w') (bw_primary w') (bw_threshold w') = d" by (simp add: w' d(1))
  ultimately show "arbitrate w' e'' = (w', e'')" by (simp add: arbitrate_def w')
qed

text \<open>A rejected order silences its direction. When the risk manager rejects the order of a decision, the
  engine still returns the order's identifier, the worker records direction and strength as ordered, and
  with the same signals it does not try again, whatever state the engine is in by then.\<close>

theorem rejected_order_silences:
  assumes "d = arbitrate_decide (bw_slots w) (bw_weights w) (bw_primary w) (bw_threshold w)" "ad_act d" "ad_dir d \<noteq> NONE"
    and "\<not> position_blocks (position (eng_rm e) (ad_locate d)) (ad_dir d) (bw_max_position w)" "ad_dir d \<noteq> bw_last_side w"
    and "q = signal_qty e (decision_signal d)" "q \<noteq> 0" "next_id (eng_om e) \<noteq> 0"
    and "\<not> check_order (eng_rm e) (snd (new_order (eng_om e) (signal_order (decision_signal d) 1 MARKET q)))"
    and "0 \<le> sint (ad_strength d)" "sint (ad_strength d) \<le> 10000" "arbitrate w e = (w', e')"
  shows "order_status_of (eng_om e') (next_id (eng_om e)) = REJECTED \<and> bw_last_side w' = ad_dir d \<and>
    (\<forall>e''. arbitrate w' e'' = (w', e''))"
  using rejected_order_silences_parts [OF assms] by blast

text \<open>A replacement always counts as buying. The event of an ITCH replace message carries no side, and the
  zeroed event's side is \<open>BUY\<close>; the worker takes it from there instead of from the book, so the order flow
  rises by the new shares also when a sell order is replaced.\<close>

theorem replace_counts_as_buy:
  fixes sq ts old new :: u64 and loc track :: u16 and sh px :: u32
  defines "ev \<equiv> itch_event sq (MReplace loc track ts old new sh px)"
  shows "cx_side (make_context book ev) = BUY" and "ofi_delta ev (cx_side (make_context book ev)) = to_u64 sh"
proof -
  show s: "cx_side (make_context book ev) = BUY"
    by (simp add: make_context_def event_side_def ev_def order_event_def empty_event_def empty_context_def Let_def split: option.split)
  show "ofi_delta ev (cx_side (make_context book ev)) = to_u64 sh"
    unfolding s by (simp add: ofi_delta_def ev_def order_event_def empty_event_def)
qed

lemma flat_slots: "arbitrate_decide [s] [10000] 0 0 =
  (if as_side s = NONE then no_decision
   else \<lparr>ad_act = True, ad_dir = as_side s, ad_locate = as_locate s,
          ad_strength = sdivw (as_strength s * 10000) 10000, ad_seq = as_seq s\<rparr>)"
  by (cases "as_side s") (simp_all add: arbitrate_decide_def net_bp_def dir_strength_def side_sign_def word_sless_alt)

definition paused_worker :: book_worker where
  "paused_worker = (worker_init (new_worker (new_consumer (new_pool 8) (new_order_map 8)) [OBI (new_obi 3000)]) [''obi''] Map.empty ''obi'' 0 100)
     \<lparr>bw_slots := [\<lparr>as_side = BUY, as_locate = 7, as_strength = 10000, as_seq = 1\<rparr>]\<rparr>"

text \<open>A daily loss limit of zero rejects every order.\<close>

theorem rejected_order_silences_witness:
  "arbitrate (fst (arbitrate paused_worker (new_engine\<lparr>eng_rm := set_max_daily_loss new_risk 0\<rparr>))) new_engine =
    (fst (arbitrate paused_worker (new_engine\<lparr>eng_rm := set_max_daily_loss new_risk 0\<rparr>)), new_engine)"
proof -
  let ?e = "new_engine\<lparr>eng_rm := set_max_daily_loss new_risk 0\<rparr>"
  have pw: "bw_slots paused_worker = [\<lparr>as_side = BUY, as_locate = 7, as_strength = 10000, as_seq = 1\<rparr>]" "bw_weights paused_worker = [10000]"
    "bw_primary paused_worker = 0" "bw_threshold paused_worker = 0" "bw_last_side paused_worker = NONE" "bw_max_position paused_worker = 100"
    by (simp_all add: paused_worker_def worker_init_def new_worker_def Let_def)
  define d where "d = arbitrate_decide (bw_slots paused_worker) (bw_weights paused_worker) (bw_primary paused_worker) (bw_threshold paused_worker)"
  have dd: "d = \<lparr>ad_act = True, ad_dir = BUY, ad_locate = 7, ad_strength = 10000, ad_seq = 1\<rparr>"
    unfolding d_def pw flat_slots by (simp add: sdivw_def signed_divide_int_def)
  have q: "signal_qty ?e (decision_signal d) = 100"
    by (simp add: signal_qty_def decision_signal_def dd new_engine_def)
  have rej: "\<not> check_order (eng_rm ?e) ord" for ord
    by (simp add: check_order_def set_max_daily_loss_def new_risk_def word_sle_eq)
  obtain w' e' where a: "arbitrate paused_worker ?e = (w', e')" by (cases "arbitrate paused_worker ?e")
  have "order_status_of (eng_om e') (next_id (eng_om ?e)) = REJECTED \<and> bw_last_side w' = ad_dir d \<and> (\<forall>e''. arbitrate w' e'' = (w', e''))"
    by (rule rejected_order_silences [OF d_def _ _ _ _ q [symmetric] _ _ rej _ _ a])
      (simp_all add: dd pw position_blocks_def position_def set_max_daily_loss_def new_risk_def new_engine_def empty_oms_def)
  then have "arbitrate w' new_engine = (w', new_engine)" by blast
  then show ?thesis by (simp only: a fst_conv)
qed

text \<open>One buy order on an empty book: nothing is ordered.\<close>

definition demo_worker :: book_worker where
  "demo_worker = worker_init (new_worker (new_consumer (new_pool 8) (new_order_map 8)) [OFI (new_ofi 500), OBI (new_obi 3000)])
     [''ofi'', ''obi''] Map.empty ''ofi'' 0 100"


end
