(* ===== verification/Trader_Main.thy ===== *)
theory Trader_Main
  imports Book_Worker Event_Ring "HOL-Library.Monad_Syntax"
begin

text \<open>
  The start of the trader: the configuration (\<^verbatim>\<open>core/config.h\<close>, \<^verbatim>\<open>core/config_loader.cpp\<close>), the arguments, the
  choice of the strategies and of the network back end, the checks before the threads are started, and the
  loop that ends a run without shared memory (\<^verbatim>\<open>main.cpp\<close>). The YAML library is an argument: a record of its
  accessors, which return \<open>None\<close> where the library throws.
\<close>

section \<open>The configuration\<close>

record market_config =
  mc_type :: string
  mc_host :: string
  mc_port :: u16
  mc_backend :: string
  mc_ifname :: string
  mc_vdev :: string
  mc_eal_args :: "string list"
  mc_uring_entries :: u32
  mc_ring_bytes :: u64
  mc_chan_slots :: u64

record book_config =
  oc_enabled :: bool
  oc_pool_slots :: u64
  oc_workers :: u64

record strategy_config =
  sc_strategies :: "string list"
  sc_primary :: string
  sc_weights :: "string \<rightharpoonup> i64"
  sc_threshold :: i64
  sc_vol_window :: u64
  sc_vol_threshold :: u64
  sc_kline_ticks :: u64

record risk_config =
  rc_max_position :: u64
  rc_max_daily_loss :: i64
  rc_initial_equity :: i64
  rc_drawdown_pause :: i64
  rc_drawdown_flatten :: i64

record execution_config =
  xc_base_qty :: u64
  xc_order_port :: u16
  xc_order_ret_port :: u16
  xc_idle_timeout :: u32

record config =
  cfg_market :: market_config
  cfg_book :: book_config
  cfg_strategy :: strategy_config
  cfg_risk :: risk_config
  cfg_execution :: execution_config

definition default_market :: market_config where
  "default_market = \<lparr>mc_type = ''itch'', mc_host = ''127.0.0.1'', mc_port = 8080, mc_backend = ''io_uring'', mc_ifname = '''', mc_vdev = '''',
     mc_eal_args = [], mc_uring_entries = 256, mc_ring_bytes = push_bit 22 1, mc_chan_slots = push_bit 20 1\<rparr>"

definition default_book :: book_config where
  "default_book = \<lparr>oc_enabled = True, oc_pool_slots = push_bit 20 1, oc_workers = 4\<rparr>"

definition default_strategy :: strategy_config where
  "default_strategy = \<lparr>sc_strategies = [''ofi'', ''obi''], sc_primary = ''ofi'', sc_weights = Map.empty, sc_threshold = 0,
     sc_vol_window = 100, sc_vol_threshold = 5000, sc_kline_ticks = 10\<rparr>"

definition default_risk :: risk_config where
  "default_risk = \<lparr>rc_max_position = 10000, rc_max_daily_loss = 100000000, rc_initial_equity = 100000000,
     rc_drawdown_pause = 5000000, rc_drawdown_flatten = 10000000\<rparr>"

definition default_execution :: execution_config where
  "default_execution = \<lparr>xc_base_qty = 100, xc_order_port = 9090, xc_order_ret_port = 9091, xc_idle_timeout = 3\<rparr>"

definition default_config :: config where
  "default_config = \<lparr>cfg_market = default_market, cfg_book = default_book, cfg_strategy = default_strategy, cfg_risk = default_risk,
     cfg_execution = default_execution\<rparr>"

section \<open>Loading\<close>

text \<open>The accessors of a document: the node of a key, the conversions, the elements of a sequence and of a map.
  \<open>y_bp\<close> is \<open>(int64_t)(as<double>() * 10000.0)\<close>.\<close>

record 'n yaml =
  y_get :: "'n \<Rightarrow> string \<Rightarrow> 'n option"
  y_string :: "'n \<Rightarrow> string option"
  y_bool :: "'n \<Rightarrow> bool option"
  y_u16 :: "'n \<Rightarrow> u16 option"
  y_u32 :: "'n \<Rightarrow> u32 option"
  y_u64 :: "'n \<Rightarrow> u64 option"
  y_i64 :: "'n \<Rightarrow> i64 option"
  y_bp :: "'n \<Rightarrow> i64 option"
  y_strings :: "'n \<Rightarrow> string list option"
  y_items :: "'n \<Rightarrow> 'n list"
  y_pairs :: "'n \<Rightarrow> ('n \<times> 'n) list"

definition setting :: "'n yaml \<Rightarrow> 'n \<Rightarrow> string \<Rightarrow> ('n \<Rightarrow> 'a option) \<Rightarrow> 'a \<Rightarrow> 'a option" where
  "setting y n key conv old = (case y_get y n key of None \<Rightarrow> Some old | Some v \<Rightarrow> conv v)"

definition load_eal_args :: "'n yaml \<Rightarrow> 'n \<Rightarrow> string list option" where
  "load_eal_args y n = those (map (y_string y) (y_items y n))"

fun load_weights :: "'n yaml \<Rightarrow> ('n \<times> 'n) list \<Rightarrow> (string \<rightharpoonup> i64) \<Rightarrow> (string \<rightharpoonup> i64) option" where
  "load_weights y [] w = Some w"
| "load_weights y ((k, v) # kvs) w = do { name \<leftarrow> y_string y k; bp \<leftarrow> y_bp y v; load_weights y kvs (w(name \<mapsto> bp)) }"

definition load_market :: "'n yaml \<Rightarrow> 'n \<Rightarrow> market_config \<Rightarrow> market_config option" where
  "load_market y n c = do {
     type \<leftarrow> setting y n ''type'' (y_string y) (mc_type c);
     host \<leftarrow> setting y n ''host'' (y_string y) (mc_host c);
     port \<leftarrow> setting y n ''port'' (y_u16 y) (mc_port c);
     backend \<leftarrow> setting y n ''backend'' (y_string y) (mc_backend c);
     ifname \<leftarrow> setting y n ''ifname'' (y_string y) (mc_ifname c);
     vdev \<leftarrow> setting y n ''vdev'' (y_string y) (mc_vdev c);
     eal \<leftarrow> setting y n ''eal_args'' (load_eal_args y) (mc_eal_args c);
     entries \<leftarrow> setting y n ''uring_entries'' (y_u32 y) (mc_uring_entries c);
     ring \<leftarrow> setting y n ''ring_bytes'' (y_u64 y) (mc_ring_bytes c);
     slots \<leftarrow> setting y n ''chan_slots'' (y_u64 y) (mc_chan_slots c);
     Some \<lparr>mc_type = type, mc_host = host, mc_port = port, mc_backend = backend, mc_ifname = ifname, mc_vdev = vdev,
       mc_eal_args = eal, mc_uring_entries = entries, mc_ring_bytes = ring, mc_chan_slots = slots\<rparr> }"

definition load_book :: "'n yaml \<Rightarrow> 'n \<Rightarrow> book_config \<Rightarrow> book_config option" where
  "load_book y n c = do {
     enabled \<leftarrow> setting y n ''enabled'' (y_bool y) (oc_enabled c);
     slots \<leftarrow> setting y n ''pool_slots'' (y_u64 y) (oc_pool_slots c);
     workers \<leftarrow> setting y n ''workers'' (y_u64 y) (oc_workers c);
     Some \<lparr>oc_enabled = enabled, oc_pool_slots = slots, oc_workers = workers\<rparr> }"

definition load_strategy :: "'n yaml \<Rightarrow> 'n \<Rightarrow> strategy_config \<Rightarrow> strategy_config option" where
  "load_strategy y n c = do {
     names \<leftarrow> setting y n ''strategies'' (y_strings y) (sc_strategies c);
     primary \<leftarrow> setting y n ''primary'' (y_string y) (sc_primary c);
     weights \<leftarrow> setting y n ''weights'' (\<lambda>v. load_weights y (y_pairs y v) (sc_weights c)) (sc_weights c);
     threshold \<leftarrow> setting y n ''vote_threshold'' (y_bp y) (sc_threshold c);
     window \<leftarrow> setting y n ''vol_window'' (y_u64 y) (sc_vol_window c);
     volume \<leftarrow> setting y n ''vol_threshold'' (y_u64 y) (sc_vol_threshold c);
     ticks \<leftarrow> setting y n ''kline_ticks'' (y_u64 y) (sc_kline_ticks c);
     Some \<lparr>sc_strategies = names, sc_primary = primary, sc_weights = weights, sc_threshold = threshold, sc_vol_window = window,
       sc_vol_threshold = volume, sc_kline_ticks = ticks\<rparr> }"

definition load_risk :: "'n yaml \<Rightarrow> 'n \<Rightarrow> risk_config \<Rightarrow> risk_config option" where
  "load_risk y n c = do {
     pos \<leftarrow> setting y n ''max_position'' (y_u64 y) (rc_max_position c);
     loss \<leftarrow> setting y n ''max_daily_loss'' (y_i64 y) (rc_max_daily_loss c);
     eqty \<leftarrow> setting y n ''initial_equity'' (y_i64 y) (rc_initial_equity c);
     pause \<leftarrow> setting y n ''max_drawdown_pause'' (y_i64 y) (rc_drawdown_pause c);
     flat \<leftarrow> setting y n ''max_drawdown_flatten'' (y_i64 y) (rc_drawdown_flatten c);
     Some \<lparr>rc_max_position = pos, rc_max_daily_loss = loss, rc_initial_equity = eqty, rc_drawdown_pause = pause, rc_drawdown_flatten = flat\<rparr> }"

definition load_execution :: "'n yaml \<Rightarrow> 'n \<Rightarrow> execution_config \<Rightarrow> execution_config option" where
  "load_execution y n c = do {
     qty \<leftarrow> setting y n ''base_qty'' (y_u64 y) (xc_base_qty c);
     port \<leftarrow> setting y n ''order_port'' (y_u16 y) (xc_order_port c);
     ret \<leftarrow> setting y n ''order_ret_port'' (y_u16 y) (xc_order_ret_port c);
     idle \<leftarrow> setting y n ''idle_timeout_sec'' (y_u32 y) (xc_idle_timeout c);
     Some \<lparr>xc_base_qty = qty, xc_order_port = port, xc_order_ret_port = ret, xc_idle_timeout = idle\<rparr> }"

text \<open>\<open>file\<close> is the result of \<open>YAML::LoadFile\<close>.\<close>

definition load_config :: "'n yaml \<Rightarrow> 'n option \<Rightarrow> config option" where
  "load_config y file = do {
     root \<leftarrow> file;
     market \<leftarrow> setting y root ''market'' (\<lambda>n. load_market y n default_market) default_market;
     book \<leftarrow> setting y root ''order_book'' (\<lambda>n. load_book y n default_book) default_book;
     strat \<leftarrow> setting y root ''strategy'' (\<lambda>n. load_strategy y n default_strategy) default_strategy;
     risk \<leftarrow> setting y root ''risk'' (\<lambda>n. load_risk y n default_risk) default_risk;
     exec \<leftarrow> setting y root ''execution'' (\<lambda>n. load_execution y n default_execution) default_execution;
     Some \<lparr>cfg_market = market, cfg_book = book, cfg_strategy = strat, cfg_risk = risk, cfg_execution = exec\<rparr> }"

section \<open>Arguments, back end and strategies\<close>

text \<open>The loop over \<open>argv\<close>; \<open>None\<close> is the return after \<open>usage\<close>.\<close>

fun parse_main_args :: "string list \<Rightarrow> string \<times> bool \<Rightarrow> (string \<times> bool) option" where
  "parse_main_args [] acc = Some acc"
| "parse_main_args [a] (path, no_shm) = (if a = ''--no-shm'' then Some (path, True) else None)"
| "parse_main_args (a # b # as) (path, no_shm) =
     (if a = ''--config'' then parse_main_args as (b, no_shm)
      else if a = ''--no-shm'' then parse_main_args (b # as) (path, True)
      else None)"

datatype backend = Uring u16 | AF_XDP string u16 | DPDK string u16 "string list"

fun backend_port :: "backend \<Rightarrow> u16" where
  "backend_port (Uring p) = p"
| "backend_port (AF_XDP _ p) = p"
| "backend_port (DPDK _ p _) = p"

definition default_eal_args :: "string list" where
  "default_eal_args = [''-l'', ''0'', ''--no-pci'', ''--no-huge'', ''-m'', ''128'']"

text \<open>The two flags are \<open>HAVE_AF_XDP\<close> and \<open>HAVE_DPDK\<close>.\<close>

definition make_receiver :: "bool \<Rightarrow> bool \<Rightarrow> market_config \<Rightarrow> backend option" where
  "make_receiver have_xdp have_dpdk m =
     (if have_xdp \<and> mc_backend m = ''af_xdp'' then
        (if mc_ifname m = [] then None else Some (AF_XDP (mc_ifname m) (mc_port m)))
      else if have_dpdk \<and> mc_backend m = ''dpdk'' then
        (if mc_vdev m = [] then None
         else Some (DPDK (mc_vdev m) (mc_port m) (if mc_eal_args m = [] then default_eal_args else mc_eal_args m)))
      else if mc_backend m \<noteq> ''io_uring'' then None
      else Some (Uring (mc_port m)))"

text \<open>The template instances \<open>main\<close> chooses from, with the constructors' default thresholds (500, and 0.3 as 3000
  of 10000).\<close>

definition strategies_for :: "string list \<Rightarrow> strategy list option" where
  "strategies_for names =
     (if names = [''ofi'', ''obi''] then Some [OFI (new_ofi 500), OBI (new_obi 3000)]
      else if names = [''ofi''] then Some [OFI (new_ofi 500)]
      else if names = [''obi''] then Some [OBI (new_obi 3000)]
      else if names = [] then Some []
      else None)"

definition primary_ok :: "strategy_config \<Rightarrow> bool" where
  "primary_ok c \<longleftrightarrow> \<not> (sc_strategies c \<noteq> [] \<and> sc_primary c \<notin> set (sc_strategies c))"

section \<open>Building the trader\<close>

text \<open>What the calls to the system answer: the receiver's \<open>start\<close>, the mapping of the shared memory, the order sender's
  \<open>start\<close> and its \<open>send\<close>.\<close>

record platform =
  pf_xdp :: bool
  pf_dpdk :: bool
  pf_receiver :: bool
  pf_shm :: bool
  pf_sender :: bool
  pf_send :: "bytes list \<Rightarrow> bytes \<Rightarrow> int"

text \<open>The order return port written into the shared memory is absent without it. The workers share one pool and one
  index, both new here.\<close>

record trader =
  td_backend :: backend
  td_ret_port :: "u16 option"
  td_ring :: u64
  td_chan :: nat
  td_workers :: "book_worker list"
  td_engine :: engine

definition configured_risk :: "risk_config \<Rightarrow> risk" where
  "configured_risk c =
     set_max_drawdown_flatten (set_max_drawdown_pause (set_initial_equity (set_max_daily_loss (set_max_position new_risk
       (rc_max_position c)) (rc_max_daily_loss c)) (rc_initial_equity c)) (rc_drawdown_pause c)) (rc_drawdown_flatten c)"

definition worker_count :: "book_config \<Rightarrow> nat" where
  "worker_count c = max 1 (unat (oc_workers c))"

definition build_worker :: "config \<Rightarrow> strategy list \<Rightarrow> book_worker" where
  "build_worker c ss =
     worker_init (new_worker (new_consumer (new_pool (unat (oc_pool_slots (cfg_book c)))) (new_order_map (unat (oc_pool_slots (cfg_book c))))) ss)
       (sc_strategies (cfg_strategy c)) (sc_weights (cfg_strategy c)) (sc_primary (cfg_strategy c)) (sc_threshold (cfg_strategy c))
       (rc_max_position (cfg_risk c))"

definition run_strategies :: "platform \<Rightarrow> config \<Rightarrow> bool \<Rightarrow> strategy list \<Rightarrow> trader option" where
  "run_strategies pf c no_shm ss =
     (if \<not> primary_ok (cfg_strategy c) then None
      else case make_receiver (pf_xdp pf) (pf_dpdk pf) (cfg_market c) of
        None \<Rightarrow> None
      | Some be \<Rightarrow>
          (if \<not> pf_receiver pf then None
           else if \<not> no_shm \<and> \<not> pf_shm pf then None
           else if \<not> pf_sender pf then None
           else Some \<lparr>td_backend = be, td_ret_port = (if no_shm then None else Some (xc_order_ret_port (cfg_execution c))),
             td_ring = mc_ring_bytes (cfg_market c),
             td_chan = per_chan (unat (mc_chan_slots (cfg_market c))) (unat (oc_workers (cfg_book c))),
             td_workers = replicate (worker_count (cfg_book c)) (build_worker c ss),
             td_engine = set_sender (set_codec (set_base_qty (new_engine\<lparr>eng_rm := configured_risk (cfg_risk c)\<rparr>)
               (xc_base_qty (cfg_execution c))) (Some ouch_vt)) (Some (pf_send pf))\<rparr>))"

text \<open>\<open>main\<close> up to the start of the threads; \<open>None\<close> is exit code 1. \<open>files\<close> is \<open>YAML::LoadFile\<close>.\<close>

definition trader_main :: "'n yaml \<Rightarrow> (string \<Rightarrow> 'n option) \<Rightarrow> platform \<Rightarrow> string list \<Rightarrow> trader option" where
  "trader_main y files pf argv = do {
     (path, no_shm) \<leftarrow> parse_main_args argv (''config/default.yaml'', False);
     c \<leftarrow> load_config y (files path);
     ss \<leftarrow> strategies_for (sc_strategies (cfg_strategy c));
     run_strategies pf c no_shm ss }"

section \<open>What the start guarantees\<close>

abbreviation configured_weight :: "(string \<rightharpoonup> i64) \<Rightarrow> string \<Rightarrow> i64" where
  "configured_weight ws n \<equiv> (case ws n of Some v \<Rightarrow> v | None \<Rightarrow> 10000)"

lemma strategies_for_cases:
  assumes "strategies_for names = Some ss"
  obtains "names = [''ofi'', ''obi'']" "ss = [OFI (new_ofi 500), OBI (new_obi 3000)]"
    | "names = [''ofi'']" "ss = [OFI (new_ofi 500)]" | "names = [''obi'']" "ss = [OBI (new_obi 3000)]" | "names = []" "ss = []"
  using assms by (auto simp: strategies_for_def split: if_splits)

definition worker_ready :: "config \<Rightarrow> book_worker \<Rightarrow> bool" where
  "worker_ready c w \<longleftrightarrow>
     (let st = cfg_strategy c; names = sc_strategies st in
      length (bw_strategies w) = length names \<and> length (bw_slots w) = length names \<and>
      bw_weights w = map (configured_weight (sc_weights st)) names \<and>
      (names \<noteq> [] \<longrightarrow> bw_primary w < length names \<and> names ! bw_primary w = sc_primary st) \<and>
      bw_threshold w = sc_threshold st \<and> bw_max_position w = rc_max_position (cfg_risk c))"

lemma build_worker_ready:
  assumes "strategies_for (sc_strategies (cfg_strategy c)) = Some ss" "primary_ok (cfg_strategy c)"
  shows "worker_ready c (build_worker c ss)"
proof -
  note d = worker_ready_def build_worker_def worker_init_def new_worker_def primary_ok_def Let_def
  from assms(1) show ?thesis
  proof (cases rule: strategies_for_cases)
    case 1
    then show ?thesis using assms(2) unfolding d by (auto simp: upt_rec)
  next
    case 2
    then show ?thesis using assms(2) unfolding d by auto
  next
    case 3
    then show ?thesis using assms(2) unfolding d by auto
  next
    case 4
    then show ?thesis unfolding d by simp
  qed
qed

lemma make_receiver_port: "make_receiver x d m = Some be \<Longrightarrow> backend_port be = mc_port m"
  by (auto simp: make_receiver_def split: if_splits)

lemma trader_main_parts:
  assumes "trader_main y files pf argv = Some td"
  obtains path no_shm c ss where "parse_main_args argv (''config/default.yaml'', False) = Some (path, no_shm)"
    "load_config y (files path) = Some c" "strategies_for (sc_strategies (cfg_strategy c)) = Some ss"
    "run_strategies pf c no_shm ss = Some td"
  using assms by (auto simp: trader_main_def bind_eq_Some_conv split: prod.splits)

lemma run_strategies_parts:
  assumes "run_strategies pf c no_shm ss = Some td"
  shows "primary_ok (cfg_strategy c)" and "td_workers td = replicate (worker_count (cfg_book c)) (build_worker c ss)"
    and "backend_port (td_backend td) = mc_port (cfg_market c)"
    and "base_qty (td_engine td) = xc_base_qty (cfg_execution c)" and "eng_rm (td_engine td) = configured_risk (cfg_risk c)"
    and "eng_codec (td_engine td) = Some ouch_vt" and "eng_sender (td_engine td) = Some (pf_send pf)"
    and "td_ret_port td = (if no_shm then None else Some (xc_order_ret_port (cfg_execution c)))"
  using assms by (auto simp: run_strategies_def set_sender_def set_codec_def set_base_qty_def make_receiver_port split: if_splits option.splits)


text \<open>A document: what the YAML library reads of it is what \<open>doc_yaml\<close> says. The weights and the threshold are already
  multiplied.\<close>

datatype doc = Text string | Flag bool | Whole int | Items "doc list" | Fields "(string \<times> doc) list"

fun doc_text :: "doc \<Rightarrow> string option" where "doc_text (Text t) = Some t" | "doc_text _ = None"
fun doc_items :: "doc \<Rightarrow> doc list" where "doc_items (Items ds) = ds" | "doc_items _ = []"

definition doc_unsigned :: "doc \<Rightarrow> 'a::len word option" where
  "doc_unsigned d = (case d of Whole i \<Rightarrow> if uint (word_of_int i :: 'a word) = i then Some (word_of_int i) else None | _ \<Rightarrow> None)"

definition doc_signed :: "doc \<Rightarrow> i64 option" where
  "doc_signed d = (case d of Whole i \<Rightarrow> if sint (word_of_int i :: i64) = i then Some (word_of_int i) else None | _ \<Rightarrow> None)"

definition doc_yaml :: "doc yaml" where
  "doc_yaml = \<lparr>y_get = (\<lambda>d k. case d of Fields kvs \<Rightarrow> map_of kvs k | _ \<Rightarrow> None), y_string = doc_text,
     y_bool = (\<lambda>d. case d of Flag b \<Rightarrow> Some b | _ \<Rightarrow> None), y_u16 = doc_unsigned, y_u32 = doc_unsigned, y_u64 = doc_unsigned,
     y_i64 = doc_signed, y_bp = doc_signed, y_strings = (\<lambda>d. those (map doc_text (doc_items d))), y_items = doc_items,
     y_pairs = (\<lambda>d. case d of Fields kvs \<Rightarrow> map (\<lambda>(k, v). (Text k, v)) kvs | _ \<Rightarrow> [])\<rparr>"

abbreviation unsigned_doc :: "'a::len word \<Rightarrow> doc" where "unsigned_doc w \<equiv> Whole (uint w)"
abbreviation signed_doc :: "i64 \<Rightarrow> doc" where "signed_doc w \<equiv> Whole (sint w)"

definition config_doc :: "config \<Rightarrow> (string \<times> i64) list \<Rightarrow> doc" where
  "config_doc c ws = Fields
     [(''market'', let m = cfg_market c in Fields [(''type'', Text (mc_type m)), (''host'', Text (mc_host m)), (''port'', unsigned_doc (mc_port m)),
        (''backend'', Text (mc_backend m)), (''ifname'', Text (mc_ifname m)), (''vdev'', Text (mc_vdev m)),
        (''eal_args'', Items (map Text (mc_eal_args m))), (''uring_entries'', unsigned_doc (mc_uring_entries m)),
        (''ring_bytes'', unsigned_doc (mc_ring_bytes m)), (''chan_slots'', unsigned_doc (mc_chan_slots m))]),
      (''order_book'', let b = cfg_book c in Fields [(''enabled'', Flag (oc_enabled b)), (''pool_slots'', unsigned_doc (oc_pool_slots b)),
        (''workers'', unsigned_doc (oc_workers b))]),
      (''strategy'', let s = cfg_strategy c in Fields [(''strategies'', Items (map Text (sc_strategies s))), (''primary'', Text (sc_primary s)),
        (''weights'', Fields (map (\<lambda>(k, w). (k, signed_doc w)) ws)), (''vote_threshold'', signed_doc (sc_threshold s)),
        (''vol_window'', unsigned_doc (sc_vol_window s)), (''vol_threshold'', unsigned_doc (sc_vol_threshold s)),
        (''kline_ticks'', unsigned_doc (sc_kline_ticks s))]),
      (''risk'', let r = cfg_risk c in Fields [(''max_position'', unsigned_doc (rc_max_position r)), (''max_daily_loss'', signed_doc (rc_max_daily_loss r)),
        (''initial_equity'', signed_doc (rc_initial_equity r)), (''max_drawdown_pause'', signed_doc (rc_drawdown_pause r)),
        (''max_drawdown_flatten'', signed_doc (rc_drawdown_flatten r))]),
      (''execution'', let x = cfg_execution c in Fields [(''base_qty'', unsigned_doc (xc_base_qty x)), (''order_port'', unsigned_doc (xc_order_port x)),
        (''order_ret_port'', unsigned_doc (xc_order_ret_port x)), (''idle_timeout_sec'', unsigned_doc (xc_idle_timeout x))])]"

lemma doc_accessors [simp]:
  "y_get doc_yaml (Fields kvs) k = map_of kvs k" "y_string doc_yaml (Text t) = Some t" "y_bool doc_yaml (Flag b) = Some b"
  "y_u16 doc_yaml (unsigned_doc p) = Some p" "y_u32 doc_yaml (unsigned_doc q) = Some q" "y_u64 doc_yaml (unsigned_doc r) = Some r"
  "y_i64 doc_yaml (signed_doc i) = Some i" "y_bp doc_yaml (signed_doc i) = Some i" "y_items doc_yaml (Items ds) = ds"
  "y_pairs doc_yaml (Fields kvs) = map (\<lambda>(k, v). (Text k, v)) kvs"
  by (simp_all add: doc_yaml_def doc_unsigned_def doc_signed_def)

lemma doc_texts [simp]: "those (map (\<lambda>s. y_string doc_yaml (Text s)) ts) = Some ts" "those (map (\<lambda>s. doc_text (Text s)) ts) = Some ts"
  by (induction ts) simp_all

lemma doc_strings [simp]: "y_strings doc_yaml (Items (map Text ts)) = Some ts" "load_eal_args doc_yaml (Items (map Text ts)) = Some ts"
proof -
  have "those (map Some ts) = Some ts" by (induction ts) simp_all
  then show "y_strings doc_yaml (Items (map Text ts)) = Some ts" "load_eal_args doc_yaml (Items (map Text ts)) = Some ts"
    by (simp_all add: doc_yaml_def load_eal_args_def comp_def)
qed

lemma doc_weights [simp]:
  "load_weights doc_yaml (map ((\<lambda>(k, v). (Text k, v)) \<circ> (\<lambda>(k, w). (k, signed_doc w))) ws) acc = Some (acc ++ map_of (rev ws))"
proof (induction ws arbitrary: acc)
  case (Cons kw ws)
  have upd: "acc ++ ([k \<mapsto> v] ++ m) = acc(k \<mapsto> v) ++ m" for k :: string and v :: i64 and m
    by (simp add: map_add_def fun_eq_iff split: option.split)
  from Cons show ?case by (cases kw) (simp add: upd, simp add: fun_upd_def)
qed simp

text \<open>A configuration file that gives every key is read into exactly the configuration it describes: each
  key, and each strategy's weight, reaches its own field; the last entry counts where a strategy is listed twice.\<close>

theorem config_roundtrip:
  assumes "sc_weights (cfg_strategy c) = map_of (rev ws)"
  shows "load_config doc_yaml (Some (config_doc c ws)) = Some c"
  by (simp add: load_config_def config_doc_def setting_def Let_def load_book_def load_risk_def load_execution_def load_market_def
      load_strategy_def assms default_strategy_def)

text \<open>An empty document: the defaults start, on io_uring and port 8080.\<close>

definition demo_platform :: platform where
  "demo_platform = \<lparr>pf_xdp = False, pf_dpdk = False, pf_receiver = True, pf_shm = True, pf_sender = True, pf_send = full_send\<rparr>"

lemma load_empty: "load_config doc_yaml (Some (Fields [])) = Some default_config"
  by (simp add: load_config_def setting_def default_config_def)


theorem config_roundtrip_witness:
  "load_config doc_yaml (Some (config_doc (default_config\<lparr>cfg_strategy := default_strategy\<lparr>sc_weights := [''obi'' \<mapsto> 5000]\<rparr>\<rparr>) [(''obi'', 5000)])) =
    Some (default_config\<lparr>cfg_strategy := default_strategy\<lparr>sc_weights := [''obi'' \<mapsto> 5000]\<rparr>\<rparr>)"
  by (rule config_roundtrip) simp

section \<open>The end of a run without shared memory\<close>

record monitor =
  mo_last :: u64
  mo_idle :: u64
  mo_max_qps :: u64
  mo_total :: u64
  mo_active :: u64
  mo_started :: bool

definition new_monitor :: monitor where
  "new_monitor = \<lparr>mo_last = 0, mo_idle = 0, mo_max_qps = 0, mo_total = 0, mo_active = 0, mo_started = False\<rparr>"

definition monitor_tick :: "monitor \<Rightarrow> u64 \<Rightarrow> monitor" where
  "monitor_tick m p =
     (if p \<noteq> mo_last m then
        (let inc = p - mo_last m;
             m = m\<lparr>mo_last := p\<rparr>;
             m = (if mo_started m
                  then m\<lparr>mo_total := mo_total m + inc, mo_active := mo_active m + 1,
                         mo_max_qps := (if inc > mo_max_qps m then inc else mo_max_qps m)\<rparr>
                  else m)
         in m\<lparr>mo_idle := 0, mo_started := True\<rparr>)
      else if mo_started m then m\<lparr>mo_idle := mo_idle m + 1\<rparr> else m)"

text \<open>The loop over the counts read each second: the monitor at its exit with the counts not read; \<open>None\<close> while
  it still waits for the next second.\<close>

fun monitor_run :: "u32 \<Rightarrow> monitor \<Rightarrow> u64 list \<Rightarrow> (monitor \<times> u64 list) option" where
  "monitor_run limit m ps =
     (if \<not> (\<not> mo_started m \<or> mo_idle m < ucast limit) then Some (m, ps)
      else case ps of [] \<Rightarrow> None | p # ps' \<Rightarrow> monitor_run limit (monitor_tick m p) ps')"

declare monitor_run.simps [simp del]

lemma monitor_run_stop [simp]: "mo_started m \<Longrightarrow> ucast limit \<le> mo_idle m \<Longrightarrow> monitor_run limit m ps = Some (m, ps)"
  by (subst monitor_run.simps) (simp add: not_less)

lemma monitor_run_Cons [simp]:
  "\<not> (mo_started m \<and> ucast limit \<le> mo_idle m) \<Longrightarrow> monitor_run limit m (p # ps) = monitor_run limit (monitor_tick m p) ps"
  by (subst monitor_run.simps) auto

lemma monitor_run_Nil [simp]: "\<not> (mo_started m \<and> ucast limit \<le> mo_idle m) \<Longrightarrow> monitor_run limit m [] = None"
  by (subst monitor_run.simps) auto

lemma monitor_run_append:
  "monitor_run limit m (xs @ ys) = (case monitor_run limit m xs of
     Some (m', r) \<Rightarrow> Some (m', r @ ys) | None \<Rightarrow> monitor_run limit (foldl monitor_tick m xs) ys)"
proof (induction xs arbitrary: m)
  case (Cons x xs)
  then show ?case by (cases "mo_started m \<and> ucast limit \<le> mo_idle m") (simp_all split: option.split)
next
  case Nil
  then show ?case by (cases "mo_started m \<and> ucast limit \<le> mo_idle m") simp_all
qed

lemma not_started_last: "\<not> mo_started (foldl monitor_tick new_monitor xs) \<Longrightarrow> mo_last (foldl monitor_tick new_monitor xs) = 0"
  by (induction xs rule: rev_induct) (auto simp: new_monitor_def monitor_tick_def Let_def split: if_splits)

lemma tick_same: "mo_started m \<Longrightarrow> monitor_tick m (mo_last m) = m\<lparr>mo_idle := mo_idle m + 1\<rparr>"
  by (simp add: monitor_tick_def)

lemma unat_limit [simp]: "unat (ucast (limit :: u32) :: u64) = unat limit"
  using unsigned_less [of limit, where 'a=nat] by (simp add: unsigned_ucast_eq take_bit_nat_eq_self)

lemma idle_counts: fixes i :: u64 and limit :: u32
  assumes "i < ucast limit" shows "unat (i + 1) = Suc (unat i)"
proof -
  have "unat i < unat limit" using assms by (simp add: word_less_nat_alt)
  then have "unat i + 1 < 2 ^ 64" using unsigned_less [of limit, where 'a=nat] by simp
  then show ?thesis by (simp add: unat_word_ariths)
qed

lemma monitor_run_idle:
  assumes "mo_started m" "unat limit \<le> unat (mo_idle m) + n"
  shows "monitor_run limit m (replicate n (mo_last m) @ r) \<noteq> None"
  using assms
proof (induction n arbitrary: m)
  case 0
  then have "ucast limit \<le> mo_idle m" by (simp add: word_le_nat_alt)
  with 0 show ?case by simp
next
  case (Suc n)
  show ?case
  proof (cases "ucast limit \<le> mo_idle m")
    case True
    with Suc.prems show ?thesis by simp
  next
    case False
    let ?m = "m\<lparr>mo_idle := mo_idle m + 1\<rparr>"
    from False have "unat (mo_idle m + 1) = Suc (unat (mo_idle m))" using idle_counts [of "mo_idle m" limit] by simp
    with Suc.IH [of ?m] Suc.prems have "monitor_run limit ?m (replicate n (mo_last m) @ r) \<noteq> None" by simp
    with False Suc.prems show ?thesis by (simp add: tick_same)
  qed
qed

lemma tick_new: assumes "p \<noteq> 0" and "\<not> mo_started m \<Longrightarrow> mo_last m = 0"
  shows "mo_started (monitor_tick m p) \<and> mo_last (monitor_tick m p) = p"
  using assms by (auto simp: monitor_tick_def Let_def)

lemma monitor_run_stops:
  assumes "p \<noteq> 0"
  shows "monitor_run limit new_monitor (pre @ replicate (Suc (unat limit)) p @ r) \<noteq> None"
proof -
  let ?m = "foldl monitor_tick new_monitor pre"
  have t: "mo_started (monitor_tick ?m p) \<and> mo_last (monitor_tick ?m p) = p"
    using assms not_started_last by (rule tick_new)
  have "monitor_run limit ?m (p # replicate (unat limit) p @ r) \<noteq> None"
  proof (cases "mo_started ?m \<and> ucast limit \<le> mo_idle ?m")
    case False
    with t monitor_run_idle [of "monitor_tick ?m p" limit "unat limit" r] show ?thesis by simp
  qed simp
  then show ?thesis by (simp add: monitor_run_append split: option.split)
qed

lemma monitor_run_silent: "monitor_run limit new_monitor (replicate n 0) = None"
proof (induction n)
  case (Suc n)
  have "monitor_tick new_monitor 0 = new_monitor" by (simp add: monitor_tick_def new_monitor_def)
  with Suc show ?case by (simp add: new_monitor_def)
qed (simp add: new_monitor_def)

text \<open>The last counts read are those the idle counter stands for.\<close>

definition idle_inv :: "monitor \<Rightarrow> u64 list \<Rightarrow> bool" where
  "idle_inv m xs \<longleftrightarrow> (if mo_started m then \<exists>pre. xs = pre @ replicate (Suc (unat (mo_idle m))) (mo_last m) else mo_idle m = 0)"

lemma idle_inv_tick:
  assumes "idle_inv m xs" "mo_started m \<longrightarrow> mo_idle m < ucast (limit :: u32)"
  shows "idle_inv (monitor_tick m p) (xs @ [p])"
proof (cases "p = mo_last m")
  case True
  show ?thesis
  proof (cases "mo_started m")
    case started: True
    with assms(2) have "unat (mo_idle m + 1) = Suc (unat (mo_idle m))" using idle_counts [of "mo_idle m" limit] by simp
    with started True assms(1) show ?thesis
      by (auto simp: idle_inv_def tick_same replicate_append_same)
  qed (use True assms(1) in \<open>simp add: idle_inv_def monitor_tick_def\<close>)
next
  case False
  then have "mo_started (monitor_tick m p)" "mo_idle (monitor_tick m p) = 0" "mo_last (monitor_tick m p) = p"
    by (simp_all add: monitor_tick_def Let_def)
  then show ?thesis by (simp add: idle_inv_def)
qed

lemma monitor_run_inv:
  assumes "monitor_run limit m ps = Some (m', r)" "idle_inv m xs"
  shows "\<exists>used. ps = used @ r \<and> idle_inv m' (xs @ used) \<and> mo_started m' \<and> ucast limit \<le> mo_idle m'"
  using assms
proof (induction ps arbitrary: m xs)
  case Nil
  then show ?case by (cases "mo_started m \<and> ucast limit \<le> mo_idle m") auto
next
  case (Cons p ps)
  show ?case
  proof (cases "mo_started m \<and> ucast limit \<le> mo_idle m")
    case True
    with Cons.prems show ?thesis by auto
  next
    case False
    then have i: "mo_started m \<longrightarrow> mo_idle m < ucast limit" by auto
    from False Cons.prems(1) have r: "monitor_run limit (monitor_tick m p) ps = Some (m', r)" by simp
    obtain used where "ps = used @ r \<and> idle_inv m' ((xs @ [p]) @ used) \<and> mo_started m' \<and> ucast limit \<le> mo_idle m'"
      using Cons.IH [OF r idle_inv_tick [OF Cons.prems(2) i]] by blast
    then show ?thesis by (intro exI [of _ "p # used"]) simp
  qed
qed

lemma monitor_run_unchanged:
  assumes "monitor_run limit new_monitor ps = Some (m, r)"
  shows "\<exists>pre. ps = pre @ replicate (Suc (unat limit)) (mo_last m) @ r"
proof -
  have "idle_inv new_monitor []" by (simp add: idle_inv_def new_monitor_def)
  from monitor_run_inv [OF assms this] obtain used where u: "ps = used @ r" "idle_inv m used" "mo_started m" "ucast limit \<le> mo_idle m"
    by auto
  then obtain pre where pre: "used = pre @ replicate (Suc (unat (mo_idle m))) (mo_last m)" by (auto simp: idle_inv_def)
  have "unat limit \<le> unat (mo_idle m)" using u(4) by (simp add: word_le_nat_alt)
  then have "Suc (unat (mo_idle m)) = (unat (mo_idle m) - unat limit) + Suc (unat limit)" by simp
  then have "replicate (Suc (unat (mo_idle m))) (mo_last m) =
      replicate (unat (mo_idle m) - unat limit) (mo_last m) @ replicate (Suc (unat limit)) (mo_last m)"
    by (metis replicate_add)
  with u(1) pre show ?thesis by simp
qed

text \<open>C36. Without shared memory the run ends after the configured number of seconds without progress, and only then:
  when the loop has ended, the message count was the same in the last \<open>idle_timeout_sec + 1\<close> readings; a count other
  than 0 that is read \<open>idle_timeout_sec + 1\<close> times in a row ends it, whatever was read before; and as long as nothing
  was parsed it does not end at all.\<close>

theorem monitor_ends_when_idle:
  "(\<forall>m r. monitor_run limit new_monitor ps = Some (m, r) \<longrightarrow> (\<exists>pre. ps = pre @ replicate (Suc (unat limit)) (mo_last m) @ r)) \<and>
   (p \<noteq> 0 \<longrightarrow> (\<exists>m s. monitor_run limit new_monitor (pre @ replicate (Suc (unat limit)) p @ r) = Some (m, s))) \<and>
   monitor_run limit new_monitor (replicate n 0) = None"
  using monitor_run_unchanged monitor_run_stops monitor_run_silent by fast

theorem monitor_ends_when_idle_witness:
  "\<exists>m s. monitor_run 3 new_monitor ([0, 0, 5, 9] @ replicate 4 9 @ [12]) = Some (m, s)"
proof -
  have four: "Suc (unat (3 :: u32)) = 4" and nine: "(9 :: u64) \<noteq> 0" by simp_all
  show ?thesis using monitor_ends_when_idle [of 3 "[]" 9 "[0, 0, 5, 9]" "[12]" 0] nine unfolding four by blast
qed

end
