(* ===== verification/Receive_Thread.thy ===== *)
theory Receive_Thread
  imports Market_Replay Uring_Receiver
begin

text \<open>
  The receive thread of \<^verbatim>\<open>main.cpp\<close> on the io_uring back end: it hands over all requests, takes one datagram after the
  other and feeds it to the unpacker. With it the path of the market data starts at what the kernel delivers. Pinning
  and the wake-up of the parser thread are left out.
\<close>

section \<open>The loop\<close>

abbreviation kRecvBuf :: nat where "kRecvBuf \<equiv> 65536"

text \<open>Each turn reads \<open>stop\<close> and goes through some waits. The result: the receiver, the frames the unpacker has pushed, the
  number of packets counted, and whether the thread has left its loop. The ring of 256 requests has room for one per
  buffer.\<close>

fun recv_thread :: "receiver \<Rightarrow> nat \<Rightarrow> (bool \<times> (arrival list \<times> bool) list) list \<Rightarrow> receiver \<times> bytes list \<times> nat \<times> bool" where
  "recv_thread r n [] = (r, [], n, False)"
| "recv_thread r n ((stop, ws) # turns) =
     (if stop then (r, [], n, True)
      else
        (case recv_batch r kRecvBuf True ws of
           None \<Rightarrow> (r, [], n, False)
         | Some (r1, Received d, _) \<Rightarrow>
             (if d = [] then (r1, [], n, True)
              else (case recv_thread r1 (n + 1) turns of (r2, fs, m, ended) \<Rightarrow> (r2, fst (mold_feed d) @ fs, m, ended)))
         | Some (r1, Nothing, _) \<Rightarrow> (r1, [], n, True)
         | Some (r1, Failed _, _) \<Rightarrow> (r1, [], n, True)))"

section \<open>What the thread feeds\<close>

lemma recv_thread_calls:
  assumes "calls_ok r kRecvBuf (map snd turns)" "recv_thread r n turns = (r', fs, m, False)"
  shows "\<exists>ps. recv_batches r kRecvBuf (map snd turns) = (r', map Received ps) \<and> m = n + length ps \<and>
    fs = concat (map (fst \<circ> mold_feed) ps) \<and> [] \<notin> set ps"
  using assms
proof (induction turns arbitrary: r n fs)
  case (Cons t turns)
  obtain stop ws where t: "t = (stop, ws)" by (cases t)
  obtain r1 res where b: "recv_batch r kRecvBuf True ws = Some (r1, res, [])" "calls_ok r1 kRecvBuf (map snd turns)"
    using Cons.prems(1) by (auto simp: t split: option.splits prod.splits list.splits)
  have "\<not> stop" using Cons.prems(2) by (auto simp: t)
  show ?case
  proof (cases res)
    case (Received d)
    then have d: "d \<noteq> []" using Cons.prems(2) b(1) \<open>\<not> stop\<close> by (auto simp: t split: if_splits)
    then obtain fs1 where f: "recv_thread r1 (n + 1) turns = (r', fs1, m, False)" "fs = fst (mold_feed d) @ fs1"
      using Cons.prems(2) b(1) \<open>\<not> stop\<close> Received by (auto simp: t split: prod.splits)
    from Cons.IH [OF b(2) f(1)] obtain ps where "recv_batches r1 kRecvBuf (map snd turns) = (r', map Received ps)"
      "m = n + 1 + length ps" "fs1 = concat (map (fst \<circ> mold_feed) ps)" "[] \<notin> set ps" by blast
    then show ?thesis using b(1) f(2) d Received by (intro exI [of _ "d # ps"]) (simp add: t comp_def)
  qed (use Cons.prems(2) b(1) \<open>\<not> stop\<close> in \<open>simp_all add: t\<close>)
qed simp

lemma recv_thread_feeds:
  assumes "pool_ok (ur_poller r) X" "content (ur_poller r) = []" "calls_ok r kRecvBuf (map snd turns)" "recv_thread r n turns = (r', fs, m, False)"
  shows "\<exists>ps. m = n + length ps \<and> fs = concat (map (fst \<circ> mold_feed) ps) \<and>
    ps @ map (take kRecvBuf) (content (ur_poller r')) = map (take kRecvBuf) (arrived (concat (map snd turns)))"
proof -
  obtain ps where ps: "recv_batches r kRecvBuf (map snd turns) = (r', map Received ps)" "m = n + length ps"
    "fs = concat (map (fst \<circ> mold_feed) ps)" using recv_thread_calls [OF assms(3,4)] by blast
  have "concat (map packets_of (map Received ps)) = ps" by (induction ps) simp_all
  then show ?thesis using recv_batches_ok [OF assms(1,3) ps(1)] assms(2) ps(2,3) by auto
qed

lemma begun_ok:
  assumes "ur_start new_receiver True True True True = (r0, ok)"
  shows "pool_ok (ur_poller (begin_batch r0 room)) {#0#} \<and> content (ur_poller (begin_batch r0 room)) = []"
proof -
  have s: "pool_ok (ur_poller r0) {#0#}" "content (ur_poller r0) = []" using started_ok [OF assms] by simp_all
  obtain p n where p: "submit_inflight (ur_poller r0) room MAX_BUFFERS = (p, n)" by fastforce
  show ?thesis using s submit_ok [OF s(1) p] by (simp add: begin_batch_def p)
qed

lemma take_short: "\<forall>d \<in> set ds. length d \<le> n \<Longrightarrow> map (take n) ds = ds"
  by (induction ds) simp_all


section \<open>An empty datagram\<close>

lemma one_completion:
  assumes "up_len p = 0" "up_cq p = []" "length (up_ready p) = MAX_BUFFERS" "length (up_res p) = MAX_BUFFERS"
  shows "\<exists>p1. reap_more (kernel_post p (Datagram b d)) = (p1, 1) \<and> \<not> ready_empty p1 \<and>
    (\<exists>p2. take_ready p1 = (p2, Some (b, int (length (take BUF_SIZE d)))))"
proof -
  have "ready_slot p 0 < MAX_BUFFERS" by (simp add: ready_slot_mod)
  then show ?thesis using assms
    by (simp add: reap_more_def reap_cqe_def ready_empty_def take_ready_def ready_slot_def)
qed

text \<open>C40. One empty UDP datagram ends the receive thread: its completion has the result 0, which the loop takes for a stop.
  Nothing that arrives afterwards is received, although nobody has asked to stop.\<close>

theorem empty_datagram_ends_receiving:
  assumes "ur_running r" "ur_batch r" "pool_ok (ur_poller r) X" "up_len (ur_poller r) = 0" "up_cq (ur_poller r) = []"
    and "b \<in> set (up_flight (ur_poller r))"
  shows "\<exists>r'. recv_thread r n ((False, ([Datagram b []], True) # ws) # turns) = (r', [], n, True) \<and> ur_running r'"
proof -
  have l: "length (up_ready (ur_poller r)) = MAX_BUFFERS" "length (up_res (ur_poller r)) = MAX_BUFFERS"
    using assms(3) by (simp_all add: pool_ok_def)
  obtain p1 p2 where p: "reap_more (kernel_post (ur_poller r) (Datagram b [])) = (p1, 1)" "\<not> ready_empty p1"
    "take_ready p1 = (p2, Some (b, 0))" using one_completion [OF assms(4,5) l, of b "[]"] by auto
  have "reap_until p1 ws = Some (p1, None, ws)" using p(2) by (cases ws) auto
  then have u: "reap_until (ur_poller r) (([Datagram b []], True) # ws) = Some (p1, None, ws)"
    using p(1) assms(4) by (simp add: ready_empty_def del: kernel_post.simps)
  have "recv_batch r kRecvBuf True (([Datagram b []], True) # ws) =
      Some (r\<lparr>ur_poller := resubmit_recv p2 True b\<rparr>, Received [], ws)"
    unfolding recv_batch_def u using assms(1,2) p(3) by (simp add: copy_out_def)
  then show ?thesis using assms(1) by simp
qed

section \<open>Examples\<close>

lemma one_call:
  assumes "ur_running r" "ur_batch r" "pool_ok (ur_poller r) X" "content (ur_poller r) = []" "up_len (ur_poller r) = 0" "up_cq (ur_poller r) = []"
    and "b \<in> set (up_flight (ur_poller r))" "length d \<le> BUF_SIZE"
  shows "\<exists>r'. recv_batch r kRecvBuf True [([Datagram b d], True)] = Some (r', Received d, []) \<and> content (ur_poller r') = []"
proof -
  have l: "length (up_ready (ur_poller r)) = MAX_BUFFERS" "length (up_res (ur_poller r)) = MAX_BUFFERS"
    using assms(3) by (simp_all add: pool_ok_def)
  obtain p1 p2 where p: "reap_more (kernel_post (ur_poller r) (Datagram b d)) = (p1, 1)" "\<not> ready_empty p1"
    "take_ready p1 = (p2, Some (b, int (length (take BUF_SIZE d))))" using one_completion [OF assms(5,6) l, of b d] by auto
  have u: "reap_until (ur_poller r) [([Datagram b d], True)] = Some (p1, None, [])"
    using p(1,2) assms(5) by (simp add: ready_empty_def del: kernel_post.simps)
  obtain r' e where c: "recv_batch r kRecvBuf True [([Datagram b d], True)] = Some (r', Received e, [])"
    unfolding recv_batch_def u using assms(1,2) p(3) by simp
  have w: "waits_ok (ur_poller r) [([Datagram b d], True)]" using assms(7) by simp
  from recv_batch_ok [OF assms(3) w c] obtain ds where "[take BUF_SIZE d] = ds @ content (ur_poller r')" "[e] = map (take kRecvBuf) ds"
    using assms(4) by auto
  then show ?thesis using c assms(8) by (cases ds) auto
qed

lemma demo_begun: "\<exists>r0 ok. ur_start new_receiver True True True True = (r0, ok) \<and> demo_batch = begin_batch r0 (\<lambda>k. 62 \<le> k)"
  by (cases "ur_start new_receiver True True True True") (simp add: demo_batch_def)

lemma demo_facts: "pool_ok (ur_poller demo_batch) {#0#}" "content (ur_poller demo_batch) = []" "up_flight (ur_poller demo_batch) = [1, 2]"
    "up_len (ur_poller demo_batch) = 0" "up_cq (ur_poller demo_batch) = []" "ur_running demo_batch" "ur_batch demo_batch"
proof -
  obtain r0 ok where s: "ur_start new_receiver True True True True = (r0, ok)" "demo_batch = begin_batch r0 (\<lambda>k. 62 \<le> k)"
    using demo_begun by blast
  show "pool_ok (ur_poller demo_batch) {#0#}" "content (ur_poller demo_batch) = []" using begun_ok [OF s(1)] by (simp_all only: s(2))
  show "up_flight (ur_poller demo_batch) = [1, 2]" "up_len (ur_poller demo_batch) = 0" "up_cq (ur_poller demo_batch) = []"
    "ur_running demo_batch" "ur_batch demo_batch" by (simp_all add: demo_batch_eval new_poller_def)
qed

theorem empty_datagram_ends_receiving_witness:
  "\<exists>r'. recv_thread demo_batch 0 [(False, [([Datagram 1 []], True)]), (False, [([Datagram 2 [7]], True)])] = (r', [], 0, True) \<and> ur_running r'"
  by (rule empty_datagram_ends_receiving [OF demo_facts(6,7,1,4,5)]) (simp add: demo_facts)


end
