(* ===== verification/End_Of_Run.thy ===== *)
theory End_Of_Run
  imports Market_Pipeline
begin

text \<open>
  How a run over shared memory ends (\<open>run_strategies\<close> of \<^verbatim>\<open>main.cpp\<close>): the receive thread, the parser thread with its
  spinning and sleeping (\<open>ByteRingParser::notify\<close> and \<open>wait_for_data\<close>), and the main thread, which waits until as many
  packets are received as sent, sets \<open>stop\<close> and joins the two. A step is an access to a shared variable; \<open>parse_available\<close>
  is one step, its interleavings with pushes are those of \<open>Market_Pipeline\<close>. A packet is the list of its messages.
\<close>

section \<open>The three threads\<close>

abbreviation kSpinMax :: nat where "kSpinMax \<equiv> 2000"

datatype parse_thread_pc = PLoop | PParse | PEmpty | PSpin | PDrain | PPoll | PLast | PEnd
datatype recv_pc = RLoop | RRecv | RFeed | REnd
datatype main_pc = MWait | MStopped | MJoined | MEnd

record ending =
  en_sent :: nat
  en_net :: "(u64 \<times> bytes) list list"
  en_received :: nat
  en_batch :: "(u64 \<times> bytes) list"
  en_recv :: recv_pc
  en_ring :: byte_ring
  en_fd :: nat
  en_stop :: bool
  en_pc :: parse_thread_pc
  en_spin :: nat
  en_fed :: "(u64 \<times> bytes) list"
  en_main :: main_pc

text \<open>The replay has sent all its packets and set \<open>done\<close>.\<close>

definition all_sent :: "nat \<Rightarrow> (u64 \<times> bytes) list list \<Rightarrow> ending" where
  "all_sent cap packets = \<lparr>en_sent = length packets, en_net = packets, en_received = 0, en_batch = [], en_recv = RLoop,
     en_ring = new_ring cap, en_fd = 0, en_stop = False, en_pc = PLoop, en_spin = 0, en_fed = [], en_main = MWait\<rparr>"

definition parse_thread_next :: "ending \<Rightarrow> ending option" where
  "parse_thread_next s =
     (case en_pc s of
        PLoop \<Rightarrow> Some (s\<lparr>en_pc := if en_stop s then PLast else PParse\<rparr>)
      | PParse \<Rightarrow> (case parse_available (en_ring s) of None \<Rightarrow> None
          | Some (r, ms) \<Rightarrow> Some (s\<lparr>en_ring := r, en_fed := en_fed s @ ms, en_pc := PEmpty\<rparr>))
      | PEmpty \<Rightarrow> Some (if \<not> br_empty (en_ring s) then s\<lparr>en_spin := kSpinMax, en_pc := PLoop\<rparr> else s\<lparr>en_pc := PSpin\<rparr>)
      | PSpin \<Rightarrow> Some (if en_spin s > 0 then s\<lparr>en_spin := en_spin s - 1, en_pc := PLoop\<rparr> else s\<lparr>en_spin := kSpinMax, en_pc := PDrain\<rparr>)
      | PDrain \<Rightarrow> Some (s\<lparr>en_fd := 0, en_pc := PPoll\<rparr>)
      | PPoll \<Rightarrow> if en_fd s > 0 then Some (s\<lparr>en_fd := 0, en_pc := PLoop\<rparr>) else None
      | PLast \<Rightarrow> (case parse_available (en_ring s) of None \<Rightarrow> None
          | Some (r, ms) \<Rightarrow> Some (s\<lparr>en_ring := r, en_fed := en_fed s @ ms, en_pc := PEnd\<rparr>))
      | PEnd \<Rightarrow> None)"

text \<open>The poll of 200 ms may also time out.\<close>

inductive parse_thread_step :: "ending \<Rightarrow> ending \<Rightarrow> bool" where
  parse_next: "parse_thread_next s = Some s' \<Longrightarrow> parse_thread_step s s'"
| poll_timeout: "en_pc s = PPoll \<Longrightarrow> parse_thread_step s (s\<lparr>en_pc := PLoop\<rparr>)"

text \<open>The receive thread counts a packet before it feeds it. After \<open>stop\<close> the main thread stops the receiver, whose
  \<open>recv\<close> then returns 0.\<close>

inductive recv_thread_step :: "ending \<Rightarrow> ending \<Rightarrow> bool" where
  recv_check: "en_recv s = RLoop \<Longrightarrow> recv_thread_step s (s\<lparr>en_recv := if en_stop s then REnd else RRecv\<rparr>)"
| recv_packet: "en_recv s = RRecv \<Longrightarrow> en_net s = ms # net \<Longrightarrow>
    recv_thread_step s (s\<lparr>en_net := net, en_received := en_received s + 1, en_batch := ms, en_recv := RFeed\<rparr>)"
| recv_stopped: "en_recv s = RRecv \<Longrightarrow> en_main s = MStopped \<Longrightarrow> recv_thread_step s (s\<lparr>en_recv := REnd\<rparr>)"
| recv_push: "en_recv s = RFeed \<Longrightarrow> en_batch s = m # ms \<Longrightarrow> push_step (en_ring s) m r \<Longrightarrow>
    recv_thread_step s (s\<lparr>en_batch := ms, en_ring := r\<rparr>)"
| recv_notify: "en_recv s = RFeed \<Longrightarrow> en_batch s = [] \<Longrightarrow> recv_thread_step s (s\<lparr>en_fd := en_fd s + 1, en_recv := RLoop\<rparr>)"

definition main_next :: "ending \<Rightarrow> ending option" where
  "main_next s =
     (case en_main s of
        MWait \<Rightarrow> if en_received s < en_sent s then None else Some (s\<lparr>en_stop := True, en_main := MStopped\<rparr>)
      | MStopped \<Rightarrow> if en_recv s = REnd then Some (s\<lparr>en_fd := en_fd s + 1, en_main := MJoined\<rparr>) else None
      | MJoined \<Rightarrow> if en_pc s = PEnd then Some (s\<lparr>en_main := MEnd\<rparr>) else None
      | MEnd \<Rightarrow> None)"

inductive run_step :: "ending \<Rightarrow> ending \<Rightarrow> bool" where
  run_parse: "parse_thread_step s s' \<Longrightarrow> run_step s s'"
| run_recv: "recv_thread_step s s' \<Longrightarrow> run_step s s'"
| run_main: "main_next s = Some s' \<Longrightarrow> run_step s s'"

section \<open>Stopping between two packets\<close>

text \<open>A run in which \<open>stop\<close> is not set while a packet is being fed.\<close>

definition calm_step :: "ending \<Rightarrow> ending \<Rightarrow> bool" where
  "calm_step s s' \<longleftrightarrow> run_step s s' \<and> (en_stop s' \<and> \<not> en_stop s \<longrightarrow> en_recv s \<noteq> RFeed)"

definition end_inv :: "(u64 \<times> bytes) list list \<Rightarrow> ending \<Rightarrow> bool" where
  "end_inv packets s \<longleftrightarrow>
     (\<exists>q. ring_content (en_ring s) q \<and> en_fed s @ q @ en_batch s @ concat (en_net s) = concat packets \<and> (en_pc s = PEnd \<longrightarrow> q = [])) \<and>
     en_received s + length (en_net s) = en_sent s \<and> (en_recv s \<noteq> RFeed \<longrightarrow> en_batch s = []) \<and>
     (en_stop s \<longrightarrow> en_net s = [] \<and> en_recv s \<noteq> RFeed) \<and> (en_pc s = PLast \<or> en_pc s = PEnd \<longrightarrow> en_stop s) \<and>
     (en_stop s \<longleftrightarrow> en_main s \<noteq> MWait)"

lemma drains:
  assumes "ring_content r q" shows "\<exists>r'. parse_available r = Some (r', q) \<and> ring_content r' []"
proof -
  have q: "ring_ok r (map msg_frame q)" "list_all (\<lambda>m. body_ok (snd m)) q" using assms by (simp_all add: ring_content_def)
  from loop_feeds [OF q, of "[]"] show ?thesis by (auto simp: parse_available_def ring_content_def)
qed

lemma parse_thread_inv:
  assumes "parse_thread_step s s'" "end_inv packets s" shows "end_inv packets s'"
  using assms
proof (cases rule: parse_thread_step.cases)
  case parse_next
  from assms(2) obtain q where q: "ring_content (en_ring s) q" "en_fed s @ q @ en_batch s @ concat (en_net s) = concat packets"
    by (auto simp: end_inv_def)
  obtain r' where r': "parse_available (en_ring s) = Some (r', q)" "ring_content r' []" using drains [OF q(1)] by blast
  show ?thesis using parse_next assms(2) q r'
    by (cases "en_pc s") (auto simp: parse_thread_next_def end_inv_def split: if_splits)
next
  case poll_timeout
  then show ?thesis using assms(2) by (auto simp: end_inv_def)
qed

lemma recv_thread_inv:
  assumes "recv_thread_step s s'" "end_inv packets s" shows "end_inv packets s'"
  using assms
proof (cases rule: recv_thread_step.cases)
  case (recv_push m ms r)
  from assms(2) obtain q where q: "ring_content (en_ring s) q" "en_fed s @ q @ en_batch s @ concat (en_net s) = concat packets"
    by (auto simp: end_inv_def)
  have "\<not> en_stop s" using assms(2) recv_push by (auto simp: end_inv_def)
  then have "en_pc s \<noteq> PEnd" using assms(2) by (auto simp: end_inv_def)
  moreover have "ring_content r (q @ [m])" using push_step_content(1) [OF q(1)] recv_push by blast
  ultimately show ?thesis using assms(2) recv_push q(2) by (auto simp: end_inv_def intro!: exI [of _ "q @ [m]"])
qed (auto simp: end_inv_def)

lemma calm_step_inv:
  assumes "calm_step s s'" "end_inv packets s" shows "end_inv packets s'"
proof -
  have calm: "en_stop s' \<and> \<not> en_stop s \<longrightarrow> en_recv s \<noteq> RFeed" and step: "run_step s s'" using assms(1) by (simp_all add: calm_step_def)
  from step show ?thesis
  proof (cases rule: run_step.cases)
    case run_main
    show ?thesis
    proof (cases "en_main s")
      case MWait
      then have s': "s' = s\<lparr>en_stop := True, en_main := MStopped\<rparr>" "\<not> en_received s < en_sent s"
        using run_main by (auto simp: main_next_def split: if_splits)
      have "en_received s + length (en_net s) = en_sent s" using assms(2) by (simp add: end_inv_def)
      then have "length (en_net s) = 0" using s'(2) by linarith
      then have "en_net s = []" by simp
      have "\<not> en_stop s" using assms(2) MWait by (simp add: end_inv_def)
      with calm have "en_recv s \<noteq> RFeed" by (simp add: s'(1))
      then show ?thesis using assms(2) s' \<open>en_net s = []\<close> by (auto simp: end_inv_def)
    qed (use run_main assms(2) in \<open>auto simp: main_next_def end_inv_def split: if_splits\<close>)
  qed (use parse_thread_inv recv_thread_inv assms(2) in blast)+
qed

lemma calm_run_inv: "calm_step\<^sup>*\<^sup>* s s' \<Longrightarrow> end_inv packets s \<Longrightarrow> end_inv packets s'"
  by (induction rule: rtranclp_induct) (auto intro: calm_step_inv)

lemma all_sent_inv: "is_pow2 cap \<Longrightarrow> end_inv packets (all_sent cap packets)"
  using new_ring_content [of cap] by (auto simp: end_inv_def all_sent_def)


section \<open>Stopping while the last packet is fed\<close>

lemma run_parse_next: "parse_thread_next s = Some s' \<Longrightarrow> run_step s s'"
  by (intro run_parse parse_next)

text \<open>C39. The wait for as many packets received as sent does not protect the last one, because the receive thread counts a
  packet before it feeds it: for every message there is a run in which \<open>stop\<close> is set in between, the parser thread drains
  the ring and ends, then the message is pushed, and all threads end with the message unread in the ring.\<close>

theorem last_packet_lost:
  assumes "is_pow2 cap" "420 \<le> cap" "body_ok (snd m)"
  shows "\<exists>s. run_step\<^sup>*\<^sup>* (all_sent cap [[m]]) s \<and> en_main s = MEnd \<and> en_recv s = REnd \<and> en_pc s = PEnd \<and> en_net s = [] \<and> en_batch s = [] \<and>
    en_fed s = [] \<and> ring_content (en_ring s) [m]"
proof -
  let ?s0 = "all_sent cap [[m]]"
  let ?s1 = "?s0\<lparr>en_recv := RRecv\<rparr>"
  let ?s2 = "?s1\<lparr>en_net := [], en_received := 1, en_batch := [m], en_recv := RFeed\<rparr>"
  let ?s3 = "?s2\<lparr>en_stop := True, en_main := MStopped\<rparr>"
  let ?s4 = "?s3\<lparr>en_pc := PLast\<rparr>"
  have c: "ring_content (new_ring cap) []" by (rule new_ring_content [OF assms(1)])
  obtain r where r: "parse_available (new_ring cap) = Some (r, [])" "ring_content r []" using drains [OF c] by blast
  have "0 < br_cap (new_ring cap)" "br_head (new_ring cap) \<le> br_tail (new_ring cap)"
    using c by (auto simp: ring_content_def ring_ok_def)
  from loop_returns [OF this, of "[]"] obtain n fed where "parse_available (new_ring cap) = Some (read_release (new_ring cap) n, fed)"
    by (auto simp: parse_available_def)
  then have cap: "br_cap r = cap" using r(1) by (auto simp: read_release_def new_ring_def)
  let ?s5 = "?s4\<lparr>en_ring := r, en_pc := PEnd\<rparr>"
  have "ring_admits r m" using assms(2,3) cap by (simp add: ring_admits_def)
  then obtain r' where p: "push_step r m r'" using ring_channel.send_enabled [OF r(2)] by blast
  have c': "ring_content r' [m]" using push_step_content(1) [OF r(2) p] by simp
  let ?s6 = "?s5\<lparr>en_batch := [], en_ring := r'\<rparr>"
  let ?s7 = "?s6\<lparr>en_fd := 1, en_recv := RLoop\<rparr>"
  let ?s8 = "?s7\<lparr>en_recv := REnd\<rparr>"
  let ?s9 = "?s8\<lparr>en_fd := 2, en_main := MJoined\<rparr>"
  let ?s10 = "?s9\<lparr>en_main := MEnd\<rparr>"
  have "run_step ?s0 ?s1" using recv_check [of ?s0] by (intro run_recv) (simp add: all_sent_def)
  moreover have "run_step ?s1 ?s2" using recv_packet [of ?s1 "[m]" "[]"] by (intro run_recv) (simp add: all_sent_def)
  moreover have "run_step ?s2 ?s3" by (rule run_main) (simp add: main_next_def all_sent_def)
  moreover have "run_step ?s3 ?s4" by (rule run_parse_next) (simp add: parse_thread_next_def all_sent_def)
  moreover have "run_step ?s4 ?s5" by (rule run_parse_next) (simp add: parse_thread_next_def all_sent_def r(1))
  moreover have "run_step ?s5 ?s6" using recv_push [of ?s5 m "[]" r'] p by (intro run_recv) (simp add: all_sent_def)
  moreover have "run_step ?s6 ?s7" using recv_notify [of ?s6] by (intro run_recv) (simp add: all_sent_def)
  moreover have "run_step ?s7 ?s8" using recv_check [of ?s7] by (intro run_recv) (simp add: all_sent_def)
  moreover have "run_step ?s8 ?s9" by (rule run_main) (simp add: main_next_def all_sent_def)
  moreover have "run_step ?s9 ?s10" by (rule run_main) (simp add: main_next_def all_sent_def)
  ultimately have "run_step\<^sup>*\<^sup>* ?s0 ?s10" by (meson converse_rtranclp_into_rtranclp rtranclp.rtrancl_refl)
  then show ?thesis using c' by (intro exI [of _ ?s10]) (simp add: all_sent_def)
qed

theorem last_packet_lost_witness:
  "\<exists>s. run_step\<^sup>*\<^sup>* (all_sent 512 [[(7, [0x44])]]) s \<and> en_main s = MEnd \<and> en_fed s = [] \<and> ring_content (en_ring s) [(7, [0x44])]"
proof -
  have p: "is_pow2 512" "420 \<le> (512 :: nat)" "body_ok (snd (7 :: u64, [0x44]))" using is_pow2_power [of 9] by (simp_all add: body_ok_def)
  from last_packet_lost [OF p] show ?thesis by blast
qed

text \<open>The drain throws away a wake-up: with a message in the ring and the descriptor written, the parser thread sleeps until
  the poll times out.\<close>

theorem drain_discards_wakeup:
  assumes "en_pc s = PDrain"
  shows "\<exists>s'. parse_thread_next s = Some s' \<and> en_ring s' = en_ring s \<and> parse_thread_next s' = None \<and> parse_thread_step s' (s'\<lparr>en_pc := PLoop\<rparr>)"
  using assms poll_timeout [of "s\<lparr>en_fd := 0, en_pc := PPoll\<rparr>"] by (simp add: parse_thread_next_def)


end
