(* ===== verification/Order_Link.thy ===== *)
theory Order_Link
  imports Uring_Sender Uring_Receiver
begin

text \<open>
  The life of the order connection (\<open>start\<close>, \<open>stop\<close> and \<open>set_blocking\<close> of \<^verbatim>\<open>core/net/io_uring_sender.cpp\<close>): one socket, one
  ring for sending, and a poller with one buffer for the reports. The receive half is a \<open>receiver\<close>, whose \<open>ur_open\<close>
  stands for the socket.
\<close>

record order_link =
  ol_uring :: bool
  ol_half :: receiver

definition new_link :: order_link where
  "new_link = \<lparr>ol_uring = False, ol_half = new_receiver\<rparr>"

text \<open>The results of \<open>socket\<close>, \<open>inet_pton\<close>, \<open>connect\<close>, the two calls for the send ring and the two of the poller.\<close>

definition us_start :: "order_link \<Rightarrow> bool \<Rightarrow> bool \<Rightarrow> bool \<Rightarrow> bool \<Rightarrow> bool \<Rightarrow> bool \<Rightarrow> bool \<Rightarrow> order_link \<times> bool" where
  "us_start l socket_ok addr_ok connect_ok queue_ok register_ok poll_queue_ok poll_register_ok =
     (let h = ol_half l; closed = (\<lambda>l. l\<lparr>ol_half := (ol_half l)\<lparr>ur_open := False\<rparr>\<rparr>) in
      if ur_running h then (l, True)
      else if \<not> socket_ok then (closed l, False)
      else if \<not> addr_ok then (closed l, False)
      else if \<not> connect_ok then (closed l, False)
      else if \<not> queue_ok then (closed l, False)
      else if \<not> register_ok then (closed l, False)
      else
        (case poller_init (ur_poller h) poll_queue_ok poll_register_ok of
           (p, False) \<Rightarrow> (closed (l\<lparr>ol_uring := False, ol_half := h\<lparr>ur_poller := p\<rparr>\<rparr>), False)
         | (p, True) \<Rightarrow>
             (case alloc_buffer p of
                (p1, None) \<Rightarrow> (closed (l\<lparr>ol_uring := False, ol_half := h\<lparr>ur_poller := p1, ur_buf := None\<rparr>\<rparr>), False)
              | (p1, Some b) \<Rightarrow>
                  (l\<lparr>ol_uring := True, ol_half := h\<lparr>ur_open := True, ur_poller := p1, ur_buf := Some b, ur_running := True\<rparr>\<rparr>, True))))"

definition us_stop :: "order_link \<Rightarrow> order_link" where
  "us_stop l =
     (let h = ol_half l in
      if \<not> ur_running h then l
      else
        (let h1 = h\<lparr>ur_running := False\<rparr>;
             h2 = (case ur_buf h1 of Some b \<Rightarrow> h1\<lparr>ur_poller := free_buffer (ur_poller h1) b, ur_buf := None\<rparr> | None \<Rightarrow> h1)
         in l\<lparr>ol_half := h2\<lparr>ur_open := False\<rparr>, ol_uring := False\<rparr>))"

definition us_set_blocking :: "order_link \<Rightarrow> bool \<Rightarrow> order_link" where
  "us_set_blocking l b = l\<lparr>ol_half := (ol_half l)\<lparr>ur_blocking := b\<rparr>\<rparr>"

section \<open>Properties\<close>

inductive link_step :: "order_link \<Rightarrow> order_link \<Rightarrow> bool" where
  link_start: "us_start l a b c d e f g = (l', ok) \<Longrightarrow> link_step l l'"
| link_stop: "link_step l (us_stop l)"
| link_blocking: "link_step l (us_set_blocking l x)"
| link_recv: "us_recv (ol_half l) room len ws = Some (h, res) \<Longrightarrow> ur_running h = ur_running (ol_half l) \<Longrightarrow>
    link_step l (l\<lparr>ol_half := h\<rparr>)"

definition link_ok :: "order_link \<Rightarrow> bool" where
  "link_ok l \<longleftrightarrow> (let h = ol_half l in ur_open h = ur_running h \<and> ol_uring l = ur_running h \<and> (ur_buf h \<noteq> None) = ur_running h)"

lemma recv_wait_keeps:
  "recv_wait r b len ws = Some (r', res) \<Longrightarrow> ur_open r' = ur_open r \<and> ur_buf r' = ur_buf r"
  by (induction r b len ws rule: recv_wait.induct) (fastforce simp: Let_def split: if_splits prod.splits)+

lemma ur_recv_keeps:
  assumes "ur_recv r room len ws = Some (r', res)" shows "ur_open r' = ur_open r \<and> ur_buf r' = ur_buf r"
  using assms
  by (auto simp: ur_recv_def Let_def dest!: recv_wait_keeps split: if_splits prod.splits list.splits wait.splits)

lemma link_ok_step: "link_step l l' \<Longrightarrow> link_ok l \<Longrightarrow> link_ok l'"
proof (induction rule: link_step.induct)
  case (link_start l a b c d e f g l' ok)
  then show ?case
    by (auto simp: us_start_def link_ok_def Let_def split: if_splits prod.splits bool.splits option.splits)
next
  case (link_recv l room len ws h res)
  then show ?case using ur_recv_keeps [of "ol_half l" room len ws h res] by (auto simp: link_ok_def Let_def us_recv_def)
qed (auto simp: link_ok_def us_stop_def us_set_blocking_def Let_def split: option.splits)



end
