(* ===== verification/Doubles.thy ===== *)
theory Doubles
  imports NX_Prelude "HOL-Library.Log_Nat"
begin

text \<open>
  Double precision as the bar strategies use it: a finite value is a rational number, every operation rounds its exact
  result to 53 bits, to the nearest and on a tie to the even one. The range of the exponent is left out: prices, averages
  and ratios of this program are far inside it.
\<close>

section \<open>Rounding\<close>

type_synonym double = rat

definition round_even :: "rat \<Rightarrow> int" where
  "round_even x =
     (let f = \<lfloor>x\<rfloor>; r = x - of_int f in
      if r < 1 / 2 then f else if 1 / 2 < r then f + 1 else if even f then f else f + 1)"

text \<open>The exponent of the leading bit of a positive number.\<close>

definition dexp :: "rat \<Rightarrow> int" where
  "dexp x = (case quotient_of x of (n, d) \<Rightarrow>
     (let e = int (floorlog 2 (nat n)) - int (floorlog 2 (nat d)) in if 2 powi e \<le> x then e else e - 1))"

definition dround_pos :: "rat \<Rightarrow> double" where
  "dround_pos x = (let u = 2 powi (dexp x - 52) in of_int (round_even (x / u)) * u)"

definition dround :: "rat \<Rightarrow> double" where
  "dround x = (if 0 < x then dround_pos x else if x < 0 then - dround_pos (- x) else 0)"

definition dadd :: "double \<Rightarrow> double \<Rightarrow> double" where "dadd a b = dround (a + b)"
definition dsub :: "double \<Rightarrow> double \<Rightarrow> double" where "dsub a b = dround (a - b)"
definition dmul :: "double \<Rightarrow> double \<Rightarrow> double" where "dmul a b = dround (a * b)"
definition ddiv :: "double \<Rightarrow> double \<Rightarrow> double" where "ddiv a b = dround (a / b)"

text \<open>The conversions from and to \<open>int64_t\<close>.\<close>

definition double_of :: "i64 \<Rightarrow> double" where "double_of w = dround (of_int (sint w))"
definition dtrunc :: "double \<Rightarrow> i64" where "dtrunc x = word_of_int (if 0 \<le> x then \<lfloor>x\<rfloor> else \<lceil>x\<rceil>)"

section \<open>Rounding is monotone and keeps what is representable\<close>

lemma round_even_bounds: "\<lfloor>x\<rfloor> \<le> round_even x" "round_even x \<le> \<lfloor>x\<rfloor> + 1"
  by (simp_all add: round_even_def Let_def)

lemma round_even_of_int [simp]: "round_even (of_int i) = i"
  by (simp add: round_even_def)

lemma round_even_mono:
  assumes "x \<le> y" shows "round_even x \<le> round_even y"
proof (cases "\<lfloor>x\<rfloor> = \<lfloor>y\<rfloor>")
  case True
  with assms show ?thesis by (auto simp: round_even_def Let_def)
next
  case False
  then have "\<lfloor>x\<rfloor> + 1 \<le> \<lfloor>y\<rfloor>" using floor_mono [OF assms] by simp
  then show ?thesis using round_even_bounds [of x] round_even_bounds [of y] by linarith
qed

lemma round_even_ge: "of_int i \<le> x \<Longrightarrow> i \<le> round_even x"
  using round_even_mono [of "of_int i" x] by simp

lemma round_even_le: "x \<le> of_int i \<Longrightarrow> round_even x \<le> i"
  using round_even_mono [of x "of_int i"] by simp

lemma dexp_bounds:
  assumes "0 < x" shows "2 powi dexp x \<le> x" "x < 2 powi (dexp x + 1)"
proof -
  obtain n d where q: "quotient_of x = (n, d)" by (cases "quotient_of x")
  have d: "0 < d" by (rule quotient_of_denom_pos [OF q])
  have x: "x = of_int n / of_int d" by (rule quotient_of_div [OF q])
  with d assms have n: "0 < n" by (simp add: zero_less_divide_iff)
  define a where "a = floorlog 2 (nat n)"
  define b where "b = floorlog 2 (nat d)"
  define e where "e = int a - int b"
  have na: "2 ^ (a - 1) \<le> nat n" "nat n < 2 ^ a" and db: "2 ^ (b - 1) \<le> nat d" "nat d < 2 ^ b"
    using floorlog_bounds [of "nat n" 2] floorlog_bounds [of "nat d" 2] n d by (simp_all add: a_def b_def)
  have ab: "0 < a" "0 < b" using n d floorlog_eq_zero_iff [of 2 "nat n"] floorlog_eq_zero_iff [of 2 "nat d"] by (auto simp: a_def b_def)
  have n': "(2 :: rat) ^ (a - 1) \<le> of_int n" "of_int n < (2 :: rat) ^ a"
    using na n by (metis of_nat_le_iff of_nat_numeral of_nat_power of_nat_nat less_imp_le, metis of_nat_less_iff of_nat_numeral of_nat_power of_nat_nat less_imp_le)
  have d': "(2 :: rat) ^ (b - 1) \<le> of_int d" "of_int d < (2 :: rat) ^ b"
    using db d by (metis of_nat_le_iff of_nat_numeral of_nat_power of_nat_nat less_imp_le, metis of_nat_less_iff of_nat_numeral of_nat_power of_nat_nat less_imp_le)
  have dp: "(0 :: rat) < of_int d" using d by simp
  have "x < 2 ^ a / 2 ^ (b - 1)" unfolding x by (rule frac_less [OF _ n'(2) _ d'(1)]) (use n in simp_all)
  also have "(2 :: rat) ^ a / 2 ^ (b - 1) = 2 powi (e + 1)"
    using ab unfolding e_def by (simp add: power_int_diff power_int_add power_diff)
  finally have up: "x < 2 powi (e + 1)" .
  have "2 ^ (a - 1) / 2 ^ b \<le> x" unfolding x by (rule frac_le [OF _ n'(1) dp less_imp_le [OF d'(2)]]) (use n in simp)
  moreover have "(2 :: rat) ^ (a - 1) / 2 ^ b = 2 powi (e - 1)"
    using ab unfolding e_def by (simp add: power_int_diff power_diff)
  ultimately have lo: "2 powi (e - 1) \<le> x" by simp
  have "dexp x = (if 2 powi e \<le> x then e else e - 1)" by (simp add: dexp_def q a_def b_def e_def Let_def)
  then show "2 powi dexp x \<le> x" "x < 2 powi (dexp x + 1)" using up lo by (auto split: if_splits)
qed

lemma powi_less_iff: "(2 :: rat) powi i < 2 powi j \<longleftrightarrow> i < j"
  using power_int_strict_increasing [of i j "2 :: rat"] power_int_increasing [of j i "2 :: rat"] by (cases "i < j") auto

lemma dexp_eqI:
  assumes "2 powi e \<le> x" "x < 2 powi (e + 1)" shows "dexp x = e"
proof -
  have "0 < x" using assms(1) zero_less_power_int [of "2 :: rat" e] by linarith
  note b = dexp_bounds [OF this]
  have "2 powi e < (2 :: rat) powi (dexp x + 1)" "2 powi dexp x < (2 :: rat) powi (e + 1)" using assms b by linarith+
  then show ?thesis by (simp add: powi_less_iff)
qed

lemma dround_pos_between:
  assumes "0 < x" shows "2 powi dexp x \<le> dround_pos x" "dround_pos x \<le> 2 powi (dexp x + 1)"
proof -
  let ?u = "(2 :: rat) powi (dexp x - 52)"
  have u: "0 < ?u" by simp
  have p: "2 powi dexp x = of_int (2 ^ 52) * ?u" "2 powi (dexp x + 1) = of_int (2 ^ 53) * ?u"
    by (simp_all add: power_int_diff power_int_add)
  have "of_int (2 ^ 52) \<le> x / ?u" using dexp_bounds(1) [OF assms] u unfolding p by (simp only: pos_le_divide_eq)
  then have lo: "2 ^ 52 \<le> round_even (x / ?u)" by (rule round_even_ge)
  have "x / ?u \<le> of_int (2 ^ 53)" using dexp_bounds(2) [OF assms] u unfolding p by (simp only: pos_divide_le_eq)
  then have "round_even (x / ?u) \<le> 2 ^ 53" by (rule round_even_le)
  with lo u show "2 powi dexp x \<le> dround_pos x" "dround_pos x \<le> 2 powi (dexp x + 1)"
    unfolding p dround_pos_def Let_def by (simp_all only: mult_le_cancel_right_pos of_int_le_iff)
qed

lemma dround_pos_mono:
  assumes "0 < x" "x \<le> y" shows "dround_pos x \<le> dround_pos y"
proof (cases "dexp x = dexp y")
  case True
  have "x / 2 powi (dexp y - 52) \<le> y / 2 powi (dexp y - 52)" using assms(2) by (intro divide_right_mono) simp_all
  then have "round_even (x / 2 powi (dexp y - 52)) \<le> round_even (y / 2 powi (dexp y - 52))" by (rule round_even_mono)
  then show ?thesis unfolding dround_pos_def Let_def True by (intro mult_right_mono) simp_all
next
  case False
  have y: "0 < y" using assms by linarith
  have "(2 :: rat) powi dexp x < 2 powi (dexp y + 1)" using dexp_bounds [OF assms(1)] dexp_bounds [OF y] assms(2) by linarith
  with False have "dexp x + 1 \<le> dexp y" by (simp add: powi_less_iff)
  then have "(2 :: rat) powi (dexp x + 1) \<le> 2 powi dexp y" by (intro power_int_increasing) simp_all
  then show ?thesis using dround_pos_between [OF assms(1)] dround_pos_between [OF y] by linarith
qed

lemma dround_pos_pos: "0 < x \<Longrightarrow> 0 < dround_pos x"
  using dround_pos_between(1) [of x] zero_less_power_int [of "2 :: rat" "dexp x"] by linarith

lemma dround_minus: "dround (- x) = - dround x"
  by (simp add: dround_def)

lemma dround_mono: "x \<le> y \<Longrightarrow> dround x \<le> dround y"
  using dround_pos_mono [of x y] dround_pos_mono [of "- y" "- x"] dround_pos_pos [of y] dround_pos_pos [of "- x"]
  by (auto simp: dround_def)

lemma dround_less: "dround x < dround y \<Longrightarrow> x < y"
  by (metis dround_mono not_le)

lemma dround_zero [simp]: "dround 0 = 0"
  by (simp add: dround_def)

lemma dround_nonneg: "0 \<le> x \<Longrightarrow> 0 \<le> dround x"
  using dround_mono [of 0 x] by simp

text \<open>A multiple of a power of two with at most 53 bits is not changed.\<close>

lemma dround_pos_dyadic:
  assumes "0 < m" "m < 2 ^ 53" shows "dround_pos (of_int m * 2 powi j) = of_int m * 2 powi j"
proof -
  let ?x = "of_int m * (2 :: rat) powi j"
  define a where "a = floorlog 2 (nat m)"
  have m: "2 ^ (a - 1) \<le> nat m" "nat m < 2 ^ a" using floorlog_bounds [of "nat m" 2] assms(1) by (simp_all add: a_def)
  have a: "0 < a" "a \<le> 53"
    using assms floorlog_eq_zero_iff [of 2 "nat m"] floorlog_leI [of "nat m" 2 53] by (auto simp: a_def nat_less_iff)
  have m': "(2 :: rat) ^ (a - 1) \<le> of_int m" "of_int m < (2 :: rat) ^ a"
    using m assms(1) by (metis of_nat_le_iff of_nat_numeral of_nat_power of_nat_nat less_imp_le, metis of_nat_less_iff of_nat_numeral of_nat_power of_nat_nat less_imp_le)
  have e: "dexp ?x = int a - 1 + j"
  proof (rule dexp_eqI)
    have "(2 :: rat) powi (int a - 1 + j) = 2 ^ (a - 1) * 2 powi j"
      using a by (simp add: power_int_add power_int_diff power_diff)
    then show "2 powi (int a - 1 + j) \<le> ?x" using m'(1) by (simp add: mult_right_mono)
    have "(2 :: rat) powi (int a - 1 + j + 1) = 2 ^ a * 2 powi j" by (simp add: power_int_add)
    then show "?x < 2 powi (int a - 1 + j + 1)" using m'(2) by (simp add: mult_strict_right_mono)
  qed
  have "r * 2 powi j / 2 powi c = r * 2 powi (j - c)" for r :: rat and c by (simp add: power_int_diff)
  then have "?x / 2 powi (dexp ?x - 52) = of_int m * 2 powi (j - (int a - 1 + j - 52))" unfolding e .
  also have "\<dots> = of_int m * 2 powi int (53 - a)" using a by (simp add: of_nat_diff)
  also have "\<dots> = of_int (m * 2 ^ (53 - a))" by simp
  finally have q: "?x / 2 powi (dexp ?x - 52) = of_int (m * 2 ^ (53 - a))" .
  have "dround_pos ?x = ?x / 2 powi (dexp ?x - 52) * 2 powi (dexp ?x - 52)"
    by (simp only: dround_pos_def Let_def q round_even_of_int)
  then show ?thesis by simp
qed

lemma dround_dyadic:
  assumes "\<bar>m\<bar> < 2 ^ 53" shows "dround (of_int m * 2 powi j) = of_int m * 2 powi j"
proof -
  have nn: "\<not> (2 :: rat) powi j < 0" by (simp add: not_less)
  show ?thesis using assms dround_pos_dyadic [of m j] dround_pos_dyadic [of "- m" j]
    by (cases m "0 :: int" rule: linorder_cases) (auto simp: dround_def zero_less_mult_iff mult_less_0_iff nn)
qed

lemma dround_of_int: "\<bar>i\<bar> < 2 ^ 53 \<Longrightarrow> dround (of_int i) = of_int i"
  using dround_dyadic [of i 0] by simp

lemma double_of_exact: "\<bar>sint w\<bar> < 2 ^ 53 \<Longrightarrow> double_of w = of_int (sint w)"
  unfolding double_of_def by (rule dround_of_int)

text \<open>Numbers that are far enough apart stay apart.\<close>

lemma dround_separates:
  assumes "x + 2 / 2 ^ k \<le> y" "\<bar>x\<bar> * 2 ^ k \<le> 2 ^ 52"
  shows "dround x < dround y"
proof -
  let ?m = "\<lceil>x * 2 ^ k\<rceil>" and ?u = "(2 :: rat) powi (- int k)"
  have u: "?u = 1 / 2 ^ k" by (simp add: power_int_minus divide_inverse)
  have "\<bar>x * 2 ^ k\<bar> \<le> 2 ^ 52" using assms(2) by (simp add: abs_mult)
  then have t: "- of_int (2 ^ 52) \<le> x * 2 ^ k" "x * 2 ^ k \<le> of_int (2 ^ 52)" by (simp_all add: abs_le_iff)
  have "- (2 ^ 52) \<le> ?m" using t(1) le_of_int_ceiling [of "x * 2 ^ k"] by (metis of_int_le_iff of_int_minus order_trans)
  moreover have "?m \<le> 2 ^ 52" using t(2) by (simp only: ceiling_le_iff)
  ultimately have m: "\<bar>?m\<bar> \<le> 2 ^ 52" by (intro abs_leI) linarith+
  have "\<bar>?m\<bar> < 2 ^ 53" using m by simp
  moreover have "\<bar>?m + 1\<bar> < 2 ^ 53" using m abs_triangle_ineq [of ?m 1] by simp
  ultimately have z: "dround (of_int ?m * ?u) = of_int ?m * ?u" "dround (of_int (?m + 1) * ?u) = of_int (?m + 1) * ?u"
    by (blast intro: dround_dyadic)+
  have "x \<le> of_int ?m * ?u" unfolding u using le_of_int_ceiling [of "x * 2 ^ k"] by (simp add: pos_le_divide_eq)
  then have lo: "dround x \<le> of_int ?m * ?u" using dround_mono z(1) by metis
  have "of_int ?m < x * 2 ^ k + 1" by linarith
  then have "of_int (?m + 1) \<le> x * 2 ^ k + 2" by simp
  then have "of_int (?m + 1) * (1 / 2 ^ k) \<le> (x * 2 ^ k + 2) * (1 / 2 ^ k)" by (rule mult_right_mono) simp
  then have "of_int (?m + 1) * ?u \<le> x + 2 / 2 ^ k" unfolding u by (simp add: add_divide_distrib)
  then have "of_int (?m + 1) * ?u \<le> y" using assms(1) by linarith
  then have hi: "of_int (?m + 1) * ?u \<le> dround y" using dround_mono z(2) by metis
  have "of_int ?m * ?u < of_int (?m + 1) * ?u" by (intro mult_strict_right_mono) simp_all
  with lo hi show ?thesis by linarith
qed

end
