(* ===== verification/Bar_Strategies.thy ===== *)
theory Bar_Strategies
  imports KLine Doubles
begin

text \<open>
  The two strategies over bars, \<^verbatim>\<open>strategy/trend/trend_strategy.h\<close> (crossing of two moving averages) and
  \<^verbatim>\<open>strategy/momentum/momentum_strategy.h\<close> (return over a number of bars), in double precision. Their periods are
  positive.
\<close>

section \<open>Trend\<close>

record trend =
  tr_short :: nat
  tr_long :: nat
  tr_closes :: "i64 list"
  tr_current :: order_side
  tr_symbol :: u64
  tr_last_close :: i64
  tr_last_ts :: u64
  tr_strength :: i64

definition new_trend :: "nat \<Rightarrow> nat \<Rightarrow> trend" where
  "new_trend short long = \<lparr>tr_short = short, tr_long = long, tr_closes = [], tr_current = NONE, tr_symbol = 0, tr_last_close = 0,
     tr_last_ts = 0, tr_strength = 0\<rparr>"

text \<open>A period above the size makes the unsigned start of the loop larger than its end.\<close>

definition moving_average :: "i64 list \<Rightarrow> nat \<Rightarrow> double" where
  "moving_average closes period =
     ddiv (foldl (\<lambda>sum c. dadd sum (double_of c)) 0 (if period \<le> length closes then drop (length closes - period) closes else []))
       (dround (of_nat period))"

definition trend_on_bar :: "trend \<Rightarrow> kline \<Rightarrow> trend" where
  "trend_on_bar t bar =
     (let t = t\<lparr>tr_symbol := kl_symbol bar, tr_last_ts := kl_timestamp bar, tr_last_close := kl_close bar,
                tr_closes := push_window (tr_long t) (tr_closes t) (kl_close bar)\<rparr>
      in if length (tr_closes t) < tr_long t then t\<lparr>tr_current := NONE\<rparr>
         else
           (let short_ma = moving_average (tr_closes t) (tr_short t);
                long_ma = moving_average (tr_closes t) (tr_long t);
                t = t\<lparr>tr_current := (if long_ma < short_ma then BUY else if short_ma < long_ma then SELL else NONE)\<rparr>
            in if tr_current t \<noteq> NONE then
                 (let ratio = ddiv \<bar>dsub short_ma long_ma\<bar> (max 1 long_ma);
                      s = dmul (dmul ratio 100) (double_of kStrengthScale)
                  in t\<lparr>tr_strength := dtrunc (if double_of kStrengthScale < s then double_of kStrengthScale else s)\<rparr>)
               else t\<lparr>tr_strength := 0\<rparr>))"

definition trend_signal :: "trend \<Rightarrow> signal" where
  "trend_signal t = \<lparr>sig_side = tr_current t, sig_locate = tr_symbol t, sig_price = tr_last_close t, sig_timestamp = tr_last_ts t,
     sig_strength = tr_strength t\<rparr>"

section \<open>Momentum\<close>

record momentum =
  mm_lookback :: nat
  mm_threshold :: double
  mm_closes :: "i64 list"
  mm_current :: order_side
  mm_symbol :: u64
  mm_last_close :: i64
  mm_last_ts :: u64
  mm_strength :: i64

definition new_momentum :: "nat \<Rightarrow> double \<Rightarrow> momentum" where
  "new_momentum lookback th = \<lparr>mm_lookback = lookback, mm_threshold = th, mm_closes = [], mm_current = NONE, mm_symbol = 0,
     mm_last_close = 0, mm_last_ts = 0, mm_strength = 0\<rparr>"

definition momentum_on_bar :: "momentum \<Rightarrow> kline \<Rightarrow> momentum" where
  "momentum_on_bar m bar =
     (let m = m\<lparr>mm_symbol := kl_symbol bar, mm_last_ts := kl_timestamp bar, mm_last_close := kl_close bar,
                mm_closes := push_window (mm_lookback m + 1) (mm_closes m) (kl_close bar)\<rparr>
      in if length (mm_closes m) < mm_lookback m + 1 then m\<lparr>mm_current := NONE\<rparr>
         else
           (let prev = hd (mm_closes m); cur = last (mm_closes m) in
            if prev <=s 0 then m\<lparr>mm_current := NONE\<rparr>
            else
              (let ret = ddiv (dsub (double_of cur) (double_of prev)) (double_of prev);
                   m = m\<lparr>mm_current := (if mm_threshold m < ret then BUY else if ret < - mm_threshold m then SELL else NONE)\<rparr>
               in if mm_current m \<noteq> NONE then
                    (if mm_threshold m \<le> 0 then m\<lparr>mm_strength := kStrengthScale\<rparr>
                     else
                       (let s = dmul (ddiv \<bar>ret\<bar> (mm_threshold m)) (double_of kStrengthScale)
                        in m\<lparr>mm_strength := dtrunc (if double_of kStrengthScale < s then double_of kStrengthScale else s)\<rparr>))
                  else m\<lparr>mm_strength := 0\<rparr>)))"

definition momentum_signal :: "momentum \<Rightarrow> signal" where
  "momentum_signal m = \<lparr>sig_side = mm_current m, sig_locate = mm_symbol m, sig_price = mm_last_close m, sig_timestamp = mm_last_ts m,
     sig_strength = mm_strength m\<rparr>"

section \<open>The averages are exact enough\<close>

definition closes_sum :: "i64 list \<Rightarrow> int" where
  "closes_sum cs = sum_list (map sint cs)"

lemma closes_sum_bound:
  assumes "\<forall>c \<in> set cs. \<bar>sint c\<bar> \<le> b" shows "\<bar>closes_sum cs\<bar> \<le> b * int (length cs)"
  using assms by (induction cs) (auto simp: closes_sum_def algebra_simps)

lemma dadd_exact: "\<bar>i + j\<bar> < 2 ^ 53 \<Longrightarrow> dadd (of_int i) (of_int j) = of_int (i + j)"
  unfolding dadd_def of_int_add [symmetric] by (rule dround_of_int)

lemma closes_sum_exact:
  assumes "\<forall>c \<in> set cs. \<bar>sint c\<bar> \<le> b" "\<bar>i\<bar> + b * int (length cs) < 2 ^ 53" "0 \<le> b"
  shows "foldl (\<lambda>sum c. dadd sum (double_of c)) (of_int i) cs = of_int (i + closes_sum cs)"
  using assms(1,2)
proof (induction cs arbitrary: i)
  case Nil
  then show ?case by (simp add: closes_sum_def)
next
  case (Cons c cs)
  have c: "\<bar>sint c\<bar> \<le> b" using Cons.prems(1) by simp
  have e: "b * int (length (c # cs)) = b + b * int (length cs)" by (simp add: algebra_simps)
  have n: "0 \<le> b * int (length cs)" using assms(3) by simp
  have d: "double_of c = of_int (sint c)" by (rule double_of_exact) (use c Cons.prems(2) e n in linarith)
  have "\<bar>i + sint c\<bar> < 2 ^ 53" using c Cons.prems(2) e n by linarith
  then have s: "dadd (of_int i) (double_of c) = of_int (i + sint c)" unfolding d by (rule dadd_exact)
  have "\<bar>i + sint c\<bar> + b * int (length cs) < 2 ^ 53" using c Cons.prems(2) e by linarith
  then show ?case using Cons.IH [of "i + sint c"] Cons.prems(1) s by (simp add: closes_sum_def add.assoc)
qed

lemma average_exact:
  assumes "\<forall>c \<in> set cs. \<bar>sint c\<bar> \<le> 2 ^ 38" "period \<le> length cs" "period \<le> 4096"
  shows "moving_average cs period = dround (of_int (closes_sum (drop (length cs - period) cs)) / of_nat period)"
proof -
  have b: "\<forall>c \<in> set (drop (length cs - period) cs). \<bar>sint c\<bar> \<le> 2 ^ 38" using assms(1) by (auto dest: in_set_dropD)
  have "(2 :: int) ^ 38 * int (length (drop (length cs - period) cs)) < 2 ^ 53" using assms(2,3) by simp
  then have "foldl (\<lambda>sum c. dadd sum (double_of c)) 0 (drop (length cs - period) cs) = of_int (closes_sum (drop (length cs - period) cs))"
    using closes_sum_exact [OF b, of 0] by simp
  moreover have "dround (of_nat period) = of_nat period" using dround_of_int [of "int period"] assms(3) by simp
  ultimately show ?thesis using assms(2) by (simp add: moving_average_def ddiv_def)
qed

text \<open>Two averages that differ are told apart.\<close>

lemma averages_separate:
  assumes "0 < m" "0 < n" "m * n \<le> 4096" "\<bar>s\<bar> \<le> 2 ^ 38 * int m"
    and less: "of_int s / of_nat m < (of_int t / of_nat n :: rat)"
  shows "dround (of_int s / of_nat m) < dround (of_int t / of_nat n)"
proof (rule dround_separates [where k = 13])
  have mn: "(0 :: rat) < of_nat m" "(0 :: rat) < of_nat n" using assms(1,2) by simp_all
  have "of_int (s * int n) < (of_int (t * int m) :: rat)" using less mn by (simp add: frac_less_eq divide_less_eq less_divide_eq field_simps)
  then have "s * int n < t * int m" by (simp only: of_int_less_iff)
  then have "s * int n + 1 \<le> t * int m" by simp
  then have "(of_int (s * int n + 1) :: rat) \<le> of_int (t * int m)" by (simp only: of_int_le_iff)
  then have "(of_int s * of_nat n + 1) / (of_nat m * of_nat n) \<le> (of_int t * of_nat m / (of_nat m * of_nat n) :: rat)"
    using mn by (intro divide_right_mono) simp_all
  then have d: "of_int s / of_nat m + 1 / (of_nat m * of_nat n) \<le> (of_int t / of_nat n :: rat)"
    using mn by (simp add: add_divide_distrib)
  have "of_nat (m * n) \<le> (of_nat 4096 :: rat)" using assms(3) by (simp only: of_nat_le_iff)
  then have "1 / 4096 \<le> 1 / (of_nat m * of_nat n :: rat)" using mn by (intro divide_left_mono) simp_all
  with d show "of_int s / of_nat m + 2 / 2 ^ 13 \<le> (of_int t / of_nat n :: rat)" by simp
  have "of_int \<bar>s\<bar> \<le> (of_int (2 ^ 38 * int m) :: rat)" using assms(4) by (simp only: of_int_le_iff)
  then have "\<bar>of_int s / of_nat m :: rat\<bar> \<le> 2 ^ 38" using mn by (simp add: abs_divide pos_divide_le_eq)
  then have "\<bar>of_int s / of_nat m :: rat\<bar> * 2 ^ 13 \<le> 2 ^ 38 * 2 ^ 13" by (intro mult_right_mono) simp_all
  then show "\<bar>of_int s / of_nat m :: rat\<bar> * 2 ^ 13 \<le> 2 ^ 52" by simp
qed

lemma averages_compare:
  assumes "0 < m" "0 < n" "m * n \<le> 4096" "\<bar>s\<bar> \<le> 2 ^ 38 * int m"
  shows "dround (of_int s / of_nat m) < dround (of_int t / of_nat n) \<longleftrightarrow> s * int n < t * int m"
proof -
  have "of_int s / of_nat m < (of_int t / of_nat n :: rat) \<longleftrightarrow> of_int (s * int n) < (of_int (t * int m) :: rat)"
    using assms(1,2) by (simp add: divide_less_eq less_divide_eq field_simps)
  also have "\<dots> \<longleftrightarrow> s * int n < t * int m" by (rule of_int_less_iff)
  finally show ?thesis using averages_separate [OF assms] dround_less by blast
qed

section \<open>Strengths\<close>

lemma scale_exact: "double_of kStrengthScale = 10000"
  using double_of_exact [of kStrengthScale] by simp

lemma capped_strength:
  assumes "0 \<le> s"
  shows "0 \<le> sint (dtrunc (if 10000 < s then 10000 else s))" "sint (dtrunc (if 10000 < s then 10000 else s)) \<le> 10000"
    "10000 \<le> s \<Longrightarrow> dtrunc (if 10000 < s then 10000 else s) = kStrengthScale"
proof -
  let ?v = "if 10000 < s then 10000 else s"
  have f: "0 \<le> \<lfloor>?v\<rfloor>" "\<lfloor>?v\<rfloor> \<le> 10000" "0 \<le> ?v" using assms by (auto simp: floor_le_iff)
  then have "sint (word_of_int \<lfloor>?v\<rfloor> :: i64) = \<lfloor>?v\<rfloor>" by (intro sint64_of_int) simp_all
  then show "0 \<le> sint (dtrunc ?v)" "sint (dtrunc ?v) \<le> 10000" using f by (simp_all add: dtrunc_def)
  show "dtrunc ?v = kStrengthScale" if "10000 \<le> s"
  proof -
    have "?v = 10000" using that by simp
    then show ?thesis by (simp only: dtrunc_def) simp
  qed
qed

section \<open>Properties\<close>

lemma length_push_window: "length xs \<le> n \<Longrightarrow> 0 < n \<Longrightarrow> length (push_window n xs x) \<le> n"
  by (auto simp: push_window_def Let_def)

text \<open>C31. The trend strategy compares exact averages in spite of its rounding: with positive periods whose product is at most
  4096 and closes below \<open>2 ^ 38\<close> hundredths, it has no direction until the window is full; then it buys exactly if the
  mean of the last closes of the short period is above the mean of the window, and sells exactly if it is below. The
  strength of a direction is between 0 and full.\<close>

theorem trend_follows_averages:
  assumes periods: "0 < tr_short t" "tr_short t \<le> tr_long t" "tr_short t * tr_long t \<le> 4096" "length (tr_closes t) \<le> tr_long t"
    and t': "t' = trend_on_bar t bar" "\<forall>c \<in> set (tr_closes t'). \<bar>sint c\<bar> \<le> 2 ^ 38"
    and sums: "S = closes_sum (drop (tr_long t - tr_short t) (tr_closes t'))" "L = closes_sum (tr_closes t')"
  shows "tr_current t' =
      (if length (tr_closes t') < tr_long t then NONE
       else if L * int (tr_short t) < S * int (tr_long t) then BUY
       else if S * int (tr_long t) < L * int (tr_short t) then SELL else NONE) \<and>
    (tr_closes t' = push_window (tr_long t) (tr_closes t) (kl_close bar)) \<and>
    (\<not> length (tr_closes t') < tr_long t \<longrightarrow> 0 \<le> sint (tr_strength t') \<and> sint (tr_strength t') \<le> 10000)"
proof -
  let ?cs = "push_window (tr_long t) (tr_closes t) (kl_close bar)"
  have cs: "tr_closes t' = ?cs" by (simp add: t'(1) trend_on_bar_def Let_def)
  have l: "0 < tr_long t" using periods(1,2) by simp
  show ?thesis
  proof (cases "length ?cs < tr_long t")
    case True
    then show ?thesis using cs by (simp add: t'(1) trend_on_bar_def Let_def)
  next
    case False
    then have len: "length ?cs = tr_long t" using length_push_window [OF periods(4) l, of "kl_close bar"] by simp
    have b: "\<forall>c \<in> set ?cs. \<bar>sint c\<bar> \<le> 2 ^ 38" using t'(2) cs by simp
    have p: "tr_short t \<le> 4096" "tr_long t \<le> 4096"
      using periods(1,3) l by (auto intro: order_trans [OF _ periods(3)])
    let ?sm = "moving_average ?cs (tr_short t)" and ?lm = "moving_average ?cs (tr_long t)"
    have sm: "?sm = dround (of_int S / of_nat (tr_short t))" and lm: "?lm = dround (of_int L / of_nat (tr_long t))"
      using average_exact [OF b] periods(2) p len cs sums by simp_all
    have bL: "\<bar>L\<bar> \<le> 2 ^ 38 * int (tr_long t)" using closes_sum_bound [OF b] by (simp add: sums(2) cs len)
    have bS: "\<bar>S\<bar> \<le> 2 ^ 38 * int (tr_short t)"
      using closes_sum_bound [of "drop (tr_long t - tr_short t) ?cs" "2 ^ 38"] b periods(2)
      by (auto simp: sums(1) cs len dest: in_set_dropD)
    have up: "?lm < ?sm \<longleftrightarrow> L * int (tr_short t) < S * int (tr_long t)"
      unfolding sm lm by (rule averages_compare [OF l periods(1) _ bL]) (use periods(3) in \<open>simp add: mult.commute\<close>)
    have down: "?sm < ?lm \<longleftrightarrow> S * int (tr_long t) < L * int (tr_short t)"
      unfolding sm lm by (rule averages_compare [OF periods(1) l periods(3) bS])
    have cur: "tr_current t' = (if ?lm < ?sm then BUY else if ?sm < ?lm then SELL else NONE)"
      using False by (simp add: t'(1) trend_on_bar_def Let_def)
    define s where "s = dmul (dmul (ddiv \<bar>dsub ?sm ?lm\<bar> (max 1 ?lm)) 100) 10000"
    have "0 \<le> ddiv \<bar>dsub ?sm ?lm\<bar> (max 1 ?lm)" by (simp add: ddiv_def dround_nonneg)
    then have "0 \<le> s" unfolding s_def dmul_def by (intro dround_nonneg mult_nonneg_nonneg) simp_all
    moreover have "tr_strength t' = (if tr_current t' \<noteq> NONE then dtrunc (if 10000 < s then 10000 else s) else 0)"
      using False unfolding cur s_def by (simp add: t'(1) trend_on_bar_def Let_def scale_exact)
    ultimately have "0 \<le> sint (tr_strength t') \<and> sint (tr_strength t') \<le> 10000"
      using capped_strength(1,2) [of s] by (simp split del: if_split) (simp split: if_split)
    then show ?thesis using cur len unfolding up down cs by simp
  qed
qed

text \<open>The momentum strategy compares the exact return with its threshold: for closes below \<open>2 ^ 52\<close>, a positive threshold
  that is a double, and a positive close at the start of the window, a direction means that the exact return is beyond
  the threshold on that side. Its strength is full whenever there is a direction: the return relative to the threshold is
  then above 1.\<close>

theorem momentum_is_all_or_nothing:
  assumes th: "0 < mm_threshold m" "dround (mm_threshold m) = mm_threshold m"
    and m': "m' = momentum_on_bar m bar" "\<not> length (mm_closes m') < mm_lookback m + 1"
    and c: "p = sint (hd (mm_closes m'))" "q = sint (last (mm_closes m'))" "0 < p" "p < 2 ^ 52" "\<bar>q\<bar> < 2 ^ 52"
  shows "(mm_current m' = BUY \<longrightarrow> mm_threshold m < (of_int q - of_int p) / of_int p) \<and>
    (mm_current m' = SELL \<longrightarrow> (of_int q - of_int p) / of_int p < - mm_threshold m) \<and>
    mm_strength m' = (if mm_current m' = NONE then 0 else kStrengthScale)"
proof -
  let ?cs = "push_window (Suc (mm_lookback m)) (mm_closes m) (kl_close bar)" and ?th = "mm_threshold m"
  have cs: "mm_closes m' = ?cs" by (simp add: m'(1) momentum_on_bar_def Let_def)
  define ret where "ret = dround ((of_int q - of_int p) / of_int p)"
  have "double_of (hd ?cs) = of_int p" "double_of (last ?cs) = of_int q"
    using double_of_exact [of "hd ?cs"] double_of_exact [of "last ?cs"] c by (simp_all only: cs) simp_all
  moreover have "dround (of_int (q - p)) = of_int (q - p)" by (rule dround_of_int) (use c(3-5) in simp)
  ultimately have r: "ddiv (dsub (double_of (last ?cs)) (double_of (hd ?cs))) (double_of (hd ?cs)) = ret"
    by (simp add: ddiv_def dsub_def ret_def)
  have pos: "\<not> hd ?cs <=s 0" using c(1,3) by (simp add: cs word_sle_eq)
  define s where "s = dmul (ddiv \<bar>ret\<bar> ?th) 10000"
  have cur: "mm_current m' = (if ?th < ret then BUY else if ret < - ?th then SELL else NONE)"
    using m'(2) pos th(1) unfolding cs by (simp add: m'(1) momentum_on_bar_def Let_def r)
  have str: "mm_strength m' = (if mm_current m' \<noteq> NONE then dtrunc (if 10000 < s then 10000 else s) else 0)"
    using m'(2) pos th(1) unfolding cs cur by (simp add: m'(1) momentum_on_bar_def Let_def r s_def scale_exact)
  have buy: "?th < (of_int q - of_int p) / of_int p" if "?th < ret"
    by (rule dround_less) (use that th(2) in \<open>simp add: ret_def\<close>)
  have sell: "(of_int q - of_int p) / of_int p < - ?th" if "ret < - ?th"
    by (rule dround_less) (use that th(2) in \<open>simp add: ret_def dround_minus\<close>)
  have "mm_strength m' = kStrengthScale" if "mm_current m' \<noteq> NONE"
  proof -
    have "?th \<le> \<bar>ret\<bar>" using that unfolding cur by (auto split: if_splits)
    then have "dround 1 \<le> ddiv \<bar>ret\<bar> ?th" unfolding ddiv_def using th(1) by (intro dround_mono) simp
    then have "1 \<le> ddiv \<bar>ret\<bar> ?th" using dround_of_int [of 1] by simp
    then have "dround 10000 \<le> s" unfolding s_def dmul_def by (intro dround_mono) simp
    then have "10000 \<le> s" using dround_of_int [of 10000] by simp
    then show ?thesis using that str capped_strength(3) [of s] by simp
  qed
  then show ?thesis using buy sell str unfolding cur by (auto split: if_splits)
qed

section \<open>Examples\<close>

definition bar_closing :: "i64 \<Rightarrow> kline" where
  "bar_closing c = empty_kline\<lparr>kl_close := c\<rparr>"

theorem trend_follows_averages_witness:
  "tr_current (trend_on_bar ((new_trend 1 2)\<lparr>tr_closes := [100, 200]\<rparr>) (bar_closing 400)) = BUY"
  using trend_follows_averages [of "(new_trend 1 2)\<lparr>tr_closes := [100, 200]\<rparr>", OF _ _ _ _ refl _ refl refl, of "bar_closing 400"]
  by (simp add: new_trend_def trend_on_bar_def push_window_def bar_closing_def closes_sum_def Let_def)

theorem momentum_is_all_or_nothing_witness:
  "mm_strength (momentum_on_bar ((new_momentum 1 (1 / 2))\<lparr>mm_closes := [50, 100]\<rparr>) (bar_closing 400)) \<in> {0, kStrengthScale}"
proof -
  let ?m = "(new_momentum 1 (1 / 2))\<lparr>mm_closes := [50, 100]\<rparr>"
  have cs: "mm_closes (momentum_on_bar ?m (bar_closing 400)) = [100, 400]"
    by (simp add: momentum_on_bar_def new_momentum_def push_window_def bar_closing_def Let_def)
  have th: "dround (1 / 2) = 1 / 2" using dround_dyadic [of 1 "- 1"] by (simp add: power_int_minus)
  show ?thesis using momentum_is_all_or_nothing [of ?m "momentum_on_bar ?m (bar_closing 400)" "bar_closing 400" 100 400] cs th
    by (auto simp: new_momentum_def)
qed

end
