(* ===== verification/Spec2Isabelle.thy ===== *)
theory Spec2Isabelle
  imports Order_Manager Risk_Manager Report_Stream Execution_Engine Price_Levels Treiber_Stack Book_Limits Book_Orders Book_Consumer
    Market_Replay Dispatcher KLine Uring_Sender Uring_Receiver Queue_Manager Frame_Receivers Flow_Control Trader_Main
    Receive_Thread End_Of_Run Order_Link Bar_Strategies
begin

text \<open>
  A verification library for NebulaX-Trader, a low-latency trading system in C++.

  \<^bold>\<open>The program.\<close> A receive thread takes MoldUDP64 packets from a network back end, unpacks them and
  pushes every ITCH message with its sequence number into a byte ring. The parser thread reads the
  ring, turns each message into a market event and hands it to the dispatcher, which gives every
  symbol (\<open>locate\<close>) to one worker: the event goes into the worker's event ring, or, while that ring is
  full, into a retry bucket that a retry thread empties into the ring. A worker updates its order
  books over a pool of order slots and an index shared by all workers, feeds its strategies, lets
  them vote, and submits an order to the execution engine. The engine checks it with the risk
  manager, records it in the order manager and sends it through a codec and a sender over TCP. The
  fill thread cuts the replies into messages and reports them to the engine. A benchmark program
  replays an ITCH file as packets and plays the exchange.

  \<^bold>\<open>The theories\<close>, from the bottom up. Names of files are under \<^verbatim>\<open>src/\<close>.

    \<^item> \<open>NX_Prelude\<close> (words, lists, folds), \<open>NX_Types\<close> (\<^verbatim>\<open>core/types.h\<close>, \<^verbatim>\<open>core/market_event.h\<close>, \<^verbatim>\<open>oms/i_order_codec.h\<close>,
      \<^verbatim>\<open>strategy/base/signal.h\<close>) and \<open>NX_Bytes\<close> (big-endian fields, decimal strings, copies).
    \<^item> Trading: \<open>Order_Manager\<close> (\<^verbatim>\<open>oms/order_manager.h\<close>: life cycle, open-order indices, exact fill
      arithmetic), \<open>Risk_Manager\<close> (\<^verbatim>\<open>risk/risk_manager.h\<close>: limits, mark to market, drawdown),
      \<open>Codec_Interface\<close>, \<open>Custom_Codec\<close>, \<open>Ouch_Codec\<close> (\<^verbatim>\<open>oms/*_codec.h\<close>: round trips, checksum, tables of
      references), \<open>Report_Stream\<close> (the fill thread of \<^verbatim>\<open>main.cpp\<close> and the exchange of
      \<^verbatim>\<open>benchmark/main.cpp\<close> over byte streams), \<open>Execution_Engine\<close> (\<^verbatim>\<open>execution/execution_engine.h\<close>: what is
      sent was checked, every order follows the life cycle).
    \<^item> Books: \<open>Treiber_Stack\<close> and \<open>Order_Pool\<close> (\<^verbatim>\<open>core/memory/order_pool.h\<close>: the lock-free free list with
      its tag, interleaved threads), \<open>Order_Map\<close> (\<^verbatim>\<open>core/memory/order_map.h\<close>: the hash index is a map),
      \<open>Price_Levels\<close>, \<open>Order_Book\<close>, \<open>Book_Limits\<close>, \<open>Book_Consumer\<close>, \<open>Book_Orders\<close> (\<^verbatim>\<open>market/book/\<close>: the price table
      refines a map, the books of a feed are those of its orders, and where they are not).
    \<^item> Market data: \<open>Byte_Ring\<close>, \<open>Channel\<close>, \<open>Ring_Parser\<close>, \<open>Mold_Unpacker\<close>, \<open>Itch_Parser\<close>, \<open>Market_Pipeline\<close>
      (\<^verbatim>\<open>core/queue/spsc_byte_ring.h\<close>, \<^verbatim>\<open>market/pipeline/\<close>, \<^verbatim>\<open>market/parser/\<close>, \<^verbatim>\<open>core/net/frame_util.h\<close>: from
      packets to events in order, through a ring two threads share), \<open>Event_Ring\<close>, \<open>Dispatcher\<close>
      (\<^verbatim>\<open>core/queue/spsc_event_ring.h\<close>, \<^verbatim>\<open>core/dispatch/dispatcher.h\<close>: routing, order under the retry
      bucket).
    \<^item> Decisions: \<open>Arbitration\<close> (\<^verbatim>\<open>strategy/base/arbitrate.h\<close>, \<^verbatim>\<open>strategy/combo/\<close>), \<open>Strategies\<close>
      (\<^verbatim>\<open>strategy/tick/\<close>), \<open>KLine\<close> (\<^verbatim>\<open>strategy/kline/\<close>), \<open>Doubles\<close> and \<open>Bar_Strategies\<close> (\<^verbatim>\<open>strategy/trend/\<close>,
      \<^verbatim>\<open>strategy/momentum/\<close>: double precision, rounded as the processor does), \<open>Book_Worker\<close> (\<open>BookWorker\<close> of
      \<^verbatim>\<open>main.cpp\<close>).
    \<^item> Network: \<open>Uring_Receiver\<close> (\<^verbatim>\<open>core/net/io_uring_poller.h\<close>, \<^verbatim>\<open>io_uring_receiver.cpp\<close>: every buffer has one owner,
      datagrams come out in order), \<open>Receive_Thread\<close> (the receive thread of \<^verbatim>\<open>main.cpp\<close>: from the kernel's completions to
      the events), \<open>Uring_Sender\<close>, \<open>Order_Link\<close> (\<^verbatim>\<open>io_uring_sender.cpp\<close>: what is on the wire, the resources of the
      connection), \<open>Frame_Receivers\<close>
      (\<^verbatim>\<open>af_xdp_receiver.cpp\<close>, \<^verbatim>\<open>dpdk_receiver.cpp\<close>: the two back ends against one specification), \<open>Market_Replay\<close> (the
      packing loop of \<^verbatim>\<open>benchmark/main.cpp\<close>, composed with the pipeline), \<open>Flow_Control\<close> (\<^verbatim>\<open>core/ipc/flow_control.h\<close>: the
      hand-shake of the two programs as steps).
    \<^item> Queues kept for several consumers: \<open>Broadcast_Queue\<close>, \<open>Shared_Ring\<close>, \<open>Queue_Manager\<close>
      (\<^verbatim>\<open>core/queue/spmc_event_queue.h\<close>, \<^verbatim>\<open>spmc_byte_ring.h\<close>, \<^verbatim>\<open>spmc_ring.h\<close>, \<^verbatim>\<open>queue_manager.h\<close>: order, wake-ups, round trips,
      typed access).
    \<^item> Start and end: \<open>Trader_Main\<close> (\<^verbatim>\<open>core/config.h\<close>, \<^verbatim>\<open>core/config_loader.cpp\<close>, \<open>main\<close>, \<open>make_receiver\<close> and the set-up and the
      monitor of \<open>run_strategies\<close>: what holds once the threads start, when a run ends), \<open>End_Of_Run\<close> (the stop sequence of
      the receive, parser and main threads: when it loses nothing, and that it can lose the last packet).
    \<^item> This theory composes them: packets on the wire to the books of the worker.

  \<^bold>\<open>How code becomes definitions.\<close> A class is a record, a method a function from the state to the new
  state and its result; fixed-width integers are words (\<open>u8\<close> \dots \<open>u64\<close>, \<open>i64\<close>), which wrap as in the
  program. Positions of rings, which only grow and would need centuries to wrap at 64 bits, are natural
  numbers. A null pointer or a failed call is \<open>None\<close>; a pointer into an array is its index. Threads that
  share state are step relations or schedules with a step per access to a shared variable
  (\<open>Treiber_Stack\<close>, \<open>Channel\<close>, \<open>Dispatcher\<close>, \<open>Broadcast_Queue\<close>, \<open>Flow_Control\<close>, \<open>End_Of_Run\<close>); memory is sequentially consistent. Virtual calls (codec,
  sender), the kernel, the drivers, the YAML library and the wire are arguments; a \<open>double\<close> is a rational number
  that every operation rounds to 53 bits.

  \<^bold>\<open>Interfaces\<close> are locales, interpreted on the models: \<open>slot_pool\<close>, \<open>order_index\<close>, \<open>price_levels\<close>,
  \<open>order_codec\<close>, \<open>channel\<close>, \<open>order_rep\<close> and \<open>order_tracker\<close>. The last is used twice: for books whose price
  levels are exact (\<open>regular\<close> operations) and for the orders alone, in any feed.

  \<^bold>\<open>Bounds and fuel.\<close> A chain of the index is walked with the number of nodes as fuel, which bounds its
  length; a probe of the price table with its capacity; \<open>round_pow2\<close> with 64 doublings. The loop of the
  ring parser is a partial function, shown to return. A byte ring has at least 420 bytes (two messages of
  the largest size), which excludes the dead lock of a message that never fits. Capacities are below
  \<open>2 ^ 32\<close>, the program's sentinel. The number of orders a run puts into the index is bounded by its
  nodes, since a bucket that moves to the overflow map keeps its nodes for good.

  \<^bold>\<open>What the code does not keep.\<close> Some theorems show behaviour that is not meant: an order executed to its
  end leaves a phantom price level (\<open>full_execution_leaves_phantom_level\<close>), the flag of the retry bucket does
  not keep the order of events (\<open>flag_race_reorders\<close>), a fill during a cancel is lost to the order but not
  to the position (\<open>fill_during_cancel_diverges\<close>), the ring parser can skip a message
  (\<open>parser_race_skips_message\<close>), a rejected order silences a direction (\<open>rejected_order_silences\<close>).
  In the network code a message that meets the gap at the end of the send ring is not delivered
  (\<open>sender_sends_gap\<close>), a notification is taken for the result of the next send
  (\<open>notifications_taken_for_results\<close>), a receiver is deaf after \<open>EAGAIN\<close> or a restart (\<open>recv_deaf_after_eagain\<close>,
  \<open>restarted_receiver_deaf\<close>), a payload is copied from a frame given back (\<open>payload_copied_after_release\<close>), one lost
  packet blocks both programs (\<open>lost_packet_deadlocks\<close>), a truncated file is replayed for ever
  (\<open>replay_never_ends\<close>), and queues overwrite unread data (\<open>shared_cache_overwrites\<close>, \<open>tick_push_overwrites\<close>).
  One empty datagram ends the receive thread (\<open>empty_datagram_ends_receiving\<close>), and the end of a run can lose its last
  packet (\<open>last_packet_lost\<close>).

  \<^bold>\<open>Not modelled.\<close> What system calls and drivers do beyond the results the code looks at, threads' CPU
  affinity, eventfd beyond its counter, the exponent range of \<open>double\<close>, console output, the command line of
  the benchmark and the sockets of its exchange, the tracing probes (empty functions), and headers that only
  declare.
\<close>

section \<open>From the network to the book\<close>

text \<open>What reaches the books of a worker that handles every locate.\<close>

lemma worker_consumes:
  assumes net: "is_pow2 cap" "420 \<le> cap" "list_all itch_packet_ok ps"
      "map msg_frame ms = fst (mold_feed (concat (map itch_packet_wire ps)))"
    and parsed: "chan_steps push_step pass_step (ms, new_ring cap, []) (ms', r, fed)" "\<nexists>c. chan_step push_step pass_step (ms', r, fed) c"
    and lane: "is_pow2 a" "is_pow2 b" "quiet_run ts (new_lane a b (feed_events new_itch_parser fed))"
      "l = lane_run ts (new_lane a b (feed_events new_itch_parser fed))"
      "er_list (ln_spsc l) = []" "in_bucket l = []" "in_parser l = []" "ln_todo l = []"
  shows "bw_obc (fst (worker_run w sh (ln_done l))) = foldl consumer_on_event (bw_obc w) (concat (map itch_packet_events ps))"
proof -
  have "feed_events new_itch_parser fed = concat (map itch_packet_events ps)"
    using market_data_end_to_end_parts(2) [OF net parsed] by simp
  then have "ln_done l = concat (map itch_packet_events ps)"
    using lane_keeps_order_parts(1) [OF lane(1-4)] lane(5-8) by simp
  then show ?thesis by (simp add: worker_run_obc)
qed


text \<open>One packet with one add of 50 shares at 100, and one in which the order is also executed.\<close>

definition demo_packets :: "itch_packet list" where
  "demo_packets = [(replicate 10 0, 1, [MAdd 7 0 5 9 False 50 (replicate 8 0x20) 10000 []])]"

definition filled_packets :: "itch_packet list" where
  "filled_packets = [(replicate 10 0, 1, [MAdd 7 0 5 9 False 50 (replicate 8 0x20) 10000 [], MExecute 7 0 6 9 50 (replicate 8 0)])]"

definition demo_lane :: "itch_packet list \<Rightarrow> lane" where
  "demo_lane ps = lane_run [Parser, Parser, Worker, Parser, Parser, Worker] (new_lane 1 1 (concat (map itch_packet_events ps)))"

definition demo_shared :: shared where
  "demo_shared = \<lparr>sh_engine = new_engine, sh_trade_count = 0, sh_book_events = 0\<rparr>"

definition demo_end :: "itch_packet list \<Rightarrow> order_book" where
  "demo_end ps = book_for (bw_obc (fst (worker_run (new_worker (new_consumer (new_pool 4) (new_order_map 4)) []) demo_shared
     (ln_done (demo_lane ps))))) 7"




end
